(* ===== verification/Pintos_Prelude.thy ===== *)
theory Pintos_Prelude
  imports Main "HOL-Library.Word" "HOL-Library.Monad_Syntax"
begin

text \<open>
  Shared vocabulary of the development: the machine types of the 32-bit x86 kernel, the
  kernel's assertion mechanism (\<^verbatim>\<open>lib/debug.h\<close>), the rounding macros of
  \<^verbatim>\<open>lib/round.h\<close>, C integer division, and the generic lemmas and theorem collections the
  component theories rely on.

  A kernel routine that can fail an \<^verbatim>\<open>ASSERT\<close>, reach \<^verbatim>\<open>PANIC\<close> or loop for ever is
  modelled with a result of type \<open>'a option\<close>: \<open>Some r\<close> is a return with result \<open>r\<close>,
  \<open>None\<close> means that control never comes back to the caller (\<^verbatim>\<open>debug_panic\<close> is declared
  \<^verbatim>\<open>NO_RETURN\<close>). Statements of the form \<open>f x = Some r\<close> are therefore total correctness
  statements.
\<close>

section \<open>Machine types\<close>

type_synonym byte = "8 word"
type_synonym u32 = "32 word"
type_synonym u64 = "64 word"

text \<open>Kernel virtual addresses and the null pointer.\<close>

type_synonym addr = "32 word"

abbreviation NULL :: addr where
  "NULL \<equiv> 0"

section \<open>Assertions\<close>

definition ASSERT :: "bool \<Rightarrow> unit option" where
  "ASSERT c = (if c then Some () else None)"

section \<open>Loops\<close>

text \<open>
  \<^verbatim>\<open>for (j = i; j < n; j++) BODY\<close>: a counting loop whose body updates a state and may fail, and
  the loop that stops at the first index at which a test holds.
\<close>

function for_upto :: "nat \<Rightarrow> nat \<Rightarrow> (nat \<Rightarrow> 's \<Rightarrow> 's option) \<Rightarrow> 's \<Rightarrow> 's option" where
  "for_upto i n body s =
     (if i < n then case body i s of None \<Rightarrow> None | Some s' \<Rightarrow> for_upto (i + 1) n body s' else Some s)"
  by pat_completeness auto
termination by (relation "measure (\<lambda>(i, n, _). n - i)") auto

function find_upto :: "nat \<Rightarrow> nat \<Rightarrow> (nat \<Rightarrow> bool option) \<Rightarrow> nat option option" where
  "find_upto i n test =
     (if i < n then
        case test i of
          None \<Rightarrow> None
        | Some b \<Rightarrow> if b then Some (Some i) else find_upto (i + 1) n test
      else Some None)"
  by pat_completeness auto
termination by (relation "measure (\<lambda>(i, n, _). n - i)") auto

declare for_upto.simps [simp del] find_upto.simps [simp del]

section \<open>Rounding macros and C division\<close>

text \<open>
  The macros of \<^verbatim>\<open>lib/round.h\<close> at their use on 32-bit operands: the sum that rounds up wraps
  around.
\<close>

definition ROUND_UP :: "nat \<Rightarrow> nat \<Rightarrow> nat" where
  "ROUND_UP x step = (x + step - 1) mod 2 ^ 32 div step * step"

definition DIV_ROUND_UP :: "nat \<Rightarrow> nat \<Rightarrow> nat" where
  "DIV_ROUND_UP x step = (x + step - 1) mod 2 ^ 32 div step"

definition ROUND_DOWN :: "nat \<Rightarrow> nat \<Rightarrow> nat" where
  "ROUND_DOWN x step = x div step * step"

text \<open>C's \<^verbatim>\<open>/\<close> and \<^verbatim>\<open>%\<close> on signed integers truncate towards zero.\<close>

definition c_div :: "int \<Rightarrow> int \<Rightarrow> int" where
  "c_div a b = sgn a * sgn b * (\<bar>a\<bar> div \<bar>b\<bar>)"

definition c_mod :: "int \<Rightarrow> int \<Rightarrow> int" where
  "c_mod a b = a - b * c_div a b"

text \<open>Conversion of a mathematical integer to the signed 32- and 64-bit types, with wrap-around.\<close>

definition int32 :: "int \<Rightarrow> int" where
  "int32 x = sint (word_of_int x :: 32 word)"

definition int64 :: "int \<Rightarrow> int" where
  "int64 x = sint (word_of_int x :: 64 word)"

section \<open>Little-endian words\<close>

unbundle bit_operations_syntax

text \<open>The bytes of a 32-bit integer in memory and on disk.\<close>

definition le32 :: "u32 \<Rightarrow> byte list" where
  "le32 w = [ucast w, ucast (drop_bit 8 w), ucast (drop_bit 16 w), ucast (drop_bit 24 w)]"

definition of_le32 :: "byte list \<Rightarrow> u32" where
  "of_le32 bs = ucast (bs ! 0) OR push_bit 8 (ucast (bs ! 1)) OR push_bit 16 (ucast (bs ! 2)) OR push_bit 24 (ucast (bs ! 3))"

section \<open>Collections of facts\<close>

named_theorems returns \<open>facts of the form: a kernel routine returns\<close>
named_theorems kernel_defs \<open>unfolding rules of straight-line kernel routines\<close>

section \<open>Lemmas on assertions and the option monad\<close>

lemma ASSERT_simps [simp]:
  "ASSERT True = Some ()"
  "ASSERT False = None"
  by (simp_all add: ASSERT_def)

lemma ASSERT_eq_Some [simp]: "ASSERT c = Some u \<longleftrightarrow> c"
  by (simp add: ASSERT_def)

lemma ASSERT_eq_None [simp]: "ASSERT c = None \<longleftrightarrow> \<not> c"
  by (simp add: ASSERT_def)

lemma bind_ASSERT: "Option.bind (ASSERT c) f = (if c then f () else None)"
  by (simp add: ASSERT_def)

lemma bind_ASSERT_eq_Some [simp]:
  "Option.bind (ASSERT c) f = Some r \<longleftrightarrow> c \<and> f () = Some r"
  by (simp add: bind_ASSERT)

section \<open>Lemmas on loops\<close>

lemma for_upto_stop [simp]: "n \<le> i \<Longrightarrow> for_upto i n body s = Some s"
  by (subst for_upto.simps) simp

lemma find_upto_stop [simp]: "n \<le> i \<Longrightarrow> find_upto i n test = Some None"
  by (subst find_upto.simps) simp

text \<open>The invariant rule of the counting loop, total correctness.\<close>

lemma for_upto_rule:
  assumes "i \<le> n" and "I i s"
    and "\<And>j s. i \<le> j \<Longrightarrow> j < n \<Longrightarrow> I j s \<Longrightarrow> \<exists>s'. body j s = Some s' \<and> I (Suc j) s'"
  shows "\<exists>s'. for_upto i n body s = Some s' \<and> I n s'"
  using assms
proof (induction i n body s rule: for_upto.induct)
  case (1 i n body s)
  show ?case
  proof (cases "i < n")
    case True
    then obtain s' where s': "body i s = Some s'" "I (Suc i) s'" using 1(3,4) by blast
    then show ?thesis using 1 True by (subst for_upto.simps) simp
  next
    case False
    then show ?thesis using 1(2,3) by simp
  qed
qed

lemma for_upto_states:
  assumes "i \<le> n" and "\<And>j. i \<le> j \<Longrightarrow> j < n \<Longrightarrow> body j (t j) = Some (t (Suc j))"
  shows "for_upto i n body (t i) = Some (t n)"
  using for_upto_rule [of i n "\<lambda>j s. s = t j" "t i" body] assms by auto

lemma for_upto_fail:
  assumes "i \<le> k" and "k < n" and "I i s"
    and "\<And>j s. i \<le> j \<Longrightarrow> j < k \<Longrightarrow> I j s \<Longrightarrow> \<exists>s'. body j s = Some s' \<and> I (Suc j) s'"
    and "\<And>s. I k s \<Longrightarrow> body k s = None"
  shows "for_upto i n body s = None"
  using assms
proof (induction i n body s rule: for_upto.induct)
  case (1 i n body s)
  show ?case
  proof (cases "i = k")
    case True
    then show ?thesis using 1 by (subst for_upto.simps) simp
  next
    case False
    then have "i < k" using 1(2) by simp
    then obtain s' where s': "body i s = Some s'" "I (Suc i) s'" using 1(4,5) by blast
    then show ?thesis using 1 \<open>i < k\<close> by (subst for_upto.simps) simp
  qed
qed

lemma find_upto_total:
  assumes "\<And>j. i \<le> j \<Longrightarrow> j < n \<Longrightarrow> test j = Some (P j)"
  shows "(find_upto i n test = Some None \<and> (\<forall>j. i \<le> j \<and> j < n \<longrightarrow> \<not> P j)) \<or>
    (\<exists>k. find_upto i n test = Some (Some k) \<and> i \<le> k \<and> k < n \<and> P k \<and> (\<forall>j. i \<le> j \<and> j < k \<longrightarrow> \<not> P j))"
  using assms
proof (induction i n test rule: find_upto.induct)
  case (1 i n test)
  consider "n \<le> i" | "i < n" "P i" | "i < n" "\<not> P i" by fastforce
  then show ?case
  proof cases
    case 3
    then have "find_upto i n test = find_upto (i + 1) n test"
      using 1(2) by (subst find_upto.simps) simp
    moreover have "j = i \<or> i + 1 \<le> j" if "i \<le> j" for j using that by auto
    ultimately show ?thesis using 1 3 by (smt (verit) Suc_eq_plus1 Suc_leD le_refl)
  qed (use 1(2) in \<open>auto simp: find_upto.simps [of i n]\<close>)
qed

lemma find_upto_cases:
  assumes "\<And>j. i \<le> j \<Longrightarrow> j < n \<Longrightarrow> test j = Some (P j)"
  obtains "find_upto i n test = Some None" "\<And>j. i \<le> j \<Longrightarrow> j < n \<Longrightarrow> \<not> P j"
  | k where "find_upto i n test = Some (Some k)" "i \<le> k" "k < n" "P k" "\<And>j. i \<le> j \<Longrightarrow> j < k \<Longrightarrow> \<not> P j"
  using find_upto_total [of i n test P, OF assms] by blast

section \<open>Lemmas on rounding\<close>

lemma DIV_ROUND_UP_bounds:
  assumes "0 < step" and "x + step \<le> 2 ^ 32"
  shows "x \<le> DIV_ROUND_UP x step * step \<and> DIV_ROUND_UP x step * step < x + step"
proof -
  have "DIV_ROUND_UP x step * step = x + step - 1 - (x + step - 1) mod step"
    using assms by (simp add: DIV_ROUND_UP_def minus_mod_eq_div_mult)
  moreover have "(x + step - 1) mod step < step"
    using assms by simp
  ultimately show ?thesis using assms(1) by linarith
qed

lemma DIV_ROUND_UP_least:
  assumes "0 < step" and "x + step \<le> 2 ^ 32" and "x \<le> k * step"
  shows "DIV_ROUND_UP x step \<le> k"
proof (rule ccontr)
  assume "\<not> ?thesis"
  then have "k + 1 \<le> DIV_ROUND_UP x step" by simp
  then have "(k + 1) * step \<le> DIV_ROUND_UP x step * step" by (rule mult_le_mono1)
  with DIV_ROUND_UP_bounds [OF assms(1,2)] assms(3) show False by simp
qed

lemma DIV_ROUND_UP_less_iff:
  assumes "0 < step" and "x + step \<le> 2 ^ 32"
  shows "i < DIV_ROUND_UP x step \<longleftrightarrow> i * step < x"
proof
  assume "i < DIV_ROUND_UP x step"
  show "i * step < x"
  proof (rule ccontr)
    assume "\<not> i * step < x"
    then have "DIV_ROUND_UP x step \<le> i" using DIV_ROUND_UP_least [OF assms] by simp
    with \<open>i < DIV_ROUND_UP x step\<close> show False by simp
  qed
next
  assume "i * step < x"
  also have "x \<le> DIV_ROUND_UP x step * step" using DIV_ROUND_UP_bounds [OF assms] by simp
  finally show "i < DIV_ROUND_UP x step" by simp
qed

section \<open>Lemmas on lists\<close>

lemma hd_append_Cons: "hd (xs @ x # ys) = (if xs = [] then x else hd xs)"
  by (cases xs) auto

lemma in_set_tlD: "x \<in> set (tl xs) \<Longrightarrow> x \<in> set xs"
  by (cases xs) auto

lemma distinct_split_eq:
  assumes "distinct (xs @ x # ys)" and "xs @ x # ys = us @ x # vs"
  shows "us = xs \<and> vs = ys"
proof -
  have "x \<notin> set xs" "x \<notin> set ys" using assms(1) by auto
  from append_Cons_eq_iff [OF this] assms(2) show ?thesis by auto
qed

section \<open>Lemmas on words\<close>

lemma unat_add_no_wrap:
  fixes a b :: "'a::len word"
  assumes "unat a + unat b < 2 ^ LENGTH('a)"
  shows "unat (a + b) = unat a + unat b"
  using assms by (simp add: unat_word_ariths)

lemma unat_of_nat_small:
  assumes "n < 2 ^ LENGTH('a::len)"
  shows "unat (of_nat n :: 'a word) = n"
  using assms by (simp add: unat_of_nat take_bit_eq_mod)

lemma and_nat_le: "m AND n \<le> (n :: nat)"
proof (induction n arbitrary: m rule: less_induct)
  case (less n)
  show ?case
  proof (cases "n = 0")
    case False
    then have "m div 2 AND n div 2 \<le> n div 2" by (intro less.IH) simp
    moreover have "m AND n = of_bool (odd m \<and> odd n) + 2 * (m div 2 AND n div 2)" by (rule and_rec)
    moreover have "of_bool (odd m \<and> odd n) + 2 * (n div 2) \<le> n"
      using div_mult_mod_eq [of n 2] by (cases "odd n") (auto simp: odd_iff_mod_2_eq_one)
    ultimately show ?thesis by linarith
  qed simp
qed

lemma unat_less_exp32: "unat (w :: 32 word) < 2 ^ 32"
  using unsigned_less [of w, where ?'a = nat] by simp

lemma unat_less_exp64: "unat (w :: 64 word) < 2 ^ 64"
  using unsigned_less [of w, where ?'a = nat] by simp

lemma unat_push_bit_small:
  fixes x :: "'a::len word"
  assumes "unat x * 2 ^ k < 2 ^ LENGTH('a)"
  shows "unat (push_bit k x) = unat x * 2 ^ k"
  using assms unfolding unsigned_push_bit_eq by (simp add: push_bit_eq_mult take_bit_eq_mod)

lemma unat_drop_bit: "unat (drop_bit k x) = unat x div 2 ^ k"
  unfolding unsigned_drop_bit_eq by (simp add: drop_bit_eq_div take_bit_nat_eq_self unsigned_less)

lemma unat_ucast: "unat (ucast (x :: 'a::len word) :: 'b::len word) = unat x mod 2 ^ LENGTH('b)"
  by (simp add: unsigned_ucast_eq take_bit_eq_mod)

lemma sint_bounds64: "- (2 ^ 63) \<le> sint (w :: 64 word) \<and> sint w < 2 ^ 63"
  using sint_ge [of w] sint_lt [of w] by simp

lemma sint_bounds32: "- (2 ^ 31) \<le> sint (w :: 32 word) \<and> sint w < 2 ^ 31"
  using sint_ge [of w] sint_lt [of w] by simp

lemma word_of_int_sint: "word_of_int (sint w) = w"
  by simp

lemma sint_of_int_small:
  assumes "- (2 ^ (LENGTH('a) - 1)) \<le> x" and "x < 2 ^ (LENGTH('a) - 1)"
  shows "sint (word_of_int x :: 'a::len word) = x"
  using assms by (simp add: sint_sbintrunc' signed_take_bit_int_eq_self)

lemma length_le32 [simp]: "length (le32 w) = 4"
  by (simp add: le32_def)

lemma of_le32_le32 [simp]: "of_le32 (le32 w) = w"
proof (rule bit_word_eqI)
  fix n assume "n < LENGTH(32)"
  then have "n < 8 \<or> 8 \<le> n \<and> n < 16 \<or> 16 \<le> n \<and> n < 24 \<or> 24 \<le> n \<and> n < 32" by auto
  then show "bit (of_le32 (le32 w)) n = bit w n" by (elim disjE conjE) (simp_all add: of_le32_def le32_def bit_simps, auto)
qed

lemma le32_of_le32: "length bs = 4 \<Longrightarrow> le32 (of_le32 bs) = bs"
proof -
  assume "length bs = 4"
  then obtain a b c d where bs: "bs = [a, b, c, d]" by (auto simp: eval_nat_numeral length_Suc_conv)
  have "\<not> bit w k" if "8 \<le> k" for w :: byte and k using bit_imp_le_length [of w k] that by auto
  then show ?thesis unfolding bs le32_def of_le32_def by (auto intro!: bit_word_eqI simp: bit_simps)
qed

end
