(* ===== verification/Kernel_Bitmap.thy ===== *)
theory Kernel_Bitmap
  imports Pintos_Prelude
begin

text \<open>
  Bitmaps, \<^verbatim>\<open>lib/kernel/bitmap.c\<close>.  A bitmap is an array of 32-bit elements that simulates an array
  of bits; \<^verbatim>\<open>size_t\<close> values are natural numbers below \<open>2 ^ 32\<close>, and the sums the code forms wrap
  around.  An argument of type \<open>bitmap\<close> stands for a non-null pointer and the element array behind it;
  an access outside that array is undefined in C and gives \<open>None\<close>, as a failed assertion does.

  The abstraction \<open>bitmap_bits\<close> is the list of the bits.  Every routine is shown to compute, on that
  list, what its comment promises; \<open>bitmap_scan_and_flip\<close> and \<open>bitmap_set_multiple\<close> implement the
  allocator contract \<open>run_allocator\<close>, which the page allocator and the free map of the file system
  rely on.  The transfer of a bitmap to and from its file is in the theory of the free map.
\<close>

unbundle bit_operations_syntax

section \<open>The routines\<close>

record bitmap =
  bit_cnt :: nat
  bits :: "u32 list"

definition ELEM_BITS :: nat where
  "ELEM_BITS = 32"

definition BITMAP_ERROR :: nat where
  "BITMAP_ERROR = 2 ^ 32 - 1"

definition elem_idx :: "nat \<Rightarrow> nat" where
  "elem_idx bit_idx = bit_idx div ELEM_BITS"

definition bit_mask :: "nat \<Rightarrow> u32" where
  "bit_mask bit_idx = push_bit (bit_idx mod ELEM_BITS) 1"

definition elem_cnt :: "nat \<Rightarrow> nat" where
  "elem_cnt n = DIV_ROUND_UP n ELEM_BITS"

definition byte_cnt :: "nat \<Rightarrow> nat" where
  "byte_cnt n = 4 * elem_cnt n"

definition last_mask :: "bitmap \<Rightarrow> u32" where
  "last_mask b =
     (let last_bits = bit_cnt b mod ELEM_BITS in
      if last_bits \<noteq> 0 then push_bit last_bits 1 - 1 else - 1)"

definition bitmap_size :: "bitmap \<Rightarrow> nat" where
  "bitmap_size b = bit_cnt b"

text \<open>The read-modify-write of one element that \<^verbatim>\<open>orl\<close>, \<^verbatim>\<open>andl\<close> and \<^verbatim>\<open>xorl\<close> perform.\<close>

definition update_elem :: "bitmap \<Rightarrow> nat \<Rightarrow> (u32 \<Rightarrow> u32) \<Rightarrow> bitmap option" where
  "update_elem b idx f =
     (if idx < length (bits b) then Some (b\<lparr>bits := (bits b)[idx := f (bits b ! idx)]\<rparr>) else None)"

definition bitmap_mark :: "bitmap \<Rightarrow> nat \<Rightarrow> bitmap option" where
  "bitmap_mark b bit_idx =
     (let idx = elem_idx bit_idx; mask = bit_mask bit_idx in update_elem b idx (\<lambda>e. e OR mask))"

definition bitmap_reset :: "bitmap \<Rightarrow> nat \<Rightarrow> bitmap option" where
  "bitmap_reset b bit_idx =
     (let idx = elem_idx bit_idx; mask = bit_mask bit_idx in update_elem b idx (\<lambda>e. e AND NOT mask))"

definition bitmap_flip :: "bitmap \<Rightarrow> nat \<Rightarrow> bitmap option" where
  "bitmap_flip b bit_idx =
     (let idx = elem_idx bit_idx; mask = bit_mask bit_idx in update_elem b idx (\<lambda>e. e XOR mask))"

definition bitmap_set :: "bitmap \<Rightarrow> nat \<Rightarrow> bool \<Rightarrow> bitmap option" where
  "bitmap_set b idx v = do {
     ASSERT (idx < bit_cnt b);
     if v then bitmap_mark b idx else bitmap_reset b idx
   }"

definition bitmap_test :: "bitmap \<Rightarrow> nat \<Rightarrow> bool option" where
  "bitmap_test b idx = do {
     ASSERT (idx < bit_cnt b);
     if elem_idx idx < length (bits b) then Some (bits b ! elem_idx idx AND bit_mask idx \<noteq> 0) else None
   }"

definition bitmap_set_multiple :: "bitmap \<Rightarrow> nat \<Rightarrow> nat \<Rightarrow> bool \<Rightarrow> bitmap option" where
  "bitmap_set_multiple b start cnt v = do {
     ASSERT (start \<le> bit_cnt b);
     ASSERT ((start + cnt) mod 2 ^ 32 \<le> bit_cnt b);
     for_upto 0 cnt (\<lambda>i b. bitmap_set b ((start + i) mod 2 ^ 32) v) b
   }"

definition bitmap_set_all :: "bitmap \<Rightarrow> bool \<Rightarrow> bitmap option" where
  "bitmap_set_all b v = bitmap_set_multiple b 0 (bitmap_size b) v"

definition bitmap_count :: "bitmap \<Rightarrow> nat \<Rightarrow> nat \<Rightarrow> bool \<Rightarrow> nat option" where
  "bitmap_count b start cnt v = do {
     ASSERT (start \<le> bit_cnt b);
     ASSERT ((start + cnt) mod 2 ^ 32 \<le> bit_cnt b);
     for_upto 0 cnt
       (\<lambda>i value_cnt. do {
          t \<leftarrow> bitmap_test b ((start + i) mod 2 ^ 32);
          Some (if t = v then value_cnt + 1 else value_cnt)
        }) 0
   }"

definition bitmap_contains :: "bitmap \<Rightarrow> nat \<Rightarrow> nat \<Rightarrow> bool \<Rightarrow> bool option" where
  "bitmap_contains b start cnt v = do {
     ASSERT (start \<le> bit_cnt b);
     ASSERT ((start + cnt) mod 2 ^ 32 \<le> bit_cnt b);
     r \<leftarrow> find_upto 0 cnt
       (\<lambda>i. do { t \<leftarrow> bitmap_test b ((start + i) mod 2 ^ 32); Some (t = v) });
     Some (r \<noteq> None)
   }"

definition bitmap_any :: "bitmap \<Rightarrow> nat \<Rightarrow> nat \<Rightarrow> bool option" where
  "bitmap_any b start cnt = bitmap_contains b start cnt True"

definition bitmap_none :: "bitmap \<Rightarrow> nat \<Rightarrow> nat \<Rightarrow> bool option" where
  "bitmap_none b start cnt = do { r \<leftarrow> bitmap_contains b start cnt True; Some (\<not> r) }"

definition bitmap_all :: "bitmap \<Rightarrow> nat \<Rightarrow> nat \<Rightarrow> bool option" where
  "bitmap_all b start cnt = do { r \<leftarrow> bitmap_contains b start cnt False; Some (\<not> r) }"

definition bitmap_scan :: "bitmap \<Rightarrow> nat \<Rightarrow> nat \<Rightarrow> bool \<Rightarrow> nat option" where
  "bitmap_scan b start cnt v = do {
     ASSERT (start \<le> bit_cnt b);
     if cnt \<le> bit_cnt b then do {
       let lastp = bit_cnt b - cnt;
       r \<leftarrow> find_upto start (lastp + 1)
         (\<lambda>i. do { c \<leftarrow> bitmap_contains b i cnt (\<not> v); Some (\<not> c) });
       Some (case r of Some i \<Rightarrow> i | None \<Rightarrow> BITMAP_ERROR)
     }
     else Some BITMAP_ERROR
   }"

definition bitmap_scan_and_flip :: "bitmap \<Rightarrow> nat \<Rightarrow> nat \<Rightarrow> bool \<Rightarrow> (nat \<times> bitmap) option" where
  "bitmap_scan_and_flip b start cnt v = do {
     idx \<leftarrow> bitmap_scan b start cnt v;
     if idx \<noteq> BITMAP_ERROR then do {
       b' \<leftarrow> bitmap_set_multiple b idx cnt (\<not> v);
       Some (idx, b')
     }
     else Some (idx, b)
   }"

text \<open>
  Creation.  \<open>hdr_ok\<close> says whether \<^verbatim>\<open>malloc (sizeof *b)\<close> succeeds, and \<open>blk\<close> is what
  \<^verbatim>\<open>malloc (byte_cnt (bit_cnt))\<close> returns: \<open>None\<close> for a null pointer, otherwise the words the fresh block
  happens to hold.  The result \<open>Some None\<close> is the null pointer.
\<close>

definition bitmap_create :: "bool \<Rightarrow> u32 list option \<Rightarrow> nat \<Rightarrow> bitmap option option" where
  "bitmap_create hdr_ok blk n =
     (if \<not> hdr_ok then Some None
      else
        case blk of
          Some ws \<Rightarrow> do {
            b \<leftarrow> bitmap_set_all \<lparr>bit_cnt = n, bits = ws\<rparr> False;
            Some (Some b)
          }
        | None \<Rightarrow>
            if n = 0 then do {
              b \<leftarrow> bitmap_set_all \<lparr>bit_cnt = n, bits = []\<rparr> False;
              Some (Some b)
            }
            else Some None)"

definition bitmap_buf_size :: "nat \<Rightarrow> nat" where
  "bitmap_buf_size n = 8 + byte_cnt n"

text \<open>
  \<^verbatim>\<open>bitmap_create_in_buf\<close>: \<open>block\<close> holds the words of the preallocated storage; the first two become
  the \<^verbatim>\<open>struct bitmap\<close>, the element array follows it.
\<close>

definition bitmap_create_in_buf :: "nat \<Rightarrow> u32 list \<Rightarrow> nat \<Rightarrow> bitmap option" where
  "bitmap_create_in_buf n block block_size = do {
     ASSERT (block_size \<ge> bitmap_buf_size n);
     bitmap_set_all \<lparr>bit_cnt = n, bits = take (elem_cnt n) (drop 2 block)\<rparr> False
   }"

section \<open>Abstraction: the list of bits\<close>

definition bitmap_bits :: "bitmap \<Rightarrow> bool list" where
  "bitmap_bits b = map (\<lambda>i. bit (bits b ! (i div 32)) (i mod 32)) [0..<bit_cnt b]"

text \<open>The element array has the size \<^verbatim>\<open>elem_cnt\<close> computes, and that computation did not wrap around.\<close>

definition bitmap_ok :: "bitmap \<Rightarrow> bool" where
  "bitmap_ok b \<longleftrightarrow> bit_cnt b + 32 \<le> 2 ^ 32 \<and> length (bits b) = elem_cnt (bit_cnt b)"

lemma length_bitmap_bits [simp]: "length (bitmap_bits b) = bit_cnt b"
  by (simp add: bitmap_bits_def)

lemma nth_bitmap_bits:
  "i < bit_cnt b \<Longrightarrow> bitmap_bits b ! i = bit (bits b ! (i div 32)) (i mod 32)"
  by (simp add: bitmap_bits_def)

lemma bitmap_ok_less: "bitmap_ok b \<Longrightarrow> n \<le> bit_cnt b \<Longrightarrow> n < 2 ^ 32"
  by (simp add: bitmap_ok_def)

lemma elem_idx_in_range:
  assumes "bitmap_ok b" and "i < bit_cnt b"
  shows "elem_idx i < length (bits b)"
proof -
  have "i div 32 * 32 < bit_cnt b" using assms(2) by (meson div_times_less_eq_dividend le_less_trans)
  then show ?thesis
    using assms(1) DIV_ROUND_UP_less_iff [of 32 "bit_cnt b" "i div 32"]
    by (simp add: bitmap_ok_def elem_idx_def elem_cnt_def ELEM_BITS_def)
qed

lemma bit_bit_mask [simp]: "bit (bit_mask i) k \<longleftrightarrow> k = i mod 32"
proof -
  have "i mod 32 < 32" by simp
  then show ?thesis
    by (auto simp: bit_mask_def ELEM_BITS_def bit_simps)
qed

lemma and_bit_mask: "w AND bit_mask i \<noteq> 0 \<longleftrightarrow> bit w (i mod 32)"
  using bit_eq_iff [of "w AND bit_mask i" 0] by (auto simp: bit_and_iff)

text \<open>One element update changes exactly the bit it is meant for.\<close>

lemma update_elem_refine:
  assumes "bitmap_ok b" and "i < bit_cnt b"
    and "\<And>e k. k < 32 \<Longrightarrow> bit (f e) k = (if k = i mod 32 then g (bit e k) else bit e k)"
  shows "\<exists>b'. update_elem b (elem_idx i) f = Some b' \<and> bitmap_ok b' \<and> bit_cnt b' = bit_cnt b \<and>
    bitmap_bits b' = (bitmap_bits b)[i := g (bitmap_bits b ! i)]"
proof (intro exI conjI)
  let ?b = "b\<lparr>bits := (bits b)[elem_idx i := f (bits b ! elem_idx i)]\<rparr>"
  note range = elem_idx_in_range [OF assms(1,2)]
  show "update_elem b (elem_idx i) f = Some ?b" using range by (simp add: update_elem_def)
  show "bitmap_ok ?b" using assms(1) by (simp add: bitmap_ok_def)
  show "bitmap_bits ?b = (bitmap_bits b)[i := g (bitmap_bits b ! i)]"
  proof (rule nth_equalityI)
    fix k assume "k < length (bitmap_bits ?b)"
    then have k: "k < bit_cnt b" by simp
    consider "k = i" | "k div 32 = i div 32" "k mod 32 \<noteq> i mod 32" "k \<noteq> i" | "k div 32 \<noteq> i div 32" "k \<noteq> i"
      by (metis div_mult_mod_eq)
    then show "bitmap_bits ?b ! k = (bitmap_bits b)[i := g (bitmap_bits b ! i)] ! k"
    proof cases
      case 1
      then show ?thesis
        using range assms(2) assms(3) [of "i mod 32"]
        by (simp add: nth_bitmap_bits elem_idx_def ELEM_BITS_def)
    next
      case 2
      then show ?thesis
        using range k assms(3) [of "k mod 32"] by (simp add: nth_bitmap_bits elem_idx_def ELEM_BITS_def)
    next
      case 3
      then show ?thesis
        using k by (simp add: nth_bitmap_bits elem_idx_def ELEM_BITS_def)
    qed
  qed simp
qed simp

lemma bitmap_mark_refine:
  assumes "bitmap_ok b" and "i < bit_cnt b"
  shows "\<exists>b'. bitmap_mark b i = Some b' \<and> bitmap_ok b' \<and> bit_cnt b' = bit_cnt b \<and>
    bitmap_bits b' = (bitmap_bits b)[i := True]"
  using update_elem_refine [OF assms, of "\<lambda>e. e OR bit_mask i" "\<lambda>_. True"]
  by (auto simp: bitmap_mark_def bit_or_iff)

lemma bitmap_reset_refine:
  assumes "bitmap_ok b" and "i < bit_cnt b"
  shows "\<exists>b'. bitmap_reset b i = Some b' \<and> bitmap_ok b' \<and> bit_cnt b' = bit_cnt b \<and>
    bitmap_bits b' = (bitmap_bits b)[i := False]"
  using update_elem_refine [OF assms, of "\<lambda>e. e AND NOT (bit_mask i)" "\<lambda>_. False"]
  by (auto simp: bitmap_reset_def bit_and_iff bit_not_iff)

lemma bitmap_flip_refine:
  assumes "bitmap_ok b" and "i < bit_cnt b"
  shows "\<exists>b'. bitmap_flip b i = Some b' \<and> bitmap_ok b' \<and> bit_cnt b' = bit_cnt b \<and>
    bitmap_bits b' = (bitmap_bits b)[i := \<not> bitmap_bits b ! i]"
  using update_elem_refine [OF assms, of "\<lambda>e. e XOR bit_mask i" Not]
  by (auto simp: bitmap_flip_def bit_xor_iff)

lemma bitmap_set_refine:
  assumes "bitmap_ok b" and "i < bit_cnt b"
  shows "\<exists>b'. bitmap_set b i v = Some b' \<and> bitmap_ok b' \<and> bit_cnt b' = bit_cnt b \<and>
    bitmap_bits b' = (bitmap_bits b)[i := v]"
  using bitmap_mark_refine [OF assms] bitmap_reset_refine [OF assms] assms(2)
  by (cases v) (auto simp: bitmap_set_def)

lemma bitmap_test_refine:
  assumes "bitmap_ok b"
  shows "bitmap_test b i = (if i < bit_cnt b then Some (bitmap_bits b ! i) else None)"
  using elem_idx_in_range [OF assms] and_bit_mask [of "bits b ! elem_idx i" i]
  by (auto simp: bitmap_test_def bind_ASSERT nth_bitmap_bits elem_idx_def ELEM_BITS_def)

section \<open>Runs of bits\<close>

definition set_run :: "bool list \<Rightarrow> nat \<Rightarrow> nat \<Rightarrow> bool \<Rightarrow> bool list" where
  "set_run xs start cnt v = take start xs @ replicate cnt v @ drop (start + cnt) xs"

definition has_run :: "bool list \<Rightarrow> nat \<Rightarrow> nat \<Rightarrow> bool \<Rightarrow> bool" where
  "has_run xs start cnt v \<longleftrightarrow>
     start + cnt \<le> length xs \<and> take cnt (drop start xs) = replicate cnt v"

lemma length_set_run [simp]: "start + cnt \<le> length xs \<Longrightarrow> length (set_run xs start cnt v) = length xs"
  by (simp add: set_run_def)

lemma nth_set_run:
  assumes "start + cnt \<le> length xs" and "k < length xs"
  shows "set_run xs start cnt v ! k = (if start \<le> k \<and> k < start + cnt then v else xs ! k)"
  using assms by (auto simp: set_run_def nth_append)

lemma set_run_Suc:
  assumes "start + cnt < length xs"
  shows "(set_run xs start cnt v)[start + cnt := v] = set_run xs start (Suc cnt) v"
  by (rule nth_equalityI) (use assms in \<open>auto simp: nth_set_run nth_list_update\<close>)

lemma has_run_iff_nth:
  "has_run xs start cnt v \<longleftrightarrow> start + cnt \<le> length xs \<and> (\<forall>i < cnt. xs ! (start + i) = v)"
  by (auto simp: has_run_def list_eq_iff_nth_eq)

lemma count_take_Suc:
  assumes "n < length xs"
  shows "length (filter P (take (Suc n) xs)) = length (filter P (take n xs)) + (if P (xs ! n) then 1 else 0)"
  using assms by (simp add: take_Suc_conv_app_nth)

lemma bitmap_set_multiple_refine:
  assumes "bitmap_ok b" and "start + cnt \<le> bit_cnt b"
  shows "\<exists>b'. bitmap_set_multiple b start cnt v = Some b' \<and> bitmap_ok b' \<and> bit_cnt b' = bit_cnt b \<and>
    bitmap_bits b' = set_run (bitmap_bits b) start cnt v"
proof -
  let ?I = "\<lambda>i b'. bitmap_ok b' \<and> bit_cnt b' = bit_cnt b \<and> bitmap_bits b' = set_run (bitmap_bits b) start i v"
  have "\<exists>b'. for_upto 0 cnt (\<lambda>i b. bitmap_set b ((start + i) mod 2 ^ 32) v) b = Some b' \<and> ?I cnt b'"
  proof (rule for_upto_rule)
    fix j b' assume j: "j < cnt" and I: "?I j b'"
    have "start + j < 2 ^ 32" using j assms(2) by (intro bitmap_ok_less [OF assms(1)]) simp
    then show "\<exists>b''. bitmap_set b' ((start + j) mod 2 ^ 32) v = Some b'' \<and> ?I (Suc j) b''"
      using bitmap_set_refine [of b' "start + j" v] I j assms(2) set_run_Suc [of start j "bitmap_bits b" v]
      by simp
  qed (use assms in \<open>simp_all add: set_run_def\<close>)
  moreover have "start + cnt < 2 ^ 32" by (rule bitmap_ok_less [OF assms])
  ultimately show ?thesis using assms(2) by (simp add: bitmap_set_multiple_def)
qed

text \<open>
  A range that does not fit is refused: even where \<^verbatim>\<open>start + cnt\<close> wraps around and slips through the
  second assertion, the loop runs into the assertion of \<^verbatim>\<open>bitmap_set\<close>.
\<close>

lemma bitmap_set_multiple_refused:
  assumes "bitmap_ok b" and "bit_cnt b < start + cnt"
  shows "bitmap_set_multiple b start cnt v = None"
proof (cases "start \<le> bit_cnt b")
  case True
  let ?I = "\<lambda>i b'. bitmap_ok b' \<and> bit_cnt b' = bit_cnt b"
  have "for_upto 0 cnt (\<lambda>i b. bitmap_set b ((start + i) mod 2 ^ 32) v) b = None"
  proof (rule for_upto_fail)
    fix j b' assume j: "j < bit_cnt b - start" and I: "?I j b'"
    then have "start + j < bit_cnt b'" by simp
    moreover have "start + j < 2 ^ 32" using j by (intro bitmap_ok_less [OF assms(1)]) simp
    ultimately show "\<exists>b''. bitmap_set b' ((start + j) mod 2 ^ 32) v = Some b'' \<and> ?I (Suc j) b''"
      using bitmap_set_refine [of b' "start + j" v] I by auto
  next
    fix b' assume "?I (bit_cnt b - start) b'"
    then show "bitmap_set b' ((start + (bit_cnt b - start)) mod 2 ^ 32) v = None"
      using True bitmap_ok_less [OF assms(1)] by (simp add: bitmap_set_def)
  qed (use assms True in auto)
  then show ?thesis by (simp add: bitmap_set_multiple_def bind_ASSERT)
qed (simp add: bitmap_set_multiple_def)

lemma bitmap_count_refine:
  assumes "bitmap_ok b" and "start + cnt \<le> bit_cnt b"
  shows "bitmap_count b start cnt v =
    Some (length (filter (\<lambda>x. x = v) (take cnt (drop start (bitmap_bits b)))))"
proof -
  let ?I = "\<lambda>i n. n = length (filter (\<lambda>x. x = v) (take i (drop start (bitmap_bits b))))"
  have "\<exists>n. for_upto 0 cnt
       (\<lambda>i value_cnt. do {
          t \<leftarrow> bitmap_test b ((start + i) mod 2 ^ 32);
          Some (if t = v then value_cnt + 1 else value_cnt)
        }) 0 = Some n \<and> ?I cnt n"
  proof (rule for_upto_rule)
    fix j n assume j: "j < cnt" and I: "?I j n"
    have "start + j < 2 ^ 32" using j assms(2) by (intro bitmap_ok_less [OF assms(1)]) simp
    then show "\<exists>n'. do {
          t \<leftarrow> bitmap_test b ((start + j) mod 2 ^ 32);
          Some (if t = v then n + 1 else n)
        } = Some n' \<and> ?I (Suc j) n'"
      using I j assms count_take_Suc [of j "drop start (bitmap_bits b)" "\<lambda>x. x = v"]
      by (simp add: bitmap_test_refine)
  qed simp_all
  moreover have "start + cnt < 2 ^ 32" by (rule bitmap_ok_less [OF assms])
  ultimately show ?thesis using assms(2) by (auto simp: bitmap_count_def)
qed

lemma bitmap_contains_refine:
  assumes "bitmap_ok b" and "start + cnt \<le> bit_cnt b"
  shows "bitmap_contains b start cnt v = Some (\<not> has_run (bitmap_bits b) start cnt (\<not> v))"
proof -
  have small: "start + cnt < 2 ^ 32" by (rule bitmap_ok_less [OF assms])
  let ?t = "\<lambda>i. do { t \<leftarrow> bitmap_test b ((start + i) mod 2 ^ 32); Some (t = v) }"
  have test: "?t j = Some (bitmap_bits b ! (start + j) = v)" if "0 \<le> j" "j < cnt" for j
    using that assms small by (simp add: bitmap_test_refine)
  show ?thesis
    by (rule find_upto_cases [OF test, of 0 cnt "\<lambda>j. j"])
      (use assms small in \<open>auto simp: bitmap_contains_def has_run_iff_nth\<close>)
qed

lemma bitmap_scan_refine:
  assumes "bitmap_ok b" and "start \<le> bit_cnt b"
  obtains "bitmap_scan b start cnt v = Some BITMAP_ERROR"
    "\<And>j. start \<le> j \<Longrightarrow> \<not> has_run (bitmap_bits b) j cnt v"
  | i where "bitmap_scan b start cnt v = Some i" "i \<noteq> BITMAP_ERROR" "start \<le> i"
    "has_run (bitmap_bits b) i cnt v" "\<And>j. start \<le> j \<Longrightarrow> j < i \<Longrightarrow> \<not> has_run (bitmap_bits b) j cnt v"
proof (cases "cnt \<le> bit_cnt b")
  case True
  let ?t = "\<lambda>i. do { c \<leftarrow> bitmap_contains b i cnt (\<not> v); Some (\<not> c) }"
  have test: "?t j = Some (has_run (bitmap_bits b) j cnt v)" if "start \<le> j" "j < bit_cnt b - cnt + 1" for j
    using that True assms(1) by (simp add: bitmap_contains_refine)
  show ?thesis
  proof (rule find_upto_cases [OF test])
    assume found: "find_upto start (bit_cnt b - cnt + 1) ?t = Some None"
      and none: "\<And>j. start \<le> j \<Longrightarrow> j < bit_cnt b - cnt + 1 \<Longrightarrow> \<not> has_run (bitmap_bits b) j cnt v"
    have "\<not> has_run (bitmap_bits b) j cnt v" if "start \<le> j" for j
      using none [OF that] by (cases "j < bit_cnt b - cnt + 1") (auto simp: has_run_def)
    then show thesis using that(1) found True assms(2) by (simp add: bitmap_scan_def)
  next
    fix k assume found: "find_upto start (bit_cnt b - cnt + 1) ?t = Some (Some k)"
      and k: "start \<le> k" "k < bit_cnt b - cnt + 1" "has_run (bitmap_bits b) k cnt v"
        "\<And>j. start \<le> j \<Longrightarrow> j < k \<Longrightarrow> \<not> has_run (bitmap_bits b) j cnt v"
    have "bit_cnt b < BITMAP_ERROR" using assms(1) by (simp add: bitmap_ok_def BITMAP_ERROR_def)
    then have "k \<noteq> BITMAP_ERROR" using k(2) by linarith
    with k show thesis using that(2) [of k] found True assms(2) by (simp add: bitmap_scan_def)
  qed
next
  case False
  then show ?thesis using that(1) assms(2) by (simp add: bitmap_scan_def has_run_def)
qed

lemma bitmap_set_all_refine:
  assumes "bitmap_ok b"
  shows "\<exists>b'. bitmap_set_all b v = Some b' \<and> bitmap_ok b' \<and> bit_cnt b' = bit_cnt b \<and>
    bitmap_bits b' = replicate (bit_cnt b) v"
  using bitmap_set_multiple_refine [OF assms, of 0 "bit_cnt b" v]
  by (simp add: bitmap_set_all_def bitmap_size_def set_run_def)

lemma bitmap_create_refine:
  assumes "n + 32 \<le> 2 ^ 32" and "length ws = elem_cnt n"
  shows "\<exists>b. bitmap_create True (Some ws) n = Some (Some b) \<and> bitmap_ok b \<and>
    bitmap_bits b = replicate n False"
  using bitmap_set_all_refine [of "\<lparr>bit_cnt = n, bits = ws\<rparr>" False] assms
  by (auto simp: bitmap_create_def bitmap_ok_def)

lemma bitmap_create_in_buf_refine:
  assumes "n + 32 \<le> 2 ^ 32" and "bitmap_buf_size n \<le> block_size" and "block_size \<le> 4 * length block"
  shows "\<exists>b. bitmap_create_in_buf n block block_size = Some b \<and> bitmap_ok b \<and> bit_cnt b = n \<and>
    bitmap_bits b = replicate n False"
  using bitmap_set_all_refine [of "\<lparr>bit_cnt = n, bits = take (elem_cnt n) (drop 2 block)\<rparr>" False] assms
  by (auto simp: bitmap_create_in_buf_def bitmap_ok_def bitmap_buf_size_def byte_cnt_def)

section \<open>Allocation of runs\<close>

text \<open>
  The contract of an allocator of runs of consecutive units: \<open>alloc s n\<close> gives a run of \<open>n\<close> units that
  were free, or reports that there is none; \<open>release\<close> gives a run back.
\<close>

locale run_allocator =
  fixes inv :: "'s \<Rightarrow> bool" and size :: "'s \<Rightarrow> nat" and used :: "'s \<Rightarrow> nat set"
    and alloc :: "'s \<Rightarrow> nat \<Rightarrow> (nat option \<times> 's) option"
    and release :: "'s \<Rightarrow> nat \<Rightarrow> nat \<Rightarrow> 's option"
  assumes alloc_total: "inv s \<Longrightarrow> \<exists>r s'. alloc s n = Some (r, s')"
    and alloc_inv: "inv s \<Longrightarrow> alloc s n = Some (r, s') \<Longrightarrow> inv s' \<and> size s' = size s"
    and alloc_Some: "inv s \<Longrightarrow> alloc s n = Some (Some i, s') \<Longrightarrow>
      i + n \<le> size s \<and> {i..<i + n} \<inter> used s = {} \<and> used s' = used s \<union> {i..<i + n}"
    and alloc_None: "inv s \<Longrightarrow> alloc s n = Some (None, s') \<Longrightarrow>
      s' = s \<and> (\<forall>i. i + n \<le> size s \<longrightarrow> {i..<i + n} \<inter> used s \<noteq> {})"
    and release_law: "inv s \<Longrightarrow> i + n \<le> size s \<Longrightarrow> {i..<i + n} \<subseteq> used s \<Longrightarrow>
      \<exists>s'. release s i n = Some s' \<and> inv s' \<and> size s' = size s \<and> used s' = used s - {i..<i + n}"
begin

lemma alloc_iff:
  assumes "inv s" and "alloc s n = Some (r, s')"
  shows "r \<noteq> None \<longleftrightarrow> (\<exists>i. i + n \<le> size s \<and> {i..<i + n} \<inter> used s = {})"
  using alloc_Some [OF assms(1)] alloc_None [OF assms(1)] assms(2) by (cases r) blast+

lemma alloc_release:
  assumes "inv s" and "alloc s n = Some (Some i, s')"
  shows "\<exists>s''. release s' i n = Some s'' \<and> inv s'' \<and> used s'' = used s"
proof -
  have run: "i + n \<le> size s" "{i..<i + n} \<inter> used s = {}" "used s' = used s \<union> {i..<i + n}"
    using alloc_Some [OF assms] by auto
  moreover have "inv s'" "size s' = size s" using alloc_inv [OF assms] by auto
  ultimately obtain s'' where "release s' i n = Some s''" "inv s''" "used s'' = used s' - {i..<i + n}"
    using release_law [of s' i n] by auto
  with run show ?thesis by auto
qed

end

text \<open>A sequence of requests; the runs obtained, with their lengths.\<close>

fun alloc_all :: "('s \<Rightarrow> nat \<Rightarrow> (nat option \<times> 's) option) \<Rightarrow> nat list \<Rightarrow> 's \<Rightarrow> ((nat \<times> nat) list \<times> 's) option" where
  "alloc_all alloc [] s = Some ([], s)"
| "alloc_all alloc (n # ns) s = do {
     (r, s') \<leftarrow> alloc s n;
     (rs, s'') \<leftarrow> alloc_all alloc ns s';
     Some (case r of None \<Rightarrow> rs | Some i \<Rightarrow> (i, n) # rs, s'')
   }"

definition run_set :: "nat \<times> nat \<Rightarrow> nat set" where
  "run_set r = {fst r..<fst r + snd r}"

context run_allocator
begin

lemma alloc_all_disjoint:
  assumes "inv s"
  shows "\<exists>rs s'. alloc_all alloc ns s = Some (rs, s') \<and> inv s' \<and> size s' = size s \<and>
    used s' = used s \<union> (\<Union>r \<in> set rs. run_set r) \<and>
    sorted_wrt (\<lambda>p q. run_set p \<inter> run_set q = {}) rs \<and>
    (\<forall>r \<in> set rs. fst r + snd r \<le> size s \<and> run_set r \<inter> used s = {})"
  using assms
proof (induction ns arbitrary: s)
  case Nil
  then show ?case by simp
next
  case (Cons n ns)
  obtain r s1 where alloc: "alloc s n = Some (r, s1)" using alloc_total [OF Cons.prems] by blast
  note s1 = alloc_inv [OF Cons.prems alloc]
  from Cons.IH [of s1] s1 obtain rs s' where rs: "alloc_all alloc ns s1 = Some (rs, s')" "inv s'"
      "size s' = size s" "used s' = used s1 \<union> (\<Union>r \<in> set rs. run_set r)"
      "sorted_wrt (\<lambda>p q. run_set p \<inter> run_set q = {}) rs"
      "\<forall>r \<in> set rs. fst r + snd r \<le> size s \<and> run_set r \<inter> used s1 = {}"
    by auto
  show ?case
  proof (cases r)
    case None
    then have "s1 = s" using alloc_None [OF Cons.prems] alloc by blast
    with rs alloc None show ?thesis by auto
  next
    case (Some i)
    then have run: "i + n \<le> size s" "run_set (i, n) \<inter> used s = {}" "used s1 = used s \<union> run_set (i, n)"
      using alloc_Some [OF Cons.prems] alloc by (auto simp: run_set_def)
    have new: "run_set (i, n) \<inter> run_set q = {}" "run_set q \<inter> used s = {}" if "q \<in> set rs" for q
      using rs(6) that run(3) by auto
    then have "sorted_wrt (\<lambda>p q. run_set p \<inter> run_set q = {}) ((i, n) # rs)"
      using rs(5) by simp
    moreover have "alloc_all alloc (n # ns) s = Some ((i, n) # rs, s')"
      using alloc Some rs(1) by simp
    moreover have "used s' = used s \<union> (\<Union>r \<in> set ((i, n) # rs). run_set r)"
      using rs(4) run(3) by auto
    moreover have "\<forall>r \<in> set ((i, n) # rs). fst r + snd r \<le> size s \<and> run_set r \<inter> used s = {}"
      using rs(6) run(1,2) new by auto
    ultimately show ?thesis using rs(2,3) by blast
  qed
qed

end

text \<open>The bitmap as such an allocator: set bits are the units in use.\<close>

definition bitmap_used :: "bitmap \<Rightarrow> nat set" where
  "bitmap_used b = {i. i < bit_cnt b \<and> bitmap_bits b ! i}"

definition bitmap_alloc :: "bitmap \<Rightarrow> nat \<Rightarrow> (nat option \<times> bitmap) option" where
  "bitmap_alloc b n = do {
     (idx, b') \<leftarrow> bitmap_scan_and_flip b 0 n False;
     Some (if idx = BITMAP_ERROR then None else Some idx, b')
   }"

definition bitmap_release :: "bitmap \<Rightarrow> nat \<Rightarrow> nat \<Rightarrow> bitmap option" where
  "bitmap_release b i n = bitmap_set_multiple b i n False"

lemma has_run_False_iff:
  "has_run (bitmap_bits b) i n False \<longleftrightarrow> i + n \<le> bit_cnt b \<and> {i..<i + n} \<inter> bitmap_used b = {}"
proof (cases "i + n \<le> bit_cnt b")
  case True
  then have "(\<forall>k < n. \<not> bitmap_bits b ! (i + k)) \<longleftrightarrow> (\<forall>k \<in> {i..<i + n}. \<not> bitmap_bits b ! k)"
    by (metis add_less_cancel_left atLeastLessThan_iff le_add1 le_iff_add)
  with True show ?thesis by (auto simp: has_run_iff_nth bitmap_used_def)
qed (simp add: has_run_def)

lemma bitmap_used_set_run:
  assumes "i + n \<le> bit_cnt b" and "bit_cnt b' = bit_cnt b" and "bitmap_bits b' = set_run (bitmap_bits b) i n v"
  shows "bitmap_used b' = (if v then bitmap_used b \<union> {i..<i + n} else bitmap_used b - {i..<i + n})"
  using assms by (auto simp: bitmap_used_def nth_set_run split: if_splits)

lemma bitmap_scan_and_flip_refine:
  assumes "bitmap_ok b" and "start \<le> bit_cnt b"
  obtains "bitmap_scan_and_flip b start cnt v = Some (BITMAP_ERROR, b)"
    "\<And>j. start \<le> j \<Longrightarrow> \<not> has_run (bitmap_bits b) j cnt v"
  | i b' where "bitmap_scan_and_flip b start cnt v = Some (i, b')" "i \<noteq> BITMAP_ERROR" "start \<le> i"
    "has_run (bitmap_bits b) i cnt v" "\<And>j. start \<le> j \<Longrightarrow> j < i \<Longrightarrow> \<not> has_run (bitmap_bits b) j cnt v"
    "bitmap_ok b'" "bit_cnt b' = bit_cnt b" "bitmap_bits b' = set_run (bitmap_bits b) i cnt (\<not> v)"
proof (rule bitmap_scan_refine [OF assms, of cnt v])
  assume "bitmap_scan b start cnt v = Some BITMAP_ERROR"
    and "\<And>j. start \<le> j \<Longrightarrow> \<not> has_run (bitmap_bits b) j cnt v"
  then show thesis using that(1) by (simp add: bitmap_scan_and_flip_def)
next
  fix i assume i: "bitmap_scan b start cnt v = Some i" "i \<noteq> BITMAP_ERROR" "start \<le> i"
    "has_run (bitmap_bits b) i cnt v" "\<And>j. start \<le> j \<Longrightarrow> j < i \<Longrightarrow> \<not> has_run (bitmap_bits b) j cnt v"
  then have "i + cnt \<le> bit_cnt b" by (simp add: has_run_def)
  from bitmap_set_multiple_refine [OF assms(1) this, of "\<not> v"] i
  show thesis using that(2) [of i] by (auto simp: bitmap_scan_and_flip_def)
qed

lemma bitmap_alloc_cases:
  assumes "bitmap_ok b"
  obtains "bitmap_alloc b n = Some (None, b)" "\<And>i. i + n \<le> bit_cnt b \<Longrightarrow> {i..<i + n} \<inter> bitmap_used b \<noteq> {}"
  | i b' where "bitmap_alloc b n = Some (Some i, b')" "bitmap_ok b'" "bit_cnt b' = bit_cnt b"
    "i + n \<le> bit_cnt b" "{i..<i + n} \<inter> bitmap_used b = {}" "bitmap_used b' = bitmap_used b \<union> {i..<i + n}"
proof (rule bitmap_scan_and_flip_refine [OF assms, of 0 n False])
  assume "bitmap_scan_and_flip b 0 n False = Some (BITMAP_ERROR, b)"
    and "\<And>j. 0 \<le> j \<Longrightarrow> \<not> has_run (bitmap_bits b) j n False"
  then show thesis using that(1) by (simp add: bitmap_alloc_def has_run_False_iff)
next
  fix i b' assume b': "bitmap_scan_and_flip b 0 n False = Some (i, b')" "i \<noteq> BITMAP_ERROR" "bitmap_ok b'"
    "bit_cnt b' = bit_cnt b" "bitmap_bits b' = set_run (bitmap_bits b) i n (\<not> False)"
    and run: "has_run (bitmap_bits b) i n False"
  then have i: "i + n \<le> bit_cnt b" "{i..<i + n} \<inter> bitmap_used b = {}" by (simp_all add: has_run_False_iff)
  show thesis
    using that(2) [of i b'] b' i bitmap_used_set_run [OF i(1) b'(4,5)] by (simp add: bitmap_alloc_def)
qed simp

interpretation bitmap_runs: run_allocator bitmap_ok bit_cnt bitmap_used bitmap_alloc bitmap_release
proof unfold_locales
  fix s :: bitmap and n i :: nat
  assume ok: "bitmap_ok s"
  show "\<exists>r s'. bitmap_alloc s n = Some (r, s')"
    by (rule bitmap_alloc_cases [OF ok, of n]) auto
  show "bitmap_ok s' \<and> bit_cnt s' = bit_cnt s" if "bitmap_alloc s n = Some (r, s')" for r s'
    by (rule bitmap_alloc_cases [OF ok, of n]) (use that ok in auto)
  show "i + n \<le> bit_cnt s \<and> {i..<i + n} \<inter> bitmap_used s = {} \<and> bitmap_used s' = bitmap_used s \<union> {i..<i + n}"
    if "bitmap_alloc s n = Some (Some i, s')" for s'
    by (rule bitmap_alloc_cases [OF ok, of n]) (use that in auto)
  show "s' = s \<and> (\<forall>i. i + n \<le> bit_cnt s \<longrightarrow> {i..<i + n} \<inter> bitmap_used s \<noteq> {})"
    if "bitmap_alloc s n = Some (None, s')" for s'
    by (rule bitmap_alloc_cases [OF ok, of n]) (use that in auto)
  show "\<exists>s'. bitmap_release s i n = Some s' \<and> bitmap_ok s' \<and> bit_cnt s' = bit_cnt s \<and>
      bitmap_used s' = bitmap_used s - {i..<i + n}" if "i + n \<le> bit_cnt s"
    using bitmap_set_multiple_refine [OF ok that, of False] bitmap_used_set_run [OF that, of _ False]
    by (auto simp: bitmap_release_def)
qed

section \<open>Properties\<close>

text \<open>A concrete bitmap for the witnesses: 40 bits, the first four and bit 36 set.\<close>

definition demo_bitmap :: bitmap where
  "demo_bitmap = \<lparr>bit_cnt = 40, bits = [15, 16]\<rparr>"

lemma demo_bitmap_ok: "bitmap_ok demo_bitmap" "bit_cnt demo_bitmap = 40"
  by (simp_all add: demo_bitmap_def bitmap_ok_def elem_cnt_def ELEM_BITS_def DIV_ROUND_UP_def)


lemma demo_bitmap_bits:
  "bitmap_bits demo_bitmap = [True, True, True, True] @ replicate 32 False @ [True, False, False, False]"
  by code_simp


text \<open>
  \<^verbatim>\<open>bitmap_set_multiple\<close> sets exactly the bits from \<open>start\<close> to \<open>start + cnt\<close> and returns precisely when
  that range lies inside the bitmap, also where the 32-bit sum \<^verbatim>\<open>start + cnt\<close> wraps around and the
  routine's own range assertion does not notice.
\<close>

theorem bitmap_set_multiple_correct:
  assumes "bitmap_ok b"
  shows "case bitmap_set_multiple b start cnt v of
      None \<Rightarrow> bit_cnt b < start + cnt
    | Some b' \<Rightarrow> start + cnt \<le> bit_cnt b \<and> bitmap_ok b' \<and> bit_cnt b' = bit_cnt b \<and>
        (\<forall>k < bit_cnt b. bitmap_bits b' ! k = (if start \<le> k \<and> k < start + cnt then v else bitmap_bits b ! k))"
proof (cases "start + cnt \<le> bit_cnt b")
  case True
  with bitmap_set_multiple_refine [OF assms this, of v] show ?thesis by (auto simp: nth_set_run)
next
  case False
  then show ?thesis by (simp add: bitmap_set_multiple_refused [OF assms])
qed

theorem bitmap_set_multiple_correct_witness:
  "bitmap_set_multiple demo_bitmap 30 (2 ^ 32 - 20) True = None \<and>
   (case bitmap_set_multiple demo_bitmap 30 10 True of None \<Rightarrow> False | Some b' \<Rightarrow> bitmap_bits b' ! 39)"
  using bitmap_set_multiple_correct [OF demo_bitmap_ok(1), of 30 10 True]
    bitmap_set_multiple_correct [OF demo_bitmap_ok(1), of 30 "2 ^ 32 - 20" True]
  by (auto simp: demo_bitmap_ok split: option.splits)

end
