(* ===== verification/Kernel_List.thy ===== *)
theory Kernel_List
  imports Pintos_Prelude "HOL-Library.Multiset" "HOL-Library.Sublist"
begin

text \<open>
  The doubly linked lists of \<^verbatim>\<open>lib/kernel/list.c\<close>, modelled on an explicit store of
  list elements. A \<^verbatim>\<open>struct list_elem\<close> is a record of two pointers; the store maps an
  address to the element that lives there. A \<^verbatim>\<open>struct list\<close> at address \<open>l\<close> consists of its
  head element at \<open>l\<close> and its tail element eight bytes further (each element holds two
  32-bit pointers). Every \<^verbatim>\<open>ASSERT\<close> of the source is a branch to \<open>None\<close>; the loops are
  \<^theory_text>\<open>partial_function (option)\<close>, so that a loop that never ends is \<open>None\<close> as well.

  The second half relates the store to abstract sequences of addresses (\<open>list_repr\<close>), proves
  that every operation implements its sequence operation, and that \<^verbatim>\<open>list_sort\<close> terminates
  with a sorted, stable permutation. The locale \<open>fifo_store\<close> states the contract that the
  clients (run queue, wait queues) rely on.
\<close>

section \<open>Elements, lists and the store\<close>

record list_elem =
  elem_prev :: addr
  elem_next :: addr

type_synonym heap = "addr \<Rightarrow> list_elem"

type_synonym less_func = "addr \<Rightarrow> addr \<Rightarrow> bool"

text \<open>Address of the tail element of the list at address \<open>l\<close> (\<^verbatim>\<open>&list->tail\<close>).\<close>

definition tail_addr :: "addr \<Rightarrow> addr" where
  "tail_addr l = l + 8"

definition set_prev :: "addr \<Rightarrow> addr \<Rightarrow> heap \<Rightarrow> heap" where
  "set_prev a v h = h(a := (h a)\<lparr>elem_prev := v\<rparr>)"

definition set_next :: "addr \<Rightarrow> addr \<Rightarrow> heap \<Rightarrow> heap" where
  "set_next a v h = h(a := (h a)\<lparr>elem_next := v\<rparr>)"

section \<open>The operations of list.c\<close>

definition is_head :: "heap \<Rightarrow> addr \<Rightarrow> bool" where
  "is_head h elem \<longleftrightarrow> elem \<noteq> NULL \<and> elem_prev (h elem) = NULL \<and> elem_next (h elem) \<noteq> NULL"

definition is_interior :: "heap \<Rightarrow> addr \<Rightarrow> bool" where
  "is_interior h elem \<longleftrightarrow> elem \<noteq> NULL \<and> elem_prev (h elem) \<noteq> NULL \<and> elem_next (h elem) \<noteq> NULL"

definition is_tail :: "heap \<Rightarrow> addr \<Rightarrow> bool" where
  "is_tail h elem \<longleftrightarrow> elem \<noteq> NULL \<and> elem_prev (h elem) \<noteq> NULL \<and> elem_next (h elem) = NULL"

definition list_init :: "addr \<Rightarrow> heap \<Rightarrow> heap option" where
  "list_init l h = do {
     ASSERT (l \<noteq> NULL);
     Some (set_next (tail_addr l) NULL
            (set_prev (tail_addr l) l
              (set_next l (tail_addr l)
                (set_prev l NULL h))))
   }"

definition list_begin :: "heap \<Rightarrow> addr \<Rightarrow> addr option" where
  "list_begin h l = do { ASSERT (l \<noteq> NULL); Some (elem_next (h l)) }"

definition list_next :: "heap \<Rightarrow> addr \<Rightarrow> addr option" where
  "list_next h elem = do { ASSERT (is_head h elem \<or> is_interior h elem); Some (elem_next (h elem)) }"

definition list_end :: "addr \<Rightarrow> addr option" where
  "list_end l = do { ASSERT (l \<noteq> NULL); Some (tail_addr l) }"

definition list_rbegin :: "heap \<Rightarrow> addr \<Rightarrow> addr option" where
  "list_rbegin h l = do { ASSERT (l \<noteq> NULL); Some (elem_prev (h (tail_addr l))) }"

definition list_prev :: "heap \<Rightarrow> addr \<Rightarrow> addr option" where
  "list_prev h elem = do { ASSERT (is_interior h elem \<or> is_tail h elem); Some (elem_prev (h elem)) }"

definition list_rend :: "addr \<Rightarrow> addr option" where
  "list_rend l = do { ASSERT (l \<noteq> NULL); Some l }"

definition list_head :: "addr \<Rightarrow> addr option" where
  "list_head l = do { ASSERT (l \<noteq> NULL); Some l }"

definition list_tail :: "addr \<Rightarrow> addr option" where
  "list_tail l = do { ASSERT (l \<noteq> NULL); Some (tail_addr l) }"

definition list_insert :: "addr \<Rightarrow> addr \<Rightarrow> heap \<Rightarrow> heap option" where
  "list_insert before elem h = do {
     ASSERT (is_interior h before \<or> is_tail h before);
     ASSERT (elem \<noteq> NULL);
     let h1 = set_prev elem (elem_prev (h before)) h;
     let h2 = set_next elem before h1;
     let h3 = set_next (elem_prev (h2 before)) elem h2;
     Some (set_prev before elem h3)
   }"

definition list_splice :: "addr \<Rightarrow> addr \<Rightarrow> addr \<Rightarrow> heap \<Rightarrow> heap option" where
  "list_splice before first lastp h = do {
     ASSERT (is_interior h before \<or> is_tail h before);
     if first = lastp then Some h
     else do {
       lastp \<leftarrow> list_prev h lastp;
       ASSERT (is_interior h first);
       ASSERT (is_interior h lastp);
       let h1 = set_next (elem_prev (h first)) (elem_next (h lastp)) h;
       let h2 = set_prev (elem_next (h1 lastp)) (elem_prev (h1 first)) h1;
       let h3 = set_prev first (elem_prev (h2 before)) h2;
       let h4 = set_next lastp before h3;
       let h5 = set_next (elem_prev (h4 before)) first h4;
       Some (set_prev before lastp h5)
     }
   }"

definition list_push_front :: "addr \<Rightarrow> addr \<Rightarrow> heap \<Rightarrow> heap option" where
  "list_push_front l elem h = do { b \<leftarrow> list_begin h l; list_insert b elem h }"

definition list_push_back :: "addr \<Rightarrow> addr \<Rightarrow> heap \<Rightarrow> heap option" where
  "list_push_back l elem h = do { e \<leftarrow> list_end l; list_insert e elem h }"

definition list_remove :: "addr \<Rightarrow> heap \<Rightarrow> (addr \<times> heap) option" where
  "list_remove elem h = do {
     ASSERT (is_interior h elem);
     let h1 = set_next (elem_prev (h elem)) (elem_next (h elem)) h;
     let h2 = set_prev (elem_next (h1 elem)) (elem_prev (h1 elem)) h1;
     Some (elem_next (h2 elem), h2)
   }"

definition list_empty :: "heap \<Rightarrow> addr \<Rightarrow> bool option" where
  "list_empty h l = do { b \<leftarrow> list_begin h l; e \<leftarrow> list_end l; Some (b = e) }"

definition list_front :: "heap \<Rightarrow> addr \<Rightarrow> addr option" where
  "list_front h l = do { e \<leftarrow> list_empty h l; ASSERT (\<not> e); Some (elem_next (h l)) }"

definition list_back :: "heap \<Rightarrow> addr \<Rightarrow> addr option" where
  "list_back h l = do { e \<leftarrow> list_empty h l; ASSERT (\<not> e); Some (elem_prev (h (tail_addr l))) }"

definition list_pop_front :: "addr \<Rightarrow> heap \<Rightarrow> (addr \<times> heap) option" where
  "list_pop_front l h = do {
     front \<leftarrow> list_front h l;
     (_, h') \<leftarrow> list_remove front h;
     Some (front, h')
   }"

definition list_pop_back :: "addr \<Rightarrow> heap \<Rightarrow> (addr \<times> heap) option" where
  "list_pop_back l h = do {
     back \<leftarrow> list_back h l;
     (_, h') \<leftarrow> list_remove back h;
     Some (back, h')
   }"

partial_function (option) list_size_loop :: "heap \<Rightarrow> addr \<Rightarrow> addr \<Rightarrow> u32 \<Rightarrow> u32 option" where
  "list_size_loop h l e cnt = do {
     t \<leftarrow> list_end l;
     if e = t then Some cnt
     else do { e' \<leftarrow> list_next h e; list_size_loop h l e' (cnt + 1) }
   }"

definition list_size :: "heap \<Rightarrow> addr \<Rightarrow> u32 option" where
  "list_size h l = do { e \<leftarrow> list_begin h l; list_size_loop h l e 0 }"

text \<open>
  \<^verbatim>\<open>swap\<close> exchanges the contents of two pointer variables. \<^verbatim>\<open>list_reverse\<close> applies it to the
  two members of one element (\<open>swap_links\<close>), and to a \<^verbatim>\<open>next\<close> member and a \<^verbatim>\<open>prev\<close> member of
  two elements (\<open>swap_next_prev\<close>). Following a null pointer in the loop is a fault.
\<close>

definition swap_links :: "addr \<Rightarrow> heap \<Rightarrow> heap" where
  "swap_links e h =
     (let t = elem_prev (h e); h1 = set_prev e (elem_next (h e)) h in set_next e t h1)"

definition swap_next_prev :: "addr \<Rightarrow> addr \<Rightarrow> heap \<Rightarrow> heap" where
  "swap_next_prev a b h =
     (let t = elem_next (h a); h1 = set_next a (elem_prev (h b)) h in set_prev b t h1)"

definition swap_prev_next :: "addr \<Rightarrow> addr \<Rightarrow> heap \<Rightarrow> heap" where
  "swap_prev_next a b h =
     (let t = elem_prev (h a); h1 = set_prev a (elem_next (h b)) h in set_next b t h1)"

partial_function (option) list_reverse_loop :: "addr \<Rightarrow> addr \<Rightarrow> heap \<Rightarrow> heap option" where
  "list_reverse_loop l e h = do {
     t \<leftarrow> list_end l;
     if e = t then Some h
     else do {
       ASSERT (e \<noteq> NULL);
       let h' = swap_links e h;
       list_reverse_loop l (elem_prev (h' e)) h'
     }
   }"

definition list_reverse :: "addr \<Rightarrow> heap \<Rightarrow> heap option" where
  "list_reverse l h = do {
     empty \<leftarrow> list_empty h l;
     if empty then Some h
     else do {
       e \<leftarrow> list_begin h l;
       h1 \<leftarrow> list_reverse_loop l e h;
       let h2 = swap_next_prev l (tail_addr l) h1;
       ASSERT (elem_next (h2 l) \<noteq> NULL \<and> elem_prev (h2 (tail_addr l)) \<noteq> NULL);
       Some (swap_prev_next (elem_next (h2 l)) (elem_prev (h2 (tail_addr l))) h2)
     }
   }"

section \<open>Operations on ordered lists\<close>

partial_function (option) is_sorted_loop :: "less_func \<Rightarrow> heap \<Rightarrow> addr \<Rightarrow> addr \<Rightarrow> bool option" where
  "is_sorted_loop lt h a b = do {
     a' \<leftarrow> list_next h a;
     if a' = b then Some True
     else do {
       p \<leftarrow> list_prev h a';
       if lt a' p then Some False else is_sorted_loop lt h a' b
     }
   }"

definition is_sorted :: "less_func \<Rightarrow> heap \<Rightarrow> addr \<Rightarrow> addr \<Rightarrow> bool option" where
  "is_sorted lt h a b = (if a \<noteq> b then is_sorted_loop lt h a b else Some True)"

partial_function (option) find_run_loop :: "less_func \<Rightarrow> heap \<Rightarrow> addr \<Rightarrow> addr \<Rightarrow> addr option" where
  "find_run_loop lt h a b = do {
     a' \<leftarrow> list_next h a;
     if a' = b then Some a'
     else do {
       p \<leftarrow> list_prev h a';
       if lt a' p then Some a' else find_run_loop lt h a' b
     }
   }"

definition find_end_of_run :: "less_func \<Rightarrow> heap \<Rightarrow> addr \<Rightarrow> addr \<Rightarrow> addr option" where
  "find_end_of_run lt h a b = do {
     ASSERT (a \<noteq> NULL);
     ASSERT (b \<noteq> NULL);
     ASSERT (a \<noteq> b);
     find_run_loop lt h a b
   }"

partial_function (option) merge_loop ::
    "less_func \<Rightarrow> addr \<Rightarrow> addr \<Rightarrow> addr \<Rightarrow> heap \<Rightarrow> heap option" where
  "merge_loop lt a0 a1b0 b1 h =
     (if a0 \<noteq> a1b0 \<and> a1b0 \<noteq> b1 then
        if \<not> lt a1b0 a0 then do {
          a0' \<leftarrow> list_next h a0;
          merge_loop lt a0' a1b0 b1 h
        }
        else do {
          a1b0' \<leftarrow> list_next h a1b0;
          p \<leftarrow> list_prev h a1b0';
          h' \<leftarrow> list_splice a0 p a1b0' h;
          merge_loop lt a0 a1b0' b1 h'
        }
      else Some h)"

definition inplace_merge :: "less_func \<Rightarrow> addr \<Rightarrow> addr \<Rightarrow> addr \<Rightarrow> heap \<Rightarrow> heap option" where
  "inplace_merge lt a0 a1b0 b1 h = do {
     ASSERT (a0 \<noteq> NULL);
     ASSERT (a1b0 \<noteq> NULL);
     ASSERT (b1 \<noteq> NULL);
     s1 \<leftarrow> is_sorted lt h a0 a1b0;
     ASSERT s1;
     s2 \<leftarrow> is_sorted lt h a1b0 b1;
     ASSERT s2;
     merge_loop lt a0 a1b0 b1 h
   }"

text \<open>
  One pass of \<^verbatim>\<open>list_sort\<close>: the \<^verbatim>\<open>for\<close> loop, with the number of output runs. The run
  counter counts elements of a list at most, so it stays far below \<^verbatim>\<open>SIZE_MAX\<close>; it is a
  natural number here.
\<close>

partial_function (option) sort_pass_loop ::
    "less_func \<Rightarrow> addr \<Rightarrow> addr \<Rightarrow> nat \<Rightarrow> heap \<Rightarrow> (heap \<times> nat) option" where
  "sort_pass_loop lt l a0 output_run_cnt h = do {
     e \<leftarrow> list_end l;
     if a0 = e then Some (h, output_run_cnt)
     else do {
       a1b0 \<leftarrow> find_end_of_run lt h a0 e;
       if a1b0 = e then Some (h, output_run_cnt + 1)
       else do {
         b1 \<leftarrow> find_end_of_run lt h a1b0 e;
         h' \<leftarrow> inplace_merge lt a0 a1b0 b1 h;
         sort_pass_loop lt l b1 (output_run_cnt + 1) h'
       }
     }
   }"

partial_function (option) list_sort_loop :: "less_func \<Rightarrow> addr \<Rightarrow> heap \<Rightarrow> heap option" where
  "list_sort_loop lt l h = do {
     a0 \<leftarrow> list_begin h l;
     (h', output_run_cnt) \<leftarrow> sort_pass_loop lt l a0 0 h;
     if output_run_cnt > 1 then list_sort_loop lt l h' else Some h'
   }"

definition list_sort :: "less_func \<Rightarrow> addr \<Rightarrow> heap \<Rightarrow> heap option" where
  "list_sort lt l h = do {
     ASSERT (l \<noteq> NULL);
     h' \<leftarrow> list_sort_loop lt l h;
     b \<leftarrow> list_begin h' l;
     e \<leftarrow> list_end l;
     s \<leftarrow> is_sorted lt h' b e;
     ASSERT s;
     Some h'
   }"

partial_function (option) insert_pos_loop ::
    "less_func \<Rightarrow> heap \<Rightarrow> addr \<Rightarrow> addr \<Rightarrow> addr \<Rightarrow> addr option" where
  "insert_pos_loop lt h l elem e = do {
     t \<leftarrow> list_end l;
     if e = t then Some e
     else if lt elem e then Some e
     else do { e' \<leftarrow> list_next h e; insert_pos_loop lt h l elem e' }
   }"

definition list_insert_ordered :: "less_func \<Rightarrow> addr \<Rightarrow> addr \<Rightarrow> heap \<Rightarrow> heap option" where
  "list_insert_ordered lt l elem h = do {
     ASSERT (l \<noteq> NULL);
     ASSERT (elem \<noteq> NULL);
     b \<leftarrow> list_begin h l;
     e \<leftarrow> insert_pos_loop lt h l elem b;
     list_insert e elem h
   }"

partial_function (option) list_unique_loop ::
    "less_func \<Rightarrow> addr \<Rightarrow> addr \<Rightarrow> addr \<Rightarrow> heap \<Rightarrow> heap option" where
  "list_unique_loop lt l duplicates elem h = do {
     nxt \<leftarrow> list_next h elem;
     t \<leftarrow> list_end l;
     if nxt = t then Some h
     else if \<not> lt elem nxt \<and> \<not> lt nxt elem then do {
       (_, h1) \<leftarrow> list_remove nxt h;
       h2 \<leftarrow> (if duplicates \<noteq> NULL then list_push_back duplicates nxt h1 else Some h1);
       list_unique_loop lt l duplicates elem h2
     }
     else list_unique_loop lt l duplicates nxt h
   }"

definition list_unique :: "less_func \<Rightarrow> addr \<Rightarrow> addr \<Rightarrow> heap \<Rightarrow> heap option" where
  "list_unique lt l duplicates h = do {
     ASSERT (l \<noteq> NULL);
     empty \<leftarrow> list_empty h l;
     if empty then Some h
     else do { b \<leftarrow> list_begin h l; list_unique_loop lt l duplicates b h }
   }"

partial_function (option) list_max_loop ::
    "less_func \<Rightarrow> heap \<Rightarrow> addr \<Rightarrow> addr \<Rightarrow> addr \<Rightarrow> addr option" where
  "list_max_loop lt h l mx e = do {
     t \<leftarrow> list_end l;
     if e = t then Some mx
     else do { e' \<leftarrow> list_next h e; list_max_loop lt h l (if lt mx e then e else mx) e' }
   }"

definition list_max :: "less_func \<Rightarrow> heap \<Rightarrow> addr \<Rightarrow> addr option" where
  "list_max lt h l = do {
     mx \<leftarrow> list_begin h l;
     t \<leftarrow> list_end l;
     if mx \<noteq> t then do { e \<leftarrow> list_next h mx; list_max_loop lt h l mx e } else Some mx
   }"

partial_function (option) list_min_loop ::
    "less_func \<Rightarrow> heap \<Rightarrow> addr \<Rightarrow> addr \<Rightarrow> addr \<Rightarrow> addr option" where
  "list_min_loop lt h l mn e = do {
     t \<leftarrow> list_end l;
     if e = t then Some mn
     else do { e' \<leftarrow> list_next h e; list_min_loop lt h l (if lt e mn then e else mn) e' }
   }"

definition list_min :: "less_func \<Rightarrow> heap \<Rightarrow> addr \<Rightarrow> addr option" where
  "list_min lt h l = do {
     mn \<leftarrow> list_begin h l;
     t \<leftarrow> list_end l;
     if mn \<noteq> t then do { e \<leftarrow> list_next h mn; list_min_loop lt h l mn e } else Some mn
   }"

section \<open>Abstraction to sequences of addresses\<close>

text \<open>
  \<open>ring h cs\<close>: the cells \<open>cs\<close>, the two header elements included, form a well-formed list.
  \<open>list_repr h l xs\<close>: the list at \<open>l\<close> holds exactly the interior elements \<open>xs\<close>, in order.
\<close>

definition linked :: "heap \<Rightarrow> addr \<Rightarrow> addr \<Rightarrow> bool" where
  "linked h a b \<longleftrightarrow> elem_next (h a) = b \<and> elem_prev (h b) = a"

fun chain :: "heap \<Rightarrow> addr list \<Rightarrow> bool" where
  "chain h (a # b # cs) \<longleftrightarrow> linked h a b \<and> chain h (b # cs)"
| "chain h _ \<longleftrightarrow> True"

definition ring :: "heap \<Rightarrow> addr list \<Rightarrow> bool" where
  "ring h cs \<longleftrightarrow> chain h cs \<and> distinct cs \<and> NULL \<notin> set cs \<and> cs \<noteq> [] \<and>
     elem_prev (h (hd cs)) = NULL \<and> elem_next (h (last cs)) = NULL"

definition list_repr :: "heap \<Rightarrow> addr \<Rightarrow> addr list \<Rightarrow> bool" where
  "list_repr h l xs \<longleftrightarrow> ring h (l # xs @ [tail_addr l])"

text \<open>The cells a list occupies, headers included.\<close>

definition list_cells :: "addr \<Rightarrow> addr list \<Rightarrow> addr set" where
  "list_cells l xs = insert l (insert (tail_addr l) (set xs))"

lemma set_prev_sel [simp]:
  "elem_next (set_prev a v h b) = elem_next (h b)"
  "elem_prev (set_prev a v h b) = (if b = a then v else elem_prev (h b))"
  by (simp_all add: set_prev_def)

lemma set_next_sel [simp]:
  "elem_prev (set_next a v h b) = elem_prev (h b)"
  "elem_next (set_next a v h b) = (if b = a then v else elem_next (h b))"
  by (simp_all add: set_next_def)

lemma set_prev_other [simp]: "b \<noteq> a \<Longrightarrow> set_prev a v h b = h b"
  by (simp add: set_prev_def)

lemma set_next_other [simp]: "b \<noteq> a \<Longrightarrow> set_next a v h b = h b"
  by (simp add: set_next_def)

lemma chain_Cons: "chain h (a # cs) \<longleftrightarrow> cs = [] \<or> linked h a (hd cs) \<and> chain h cs"
  by (cases cs) auto

lemma chain_append:
  "chain h (as @ bs) \<longleftrightarrow>
     chain h as \<and> chain h bs \<and> (as = [] \<or> bs = [] \<or> linked h (last as) (hd bs))"
  by (induction as) (auto simp: chain_Cons)

lemma chain_cong:
  assumes "\<And>a. a \<in> set (butlast cs) \<Longrightarrow> elem_next (h' a) = elem_next (h a)"
    and "\<And>a. a \<in> set (tl cs) \<Longrightarrow> elem_prev (h' a) = elem_prev (h a)"
  shows "chain h' cs = chain h cs"
  using assms by (induction h cs rule: chain.induct) (auto simp: linked_def)

lemma ring_cong:
  assumes "\<And>a. a \<in> set cs \<Longrightarrow> h' a = h a"
  shows "ring h' cs = ring h cs"
proof -
  have "chain h' cs = chain h cs"
    using assms by (intro chain_cong) (auto dest: in_set_butlastD in_set_tlD)
  then show ?thesis using assms by (auto simp: ring_def)
qed

lemma list_repr_frame:
  assumes "list_repr h l xs" and "\<And>a. a \<in> list_cells l xs \<Longrightarrow> h' a = h a"
  shows "list_repr h' l xs"
  using assms ring_cong [of "l # xs @ [tail_addr l]" h' h]
  by (auto simp: list_repr_def list_cells_def)

lemma butlast_notin_last: "distinct cs \<Longrightarrow> cs \<noteq> [] \<Longrightarrow> last cs \<notin> set (butlast cs)"
  by (metis append_butlast_last_id distinct_butlast not_distinct_conv_prefix
      distinct_append disjoint_iff list.set_intros(1))

lemma tl_notin_hd: "distinct cs \<Longrightarrow> cs \<noteq> [] \<Longrightarrow> hd cs \<notin> set (tl cs)"
  by (cases cs) auto

text \<open>What a ring says about one cell in the middle, with its neighbours.\<close>

lemma ring_split:
  assumes "ring h (P @ e # S)"
  shows "e \<noteq> NULL"
    and "P \<noteq> [] \<Longrightarrow> elem_prev (h e) = last P \<and> last P \<noteq> NULL \<and> elem_next (h (last P)) = e"
    and "S \<noteq> [] \<Longrightarrow> elem_next (h e) = hd S \<and> hd S \<noteq> NULL \<and> elem_prev (h (hd S)) = e"
    and "P = [] \<Longrightarrow> elem_prev (h e) = NULL"
    and "S = [] \<Longrightarrow> elem_next (h e) = NULL"
proof -
  from assms have c: "chain h (P @ e # S)" and n: "NULL \<notin> set (P @ e # S)"
    by (auto simp: ring_def)
  from n show "e \<noteq> NULL" by auto
  have lp: "P \<noteq> [] \<Longrightarrow> last P \<noteq> NULL" and hs: "S \<noteq> [] \<Longrightarrow> hd S \<noteq> NULL"
    using n by (metis Un_iff last_in_set set_append, metis Un_iff hd_in_set list.set_intros(2) set_append)
  show "P \<noteq> [] \<Longrightarrow> elem_prev (h e) = last P \<and> last P \<noteq> NULL \<and> elem_next (h (last P)) = e"
    using c lp by (auto simp: chain_append linked_def)
  show "S \<noteq> [] \<Longrightarrow> elem_next (h e) = hd S \<and> hd S \<noteq> NULL \<and> elem_prev (h (hd S)) = e"
    using c hs by (auto simp: chain_append chain_Cons linked_def)
  show "P = [] \<Longrightarrow> elem_prev (h e) = NULL" and "S = [] \<Longrightarrow> elem_next (h e) = NULL"
    using assms by (auto simp: ring_def)
qed

lemma ring_kind:
  assumes "ring h (P @ e # S)"
  shows "is_interior h e \<longleftrightarrow> P \<noteq> [] \<and> S \<noteq> []"
    and "is_head h e \<longleftrightarrow> P = [] \<and> S \<noteq> []"
    and "is_tail h e \<longleftrightarrow> P \<noteq> [] \<and> S = []"
  using ring_split [OF assms]
  by (cases "P = []"; cases "S = []"; simp add: is_interior_def is_head_def is_tail_def)+

section \<open>Straight-line operations implement sequence operations\<close>

lemma tail_addr_neq [simp]: "tail_addr l \<noteq> l" "l \<noteq> tail_addr l"
  by (simp_all add: tail_addr_def)

lemma list_init_repr:
  assumes "l \<noteq> NULL" and "tail_addr l \<noteq> NULL"
  shows "\<exists>h'. list_init l h = Some h' \<and> list_repr h' l [] \<and>
    (\<forall>a. a \<notin> list_cells l [] \<longrightarrow> h' a = h a)"
  using assms by (auto simp: list_init_def list_repr_def ring_def linked_def list_cells_def)

text \<open>Which cells the ends of the two halves of a split ring can be.\<close>

lemma ends_notin:
  assumes "distinct (P @ S)" and "P \<noteq> []" and "S \<noteq> []"
  shows "last P \<notin> set S" "hd S \<notin> set P" "last P \<noteq> hd S" "hd P \<noteq> hd S" "last S \<noteq> last P"
    "last P \<notin> set (butlast P)" "hd S \<notin> set (tl S)"
proof -
  have d: "distinct P" "distinct S" "set P \<inter> set S = {}" using assms(1) by auto
  have "last P \<in> set P" "hd P \<in> set P" "hd S \<in> set S" "last S \<in> set S" using assms(2,3) by auto
  then show "last P \<notin> set S" "hd S \<notin> set P" "last P \<noteq> hd S" "hd P \<noteq> hd S" "last S \<noteq> last P"
    using d(3) by (blast, blast, metis disjoint_iff, metis disjoint_iff, metis disjoint_iff)
  show "last P \<notin> set (butlast P)" "hd S \<notin> set (tl S)"
    using d assms(2,3) by (simp_all add: butlast_notin_last tl_notin_hd)
qed

lemma ring_insert:
  assumes r: "ring h (P @ b # S)" and P: "P \<noteq> []" and e: "e \<notin> set (P @ b # S)" "e \<noteq> NULL"
  shows "\<exists>h'. list_insert b e h = Some h' \<and> ring h' (P @ e # b # S) \<and>
    (\<forall>a. a \<notin> {last P, e, b} \<longrightarrow> h' a = h a)"
proof -
  let ?p = "last P"
  define h' where "h' = set_prev b e (set_next ?p e (set_next e b (set_prev e ?p h)))"
  have sp: "elem_prev (h b) = ?p" and d: "distinct (P @ b # S)"
    using ring_split [OF r] P r by (auto simp: ring_def)
  have en: "last P \<notin> set (b # S)" "b \<notin> set P" "hd P \<noteq> b" "last (b # S) \<noteq> last P"
    "last P \<notin> set (butlast P)" "b \<notin> set S"
    using ends_notin [OF d P] by auto
  have ne: "b \<noteq> e" "?p \<noteq> e" "?p \<noteq> b" "hd P \<noteq> e" "last (b # S) \<noteq> e"
    using e en P hd_in_set [OF P] last_in_set [OF P] last_in_set [of "b # S"] by fastforce+
  have ins: "list_insert b e h = Some h'"
    using ring_kind [OF r] P e ne sp by (auto simp: list_insert_def h'_def bind_ASSERT Let_def)
  have c: "chain h P" "chain h (b # S)"
    using r by (auto simp: ring_def chain_append)
  have "chain h' P = chain h P"
    using e ne en by (intro chain_cong) (auto simp: h'_def dest: in_set_butlastD in_set_tlD)
  moreover have "chain h' (b # S) = chain h (b # S)"
    using e ne en
    by (intro chain_cong) (auto simp: h'_def split: if_splits dest: in_set_butlastD in_set_tlD)
  ultimately have "chain h' (P @ e # b # S)"
    using c ne P by (auto simp: chain_append chain_Cons linked_def h'_def)
  moreover have "elem_prev (h' (hd P)) = NULL" "elem_next (h' (last (b # S))) = NULL"
    using r P ne en by (simp_all add: ring_def h'_def)
  ultimately have "ring h' (P @ e # b # S)"
    using r e P by (auto simp: ring_def)
  then show ?thesis using ins by (auto simp: h'_def)
qed

lemma ring_remove:
  assumes r: "ring h (P @ e # S)" and P: "P \<noteq> []" and S: "S \<noteq> []"
  shows "\<exists>h'. list_remove e h = Some (hd S, h') \<and> ring h' (P @ S) \<and>
    (\<forall>a. a \<notin> {last P, hd S} \<longrightarrow> h' a = h a)"
proof -
  let ?p = "last P" and ?n = "hd S"
  define h' where "h' = set_prev ?n ?p (set_next ?p ?n h)"
  have sp: "elem_prev (h e) = ?p" "elem_next (h e) = ?n" and d: "distinct (P @ e # S)"
    using ring_split [OF r] P S r by (auto simp: ring_def)
  have ne: "?p \<notin> set S" "?n \<notin> set P" "?p \<noteq> ?n" "hd P \<noteq> ?n" "last S \<noteq> ?p" "?p \<notin> set (butlast P)"
      "?n \<notin> set (tl S)"
    using ends_notin [of P S] d P S by auto
  have ne': "?p \<noteq> e" "?n \<noteq> e"
    using d P S last_in_set [OF P] hd_in_set [OF S] by fastforce+
  have rem: "list_remove e h = Some (?n, h')"
    using ring_kind [OF r] P S ne ne' sp by (auto simp: list_remove_def h'_def bind_ASSERT Let_def)
  have c: "chain h P" "chain h S"
    using r S by (auto simp: ring_def chain_append chain_Cons)
  have "chain h' P = chain h P"
    using ne by (intro chain_cong) (auto simp: h'_def dest: in_set_butlastD in_set_tlD)
  moreover have "chain h' S = chain h S"
    using ne by (intro chain_cong) (auto simp: h'_def dest: in_set_butlastD in_set_tlD)
  ultimately have "chain h' (P @ S)"
    using c ne P S by (auto simp: chain_append linked_def h'_def)
  moreover have "elem_prev (h' (hd P)) = NULL" "elem_next (h' (last S)) = NULL"
    using r P S ne by (simp_all add: ring_def h'_def)
  ultimately have "ring h' (P @ S)"
    using r P S by (auto simp: ring_def)
  then show ?thesis using rem by (auto simp: h'_def)
qed

text \<open>
  Splicing touches six link fields at the borders of four segments. The two rules below let
  the simplifier discard every update that does not concern a segment.
\<close>

lemma chain_set_next: "a \<notin> set (butlast cs) \<Longrightarrow> chain (set_next a v h) cs = chain h cs"
  by (intro chain_cong) auto

lemma chain_set_prev: "a \<notin> set (tl cs) \<Longrightarrow> chain (set_prev a v h) cs = chain h cs"
  by (intro chain_cong) auto

lemma segments_ends:
  assumes "distinct (concat Xs)" and "X \<in> set Xs" and "Y \<in> set Xs" and "Y \<noteq> []"
  shows "last Y \<notin> set (butlast X)" "hd Y \<notin> set (tl X)"
    "X \<noteq> [] \<Longrightarrow> X \<noteq> Y \<Longrightarrow> last X \<noteq> last Y" "X \<noteq> [] \<Longrightarrow> X \<noteq> Y \<Longrightarrow> hd X \<noteq> hd Y"
proof -
  have dj: "X \<noteq> Y \<Longrightarrow> set X \<inter> set Y = {}" and dX: "distinct X"
    using assms by (auto simp: distinct_concat_iff)
  have mem: "last Y \<in> set Y" "hd Y \<in> set Y" using assms(4) by auto
  show "last Y \<notin> set (butlast X)"
    by (metis assms(4) butlast_notin_last dX disjoint_iff dj in_set_butlastD mem(1))
  show "hd Y \<notin> set (tl X)"
    by (metis assms(4) dX disjoint_iff dj in_set_tlD mem(2) tl_notin_hd)
  show "X \<noteq> [] \<Longrightarrow> X \<noteq> Y \<Longrightarrow> last X \<noteq> last Y" "X \<noteq> [] \<Longrightarrow> X \<noteq> Y \<Longrightarrow> hd X \<noteq> hd Y"
    by (metis disjoint_iff dj last_in_set mem(1), metis disjoint_iff dj hd_in_set mem(2))
qed

lemma ring_mem:
  assumes "ring h cs" and "e \<in> set cs"
  shows "is_interior h e \<longleftrightarrow> e \<noteq> hd cs \<and> e \<noteq> last cs"
proof -
  obtain P S where cs: "cs = P @ e # S" using split_list [OF assms(2)] by auto
  with assms(1) have d: "distinct (P @ e # S)" by (simp add: ring_def)
  have "P = [] \<longleftrightarrow> e = hd cs" using d unfolding cs by (cases P) auto
  moreover have "S = [] \<longleftrightarrow> e = last cs"
    using d last_in_set [of S] unfolding cs by auto
  ultimately show ?thesis using ring_kind(1) assms(1) unfolding cs by blast
qed

lemma ring_splice:
  assumes r: "ring h (P @ A @ R @ S)" and ne: "P \<noteq> []" "A \<noteq> []" "R \<noteq> []" "S \<noteq> []"
  shows "\<exists>h'. list_splice (hd A) (hd R) (hd S) h = Some h' \<and> ring h' (P @ R @ A @ S) \<and>
    (\<forall>a. a \<notin> set (P @ A @ R @ S) \<longrightarrow> h' a = h a)"
proof -
  let ?Xs = "[P, A, R, S]"
  have d: "distinct (concat ?Xs)" using r by (simp add: ring_def)
  have ns: "P \<noteq> A" "P \<noteq> R" "P \<noteq> S" "A \<noteq> R" "A \<noteq> S" "R \<noteq> S"
    using d ne by (auto simp: Int_Un_distrib)
  note ends = segments_ends [OF d]
  have lneq: "last P \<noteq> last A" "last P \<noteq> last R" "last A \<noteq> last R" "last S \<noteq> last P"
      "last S \<noteq> last A" "last S \<noteq> last R"
    and hneq: "hd A \<noteq> hd R" "hd A \<noteq> hd S" "hd R \<noteq> hd S" "hd P \<noteq> hd A" "hd P \<noteq> hd R" "hd P \<noteq> hd S"
    using ends(3,4) ne ns by auto
  have c: "chain h P" "chain h A" "chain h R" "chain h S" and
    l: "linked h (last P) (hd A)" "linked h (last A) (hd R)" "linked h (last R) (hd S)"
    using r ne by (auto simp: ring_def chain_append)
  have bd: "elem_prev (h (hd P)) = NULL" "elem_next (h (last S)) = NULL"
    and nn: "NULL \<notin> set P \<union> set A \<union> set R \<union> set S"
    using r ne by (auto simp: ring_def)
  have mem: "last P \<in> set P" "hd A \<in> set A" "last A \<in> set A" "hd R \<in> set R" "last R \<in> set R" "hd S \<in> set S"
    using ne by auto
  define h' where "h' = set_prev (hd A) (last R) (set_next (last P) (hd R)
    (set_next (last R) (hd A) (set_prev (hd R) (last P)
      (set_prev (hd S) (last A) (set_next (last A) (hd S) h)))))"
  have dj: "set P \<inter> set A = {}" "set P \<inter> set R = {}" "set A \<inter> set S = {}" "set R \<inter> set S = {}"
    using d by auto
  have "hd A \<noteq> hd P" "hd A \<noteq> last S" "hd R \<noteq> hd P" "hd R \<noteq> last S" "last R \<noteq> hd P" "last R \<noteq> last S"
    using ne dj by (metis disjoint_iff hd_in_set last_in_set)+
  then have k: "is_interior h (hd A)" "is_interior h (hd R)" "is_interior h (last R)"
    using ring_mem [OF r] mem ne by auto
  have k': "is_interior h (hd S) \<or> is_tail h (hd S)"
    using l(3) mem nn by (auto simp: is_interior_def is_tail_def linked_def)
  have "list_splice (hd A) (hd R) (hd S) h = Some h'"
    using k k' l hneq lneq
    by (auto simp: list_splice_def list_prev_def bind_ASSERT h'_def linked_def Let_def)
  moreover have "chain h' X = chain h X" if "X \<in> set ?Xs" for X
    unfolding h'_def using ends(1,2) [OF that] ne
    by (simp add: chain_set_next chain_set_prev)
  then have "chain h' P" "chain h' A" "chain h' R" "chain h' S"
    using c by auto
  then have "chain h' (P @ R @ A @ S)"
    using ne lneq hneq l by (auto simp: chain_append h'_def linked_def)
  moreover have "elem_prev (h' (hd P)) = NULL" "elem_next (h' (last S)) = NULL"
    using bd hneq lneq by (auto simp: h'_def)
  moreover have "\<forall>a. a \<notin> set (P @ A @ R @ S) \<longrightarrow> h' a = h a"
  proof (intro allI impI)
    fix a assume "a \<notin> set (P @ A @ R @ S)"
    then have "a \<noteq> last P" "a \<noteq> hd A" "a \<noteq> last A" "a \<noteq> hd R" "a \<noteq> last R" "a \<noteq> hd S"
      using mem by auto
    then show "h' a = h a" by (simp add: h'_def)
  qed
  ultimately show ?thesis
    using ne d nn by (auto simp: ring_def)
qed

text \<open>
  \<open>pos l ys\<close> points to the first element of the suffix \<open>ys\<close> of the list at \<open>l\<close>, or to its tail
  if \<open>ys\<close> is empty; \<open>prior l xs\<close> points to the last element of the prefix \<open>xs\<close>, or to its head.
\<close>

primrec pos :: "addr \<Rightarrow> addr list \<Rightarrow> addr" where
  "pos l [] = tail_addr l"
| "pos l (y # ys) = y"

definition prior :: "addr \<Rightarrow> addr list \<Rightarrow> addr" where
  "prior l xs = last (l # xs)"

lemma pos_eq_hd: "hd (ys @ [tail_addr l]) = pos l ys"
  by (cases ys) auto

lemma pos_append [simp]: "ys \<noteq> [] \<Longrightarrow> pos l (ys @ zs) = hd ys"
  by (cases ys) auto

lemma prior_simps [simp]: "prior l [] = l" "prior l (xs @ [x]) = x"
  by (simp_all add: prior_def)

lemma pos_in_cells: "pos l ys = tail_addr l \<or> pos l ys \<in> set ys"
  by (cases ys) auto

lemma prior_in_cells: "prior l xs = l \<or> prior l xs \<in> set xs"
  by (cases xs rule: rev_cases) auto

lemma pos_cells [simp, intro]:
  "pos l ys \<in> list_cells l (xs @ ys)" "prior l xs \<in> list_cells l (xs @ ys)"
  using pos_in_cells [of l ys] prior_in_cells [of l xs] by (auto simp: list_cells_def)

lemma pos_eq_tail_iff [simp]: "tail_addr l \<notin> set ys \<Longrightarrow> pos l ys = tail_addr l \<longleftrightarrow> ys = []"
  by (cases ys) auto

lemma list_repr_facts:
  assumes "list_repr h l xs"
  shows "l \<noteq> NULL" "tail_addr l \<noteq> NULL" "distinct xs" "l \<notin> set xs" "tail_addr l \<notin> set xs"
    "NULL \<notin> set xs"
  using assms by (auto simp: list_repr_def ring_def)

lemma list_repr_split:
  assumes "list_repr h l (xs @ x # ys)"
  shows "ring h ((l # xs) @ x # ys @ [tail_addr l])"
  using assms by (simp add: list_repr_def)

lemma list_cell_repr:
  assumes "list_repr h l (xs @ x # ys)"
  shows "is_interior h x" "elem_next (h x) = pos l ys" "elem_prev (h x) = prior l xs"
  using ring_kind(1) [OF list_repr_split [OF assms]] ring_split(2,3) [OF list_repr_split [OF assms]]
  by (simp_all add: pos_eq_hd prior_def)

lemma list_head_repr:
  assumes "list_repr h l xs"
  shows "is_head h l" "elem_next (h l) = pos l xs"
  using ring_kind(2) [of h "[]" l "xs @ [tail_addr l]"] assms
    ring_split(3) [of h "[]" l "xs @ [tail_addr l]"]
  by (simp_all add: pos_eq_hd list_repr_def)

lemma list_tail_repr:
  assumes "list_repr h l xs"
  shows "is_tail h (tail_addr l)" "elem_prev (h (tail_addr l)) = prior l xs"
  using ring_kind(3) [of h "l # xs" "tail_addr l" "[]"] assms
    ring_split(2) [of h "l # xs" "tail_addr l" "[]"]
  by (simp_all add: prior_def list_repr_def)

lemma list_begin_repr [returns]: "list_repr h l xs \<Longrightarrow> list_begin h l = Some (pos l xs)"
  by (simp add: list_begin_def bind_ASSERT list_repr_facts list_head_repr)

lemma list_end_repr [returns]: "list_repr h l xs \<Longrightarrow> list_end l = Some (tail_addr l)"
  by (simp add: list_end_def bind_ASSERT list_repr_facts)

lemma list_next_repr [returns]: "list_repr h l (xs @ x # ys) \<Longrightarrow> list_next h x = Some (pos l ys)"
  by (simp add: list_next_def bind_ASSERT list_cell_repr)

lemma list_next_head [returns]: "list_repr h l xs \<Longrightarrow> list_next h l = Some (pos l xs)"
  by (simp add: list_next_def bind_ASSERT list_head_repr)

lemma list_prev_repr [returns]: "list_repr h l (xs @ ys) \<Longrightarrow> list_prev h (pos l ys) = Some (prior l xs)"
  by (cases ys) (simp_all add: list_prev_def bind_ASSERT list_cell_repr list_tail_repr)

lemma list_empty_repr [returns]: "list_repr h l xs \<Longrightarrow> list_empty h l = Some (xs = [])"
  by (simp add: list_empty_def list_begin_repr list_end_repr list_repr_facts)

lemma list_front_repr [returns]:
  "list_repr h l xs \<Longrightarrow> list_front h l = (if xs = [] then None else Some (hd xs))"
  by (cases xs) (auto simp: list_front_def list_empty_repr bind_ASSERT list_head_repr)

lemma list_back_repr [returns]:
  "list_repr h l xs \<Longrightarrow> list_back h l = (if xs = [] then None else Some (last xs))"
  by (cases xs rule: rev_cases) (auto simp: list_back_def list_empty_repr bind_ASSERT list_tail_repr)

lemma list_insert_repr:
  assumes "list_repr h l (xs @ ys)" and "e \<notin> list_cells l (xs @ ys)" and "e \<noteq> NULL"
  shows "\<exists>h'. list_insert (pos l ys) e h = Some h' \<and> list_repr h' l (xs @ e # ys) \<and>
    (\<forall>a. a \<notin> insert e (list_cells l (xs @ ys)) \<longrightarrow> h' a = h a)"
proof -
  obtain S where bS: "ys @ [tail_addr l] = pos l ys # S" by (cases ys) auto
  have r: "ring h ((l # xs) @ pos l ys # S)"
    using assms(1) bS by (simp add: list_repr_def)
  have "set ((l # xs) @ pos l ys # S) = list_cells l (xs @ ys)"
    using bS [symmetric] by (auto simp: list_cells_def)
  then have e: "e \<notin> set ((l # xs) @ pos l ys # S)" using assms(2) by simp
  obtain h' where h': "list_insert (pos l ys) e h = Some h'" "ring h' ((l # xs) @ e # pos l ys # S)"
      "\<forall>a. a \<notin> {prior l xs, e, pos l ys} \<longrightarrow> h' a = h a"
    using ring_insert [OF r _ e assms(3)] unfolding prior_def by auto
  have "list_repr h' l (xs @ e # ys)"
    using h'(2) bS by (simp add: list_repr_def)
  moreover have "\<forall>a. a \<notin> insert e (list_cells l (xs @ ys)) \<longrightarrow> h' a = h a"
    using h'(3) pos_cells by (metis insertE insertI1 insertI2 singletonD)
  ultimately show ?thesis using h'(1) by auto
qed

lemma list_push_back_repr:
  assumes "list_repr h l xs" and "e \<notin> list_cells l xs" and "e \<noteq> NULL"
  shows "\<exists>h'. list_push_back l e h = Some h' \<and> list_repr h' l (xs @ [e]) \<and>
    (\<forall>a. a \<notin> insert e (list_cells l xs) \<longrightarrow> h' a = h a)"
  using list_insert_repr [of h l xs "[]" e] assms
  by (simp add: list_push_back_def list_end_repr [OF assms(1)])

lemma list_push_front_repr:
  assumes "list_repr h l xs" and "e \<notin> list_cells l xs" and "e \<noteq> NULL"
  shows "\<exists>h'. list_push_front l e h = Some h' \<and> list_repr h' l (e # xs) \<and>
    (\<forall>a. a \<notin> insert e (list_cells l xs) \<longrightarrow> h' a = h a)"
  using list_insert_repr [of h l "[]" xs e] assms
  by (simp add: list_push_front_def list_begin_repr [OF assms(1)])

lemma list_remove_repr:
  assumes "list_repr h l (xs @ e # ys)"
  shows "\<exists>h'. list_remove e h = Some (pos l ys, h') \<and> list_repr h' l (xs @ ys) \<and>
    (\<forall>a. a \<notin> list_cells l (xs @ ys) \<longrightarrow> h' a = h a)"
proof -
  obtain h' where h': "list_remove e h = Some (pos l ys, h')"
      "ring h' ((l # xs) @ ys @ [tail_addr l])"
      "\<forall>a. a \<notin> {prior l xs, pos l ys} \<longrightarrow> h' a = h a"
    using ring_remove [OF list_repr_split [OF assms]] by (auto simp: pos_eq_hd prior_def)
  have "\<forall>a. a \<notin> list_cells l (xs @ ys) \<longrightarrow> h' a = h a"
    using h'(3) pos_cells by (metis insertE singletonD)
  with h' show ?thesis by (auto simp: list_repr_def)
qed

lemma list_pop_front_repr:
  assumes "list_repr h l (x # xs)"
  shows "\<exists>h'. list_pop_front l h = Some (x, h') \<and> list_repr h' l xs \<and>
    (\<forall>a. a \<notin> list_cells l xs \<longrightarrow> h' a = h a)"
  using list_remove_repr [of h l "[]" x xs] assms
  by (auto simp: list_pop_front_def list_front_repr)

lemma list_pop_back_repr:
  assumes "list_repr h l (xs @ [x])"
  shows "\<exists>h'. list_pop_back l h = Some (x, h') \<and> list_repr h' l xs \<and>
    (\<forall>a. a \<notin> list_cells l xs \<longrightarrow> h' a = h a)"
  using list_remove_repr [of h l xs x "[]"] assms
  by (auto simp: list_pop_back_def list_back_repr)

lemma list_pop_empty:
  assumes "list_repr h l []"
  shows "list_pop_front l h = None" "list_pop_back l h = None"
  using assms by (simp_all add: list_pop_front_def list_pop_back_def list_front_repr list_back_repr)

section \<open>Loops over a list\<close>

lemma list_size_loop_repr:
  "list_repr h l (xs @ ys) \<Longrightarrow> list_size_loop h l (pos l ys) cnt = Some (cnt + of_nat (length ys))"
proof (induction ys arbitrary: xs cnt)
  case Nil
  then show ?case by (simp add: list_size_loop.simps list_end_repr)
next
  case (Cons y ys)
  have "y \<noteq> tail_addr l" using list_repr_facts(5) [OF Cons.prems] by auto
  moreover have "list_size_loop h l (pos l ys) (cnt + 1) = Some (cnt + 1 + of_nat (length ys))"
    using Cons.IH [of "xs @ [y]"] Cons.prems by simp
  ultimately show ?case
    by (subst list_size_loop.simps)
      (simp add: list_end_repr [OF Cons.prems] list_next_repr [OF Cons.prems] add_ac)
qed

lemma list_repr_length:
  assumes "list_repr h l xs"
  shows "length xs < 2 ^ 32"
proof -
  have "distinct (l # xs)" using list_repr_facts [OF assms] by simp
  then have "length (l # xs) = card (set (l # xs))" by (rule distinct_card [symmetric])
  also have "\<dots> \<le> card (UNIV :: addr set)" by (rule card_mono) simp_all
  finally show ?thesis by (simp add: card_word)
qed

lemma list_size_repr:
  assumes "list_repr h l xs"
  shows "list_size h l = Some (of_nat (length xs)) \<and> unat (of_nat (length xs) :: u32) = length xs"
  using list_size_loop_repr [of h l "[]" xs 0] assms list_repr_length [OF assms]
  by (simp add: list_size_def list_begin_repr unat_of_nat_small)

definition swap_elem :: "list_elem \<Rightarrow> list_elem" where
  "swap_elem e = \<lparr>elem_prev = elem_next e, elem_next = elem_prev e\<rparr>"

lemma swap_links_eq: "swap_links e h = h(e := swap_elem (h e))"
  by (cases "h e") (simp add: swap_links_def swap_elem_def Let_def set_prev_def set_next_def)

lemma list_reverse_loop_repr:
  assumes "chain h (ys @ [tail_addr l])" and "distinct (ys @ [tail_addr l])" and "NULL \<notin> set ys"
    and "l \<noteq> NULL"
  shows "list_reverse_loop l (pos l ys) h =
    Some (\<lambda>a. if a \<in> set ys then swap_elem (h a) else h a)"
  using assms
proof (induction ys arbitrary: h)
  case Nil
  then show ?case by (subst list_reverse_loop.simps) (simp add: list_end_def bind_ASSERT)
next
  case (Cons y ys)
  define h' where "h' = h(y := swap_elem (h y))"
  have next_y: "elem_next (h y) = pos l ys"
    using Cons.prems(1) by (auto simp: chain_Cons linked_def pos_eq_hd)
  have "chain h' (ys @ [tail_addr l]) = chain h (ys @ [tail_addr l])"
    using Cons.prems(2) by (intro chain_cong) (auto simp: h'_def dest: in_set_butlastD in_set_tlD)
  then have "list_reverse_loop l (pos l ys) h' =
      Some (\<lambda>a. if a \<in> set ys then swap_elem (h' a) else h' a)"
    using Cons.IH [of h'] Cons.prems by (auto simp: chain_Cons)
  moreover have "(\<lambda>a. if a \<in> set ys then swap_elem (h' a) else h' a) =
      (\<lambda>a. if a \<in> set (y # ys) then swap_elem (h a) else h a)"
    using Cons.prems(2) by (auto simp: h'_def)
  moreover have "elem_prev (h' y) = pos l ys"
    using next_y by (simp add: swap_elem_def h'_def)
  ultimately show ?case
    using Cons.prems by (subst list_reverse_loop.simps)
      (simp add: list_end_def bind_ASSERT swap_links_eq Let_def flip: h'_def)
qed

lemma chain_rev_swap:
  "\<forall>a \<in> set cs. h' a = swap_elem (h a) \<Longrightarrow> chain h' (rev cs) = chain h cs"
  by (induction cs) (auto simp: chain_append chain_Cons linked_def swap_elem_def last_rev)

lemma list_reverse_repr:
  assumes r: "list_repr h l xs"
  shows "\<exists>h'. list_reverse l h = Some h' \<and> list_repr h' l (rev xs) \<and>
    (\<forall>a. a \<notin> list_cells l xs \<longrightarrow> h' a = h a)"
proof (cases "xs = []")
  case True
  with r show ?thesis by (auto simp: list_reverse_def list_empty_repr)
next
  case False
  let ?t = "tail_addr l"
  define h1 where "h1 = (\<lambda>a. if a \<in> set xs then swap_elem (h a) else h a)"
  define h4 where "h4 = set_next (hd xs) ?t (set_prev (last xs) l
    (set_prev ?t (hd xs) (set_next l (last xs) h1)))"
  have mem: "hd xs \<in> set xs" "last xs \<in> set xs" using False by auto
  note f = list_repr_facts [OF r]
  have rg: "chain h (l # xs @ [?t])" "elem_prev (h l) = NULL" "elem_next (h ?t) = NULL"
    using r by (auto simp: list_repr_def ring_def)
  have lk: "linked h l (hd xs)" "chain h xs" "linked h (last xs) ?t" "chain h (xs @ [?t])"
    using rg(1) False by (auto simp: chain_Cons chain_append)
  have loop: "list_reverse_loop l (pos l xs) h = Some h1"
    unfolding h1_def using lk(4) f by (intro list_reverse_loop_repr) auto
  have h1: "elem_next (h1 l) = hd xs" "elem_prev (h1 ?t) = last xs"
      "elem_prev (h1 (last xs)) = ?t" "elem_next (h1 (hd xs)) = l"
    using lk f mem by (auto simp: h1_def linked_def swap_elem_def)
  have ne: "last xs \<noteq> l" "last xs \<noteq> ?t" "hd xs \<noteq> l" "hd xs \<noteq> ?t" "hd xs \<noteq> NULL" "last xs \<noteq> NULL"
    using f mem by auto
  have "list_reverse l h = Some h4"
    using loop h1 ne False
    by (auto simp: list_reverse_def list_empty_repr [OF r] list_begin_repr [OF r] bind_ASSERT
        swap_next_prev_def swap_prev_next_def h4_def Let_def)
  moreover have "list_repr h4 l (rev xs)"
  proof -
    have "chain h1 (rev xs)" using chain_rev_swap [of xs h1 h] lk(2) by (simp add: h1_def)
    moreover have "hd xs \<notin> set (butlast (rev xs))" "last xs \<notin> set (tl (rev xs))"
      using butlast_notin_last [of "rev xs"] tl_notin_hd [of "rev xs"] f(3) False
      by (simp_all add: last_rev hd_rev)
    moreover have "?t \<notin> set (tl (rev xs))" "l \<notin> set (butlast (rev xs))"
      using f(4,5) by (auto dest: in_set_butlastD in_set_tlD)
    ultimately have "chain h4 (rev xs)"
      by (simp add: h4_def chain_set_next chain_set_prev)
    moreover have "linked h4 l (last xs)" "linked h4 (hd xs) ?t" "elem_prev (h4 l) = NULL"
        "elem_next (h4 ?t) = NULL"
      using ne rg f by (auto simp: linked_def h4_def h1_def)
    ultimately show ?thesis
      using False f by (auto simp: list_repr_def ring_def chain_Cons chain_append hd_rev last_rev)
  qed
  moreover have "\<forall>a. a \<notin> list_cells l xs \<longrightarrow> h4 a = h a"
  proof (intro allI impI)
    fix a assume "a \<notin> list_cells l xs"
    then have "a \<noteq> l" "a \<noteq> ?t" "a \<notin> set xs" by (auto simp: list_cells_def)
    moreover have "a \<noteq> hd xs" "a \<noteq> last xs" using \<open>a \<notin> set xs\<close> mem by auto
    ultimately show "h4 a = h a" by (simp add: h4_def h1_def)
  qed
  ultimately show ?thesis by blast
qed

section \<open>Ordered insertion, extrema and duplicates\<close>

text \<open>The abstract counterparts on sequences.\<close>

definition insert_ord :: "('e \<Rightarrow> 'e \<Rightarrow> bool) \<Rightarrow> 'e \<Rightarrow> 'e list \<Rightarrow> 'e list" where
  "insert_ord lt e xs = takeWhile (\<lambda>x. \<not> lt e x) xs @ e # dropWhile (\<lambda>x. \<not> lt e x) xs"

fun unique_spec :: "('e \<Rightarrow> 'e \<Rightarrow> bool) \<Rightarrow> 'e \<Rightarrow> 'e list \<Rightarrow> 'e list \<times> 'e list" where
  "unique_spec lt x [] = ([], [])"
| "unique_spec lt x (y # ys) =
     (if \<not> lt x y \<and> \<not> lt y x
      then let (kept, dups) = unique_spec lt x ys in (kept, y # dups)
      else let (kept, dups) = unique_spec lt y ys in (y # kept, dups))"

definition first_max :: "('e \<Rightarrow> 'e \<Rightarrow> bool) \<Rightarrow> 'e \<Rightarrow> 'e list \<Rightarrow> 'e" where
  "first_max lt x xs = foldl (\<lambda>m e. if lt m e then e else m) x xs"

definition first_min :: "('e \<Rightarrow> 'e \<Rightarrow> bool) \<Rightarrow> 'e \<Rightarrow> 'e list \<Rightarrow> 'e" where
  "first_min lt x xs = foldl (\<lambda>m e. if lt e m then e else m) x xs"

lemma insert_pos_loop_repr:
  "list_repr h l (xs @ ys) \<Longrightarrow>
     insert_pos_loop lt h l e (pos l ys) = Some (pos l (dropWhile (\<lambda>x. \<not> lt e x) ys))"
proof (induction ys arbitrary: xs)
  case Nil
  then show ?case by (subst insert_pos_loop.simps) (simp add: list_end_repr)
next
  case (Cons y ys)
  have "y \<noteq> tail_addr l" using list_repr_facts(5) [OF Cons.prems] by auto
  moreover have "insert_pos_loop lt h l e (pos l ys) = Some (pos l (dropWhile (\<lambda>x. \<not> lt e x) ys))"
    using Cons.IH [of "xs @ [y]"] Cons.prems by simp
  ultimately show ?case
    by (subst insert_pos_loop.simps)
      (simp add: list_end_repr [OF Cons.prems] list_next_repr [OF Cons.prems])
qed

lemma list_insert_ordered_repr:
  assumes r: "list_repr h l xs" and e: "e \<notin> list_cells l xs" "e \<noteq> NULL"
  shows "\<exists>h'. list_insert_ordered lt l e h = Some h' \<and> list_repr h' l (insert_ord lt e xs) \<and>
    (\<forall>a. a \<notin> insert e (list_cells l xs) \<longrightarrow> h' a = h a)"
proof -
  let ?ys = "takeWhile (\<lambda>x. \<not> lt e x) xs" and ?zs = "dropWhile (\<lambda>x. \<not> lt e x) xs"
  have "insert_pos_loop lt h l e (pos l xs) = Some (pos l ?zs)"
    using insert_pos_loop_repr [of h l "[]" xs] r by simp
  then show ?thesis
    using list_insert_repr [of h l ?ys ?zs e] r e
    by (simp add: list_insert_ordered_def bind_ASSERT list_repr_facts list_begin_repr insert_ord_def)
qed

lemma list_max_loop_repr:
  "list_repr h l (xs @ ys) \<Longrightarrow> list_max_loop lt h l m (pos l ys) = Some (first_max lt m ys)"
proof (induction ys arbitrary: xs m)
  case Nil
  then show ?case by (subst list_max_loop.simps) (simp add: list_end_repr first_max_def)
next
  case (Cons y ys)
  have "y \<noteq> tail_addr l" using list_repr_facts(5) [OF Cons.prems] by auto
  moreover have "list_max_loop lt h l k (pos l ys) = Some (first_max lt k ys)" for k
    using Cons.IH [of "xs @ [y]"] Cons.prems by simp
  ultimately show ?case
    by (subst list_max_loop.simps)
      (simp add: list_end_repr [OF Cons.prems] list_next_repr [OF Cons.prems] first_max_def)
qed

lemma list_max_repr:
  assumes "list_repr h l xs"
  shows "list_max lt h l = Some (case xs of [] \<Rightarrow> tail_addr l | x # ys \<Rightarrow> first_max lt x ys)"
proof (cases xs)
  case Nil
  with assms show ?thesis by (simp add: list_max_def list_begin_repr list_end_repr)
next
  case (Cons x ys)
  have "x \<noteq> tail_addr l" using list_repr_facts(5) [OF assms] Cons by auto
  then show ?thesis
    using assms list_max_loop_repr [of h l "[x]" ys lt x] list_next_repr [of h l "[]" x ys]
    by (simp add: list_max_def list_begin_repr list_end_repr Cons)
qed

lemma list_min_loop_repr:
  "list_repr h l (xs @ ys) \<Longrightarrow> list_min_loop lt h l m (pos l ys) = Some (first_min lt m ys)"
proof (induction ys arbitrary: xs m)
  case Nil
  then show ?case by (subst list_min_loop.simps) (simp add: list_end_repr first_min_def)
next
  case (Cons y ys)
  have "y \<noteq> tail_addr l" using list_repr_facts(5) [OF Cons.prems] by auto
  moreover have "list_min_loop lt h l k (pos l ys) = Some (first_min lt k ys)" for k
    using Cons.IH [of "xs @ [y]"] Cons.prems by simp
  ultimately show ?case
    by (subst list_min_loop.simps)
      (simp add: list_end_repr [OF Cons.prems] list_next_repr [OF Cons.prems] first_min_def)
qed

lemma list_min_repr:
  assumes "list_repr h l xs"
  shows "list_min lt h l = Some (case xs of [] \<Rightarrow> tail_addr l | x # ys \<Rightarrow> first_min lt x ys)"
proof (cases xs)
  case Nil
  with assms show ?thesis by (simp add: list_min_def list_begin_repr list_end_repr)
next
  case (Cons x ys)
  have "x \<noteq> tail_addr l" using list_repr_facts(5) [OF assms] Cons by auto
  then show ?thesis
    using assms list_min_loop_repr [of h l "[x]" ys lt x] list_next_repr [of h l "[]" x ys]
    by (simp add: list_min_def list_begin_repr list_end_repr Cons)
qed

lemma list_unique_loop_repr:
  assumes "list_repr h l (xs @ x # ys)" and "list_repr h D ds"
    and "list_cells l (xs @ x # ys) \<inter> list_cells D ds = {}"
    and "unique_spec lt x ys = (kept, dups)"
  shows "\<exists>h'. list_unique_loop lt l D x h = Some h' \<and>
    list_repr h' l (xs @ x # kept) \<and> list_repr h' D (ds @ dups)"
  using assms
proof (induction ys arbitrary: h xs x ds kept dups)
  case Nil
  then show ?case
    by (subst list_unique_loop.simps) (simp add: list_end_repr list_next_repr)
next
  case (Cons y ys)
  note r = Cons.prems(1) and rD = Cons.prems(2)
  have y: "y \<noteq> tail_addr l" "y \<noteq> NULL" "y \<notin> list_cells l (xs @ x # ys)" "y \<notin> list_cells D ds"
    using list_repr_facts [OF r] Cons.prems(3) by (auto simp: list_cells_def)
  have nx: "list_next h x = Some y" using list_next_repr [OF r] by simp
  show ?case
  proof (cases "\<not> lt x y \<and> \<not> lt y x")
    case False
    obtain k where k: "unique_spec lt y ys = (k, dups)" "kept = y # k"
      using False Cons.prems(4) by (auto split: prod.splits)
    have "\<exists>h'. list_unique_loop lt l D y h = Some h' \<and>
        list_repr h' l ((xs @ [x]) @ y # k) \<and> list_repr h' D (ds @ dups)"
      using Cons.prems k by (intro Cons.IH) auto
    then show ?thesis
      using False y k(2)
      by (subst list_unique_loop.simps) (auto simp: nx list_end_repr [OF r])
  next
    case True
    obtain d where d: "unique_spec lt x ys = (kept, d)" "dups = y # d"
      using True Cons.prems(4) by (auto split: prod.splits)
    obtain h1 where h1: "list_remove y h = Some (pos l ys, h1)" "list_repr h1 l (xs @ x # ys)"
        "\<And>a. a \<notin> list_cells l (xs @ x # ys) \<Longrightarrow> h1 a = h a"
      using list_remove_repr [of h l "xs @ [x]" y ys] r by auto
    have "list_cells l (xs @ x # ys) \<inter> list_cells D ds = {}"
      using Cons.prems(3) by (auto simp: list_cells_def)
    then have "list_repr h1 D ds"
      using h1(3) by (intro list_repr_frame [OF rD]) auto
    then obtain h2 where h2: "list_push_back D y h1 = Some h2" "list_repr h2 D (ds @ [y])"
        "\<And>a. a \<notin> insert y (list_cells D ds) \<Longrightarrow> h2 a = h1 a"
      using list_push_back_repr [of h1 D ds y] y by auto
    have "list_repr h2 l (xs @ x # ys)"
      using h2(3) y(3) \<open>list_cells l (xs @ x # ys) \<inter> list_cells D ds = {}\<close>
      by (intro list_repr_frame [OF h1(2)]) (metis disjoint_iff insert_iff)
    moreover have "list_cells l (xs @ x # ys) \<inter> list_cells D (ds @ [y]) = {}"
      using \<open>list_cells l (xs @ x # ys) \<inter> list_cells D ds = {}\<close> y(3)
      by (auto simp: list_cells_def)
    ultimately have "\<exists>h'. list_unique_loop lt l D x h2 = Some h' \<and>
        list_repr h' l (xs @ x # kept) \<and> list_repr h' D ((ds @ [y]) @ d)"
      using h2(2) d(1) by (intro Cons.IH)
    moreover have "D \<noteq> NULL" using list_repr_facts(1) [OF rD] .
    ultimately show ?thesis
      using True y d(2) h1(1) h2(1)
      by (subst list_unique_loop.simps) (auto simp: nx list_end_repr [OF r])
  qed
qed

lemma list_unique_loop_repr_null:
  assumes "list_repr h l (xs @ x # ys)" and "unique_spec lt x ys = (kept, dups)"
  shows "\<exists>h'. list_unique_loop lt l NULL x h = Some h' \<and> list_repr h' l (xs @ x # kept)"
  using assms
proof (induction ys arbitrary: h xs x kept dups)
  case Nil
  then show ?case
    by (subst list_unique_loop.simps) (simp add: list_end_repr list_next_repr)
next
  case (Cons y ys)
  note r = Cons.prems(1)
  have y: "y \<noteq> tail_addr l" using list_repr_facts [OF r] by auto
  have nx: "list_next h x = Some y" using list_next_repr [OF r] by simp
  show ?case
  proof (cases "\<not> lt x y \<and> \<not> lt y x")
    case False
    obtain k where k: "unique_spec lt y ys = (k, dups)" "kept = y # k"
      using False Cons.prems(2) by (auto split: prod.splits)
    have "\<exists>h'. list_unique_loop lt l NULL y h = Some h' \<and> list_repr h' l ((xs @ [x]) @ y # k)"
      using Cons.prems k by (intro Cons.IH) auto
    then show ?thesis
      using False y k(2) by (subst list_unique_loop.simps) (auto simp: nx list_end_repr [OF r])
  next
    case True
    obtain d where d: "unique_spec lt x ys = (kept, d)"
      using True Cons.prems(2) by (auto split: prod.splits)
    obtain h1 where h1: "list_remove y h = Some (pos l ys, h1)" "list_repr h1 l (xs @ x # ys)"
      using list_remove_repr [of h l "xs @ [x]" y ys] r by auto
    with Cons.IH [OF h1(2) d] show ?thesis
      using True y by (subst list_unique_loop.simps) (auto simp: nx list_end_repr [OF r])
  qed
qed

lemma list_unique_repr:
  assumes "list_repr h l (x # xs)" and "list_repr h D ds"
    and "list_cells l (x # xs) \<inter> list_cells D ds = {}" and "unique_spec lt x xs = (kept, dups)"
  shows "\<exists>h'. list_unique lt l D h = Some h' \<and> list_repr h' l (x # kept) \<and> list_repr h' D (ds @ dups)"
  using list_unique_loop_repr [of h l "[]" x xs D ds lt kept dups] assms
  by (simp add: list_unique_def bind_ASSERT list_empty_repr list_begin_repr list_repr_facts)

lemma list_unique_repr_null:
  assumes "list_repr h l (x # xs)" and "unique_spec lt x xs = (kept, dups)"
  shows "\<exists>h'. list_unique lt l NULL h = Some h' \<and> list_repr h' l (x # kept)"
  using list_unique_loop_repr_null [of h l "[]" x xs lt kept dups] assms
  by (simp add: list_unique_def bind_ASSERT list_empty_repr list_begin_repr list_repr_facts)

section \<open>The merge sort at the level of sequences\<close>

text \<open>
  \<open>take_run\<close> splits off the longest non-decreasing run, \<open>merge_runs\<close> is the stable merge,
  \<open>sort_pass\<close> merges runs pairwise and counts the runs it outputs.
\<close>

fun take_run :: "('e \<Rightarrow> 'e \<Rightarrow> bool) \<Rightarrow> 'e \<Rightarrow> 'e list \<Rightarrow> 'e list \<times> 'e list" where
  "take_run lt x [] = ([], [])"
| "take_run lt x (y # ys) =
     (if lt y x then ([], y # ys) else let (run, rest) = take_run lt y ys in (y # run, rest))"

fun merge_runs :: "('e \<Rightarrow> 'e \<Rightarrow> bool) \<Rightarrow> 'e list \<Rightarrow> 'e list \<Rightarrow> 'e list" where
  "merge_runs lt (a # as) (b # bs) =
     (if \<not> lt b a then a # merge_runs lt as (b # bs) else b # merge_runs lt (a # as) bs)"
| "merge_runs lt [] bs = bs"
| "merge_runs lt as [] = as"

lemma take_run_append: "take_run lt x ys = (run, rest) \<Longrightarrow> ys = run @ rest"
  by (induction ys arbitrary: x run rest) (auto split: if_splits prod.splits)

lemma take_run_length: "take_run lt x ys = (run, rest) \<Longrightarrow> length rest \<le> length ys"
  using take_run_append by fastforce

function sort_pass :: "('e \<Rightarrow> 'e \<Rightarrow> bool) \<Rightarrow> 'e list \<Rightarrow> 'e list \<times> nat" where
  "sort_pass lt [] = ([], 0)"
| "sort_pass lt (x # xs) =
     (case take_run lt x xs of
        (run, []) \<Rightarrow> (x # run, 1)
      | (run, y # ys) \<Rightarrow>
          (case take_run lt y ys of (run', rest) \<Rightarrow>
             (case sort_pass lt rest of (out, n) \<Rightarrow>
                (merge_runs lt (x # run) (y # run') @ out, n + 1))))"
  by pat_completeness auto
termination
  by (relation "measure (\<lambda>(lt, xs). length xs)") (auto dest!: take_run_length [OF sym])

abbreviation sorted_adj :: "('e \<Rightarrow> 'e \<Rightarrow> bool) \<Rightarrow> 'e list \<Rightarrow> bool" where
  "sorted_adj lt \<equiv> successively (\<lambda>a b. \<not> lt b a)"

lemma take_run_sorted: "take_run lt x ys = (run, rest) \<Longrightarrow> sorted_adj lt (x # run)"
  by (induction ys arbitrary: x run rest) (auto split: if_splits prod.splits)

section \<open>The pointer-level merge sort implements the passes\<close>

lemma pos_neq_suffix:
  assumes "list_repr h l (xs @ ys @ zs)" and "ys \<noteq> []"
  shows "pos l (ys @ zs) \<noteq> pos l zs"
  using assms list_repr_facts [OF assms(1)] pos_in_cells [of l zs] by (cases ys) auto

lemma pos_neq_NULL: "list_repr h l (xs @ ys) \<Longrightarrow> pos l ys \<noteq> NULL"
  using list_repr_facts [of h l "xs @ ys"] pos_in_cells [of l ys] by auto

lemma is_sorted_loop_repr:
  "list_repr h l (xs @ x # ys @ zs) \<Longrightarrow>
     is_sorted_loop lt h x (pos l zs) = Some (sorted_adj lt (x # ys))"
proof (induction ys arbitrary: xs x)
  case Nil
  then show ?case by (subst is_sorted_loop.simps) (simp add: list_next_repr)
next
  case (Cons y ys)
  have "list_next h x = Some y" using list_next_repr [OF Cons.prems] by simp
  moreover have "list_prev h y = Some x"
    using list_prev_repr [of h l "xs @ [x]" "y # ys @ zs"] Cons.prems by simp
  moreover have "y \<noteq> pos l zs"
    using pos_neq_suffix [of h l "xs @ [x]" "y # ys" zs] Cons.prems by simp
  moreover have "is_sorted_loop lt h y (pos l zs) = Some (sorted_adj lt (y # ys))"
    using Cons.IH [of "xs @ [x]" y] Cons.prems by simp
  ultimately show ?case by (subst is_sorted_loop.simps) simp
qed

lemma is_sorted_repr:
  assumes "list_repr h l (xs @ ys @ zs)"
  shows "is_sorted lt h (pos l (ys @ zs)) (pos l zs) = Some (sorted_adj lt ys)"
proof (cases ys)
  case Nil
  then show ?thesis by (simp add: is_sorted_def)
next
  case (Cons y ys')
  then show ?thesis
    using pos_neq_suffix [OF assms] is_sorted_loop_repr [of h l xs y ys' zs] assms
    by (simp add: is_sorted_def)
qed

lemma find_run_loop_repr:
  "list_repr h l (xs @ x # ys) \<Longrightarrow> take_run lt x ys = (run, rest) \<Longrightarrow>
     find_run_loop lt h x (tail_addr l) = Some (pos l rest)"
proof (induction ys arbitrary: xs x run)
  case Nil
  then show ?case by (subst find_run_loop.simps) (auto simp: list_next_repr)
next
  case (Cons y ys)
  have "list_next h x = Some y" using list_next_repr [OF Cons.prems(1)] by simp
  moreover have "list_prev h y = Some x"
    using list_prev_repr [of h l "xs @ [x]" "y # ys"] Cons.prems(1) by simp
  moreover have "y \<noteq> tail_addr l" using list_repr_facts(5) [OF Cons.prems(1)] by auto
  moreover have "\<not> lt y x \<Longrightarrow> find_run_loop lt h y (tail_addr l) = Some (pos l rest)"
    using Cons.IH [of "xs @ [x]" y] Cons.prems by (auto split: prod.splits)
  ultimately show ?case
    using Cons.prems(2) by (subst find_run_loop.simps) (auto split: if_splits)
qed

lemma find_end_of_run_repr:
  assumes "list_repr h l (xs @ x # ys)" and "take_run lt x ys = (run, rest)"
  shows "find_end_of_run lt h x (tail_addr l) = Some (pos l rest)"
  using find_run_loop_repr [OF assms] list_repr_facts [OF assms(1)]
  by (auto simp: find_end_of_run_def bind_ASSERT)

lemma list_splice_repr:
  assumes "list_repr h l (xs @ as @ bs @ zs)" and "as \<noteq> []" and "bs \<noteq> []"
  shows "\<exists>h'. list_splice (hd as) (hd bs) (pos l zs) h = Some h' \<and>
    list_repr h' l (xs @ bs @ as @ zs) \<and> (\<forall>a. a \<notin> list_cells l (xs @ as @ bs @ zs) \<longrightarrow> h' a = h a)"
  using ring_splice [of h "l # xs" as bs "zs @ [tail_addr l]"] assms
  by (auto simp: list_repr_def pos_eq_hd list_cells_def)

lemma merge_loop_repr:
  assumes "list_repr h l (xs @ as @ bs @ zs)"
  shows "\<exists>h'. merge_loop lt (pos l (as @ bs @ zs)) (pos l (bs @ zs)) (pos l zs) h = Some h' \<and>
    list_repr h' l (xs @ merge_runs lt as bs @ zs) \<and>
    (\<forall>a. a \<notin> list_cells l (xs @ as @ bs @ zs) \<longrightarrow> h' a = h a)"
  using assms
proof (induction "length as + length bs" arbitrary: h xs as bs)
  case 0
  then show ?case by (subst merge_loop.simps) auto
next
  case (Suc n)
  note r = Suc.prems
  show ?case
  proof (cases "as = [] \<or> bs = []")
    case True
    then show ?thesis using r by (subst merge_loop.simps) (cases as; cases bs; auto)
  next
    case False
    then obtain a as' b bs' where ab: "as = a # as'" "bs = b # bs'" by (auto simp: neq_Nil_conv)
    have ne: "pos l (as @ bs @ zs) \<noteq> pos l (bs @ zs)" "pos l (bs @ zs) \<noteq> pos l zs"
      using pos_neq_suffix [of h l xs as "bs @ zs"] pos_neq_suffix [of h l "xs @ as" bs zs] r False
      by auto
    show ?thesis
    proof (cases "lt b a")
      case False
      have "list_next h a = Some (pos l (as' @ bs @ zs))"
        using list_next_repr [of h l xs a "as' @ bs @ zs"] r ab by simp
      moreover have "\<exists>h'. merge_loop lt (pos l (as' @ bs @ zs)) (pos l (bs @ zs)) (pos l zs) h = Some h' \<and>
          list_repr h' l ((xs @ [a]) @ merge_runs lt as' bs @ zs) \<and>
          (\<forall>c. c \<notin> list_cells l ((xs @ [a]) @ as' @ bs @ zs) \<longrightarrow> h' c = h c)"
        using r ab Suc.hyps(2) by (intro Suc.hyps(1)) auto
      ultimately show ?thesis
        using False ne ab by (subst merge_loop.simps) auto
    next
      case True
      have nx: "list_next h b = Some (pos l (bs' @ zs))"
        using list_next_repr [of h l "xs @ as" b "bs' @ zs"] r ab by simp
      have pv: "list_prev h (pos l (bs' @ zs)) = Some b"
        using list_prev_repr [of h l "xs @ as @ [b]" "bs' @ zs"] r ab
          prior_simps(2) [of l "xs @ as" b] by simp
      obtain h1 where h1: "list_splice a b (pos l (bs' @ zs)) h = Some h1"
          "list_repr h1 l (xs @ [b] @ as @ bs' @ zs)"
          "\<forall>c. c \<notin> list_cells l (xs @ as @ bs @ zs) \<longrightarrow> h1 c = h c"
        using list_splice_repr [of h l xs as "[b]" "bs' @ zs"] r ab by auto
      have "\<exists>h'. merge_loop lt (pos l (as @ bs' @ zs)) (pos l (bs' @ zs)) (pos l zs) h1 = Some h' \<and>
          list_repr h' l ((xs @ [b]) @ merge_runs lt as bs' @ zs) \<and>
          (\<forall>c. c \<notin> list_cells l ((xs @ [b]) @ as @ bs' @ zs) \<longrightarrow> h' c = h1 c)"
        using h1(2) ab Suc.hyps(2) by (intro Suc.hyps(1)) auto
      moreover have "list_cells l ((xs @ [b]) @ as @ bs' @ zs) = list_cells l (xs @ as @ bs @ zs)"
        using ab by (auto simp: list_cells_def)
      ultimately show ?thesis
        using True ne ab nx pv h1 by (subst merge_loop.simps) auto
    qed
  qed
qed

lemma inplace_merge_repr:
  assumes r: "list_repr h l (xs @ as @ bs @ zs)" and s: "sorted_adj lt as" "sorted_adj lt bs"
  shows "\<exists>h'. inplace_merge lt (pos l (as @ bs @ zs)) (pos l (bs @ zs)) (pos l zs) h = Some h' \<and>
    list_repr h' l (xs @ merge_runs lt as bs @ zs) \<and>
    (\<forall>a. a \<notin> list_cells l (xs @ as @ bs @ zs) \<longrightarrow> h' a = h a)"
  using merge_loop_repr [OF r] s is_sorted_repr [of h l xs as "bs @ zs" lt]
    is_sorted_repr [of h l "xs @ as" bs zs lt] pos_neq_NULL [of h l xs "as @ bs @ zs"]
    pos_neq_NULL [of h l "xs @ as" "bs @ zs"] pos_neq_NULL [of h l "xs @ as @ bs" zs] r
  by (simp add: inplace_merge_def bind_ASSERT)

lemma set_merge_runs: "set (merge_runs lt as bs) = set as \<union> set bs"
  by (induction lt as bs rule: merge_runs.induct) auto

lemma sort_pass_loop_repr:
  assumes "list_repr h l (xs @ ys)" and "sort_pass lt ys = (out, n)"
  shows "\<exists>h'. sort_pass_loop lt l (pos l ys) cnt h = Some (h', cnt + n) \<and> list_repr h' l (xs @ out) \<and>
    (\<forall>a. a \<notin> list_cells l (xs @ ys) \<longrightarrow> h' a = h a)"
  using assms
proof (induction lt ys arbitrary: h xs out n cnt rule: sort_pass.induct)
  case (1 lt)
  then show ?case by (subst sort_pass_loop.simps) (auto simp: list_end_repr)
next
  case (2 lt x ys)
  note r = "2.prems"(1)
  obtain run rest where t1: "take_run lt x ys = (run, rest)" by fastforce
  have e1: "find_end_of_run lt h x (tail_addr l) = Some (pos l rest)"
    using find_end_of_run_repr [OF r t1] .
  have x: "x \<noteq> tail_addr l" using list_repr_facts(5) [OF r] by auto
  show ?case
  proof (cases rest)
    case Nil
    then show ?thesis
      using r "2.prems"(2) x e1 t1 take_run_append [OF t1]
      by (subst sort_pass_loop.simps) (auto simp: list_end_repr [OF r])
  next
    case (Cons y zs)
    obtain run' rest' where t2: "take_run lt y zs = (run', rest')" by fastforce
    obtain out' n' where p: "sort_pass lt rest' = (out', n')" by fastforce
    have out: "out = merge_runs lt (x # run) (y # run') @ out'" "n = n' + 1"
      using "2.prems"(2) t1 t2 p Cons by simp_all
    have ys: "x # ys = (x # run) @ (y # run') @ rest'"
      using take_run_append [OF t1] take_run_append [OF t2] Cons by simp
    have y: "y \<noteq> tail_addr l" using list_repr_facts(5) [OF r] ys by auto
    have e2: "find_end_of_run lt h y (tail_addr l) = Some (pos l rest')"
      using find_end_of_run_repr [of h l "xs @ x # run" y zs lt run' rest'] r ys t2
        take_run_append [OF t2] by simp
    obtain h1 where h1: "inplace_merge lt x y (pos l rest') h = Some h1"
        "list_repr h1 l (xs @ merge_runs lt (x # run) (y # run') @ rest')"
        "\<forall>a. a \<notin> list_cells l (xs @ x # ys) \<longrightarrow> h1 a = h a"
      using inplace_merge_repr [of h l xs "x # run" "y # run'" rest' lt]
        take_run_sorted [OF t1] take_run_sorted [OF t2] r ys by auto
    have "\<exists>h'. sort_pass_loop lt l (pos l rest') (cnt + 1) h1 = Some (h', cnt + 1 + n') \<and>
        list_repr h' l ((xs @ merge_runs lt (x # run) (y # run')) @ out') \<and>
        (\<forall>a. a \<notin> list_cells l ((xs @ merge_runs lt (x # run) (y # run')) @ rest') \<longrightarrow> h' a = h1 a)"
      using h1(2) p t1 t2 Cons by (intro "2.IH") auto
    moreover have "list_cells l ((xs @ merge_runs lt (x # run) (y # run')) @ rest') =
        list_cells l (xs @ x # ys)"
      using ys by (auto simp: list_cells_def set_merge_runs)
    ultimately show ?thesis
      using x y e1 e2 h1 Cons out
      by (subst sort_pass_loop.simps) (auto simp: list_end_repr [OF r])
  qed
qed

section \<open>The contract of comparison functions\<close>

text \<open>
  What \<^verbatim>\<open>list.h\<close> asks of a \<^verbatim>\<open>list_less_func\<close>: a strict weak order. The sequence-level facts
  about sorting, ordered insertion and extrema are proved once here, for every such function.
\<close>

fun descents :: "('e \<Rightarrow> 'e \<Rightarrow> bool) \<Rightarrow> 'e list \<Rightarrow> nat" where
  "descents lt (x # y # ys) = (if lt y x then 1 else 0) + descents lt (y # ys)"
| "descents lt _ = 0"

lemma descents_append:
  "descents lt (xs @ ys) =
     descents lt xs + descents lt ys +
     (if xs \<noteq> [] \<and> ys \<noteq> [] \<and> lt (hd ys) (last xs) then 1 else 0)"
  by (induction lt xs rule: descents.induct) (cases ys; auto)+

lemma descents_zero: "descents lt xs = 0 \<longleftrightarrow> sorted_adj lt xs"
  by (induction lt xs rule: descents.induct) auto

lemma mset_merge_runs: "mset (merge_runs lt as bs) = mset as + mset bs"
  by (induction lt as bs rule: merge_runs.induct) auto

lemma mset_sort_pass: "sort_pass lt xs = (out, n) \<Longrightarrow> mset out = mset xs"
proof (induction lt xs arbitrary: out n rule: sort_pass.induct)
  case (2 lt x xs)
  obtain run rest where t1: "take_run lt x xs = (run, rest)" by fastforce
  show ?case
  proof (cases rest)
    case Nil
    then show ?thesis using "2.prems" t1 take_run_append [OF t1] by simp
  next
    case (Cons y zs)
    obtain run' rest' where t2: "take_run lt y zs = (run', rest')" by fastforce
    obtain out' n' where p: "sort_pass lt rest' = (out', n')" by fastforce
    have "mset out' = mset rest'" using "2.IH" t1 t2 p Cons by auto
    then show ?thesis
      using "2.prems" t1 t2 p Cons take_run_append [OF t1] take_run_append [OF t2]
      by (auto simp: mset_merge_runs)
  qed
qed auto

lemma take_run_descents:
  "take_run lt x ys = (run, rest) \<Longrightarrow>
     descents lt (x # ys) = (if rest = [] then 0 else 1 + descents lt rest)"
  by (induction ys arbitrary: x run rest) (auto split: if_splits prod.splits)

lemma sort_pass_count:
  "sort_pass lt xs = (out, n) \<Longrightarrow> xs \<noteq> [] \<Longrightarrow> n = (descents lt xs + 2) div 2"
proof (induction lt xs arbitrary: out n rule: sort_pass.induct)
  case (2 lt x xs)
  obtain run rest where t1: "take_run lt x xs = (run, rest)" by fastforce
  show ?case
  proof (cases rest)
    case Nil
    then show ?thesis using "2.prems" t1 take_run_descents [OF t1] by auto
  next
    case (Cons y zs)
    obtain run' rest' where t2: "take_run lt y zs = (run', rest')" by fastforce
    obtain out' n' where p: "sort_pass lt rest' = (out', n')" by fastforce
    have n: "n = n' + 1" using "2.prems" t1 t2 p Cons by simp
    have "rest' \<noteq> [] \<Longrightarrow> n' = (descents lt rest' + 2) div 2"
      using "2.IH" t1 t2 p Cons by auto
    moreover have "rest' = [] \<Longrightarrow> n' = 0" using p by simp
    ultimately show ?thesis
      using n take_run_descents [OF t1] take_run_descents [OF t2] Cons by auto
  qed
qed simp

lemma merge_runs_Nil2 [simp]: "merge_runs lt as [] = as"
  by (cases as) auto

lemma merge_runs_induct [case_names step left_empty right_empty]:
  fixes lt :: "'e \<Rightarrow> 'e \<Rightarrow> bool"
  assumes "\<And>a as b bs. (\<not> lt b a \<Longrightarrow> P as (b # bs)) \<Longrightarrow> (lt b a \<Longrightarrow> P (a # as) bs) \<Longrightarrow>
      P (a # as) (b # bs)"
    and "\<And>bs. P [] bs" and "\<And>as. P as []"
  shows "P as bs"
proof -
  have "l = lt \<Longrightarrow> P as bs" for l :: "'e \<Rightarrow> 'e \<Rightarrow> bool"
    by (induction l as bs rule: merge_runs.induct) (use assms in auto)
  then show ?thesis by simp
qed

locale list_order =
  fixes lt :: "'e \<Rightarrow> 'e \<Rightarrow> bool"
  assumes lt_asym: "lt a b \<Longrightarrow> \<not> lt b a"
    and lt_neg_trans: "lt a c \<Longrightarrow> lt a b \<or> lt b c"
begin

lemma not_lt_trans: "\<not> lt b a \<Longrightarrow> \<not> lt c b \<Longrightarrow> \<not> lt c a"
  using lt_neg_trans by blast

lemma lt_trans: "lt a b \<Longrightarrow> lt b c \<Longrightarrow> lt a c"
  using lt_neg_trans lt_asym by blast

lemma sorted_adj_iff: "sorted_adj lt xs \<longleftrightarrow> sorted_wrt (\<lambda>a b. \<not> lt b a) xs"
  by (rule successively_iff_sorted_wrt_strong) (rule not_lt_trans)

lemma merge_runs_sorted:
  "sorted_wrt (\<lambda>a b. \<not> lt b a) as \<Longrightarrow> sorted_wrt (\<lambda>a b. \<not> lt b a) bs \<Longrightarrow>
     sorted_wrt (\<lambda>a b. \<not> lt b a) (merge_runs lt as bs)"
proof (induction as bs rule: merge_runs_induct [where lt = lt])
  case (step a as b bs)
  show ?case
  proof (cases "lt b a")
    case True
    with step.prems have "\<forall>x \<in> set as. \<not> lt x b" by (metis list.set_intros lt_neg_trans lt_asym sorted_wrt.simps(2))
    with True step show ?thesis by (auto simp: set_merge_runs dest: lt_asym)
  next
    case False
    with step.prems have "\<forall>x \<in> set bs. \<not> lt x a" by (metis not_lt_trans sorted_wrt.simps(2))
    with False step show ?thesis by (auto simp: set_merge_runs)
  qed
qed simp_all

lemma merge_runs_stable:
  "sorted_wrt (\<lambda>a b. \<not> lt b a) as \<Longrightarrow>
     filter (\<lambda>x. \<not> lt k x \<and> \<not> lt x k) (merge_runs lt as bs) =
     filter (\<lambda>x. \<not> lt k x \<and> \<not> lt x k) (as @ bs)"
proof (induction as bs rule: merge_runs_induct [where lt = lt])
  case (step a as b bs)
  show ?case
  proof (cases "lt b a \<and> \<not> lt k b \<and> \<not> lt b k")
    case True
    then have "lt k x" if "x \<in> set (a # as)" for x
      using that step.prems lt_neg_trans by (metis list.set_cases list.set_intros(1) set_ConsD sorted_wrt.simps(2))
    then have "filter (\<lambda>x. \<not> lt k x \<and> \<not> lt x k) (a # as) = []" by (auto simp: filter_empty_conv)
    with True step show ?thesis by (auto simp: filter_empty_conv)
  next
    case False
    with step show ?thesis by auto
  qed
qed simp_all

lemma sort_pass_sorted_runs:
  "sort_pass lt xs = (out, n) \<Longrightarrow> xs \<noteq> [] \<Longrightarrow> descents lt out < n"
proof (induction xs arbitrary: out n rule: length_induct)
  case (1 xs)
  then obtain x xs' where xs: "xs = x # xs'" by (cases xs) auto
  obtain run rest where t1: "take_run lt x xs' = (run, rest)" by fastforce
  show ?case
  proof (cases rest)
    case Nil
    then show ?thesis using "1.prems" t1 xs take_run_sorted [OF t1] by (auto simp: descents_zero)
  next
    case (Cons y zs)
    obtain run' rest' where t2: "take_run lt y zs = (run', rest')" by fastforce
    obtain out' n' where p: "sort_pass lt rest' = (out', n')" by fastforce
    have res: "out = merge_runs lt (x # run) (y # run') @ out'" "n = n' + 1"
      using "1.prems"(1) t1 t2 p Cons xs by simp_all
    have "sorted_adj lt (merge_runs lt (x # run) (y # run'))"
      using merge_runs_sorted take_run_sorted [OF t1] take_run_sorted [OF t2]
      by (simp add: sorted_adj_iff del: merge_runs.simps)
    then have "descents lt (merge_runs lt (x # run) (y # run')) = 0" by (simp only: descents_zero)
    moreover have "length rest' < length xs"
      using xs Cons take_run_append [OF t1] take_run_append [OF t2] by simp
    then have "rest' \<noteq> [] \<Longrightarrow> descents lt out' < n'"
      using "1.IH" p by blast
    moreover have "rest' = [] \<Longrightarrow> out' = [] \<and> n' = 0" using p by simp
    ultimately show ?thesis using res by (cases "rest' = []") (auto simp: descents_append)
  qed
qed

lemma sort_pass_stable:
  "sort_pass lt xs = (out, n) \<Longrightarrow>
     filter (\<lambda>x. \<not> lt k x \<and> \<not> lt x k) out = filter (\<lambda>x. \<not> lt k x \<and> \<not> lt x k) xs"
proof (induction xs arbitrary: out n rule: length_induct)
  case (1 xs)
  show ?case
  proof (cases xs)
    case Nil
    with "1.prems" show ?thesis by simp
  next
    case xs: (Cons x xs')
    obtain run rest where t1: "take_run lt x xs' = (run, rest)" by fastforce
    show ?thesis
    proof (cases rest)
      case Nil
      then show ?thesis using "1.prems" t1 xs take_run_append [OF t1] by auto
    next
      case (Cons y zs)
      obtain run' rest' where t2: "take_run lt y zs = (run', rest')" by fastforce
      obtain out' n' where p: "sort_pass lt rest' = (out', n')" by fastforce
      have res: "out = merge_runs lt (x # run) (y # run') @ out'"
        using "1.prems"(1) t1 t2 p Cons xs by simp_all
      have ys: "xs = (x # run) @ (y # run') @ rest'"
        using xs Cons take_run_append [OF t1] take_run_append [OF t2] by simp
      then have "length rest' < length xs" by simp
      then have "filter (\<lambda>x. \<not> lt k x \<and> \<not> lt x k) out' = filter (\<lambda>x. \<not> lt k x \<and> \<not> lt x k) rest'"
        using "1.IH" p by blast
      moreover have "sorted_wrt (\<lambda>a b. \<not> lt b a) (x # run)"
        using take_run_sorted [OF t1] by (simp only: sorted_adj_iff)
      ultimately show ?thesis
        unfolding res ys filter_append merge_runs_stable [OF \<open>sorted_wrt _ (x # run)\<close>] by simp
    qed
  qed
qed

lemma insert_ord_sorted:
  assumes "sorted_wrt (\<lambda>a b. \<not> lt b a) xs"
  shows "sorted_wrt (\<lambda>a b. \<not> lt b a) (insert_ord lt e xs)"
proof -
  let ?P = "\<lambda>x. \<not> lt e x"
  have s: "sorted_wrt (\<lambda>a b. \<not> lt b a) (takeWhile ?P xs @ dropWhile ?P xs)" using assms by simp
  have "\<not> lt x e" if "x \<in> set (dropWhile ?P xs)" for x
  proof (cases "dropWhile ?P xs")
    case Nil
    with that show ?thesis by simp
  next
    case (Cons y ys)
    then have "lt e y" using hd_dropWhile [of ?P xs] by simp
    moreover have "x = y \<or> \<not> lt x y" using s that unfolding Cons by (auto simp: sorted_wrt_append)
    ultimately show ?thesis using lt_asym not_lt_trans by blast
  qed
  moreover have "\<not> lt e x" if "x \<in> set (takeWhile ?P xs)" for x
    using set_takeWhileD [OF that] by simp
  moreover note s [unfolded sorted_wrt_append]
  ultimately show ?thesis
    unfolding insert_ord_def sorted_wrt_append sorted_wrt.simps set_simps by blast
qed

text \<open>The equal elements already present stay in front of the new one: insertion is last-come, last-served.\<close>

lemma insert_ord_after_equal:
  "sorted_wrt (\<lambda>a b. \<not> lt b a) xs \<Longrightarrow>
     insert_ord lt e xs = filter (\<lambda>x. \<not> lt e x) xs @ e # filter (lt e) xs"
proof (induction xs)
  case Nil
  then show ?case by (simp add: insert_ord_def)
next
  case (Cons x xs)
  show ?case
  proof (cases "lt e x")
    case True
    then have "\<forall>y \<in> set xs. lt e y" using Cons.prems lt_neg_trans by (metis sorted_wrt.simps(2))
    then have "filter (\<lambda>x. \<not> lt e x) xs = []" "filter (lt e) xs = xs"
      by (simp_all add: filter_empty_conv filter_id_conv)
    with True show ?thesis by (simp add: insert_ord_def)
  next
    case False
    with Cons show ?thesis by (simp add: insert_ord_def)
  qed
qed

lemma first_max_spec:
  "\<exists>as bs. x # xs = as @ first_max lt x xs # bs \<and> (\<forall>a \<in> set as. lt a (first_max lt x xs)) \<and>
     (\<forall>b \<in> set bs. \<not> lt (first_max lt x xs) b)"
proof (induction xs rule: rev_induct)
  case Nil
  show ?case by (intro exI [of _ "[]"]) (simp add: first_max_def)
next
  case (snoc y ys)
  then obtain as bs where IH: "x # ys = as @ first_max lt x ys # bs"
      "\<forall>a \<in> set as. lt a (first_max lt x ys)" "\<forall>b \<in> set bs. \<not> lt (first_max lt x ys) b" by blast
  show ?case
  proof (cases "lt (first_max lt x ys) y")
    case True
    have "\<forall>a \<in> set (x # ys). lt a y"
    proof
      fix a assume "a \<in> set (x # ys)"
      then have "\<not> lt (first_max lt x ys) a" using IH lt_asym by (auto simp: IH(1))
      then show "lt a y" using True lt_neg_trans by blast
    qed
    with True show ?thesis
      by (intro exI [of _ "x # ys"] exI [of _ "[]"]) (simp add: first_max_def)
  next
    case False
    then have eq: "first_max lt x (ys @ [y]) = first_max lt x ys" by (simp add: first_max_def)
    with False IH show ?thesis by (intro exI [of _ as] exI [of _ "bs @ [y]"]) (auto simp: eq)
  qed
qed

end

text \<open>The dual order turns minima into maxima.\<close>

lemma first_min_dual: "first_min lt x xs = first_max (\<lambda>a b. lt b a) x xs"
  by (simp add: first_min_def first_max_def)

lemma list_order_dual: "list_order lt \<Longrightarrow> list_order (\<lambda>a b. lt b a)"
  unfolding list_order_def by blast

section \<open>The list sorts\<close>

lemma list_sort_loop_repr:
  assumes "list_order lt" and "list_repr h l xs"
  shows "\<exists>h' ys. list_sort_loop lt l h = Some h' \<and> list_repr h' l ys \<and> mset ys = mset xs \<and>
    sorted_wrt (\<lambda>a b. \<not> lt b a) ys \<and>
    (\<forall>k. filter (\<lambda>x. \<not> lt k x \<and> \<not> lt x k) ys = filter (\<lambda>x. \<not> lt k x \<and> \<not> lt x k) xs) \<and>
    (\<forall>a. a \<notin> list_cells l xs \<longrightarrow> h' a = h a)"
  using assms(2)
proof (induction "descents lt xs" arbitrary: h xs rule: less_induct)
  case less
  obtain out n where p: "sort_pass lt xs = (out, n)" by fastforce
  obtain h1 where h1: "sort_pass_loop lt l (pos l xs) 0 h = Some (h1, n)" "list_repr h1 l out"
      "\<forall>a. a \<notin> list_cells l xs \<longrightarrow> h1 a = h a"
    using sort_pass_loop_repr [of h l "[]" xs lt out n 0] less.prems p by auto
  have m: "mset out = mset xs" using mset_sort_pass [OF p] .
  then have cells: "list_cells l out = list_cells l xs"
    using mset_eq_setD [OF m] by (simp add: list_cells_def)
  have st: "\<forall>k. filter (\<lambda>x. \<not> lt k x \<and> \<not> lt x k) out = filter (\<lambda>x. \<not> lt k x \<and> \<not> lt x k) xs"
    using list_order.sort_pass_stable [OF assms(1) p] by blast
  have unfold: "list_sort_loop lt l h = (if n > 1 then list_sort_loop lt l h1 else Some h1)"
    using h1(1) by (subst list_sort_loop.simps) (simp add: list_begin_repr [OF less.prems])
  show ?case
  proof (cases "n > 1")
    case True
    have "xs \<noteq> []" using p True by auto
    then have "descents lt out < n" "n = (descents lt xs + 2) div 2"
      using list_order.sort_pass_sorted_runs [OF assms(1) p] sort_pass_count [OF p] by auto
    then have "descents lt out < descents lt xs" using True by linarith
    from less.hyps [OF this h1(2)] show ?thesis
      using True unfold m st cells h1(3) by auto
  next
    case False
    have "descents lt out = 0"
      using False list_order.sort_pass_sorted_runs [OF assms(1) p] p by (cases "xs = []") auto
    then have "sorted_wrt (\<lambda>a b. \<not> lt b a) out"
      by (simp only: descents_zero list_order.sorted_adj_iff [OF assms(1)])
    with False show ?thesis using unfold m st h1 by auto
  qed
qed

lemma list_sort_repr:
  assumes "list_order lt" and "list_repr h l xs"
  shows "\<exists>h' ys. list_sort lt l h = Some h' \<and> list_repr h' l ys \<and> mset ys = mset xs \<and>
    sorted_wrt (\<lambda>a b. \<not> lt b a) ys \<and>
    (\<forall>k. filter (\<lambda>x. \<not> lt k x \<and> \<not> lt x k) ys = filter (\<lambda>x. \<not> lt k x \<and> \<not> lt x k) xs) \<and>
    (\<forall>a. a \<notin> list_cells l xs \<longrightarrow> h' a = h a)"
proof -
  obtain h' ys where s: "list_sort_loop lt l h = Some h'" "list_repr h' l ys" "mset ys = mset xs"
      "sorted_wrt (\<lambda>a b. \<not> lt b a) ys"
      "\<forall>k. filter (\<lambda>x. \<not> lt k x \<and> \<not> lt x k) ys = filter (\<lambda>x. \<not> lt k x \<and> \<not> lt x k) xs"
      "\<forall>a. a \<notin> list_cells l xs \<longrightarrow> h' a = h a"
    using list_sort_loop_repr [OF assms] by blast
  have "is_sorted lt h' (pos l ys) (tail_addr l) = Some True"
    using is_sorted_repr [of h' l "[]" ys "[]" lt] s(2,4) list_order.sorted_adj_iff [OF assms(1)]
    by simp
  then have "list_sort lt l h = Some h'"
    using s(1,2) list_repr_facts(1) [OF assms(2)]
    by (simp add: list_sort_def bind_ASSERT list_begin_repr list_end_repr)
  with s show ?thesis by blast
qed

section \<open>The queue contract\<close>

text \<open>
  What the run queue and the wait queues use of a list: elements are appended at the back and
  taken from the front. \<open>push_all\<close> and \<open>pop_all\<close> iterate the two operations.
\<close>

fun push_all :: "('l \<Rightarrow> 'e \<Rightarrow> 'h \<Rightarrow> 'h option) \<Rightarrow> 'l \<Rightarrow> 'e list \<Rightarrow> 'h \<Rightarrow> 'h option" where
  "push_all push l [] h = Some h"
| "push_all push l (e # es) h = do { h' \<leftarrow> push l e h; push_all push l es h' }"

fun pop_all :: "('l \<Rightarrow> 'h \<Rightarrow> ('e \<times> 'h) option) \<Rightarrow> 'l \<Rightarrow> nat \<Rightarrow> 'h \<Rightarrow> ('e list \<times> 'h) option" where
  "pop_all pop l 0 h = Some ([], h)"
| "pop_all pop l (Suc n) h = do {
     (e, h1) \<leftarrow> pop l h;
     (es, h2) \<leftarrow> pop_all pop l n h1;
     Some (e # es, h2)
   }"

locale fifo_store =
  fixes repr :: "'h \<Rightarrow> 'l \<Rightarrow> 'e list \<Rightarrow> bool"
    and push :: "'l \<Rightarrow> 'e \<Rightarrow> 'h \<Rightarrow> 'h option"
    and pop :: "'l \<Rightarrow> 'h \<Rightarrow> ('e \<times> 'h) option"
    and fresh :: "'l \<Rightarrow> 'e list \<Rightarrow> 'e \<Rightarrow> bool"
  assumes push_law: "repr h l xs \<Longrightarrow> fresh l xs e \<Longrightarrow> \<exists>h'. push l e h = Some h' \<and> repr h' l (xs @ [e])"
    and pop_law: "repr h l (x # xs) \<Longrightarrow> \<exists>h'. pop l h = Some (x, h') \<and> repr h' l xs"
    and fresh_law: "fresh l xs e \<Longrightarrow> e \<noteq> e' \<Longrightarrow> fresh l (xs @ [e']) e"
begin

lemma push_all_law:
  "repr h l xs \<Longrightarrow> distinct es \<Longrightarrow> (\<And>e. e \<in> set es \<Longrightarrow> fresh l xs e) \<Longrightarrow>
     \<exists>h'. push_all push l es h = Some h' \<and> repr h' l (xs @ es)"
proof (induction es arbitrary: h xs)
  case Nil
  then show ?case by simp
next
  case (Cons e es)
  obtain h1 where h1: "push l e h = Some h1" "repr h1 l (xs @ [e])"
    using push_law Cons.prems by (metis list.set_intros(1))
  have "fresh l (xs @ [e]) e'" if "e' \<in> set es" for e'
    using that Cons.prems by (intro fresh_law) auto
  with Cons.IH [OF h1(2)] Cons.prems(2) show ?case using h1(1) by auto
qed

lemma pop_all_law:
  "repr h l (xs @ ys) \<Longrightarrow> \<exists>h'. pop_all pop l (length xs) h = Some (xs, h') \<and> repr h' l ys"
proof (induction xs arbitrary: h)
  case Nil
  then show ?case by simp
next
  case (Cons x xs)
  then obtain h1 where "pop l h = Some (x, h1)" "repr h1 l (xs @ ys)"
    using pop_law [of h l x "xs @ ys"] by auto
  with Cons.IH show ?case by fastforce
qed

lemma fifo_law:
  assumes "repr h l []" and "distinct es" and "\<And>e. e \<in> set es \<Longrightarrow> fresh l [] e"
  shows "\<exists>h1 h2. push_all push l es h = Some h1 \<and> pop_all pop l (length es) h1 = Some (es, h2) \<and>
    repr h2 l []"
proof -
  obtain h1 where h1: "push_all push l es h = Some h1" "repr h1 l es"
    using push_all_law [OF assms] by auto
  with pop_all_law [of h1 l es "[]"] show ?thesis by auto
qed

end

interpretation klist: fifo_store list_repr list_push_back list_pop_front
  "\<lambda>l xs e. e \<notin> list_cells l xs \<and> e \<noteq> NULL"
proof unfold_locales
  show "\<exists>h'. list_push_back l e h = Some h' \<and> list_repr h' l (xs @ [e])"
    if "list_repr h l xs" and "e \<notin> list_cells l xs \<and> e \<noteq> NULL" for h l xs e
    using list_push_back_repr that by blast
  show "\<exists>h'. list_pop_front l h = Some (x, h') \<and> list_repr h' l xs" if "list_repr h l (x # xs)" for h l x xs
    using list_pop_front_repr that by blast
qed (auto simp: list_cells_def)

section \<open>Properties\<close>

text \<open>A concrete store for the witnesses: the list at 100 with the elements at 300, 200 and 400.\<close>

definition demo_heap :: heap where
  "demo_heap = (\<lambda>_. \<lparr>elem_prev = 0, elem_next = 0\<rparr>)
     (100 := \<lparr>elem_prev = 0, elem_next = 300\<rparr>, 300 := \<lparr>elem_prev = 100, elem_next = 200\<rparr>,
      200 := \<lparr>elem_prev = 300, elem_next = 400\<rparr>, 400 := \<lparr>elem_prev = 200, elem_next = 108\<rparr>,
      108 := \<lparr>elem_prev = 400, elem_next = 0\<rparr>)"

lemma demo_heap_repr: "list_repr demo_heap 100 [300, 200, 400]"
  by (simp add: list_repr_def ring_def linked_def demo_heap_def tail_addr_def)

text \<open>
  C7. \<^verbatim>\<open>list_sort\<close> is correct for every comparison function that is a strict weak order: on
  a well-formed list it terminates without failing an assertion, the list then holds a permutation
  of its former elements in non-decreasing order, elements that compare equal keep their
  relative order, and no cell outside the list is modified.
\<close>

theorem list_sort_correct:
  assumes "\<And>a b. lt a b \<Longrightarrow> \<not> lt b a" and "\<And>a b c. lt a c \<Longrightarrow> lt a b \<or> lt b c"
    and "list_repr h l xs"
  shows "\<exists>h' ys. list_sort lt l h = Some h' \<and> list_repr h' l ys \<and> mset ys = mset xs \<and>
    sorted_wrt (\<lambda>a b. \<not> lt b a) ys \<and>
    (\<forall>k. filter (\<lambda>x. \<not> lt k x \<and> \<not> lt x k) ys = filter (\<lambda>x. \<not> lt k x \<and> \<not> lt x k) xs) \<and>
    (\<forall>a. a \<notin> list_cells l xs \<longrightarrow> h' a = h a)"
proof (rule list_sort_repr)
  show "list_order lt" using assms(1,2) by unfold_locales blast+
qed (rule assms(3))

theorem list_sort_correct_witness:
  "\<exists>h' ys. list_sort (<) 100 demo_heap = Some h' \<and> list_repr h' 100 ys \<and> mset ys = mset [300, 200, 400] \<and>
    sorted_wrt (\<lambda>a b. \<not> b < a) ys"
proof -
  have "\<exists>h' ys. list_sort (<) 100 demo_heap = Some h' \<and> list_repr h' 100 ys \<and>
      mset ys = mset [300, 200, 400] \<and> sorted_wrt (\<lambda>a b. \<not> b < a) ys \<and>
      (\<forall>k. filter (\<lambda>x. \<not> k < x \<and> \<not> x < k) ys = filter (\<lambda>x. \<not> k < x \<and> \<not> x < k) [300, 200, 400]) \<and>
      (\<forall>a. a \<notin> list_cells 100 [300, 200, 400] \<longrightarrow> h' a = demo_heap a)"
    by (rule list_sort_correct [OF _ _ demo_heap_repr]) auto
  then show ?thesis by blast
qed

text \<open>
  C33. The list is a first-in, first-out queue: appending any distinct fresh elements to an
  empty list with \<^verbatim>\<open>list_push_back\<close> and then taking as many with \<^verbatim>\<open>list_pop_front\<close> returns
  exactly these elements in the order they were added, and leaves the list empty again.
\<close>

theorem list_fifo:
  assumes "list_repr h l []" and "distinct es"
    and "\<And>e. e \<in> set es \<Longrightarrow> e \<noteq> NULL \<and> e \<noteq> l \<and> e \<noteq> tail_addr l"
  shows "\<exists>h1 h2. push_all list_push_back l es h = Some h1 \<and>
    pop_all list_pop_front l (length es) h1 = Some (es, h2) \<and> list_repr h2 l []"
  using assms by (intro klist.fifo_law) (auto simp: list_cells_def)

theorem list_fifo_witness:
  "\<exists>h0 h1 h2. list_init 100 demo_heap = Some h0 \<and> push_all list_push_back 100 [300, 200] h0 = Some h1 \<and>
    pop_all list_pop_front 100 (length [300, 200 :: addr]) h1 = Some ([300, 200], h2) \<and> list_repr h2 100 []"
proof -
  obtain h0 where h0: "list_init 100 demo_heap = Some h0" "list_repr h0 100 []"
    using list_init_repr [of 100 demo_heap] by (auto simp: tail_addr_def)
  have "\<exists>h1 h2. push_all list_push_back 100 [300, 200] h0 = Some h1 \<and>
      pop_all list_pop_front 100 (length [300, 200 :: addr]) h1 = Some ([300, 200], h2) \<and>
      list_repr h2 100 []"
    by (rule list_fifo [OF h0(2)]) (auto simp: tail_addr_def)
  with h0(1) show ?thesis by blast
qed

text \<open>
  C34. \<^verbatim>\<open>list_insert_ordered\<close> puts a fresh element into a sorted list so that the list stays
  sorted, behind every element that is not greater and in front of every greater one.
\<close>

theorem list_insert_ordered_correct:
  assumes "\<And>a b. lt a b \<Longrightarrow> \<not> lt b a" and "\<And>a b c. lt a c \<Longrightarrow> lt a b \<or> lt b c"
    and "list_repr h l xs" and "sorted_wrt (\<lambda>a b. \<not> lt b a) xs"
    and "e \<notin> list_cells l xs" and "e \<noteq> NULL"
  shows "\<exists>h' ys. list_insert_ordered lt l e h = Some h' \<and> list_repr h' l ys \<and>
    ys = filter (\<lambda>x. \<not> lt e x) xs @ e # filter (lt e) xs \<and> sorted_wrt (\<lambda>a b. \<not> lt b a) ys"
proof -
  have ord: "list_order lt" using assms(1,2) by unfold_locales blast+
  obtain h' where "list_insert_ordered lt l e h = Some h'" "list_repr h' l (insert_ord lt e xs)"
    using list_insert_ordered_repr [OF assms(3,5,6), of lt] by blast
  moreover have "sorted_wrt (\<lambda>a b. \<not> lt b a) (insert_ord lt e xs)"
    by (rule list_order.insert_ord_sorted [OF ord assms(4)])
  ultimately show ?thesis
    unfolding list_order.insert_ord_after_equal [OF ord assms(4)] by blast
qed

theorem list_insert_ordered_correct_witness:
  "\<exists>h'. list_insert_ordered (\<lambda>a b. unat a mod 100 < unat b mod 100) 100 555 demo_heap = Some h' \<and>
    list_repr h' 100 [300, 200, 400, 555]"
proof -
  let ?lt = "\<lambda>(a :: addr) (b :: addr). unat a mod 100 < unat b mod 100"
  have "555 \<notin> list_cells 100 [300, 200, 400]" by (simp add: list_cells_def tail_addr_def)
  moreover have "sorted_wrt (\<lambda>a b. \<not> ?lt b a) [300, 200, 400]" by simp
  ultimately have "\<exists>h' ys. list_insert_ordered ?lt 100 555 demo_heap = Some h' \<and> list_repr h' 100 ys \<and>
      ys = filter (\<lambda>x. \<not> ?lt 555 x) [300, 200, 400] @ 555 # filter (?lt 555) [300, 200, 400] \<and>
      sorted_wrt (\<lambda>a b. \<not> ?lt b a) ys"
    by (intro list_insert_ordered_correct demo_heap_repr) auto
  moreover have "filter (\<lambda>x. \<not> ?lt 555 x) [300, 200, 400] @ 555 # filter (?lt 555) [300, 200, 400] =
      [300, 200, 400, 555]"
    by simp
  ultimately show ?thesis by metis
qed

text \<open>
  \<^verbatim>\<open>list_reverse\<close> reverses the sequence a well-formed list holds, whatever its length.
\<close>

theorem list_reverse_correct:
  assumes "list_repr h l xs"
  shows "\<exists>h'. list_reverse l h = Some h' \<and> list_repr h' l (rev xs)"
  using list_reverse_repr [OF assms] by blast

theorem list_reverse_correct_witness:
  "\<exists>h'. list_reverse 100 demo_heap = Some h' \<and> list_repr h' 100 [400, 200, 300]"
  using list_reverse_correct [OF demo_heap_repr] by simp

end
