(* ===== verification/Kernel_Hash.thy ===== *)
theory Kernel_Hash
  imports Kernel_List
begin

text \<open>
  Hash tables, \<^verbatim>\<open>lib/kernel/hash.c\<close>.  A table is an array of buckets, each a kernel list.  The buckets are
  modelled by the sequences that the theory of kernel lists shows the pointer structures to represent
  (\<open>list_push_front_repr\<close>, \<open>list_remove_repr\<close>): \<^verbatim>\<open>list_push_front\<close> is Cons and \<^verbatim>\<open>list_remove\<close> takes an element
  out of the list that holds it.  The functions \<^verbatim>\<open>hash\<close> and \<^verbatim>\<open>less\<close> of a table are fields, as in the code;
  whether an allocation succeeds is an argument of the routines that allocate.

  The lemmas show that the table implements a finite set of pairwise different elements whatever the
  allocator answers, that the number of buckets stays a power of two, and that an iterator
  visits every element exactly once.
\<close>

unbundle bit_operations_syntax

section \<open>The routines\<close>

record 'a hash =
  hash_elem_cnt :: nat
  bucket_cnt :: nat
  buckets :: "'a list list"
  hash_fn :: "'a \<Rightarrow> u32"
  less_fn :: "'a \<Rightarrow> 'a \<Rightarrow> bool"

definition find_bucket :: "'a hash \<Rightarrow> 'a \<Rightarrow> nat" where
  "find_bucket h e = unat (hash_fn h e) AND (bucket_cnt h - 1)"

fun find_elem :: "'a hash \<Rightarrow> 'a list \<Rightarrow> 'a \<Rightarrow> 'a option" where
  "find_elem h [] e = None"
| "find_elem h (hi # bucket) e =
     (if \<not> less_fn h hi e \<and> \<not> less_fn h e hi then Some hi else find_elem h bucket e)"

definition turn_off_least_1bit :: "nat \<Rightarrow> nat" where
  "turn_off_least_1bit x = x AND (x - 1)"

definition is_power_of_2 :: "nat \<Rightarrow> bool" where
  "is_power_of_2 x \<longleftrightarrow> x \<noteq> 0 \<and> turn_off_least_1bit x = 0"

lemma turn_off_least_1bit_less: "x \<noteq> 0 \<Longrightarrow> turn_off_least_1bit x < x"
  using and_nat_le [of x "x - 1"] by (simp add: turn_off_least_1bit_def)

function largest_power_of_2 :: "nat \<Rightarrow> nat" where
  "largest_power_of_2 x =
     (if x = 0 then 0
      else if \<not> is_power_of_2 x then largest_power_of_2 (turn_off_least_1bit x) else x)"
  by pat_completeness auto
termination by (relation "measure (\<lambda>x. x)") (auto intro: turn_off_least_1bit_less)

declare largest_power_of_2.simps [simp del]

definition MIN_ELEMS_PER_BUCKET :: nat where "MIN_ELEMS_PER_BUCKET = 1"
definition BEST_ELEMS_PER_BUCKET :: nat where "BEST_ELEMS_PER_BUCKET = 2"
definition MAX_ELEMS_PER_BUCKET :: nat where "MAX_ELEMS_PER_BUCKET = 4"

definition move_elem :: "'a hash \<Rightarrow> 'a \<Rightarrow> 'a hash" where
  "move_elem h e = h\<lparr>buckets := (buckets h)[find_bucket h e := e # buckets h ! find_bucket h e]\<rparr>"

definition rehash :: "bool \<Rightarrow> 'a hash \<Rightarrow> 'a hash" where
  "rehash mem_ok h =
     (let old_buckets = buckets h;
          old_bucket_cnt = bucket_cnt h;
          n = hash_elem_cnt h div BEST_ELEMS_PER_BUCKET;
          n = (if n < 4 then 4 else n);
          new_bucket_cnt = largest_power_of_2 n
      in
        if new_bucket_cnt = old_bucket_cnt then h
        else if \<not> mem_ok then h
        else
          foldl (\<lambda>h old_bucket. foldl move_elem h old_bucket)
            (h\<lparr>buckets := replicate new_bucket_cnt [], bucket_cnt := new_bucket_cnt\<rparr>) old_buckets)"

definition insert_elem :: "'a hash \<Rightarrow> nat \<Rightarrow> 'a \<Rightarrow> 'a hash" where
  "insert_elem h bucket e =
     h\<lparr>hash_elem_cnt := hash_elem_cnt h + 1, buckets := (buckets h)[bucket := e # buckets h ! bucket]\<rparr>"

definition remove_elem :: "'a hash \<Rightarrow> 'a \<Rightarrow> 'a hash" where
  "remove_elem h e =
     h\<lparr>hash_elem_cnt := hash_elem_cnt h - 1, buckets := map (remove1 e) (buckets h)\<rparr>"

definition hash_insert :: "bool \<Rightarrow> 'a hash \<Rightarrow> 'a \<Rightarrow> 'a option \<times> 'a hash" where
  "hash_insert mem_ok h new =
     (let bucket = find_bucket h new;
          old = find_elem h (buckets h ! bucket) new;
          h1 = (if old = None then insert_elem h bucket new else h)
      in (old, rehash mem_ok h1))"

definition hash_replace :: "bool \<Rightarrow> 'a hash \<Rightarrow> 'a \<Rightarrow> 'a option \<times> 'a hash" where
  "hash_replace mem_ok h new =
     (let bucket = find_bucket h new;
          old = find_elem h (buckets h ! bucket) new;
          h1 = (case old of Some x \<Rightarrow> remove_elem h x | None \<Rightarrow> h);
          h2 = insert_elem h1 bucket new
      in (old, rehash mem_ok h2))"

definition hash_find :: "'a hash \<Rightarrow> 'a \<Rightarrow> 'a option" where
  "hash_find h e = find_elem h (buckets h ! find_bucket h e) e"

definition hash_delete :: "bool \<Rightarrow> 'a hash \<Rightarrow> 'a \<Rightarrow> 'a option \<times> 'a hash" where
  "hash_delete mem_ok h e =
     (case find_elem h (buckets h ! find_bucket h e) e of
        Some x \<Rightarrow> (Some x, rehash mem_ok (remove_elem h x))
      | None \<Rightarrow> (None, h))"

text \<open>
  The destructor and action callbacks transform a state of the caller.  A \<open>None\<close> destructor is the null
  pointer.
\<close>

definition hash_clear :: "('a \<Rightarrow> 's \<Rightarrow> 's) option \<Rightarrow> 'a hash \<Rightarrow> 's \<Rightarrow> 'a hash \<times> 's" where
  "hash_clear destructor h s =
     (let s' = (case destructor of
                  None \<Rightarrow> s
                | Some d \<Rightarrow> foldl (\<lambda>s bucket. foldl (\<lambda>s e. d e s) s bucket) s (buckets h))
      in (h\<lparr>buckets := map (\<lambda>_. []) (buckets h), hash_elem_cnt := 0\<rparr>, s'))"

definition hash_destroy :: "('a \<Rightarrow> 's \<Rightarrow> 's) option \<Rightarrow> 'a hash \<Rightarrow> 's \<Rightarrow> 's" where
  "hash_destroy destructor h s = (if destructor \<noteq> None then snd (hash_clear destructor h s) else s)"

definition hash_init :: "bool \<Rightarrow> ('a \<Rightarrow> u32) \<Rightarrow> ('a \<Rightarrow> 'a \<Rightarrow> bool) \<Rightarrow> 'a hash option" where
  "hash_init mem_ok hsh lt =
     (if mem_ok then
        Some (fst (hash_clear None
          \<lparr>hash_elem_cnt = 0, bucket_cnt = 4, buckets = replicate 4 [], hash_fn = hsh, less_fn = lt\<rparr> ()))
      else None)"

definition hash_apply :: "('a \<Rightarrow> 's \<Rightarrow> 's) \<Rightarrow> 'a hash \<Rightarrow> 's \<Rightarrow> 's" where
  "hash_apply action h s = foldl (\<lambda>s bucket. foldl (\<lambda>s e. action e s) s bucket) s (buckets h)"

definition hash_size :: "'a hash \<Rightarrow> nat" where
  "hash_size h = hash_elem_cnt h"

definition hash_empty :: "'a hash \<Rightarrow> bool" where
  "hash_empty h \<longleftrightarrow> hash_elem_cnt h = 0"

text \<open>
  Iterators.  \<open>it_elem\<close> is the position in the current bucket: 0 is the list head, \<open>k\<close> the \<open>k\<close>-th element,
  one past the length the list tail; \<open>None\<close> is the null pointer.
\<close>

record hash_iterator =
  it_bucket :: nat
  it_elem :: "nat option"

definition hash_first :: "'a hash \<Rightarrow> hash_iterator" where
  "hash_first h = \<lparr>it_bucket = 0, it_elem = Some 0\<rparr>"

definition hash_cur :: "'a hash \<Rightarrow> hash_iterator \<Rightarrow> 'a option" where
  "hash_cur h i =
     (case it_elem i of None \<Rightarrow> None | Some p \<Rightarrow> Some (buckets h ! it_bucket i ! (p - 1)))"

function hash_next_loop :: "'a hash \<Rightarrow> nat \<Rightarrow> nat \<Rightarrow> hash_iterator" where
  "hash_next_loop h b p =
     (if p = length (buckets h ! b) + 1 then
        if b + 1 \<ge> bucket_cnt h then \<lparr>it_bucket = b + 1, it_elem = None\<rparr>
        else hash_next_loop h (b + 1) 1
      else \<lparr>it_bucket = b, it_elem = Some p\<rparr>)"
  by pat_completeness auto
termination by (relation "measure (\<lambda>(h, b, p). bucket_cnt h - b)") auto

declare hash_next_loop.simps [simp del]

definition hash_next :: "'a hash \<Rightarrow> hash_iterator \<Rightarrow> (hash_iterator \<times> 'a option) option" where
  "hash_next h i = do {
     p \<leftarrow> it_elem i;
     ASSERT (p \<le> length (buckets h ! it_bucket i));
     let i' = hash_next_loop h (it_bucket i) (p + 1);
     Some (i', hash_cur h i')
   }"

text \<open>The Fowler-Noll-Vo hash functions.\<close>

definition FNV_32_PRIME :: u32 where "FNV_32_PRIME = 16777619"
definition FNV_32_BASIS :: u32 where "FNV_32_BASIS = 2166136261"

fun hash_bytes_loop :: "u32 \<Rightarrow> byte list \<Rightarrow> u32" where
  "hash_bytes_loop hsh [] = hsh"
| "hash_bytes_loop hsh (b # buf) = hash_bytes_loop (hsh * FNV_32_PRIME XOR ucast b) buf"

definition hash_bytes :: "byte list \<Rightarrow> u32" where
  "hash_bytes buf = hash_bytes_loop FNV_32_BASIS buf"

text \<open>The argument of \<open>hash_string\<close> is the memory from the start of the string on; no terminator in it gives \<open>None\<close>.\<close>

fun hash_string_loop :: "u32 \<Rightarrow> byte list \<Rightarrow> u32 option" where
  "hash_string_loop hsh [] = None"
| "hash_string_loop hsh (b # s) =
     (if b \<noteq> 0 then hash_string_loop (hsh * FNV_32_PRIME XOR ucast b) s else Some hsh)"

definition hash_string :: "byte list \<Rightarrow> u32 option" where
  "hash_string s = hash_string_loop FNV_32_BASIS s"

definition int_bytes :: "u32 \<Rightarrow> byte list" where
  "int_bytes w = map (\<lambda>k. ucast (drop_bit (8 * k) w)) [0..<4]"

definition hash_int :: "u32 \<Rightarrow> u32" where
  "hash_int i = hash_bytes (int_bytes i)"

section \<open>Bucket counts are powers of two\<close>

lemma turn_off_least_1bit_double: "turn_off_least_1bit (2 * y) = 2 * turn_off_least_1bit y"
proof (cases y)
  case (Suc z)
  have "(2 * Suc z) AND (2 * z + 1) = 2 * (Suc z AND z)"
    by (subst and_rec) simp
  with Suc show ?thesis by (simp add: turn_off_least_1bit_def)
qed (simp add: turn_off_least_1bit_def)

lemma is_power_of_2_iff: "is_power_of_2 x \<longleftrightarrow> (\<exists>k. x = 2 ^ k)"
proof (induction x rule: less_induct)
  case (less x)
  consider "x = 0" | y where "x = 2 * y" "0 < y" | y where "x = 2 * y + 1"
    by (metis even_two_times_div_two odd_two_times_div_two_succ mult_0_right neq0_conv)
  then show ?case
  proof cases
    case 1
    then show ?thesis by (simp add: is_power_of_2_def)
  next
    case 2
    then have "is_power_of_2 x \<longleftrightarrow> is_power_of_2 y"
      by (simp add: is_power_of_2_def turn_off_least_1bit_double)
    also have "\<dots> \<longleftrightarrow> (\<exists>k. y = 2 ^ k)" using less.IH [of y] 2 by simp
    also have "\<dots> \<longleftrightarrow> (\<exists>k. x = 2 ^ Suc k)" using 2 by simp
    also have "\<dots> \<longleftrightarrow> (\<exists>k. x = 2 ^ k)"
      using 2 by (metis not0_implies_Suc power_0 one_neq_zero dvd_triv_left odd_one)
    finally show ?thesis .
  next
    case 3
    then have "turn_off_least_1bit x = 2 * y"
      by (simp add: turn_off_least_1bit_def and_rec [of "Suc (2 * y)"])
    then have "is_power_of_2 x \<longleftrightarrow> x = 1" using 3 by (auto simp: is_power_of_2_def)
    moreover have "x = 1" if "x = 2 ^ k" for k
      using that 3 by (cases k) (simp_all, metis even_Suc dvd_triv_left)
    ultimately show ?thesis by (metis power_0)
  qed
qed

lemma largest_power_of_2_power: "x \<noteq> 0 \<Longrightarrow> is_power_of_2 (largest_power_of_2 x)"
proof (induction x rule: largest_power_of_2.induct)
  case (1 x)
  show ?case
  proof (cases "is_power_of_2 x")
    case True
    then show ?thesis using 1(2) by (subst largest_power_of_2.simps) simp
  next
    case False
    then have "turn_off_least_1bit x \<noteq> 0" using 1(2) by (simp add: is_power_of_2_def)
    then show ?thesis using 1 False by (subst largest_power_of_2.simps) simp
  qed
qed

text \<open>Hence masking the hash value with \<^verbatim>\<open>bucket_cnt - 1\<close> is reduction modulo the number of buckets.\<close>

lemma find_bucket_mod:
  assumes "is_power_of_2 (bucket_cnt h)"
  shows "find_bucket h e = unat (hash_fn h e) mod bucket_cnt h"
proof -
  obtain k where k: "bucket_cnt h = 2 ^ k" using assms by (auto simp: is_power_of_2_iff)
  have "n AND 2 ^ k - 1 = n mod 2 ^ k" for n :: nat
    using take_bit_eq_mask [of k n] by (simp add: take_bit_eq_mod mask_eq_exp_minus_1)
  with k show ?thesis by (simp add: find_bucket_def)
qed

lemma find_bucket_less: "is_power_of_2 (bucket_cnt h) \<Longrightarrow> find_bucket h e < bucket_cnt h"
  by (simp add: find_bucket_mod is_power_of_2_def)

section \<open>Abstraction: the elements of a table\<close>

definition hash_elems :: "'a hash \<Rightarrow> 'a list" where
  "hash_elems h = concat (buckets h)"

definition buckets_ok :: "'a hash \<Rightarrow> bool" where
  "buckets_ok h \<longleftrightarrow> is_power_of_2 (bucket_cnt h) \<and> length (buckets h) = bucket_cnt h \<and>
     (\<forall>i < bucket_cnt h. \<forall>e \<in> set (buckets h ! i). find_bucket h e = i)"

definition hash_inv :: "('a \<Rightarrow> u32) \<Rightarrow> ('a \<Rightarrow> 'a \<Rightarrow> bool) \<Rightarrow> 'a hash \<Rightarrow> bool" where
  "hash_inv hsh lt h \<longleftrightarrow> hash_fn h = hsh \<and> less_fn h = lt \<and> buckets_ok h \<and>
     hash_elem_cnt h = length (hash_elems h) \<and> distinct (hash_elems h) \<and>
     (\<forall>a \<in> set (hash_elems h). \<forall>b \<in> set (hash_elems h). a \<noteq> b \<longrightarrow> lt a b \<or> lt b a)"

lemma mset_concat_update:
  "i < length bs \<Longrightarrow> mset (concat (bs[i := e # bs ! i])) = add_mset e (mset (concat bs))"
proof (induction bs arbitrary: i)
  case (Cons b bs)
  then show ?case by (cases i) auto
qed simp

lemma mset_concat_remove:
  assumes "distinct (concat bs)" and "e \<in> set (concat bs)"
  shows "mset (concat bs) = add_mset e (mset (concat (map (remove1 e) bs)))"
  using assms
proof (induction bs)
  case (Cons b bs)
  show ?case
  proof (cases "e \<in> set b")
    case True
    then have "e \<notin> set (concat bs)" using Cons.prems(1) by auto
    then have "map (remove1 e) bs = bs" by (intro map_idI) (auto simp: remove1_idem)
    with True show ?thesis by (simp add: multi_member_split)
  next
    case False
    then show ?thesis using Cons by (simp add: remove1_idem)
  qed
qed simp

lemma set_bucket:
  assumes "buckets_ok h"
  shows "set (buckets h ! find_bucket h e) = {x \<in> set (hash_elems h). find_bucket h x = find_bucket h e}"
proof -
  have len: "length (buckets h) = bucket_cnt h" and less: "find_bucket h e < bucket_cnt h"
    and home: "\<And>i x. i < bucket_cnt h \<Longrightarrow> x \<in> set (buckets h ! i) \<Longrightarrow> find_bucket h x = i"
    using assms find_bucket_less by (auto simp: buckets_ok_def)
  have "x \<in> set (buckets h ! find_bucket h e)" if x: "x \<in> set (hash_elems h)" "find_bucket h x = find_bucket h e" for x
  proof -
    obtain b where "b \<in> set (buckets h)" "x \<in> set b" using x(1) by (auto simp: hash_elems_def)
    then obtain i where "i < bucket_cnt h" "x \<in> set (buckets h ! i)"
      using len by (metis in_set_conv_nth)
    with home [OF this] x(2) show ?thesis by simp
  qed
  moreover have "buckets h ! find_bucket h e \<in> set (buckets h)" using len less by simp
  ultimately show ?thesis using home [OF less] by (auto simp: hash_elems_def)
qed

lemma find_bucket_cong:
  "hash_fn h' = hash_fn h \<Longrightarrow> bucket_cnt h' = bucket_cnt h \<Longrightarrow> find_bucket h' e = find_bucket h e"
  by (simp add: find_bucket_def)

lemma move_elem_ok:
  assumes "buckets_ok h"
  shows "buckets_ok (move_elem h e) \<and> mset (hash_elems (move_elem h e)) = add_mset e (mset (hash_elems h)) \<and>
    hash_fn (move_elem h e) = hash_fn h \<and> less_fn (move_elem h e) = less_fn h \<and>
    hash_elem_cnt (move_elem h e) = hash_elem_cnt h"
proof -
  have less: "find_bucket h e < length (buckets h)"
    using assms find_bucket_less by (auto simp: buckets_ok_def)
  have "find_bucket (move_elem h e) x = find_bucket h x" for x
    by (rule find_bucket_cong) (simp_all add: move_elem_def)
  then show ?thesis
    using less assms by (auto simp: buckets_ok_def hash_elems_def mset_concat_update nth_list_update move_elem_def)
qed

lemma move_elems_ok:
  assumes "buckets_ok h"
  shows "buckets_ok (foldl move_elem h es) \<and> mset (hash_elems (foldl move_elem h es)) = mset es + mset (hash_elems h) \<and>
    hash_fn (foldl move_elem h es) = hash_fn h \<and> less_fn (foldl move_elem h es) = less_fn h \<and>
    hash_elem_cnt (foldl move_elem h es) = hash_elem_cnt h"
  using assms
proof (induction es arbitrary: h)
  case (Cons e es)
  show ?case using Cons.IH [of "move_elem h e"] move_elem_ok [OF Cons.prems, of e] by simp
qed simp

lemma foldl_foldl_concat: "foldl (foldl f) s xss = foldl f s (concat xss)"
  by (induction xss arbitrary: s) auto

lemma rehash_ok:
  assumes "buckets_ok h"
  shows "buckets_ok (rehash mem_ok h) \<and> mset (hash_elems (rehash mem_ok h)) = mset (hash_elems h) \<and>
    hash_fn (rehash mem_ok h) = hash_fn h \<and> less_fn (rehash mem_ok h) = less_fn h \<and>
    hash_elem_cnt (rehash mem_ok h) = hash_elem_cnt h"
proof -
  define n where "n = largest_power_of_2 (let n = hash_elem_cnt h div BEST_ELEMS_PER_BUCKET in if n < 4 then 4 else n)"
  define h0 where "h0 = h\<lparr>buckets := replicate n [], bucket_cnt := n\<rparr>"
  have "is_power_of_2 n" unfolding n_def by (rule largest_power_of_2_power) (simp add: Let_def)
  then have "buckets_ok h0" by (simp add: h0_def buckets_ok_def)
  moreover have "hash_elems h0 = []" by (simp add: h0_def hash_elems_def)
  moreover have "rehash mem_ok h = (if n = bucket_cnt h \<or> \<not> mem_ok then h else foldl move_elem h0 (hash_elems h))"
    by (simp add: rehash_def n_def h0_def Let_def foldl_foldl_concat hash_elems_def)
  ultimately show ?thesis
    using assms move_elems_ok [of h0 "hash_elems h"] by (simp add: h0_def)
qed


lemma insert_elem_ok:
  assumes "buckets_ok h"
  shows "buckets_ok (insert_elem h (find_bucket h e) e) \<and>
    mset (hash_elems (insert_elem h (find_bucket h e) e)) = add_mset e (mset (hash_elems h))"
proof -
  have less: "find_bucket h e < length (buckets h)"
    using assms find_bucket_less by (auto simp: buckets_ok_def)
  have "find_bucket (insert_elem h (find_bucket h e) e) x = find_bucket h x" for x
    by (rule find_bucket_cong) (simp_all add: insert_elem_def)
  then show ?thesis
    using less assms by (auto simp: buckets_ok_def hash_elems_def mset_concat_update nth_list_update insert_elem_def)
qed

lemma remove_elem_ok:
  assumes "buckets_ok h" and "distinct (hash_elems h)" and "e \<in> set (hash_elems h)"
  shows "buckets_ok (remove_elem h e) \<and>
    mset (hash_elems h) = add_mset e (mset (hash_elems (remove_elem h e)))"
proof -
  have "find_bucket (remove_elem h e) x = find_bucket h x" for x
    by (rule find_bucket_cong) (simp_all add: remove_elem_def)
  then show ?thesis
    using assms mset_concat_remove [of "buckets h" e]
    by (auto simp: buckets_ok_def hash_elems_def remove_elem_def dest: notin_set_remove1 in_set_remove1 [THEN iffD1, rotated])
qed

lemma find_elem_Some:
  "find_elem h xs e = Some x \<Longrightarrow> x \<in> set xs \<and> \<not> less_fn h x e \<and> \<not> less_fn h e x"
  by (induction xs) (auto split: if_splits)

lemma find_elem_None:
  "find_elem h xs e = None \<longleftrightarrow> (\<forall>x \<in> set xs. less_fn h x e \<or> less_fn h e x)"
  by (induction xs) auto

section \<open>The contract of the hash and comparison functions\<close>

text \<open>Equal elements must have equal hash values, for a strict weak order \<open>lt\<close>.\<close>

locale hash_functions = list_order lt for lt :: "'a \<Rightarrow> 'a \<Rightarrow> bool" +
  fixes hsh :: "'a \<Rightarrow> u32"
  assumes equal_hash: "\<not> lt a b \<Longrightarrow> \<not> lt b a \<Longrightarrow> hsh a = hsh b"
begin

lemma hash_find_Some:
  assumes "hash_inv hsh lt h"
  shows "hash_find h e = Some x \<longleftrightarrow> x \<in> set (hash_elems h) \<and> \<not> lt x e \<and> \<not> lt e x"
proof -
  have ok: "buckets_ok h" and fns: "hash_fn h = hsh" "less_fn h = lt"
    and uniq: "\<And>a b. a \<in> set (hash_elems h) \<Longrightarrow> b \<in> set (hash_elems h) \<Longrightarrow> a \<noteq> b \<Longrightarrow> lt a b \<or> lt b a"
    using assms by (auto simp: hash_inv_def)
  have same: "find_bucket h x = find_bucket h e" if "\<not> lt x e" "\<not> lt e x" for x
    using equal_hash [OF that] fns(1) by (simp add: find_bucket_def)
  show ?thesis
  proof
    assume "hash_find h e = Some x"
    then show "x \<in> set (hash_elems h) \<and> \<not> lt x e \<and> \<not> lt e x"
      using find_elem_Some [of h _ e x] fns set_bucket [OF ok, of e] by (auto simp: hash_find_def)
  next
    assume x: "x \<in> set (hash_elems h) \<and> \<not> lt x e \<and> \<not> lt e x"
    then have "x \<in> set (buckets h ! find_bucket h e)" using same set_bucket [OF ok, of e] by simp
    with x obtain y where y: "hash_find h e = Some y"
      using find_elem_None [of h "buckets h ! find_bucket h e" e] fns by (auto simp: hash_find_def)
    then have "y \<in> set (hash_elems h)" "\<not> lt y e" "\<not> lt e y"
      using find_elem_Some [of h _ e y] fns set_bucket [OF ok, of e] by (auto simp: hash_find_def)
    then have "x = y" using uniq x not_lt_trans by metis
    with y show "hash_find h e = Some x" by simp
  qed
qed

lemma hash_find_None:
  assumes "hash_inv hsh lt h"
  shows "hash_find h e = None \<longleftrightarrow> (\<forall>x \<in> set (hash_elems h). lt x e \<or> lt e x)"
  using hash_find_Some [OF assms, of e] by (metis not_None_eq)

lemma hash_inv_mset:
  assumes "hash_inv hsh lt h" and "buckets_ok h'" and "hash_fn h' = hsh" and "less_fn h' = lt"
    and "mset (hash_elems h') = mset (hash_elems h)" and "hash_elem_cnt h' = hash_elem_cnt h"
  shows "hash_inv hsh lt h'"
proof -
  have "set (hash_elems h') = set (hash_elems h)" "length (hash_elems h') = length (hash_elems h)"
    "distinct (hash_elems h') = distinct (hash_elems h)"
    using assms(5) mset_eq_setD mset_eq_length mset_eq_imp_distinct_iff by blast+
  with assms show ?thesis by (simp add: hash_inv_def)
qed

lemma rehash_inv:
  assumes "hash_inv hsh lt h"
  shows "hash_inv hsh lt (rehash mem_ok h) \<and> set (hash_elems (rehash mem_ok h)) = set (hash_elems h)"
proof -
  note r = rehash_ok [of h mem_ok]
  have "buckets_ok h" using assms by (simp add: hash_inv_def)
  with r assms have "hash_inv hsh lt (rehash mem_ok h)"
    by (intro hash_inv_mset [OF assms]) (auto simp: hash_inv_def)
  with r \<open>buckets_ok h\<close> mset_eq_setD show ?thesis by blast
qed

lemma insert_elem_inv:
  assumes "hash_inv hsh lt h" and "\<And>x. x \<in> set (hash_elems h) \<Longrightarrow> lt x e \<or> lt e x"
  shows "hash_inv hsh lt (insert_elem h (find_bucket h e) e) \<and>
    set (hash_elems (insert_elem h (find_bucket h e) e)) = insert e (set (hash_elems h))"
proof -
  let ?h = "insert_elem h (find_bucket h e) e"
  have ok: "buckets_ok ?h" and ms: "mset (hash_elems ?h) = mset (e # hash_elems h)"
    using insert_elem_ok [of h e] assms(1) by (auto simp: hash_inv_def)
  have "e \<notin> set (hash_elems h)" using assms(2) lt_asym by blast
  then have "distinct (e # hash_elems h)" using assms(1) by (simp add: hash_inv_def)
  then have "distinct (hash_elems ?h)" using mset_eq_imp_distinct_iff [OF ms] by blast
  moreover have "set (hash_elems ?h) = set (e # hash_elems h)" "length (hash_elems ?h) = length (e # hash_elems h)"
    using ms mset_eq_setD mset_eq_length by blast+
  ultimately show ?thesis
    using ok assms by (auto simp: hash_inv_def insert_elem_def)
qed

lemma remove_elem_inv:
  assumes "hash_inv hsh lt h" and "e \<in> set (hash_elems h)"
  shows "hash_inv hsh lt (remove_elem h e) \<and> set (hash_elems (remove_elem h e)) = set (hash_elems h) - {e}"
proof -
  let ?h = "remove_elem h e"
  have ok: "buckets_ok ?h" and ms: "mset (hash_elems h) = mset (e # hash_elems ?h)"
    using remove_elem_ok [of h e] assms by (auto simp: hash_inv_def)
  have "distinct (e # hash_elems ?h)" using assms(1) mset_eq_imp_distinct_iff [OF ms] by (simp add: hash_inv_def)
  moreover have "set (hash_elems h) = set (e # hash_elems ?h)" "length (hash_elems h) = length (e # hash_elems ?h)"
    using ms mset_eq_setD mset_eq_length by blast+
  ultimately show ?thesis
    using ok assms by (auto simp: hash_inv_def remove_elem_def)
qed

lemma hash_insert_law:
  assumes "hash_inv hsh lt h"
  shows "hash_inv hsh lt (snd (hash_insert mem_ok h e)) \<and> fst (hash_insert mem_ok h e) = hash_find h e \<and>
    set (hash_elems (snd (hash_insert mem_ok h e))) =
      (if hash_find h e = None then insert e (set (hash_elems h)) else set (hash_elems h))"
proof (cases "hash_find h e = None")
  case True
  note ins = insert_elem_inv [OF assms, of e]
  have "hash_insert mem_ok h e = (None, rehash mem_ok (insert_elem h (find_bucket h e) e))"
    using True by (simp add: hash_insert_def hash_find_def)
  moreover have "\<And>x. x \<in> set (hash_elems h) \<Longrightarrow> lt x e \<or> lt e x"
    using True hash_find_None [OF assms] by blast
  ultimately show ?thesis using True ins rehash_inv [of "insert_elem h (find_bucket h e) e" mem_ok] by simp
next
  case False
  then obtain x where "hash_find h e = Some x" by blast
  moreover from this have "hash_insert mem_ok h e = (Some x, rehash mem_ok h)"
    by (simp add: hash_insert_def hash_find_def)
  ultimately show ?thesis using rehash_inv [OF assms] by simp
qed

lemma hash_delete_law:
  assumes "hash_inv hsh lt h"
  shows "hash_inv hsh lt (snd (hash_delete mem_ok h e)) \<and> fst (hash_delete mem_ok h e) = hash_find h e \<and>
    set (hash_elems (snd (hash_delete mem_ok h e))) = set (hash_elems h) - set_option (hash_find h e)"
proof (cases "hash_find h e")
  case None
  then show ?thesis using assms by (simp add: hash_delete_def hash_find_def)
next
  case (Some x)
  then have "x \<in> set (hash_elems h)" using hash_find_Some [OF assms] by simp
  note rm = remove_elem_inv [OF assms this]
  have "hash_delete mem_ok h e = (Some x, rehash mem_ok (remove_elem h x))"
    using Some by (simp add: hash_delete_def hash_find_def)
  then show ?thesis using rm rehash_inv [of "remove_elem h x" mem_ok] Some by simp
qed

lemma hash_replace_law:
  assumes "hash_inv hsh lt h"
  shows "hash_inv hsh lt (snd (hash_replace mem_ok h e)) \<and> fst (hash_replace mem_ok h e) = hash_find h e \<and>
    set (hash_elems (snd (hash_replace mem_ok h e))) = insert e (set (hash_elems h) - set_option (hash_find h e))"
proof -
  define h1 where "h1 = (case hash_find h e of Some x \<Rightarrow> remove_elem h x | None \<Rightarrow> h)"
  have "x \<in> set (hash_elems h)" if "hash_find h e = Some x" for x
    using that hash_find_Some [OF assms, of e] by blast
  then have h1: "hash_inv hsh lt h1 \<and> set (hash_elems h1) = set (hash_elems h) - set_option (hash_find h e)"
    using assms remove_elem_inv [OF assms] by (cases "hash_find h e") (simp_all add: h1_def)
  have "find_bucket h e = find_bucket h1 e"
    by (rule find_bucket_cong) (auto simp: h1_def remove_elem_def split: option.splits)
  then have "hash_replace mem_ok h e = (hash_find h e, rehash mem_ok (insert_elem h1 (find_bucket h1 e) e))"
    by (simp add: hash_replace_def hash_find_def h1_def Let_def)
  moreover have "lt x e \<or> lt e x" if "x \<in> set (hash_elems h1)" for x
    using that h1 hash_find_Some [OF assms, of e x] by auto
  then have "hash_inv hsh lt (insert_elem h1 (find_bucket h1 e) e)"
    "set (hash_elems (insert_elem h1 (find_bucket h1 e) e)) = insert e (set (hash_elems h1))"
    using insert_elem_inv [of h1 e] h1 by blast+
  ultimately show ?thesis using rehash_inv h1 by simp
qed

end

lemma hash_init_inv:
  "\<exists>h. hash_init True hsh lt = Some h \<and> hash_inv hsh lt h \<and> hash_elems h = []"
proof -
  have "is_power_of_2 4" by (simp add: is_power_of_2_def turn_off_least_1bit_def)
  then show ?thesis
    by (simp add: hash_init_def hash_clear_def hash_inv_def buckets_ok_def hash_elems_def)
qed

text \<open>The library's own integer keys and hash function satisfy the contract.\<close>

interpretation int_keys: hash_functions "(<) :: u32 \<Rightarrow> u32 \<Rightarrow> bool" hash_int
  by unfold_locales auto

section \<open>Iterators\<close>

fun hash_drain :: "nat \<Rightarrow> 'a hash \<Rightarrow> hash_iterator \<Rightarrow> 'a list option" where
  "hash_drain 0 h i = None"
| "hash_drain (Suc fuel) h i = do {
     (i', e) \<leftarrow> hash_next h i;
     case e of None \<Rightarrow> Some [] | Some x \<Rightarrow> do { xs \<leftarrow> hash_drain fuel h i'; Some (x # xs) }
   }"

text \<open>The elements an iterator has still to visit.\<close>

definition remaining :: "'a hash \<Rightarrow> nat \<Rightarrow> nat \<Rightarrow> 'a list" where
  "remaining h b p = drop p (buckets h ! b) @ concat (drop (Suc b) (buckets h))"

lemma hash_next_loop_spec:
  assumes "length (buckets h) = bucket_cnt h" and "b < bucket_cnt h" and "1 \<le> p" and "p \<le> length (buckets h ! b) + 1"
  shows "case remaining h b (p - 1) of
      [] \<Rightarrow> it_elem (hash_next_loop h b p) = None
    | x # xs \<Rightarrow> \<exists>b' p'. hash_next_loop h b p = \<lparr>it_bucket = b', it_elem = Some p'\<rparr> \<and> b' < bucket_cnt h \<and>
        1 \<le> p' \<and> p' \<le> length (buckets h ! b') \<and> buckets h ! b' ! (p' - 1) = x \<and> remaining h b' p' = xs"
  using assms
proof (induction h b p rule: hash_next_loop.induct)
  case (1 h b p)
  show ?case
  proof (cases "p = length (buckets h ! b) + 1")
    case False
    then have "p - 1 < length (buckets h ! b)" using 1(4,5) by simp
    then have "remaining h b (p - 1) = buckets h ! b ! (p - 1) # remaining h b p"
      using 1(4) Cons_nth_drop_Suc [of "p - 1" "buckets h ! b"] by (simp add: remaining_def)
    with False 1(3-5) show ?thesis by (subst (2) hash_next_loop.simps) auto
  next
    case True
    show ?thesis
    proof (cases "b + 1 \<ge> bucket_cnt h")
      case stop: True
      then show ?thesis using True 1(2) by (subst hash_next_loop.simps) (simp add: remaining_def)
    next
      case False
      then have "remaining h b (p - 1) = remaining h (b + 1) 0"
        using True 1(2) Cons_nth_drop_Suc [of "Suc b" "buckets h", symmetric] by (simp add: remaining_def)
      moreover have "hash_next_loop h b p = hash_next_loop h (b + 1) 1"
        using True False by (subst hash_next_loop.simps) simp
      ultimately show ?thesis using 1(1) [OF True False 1(2)] False by (simp only:) simp
    qed
  qed
qed

lemma hash_drain_remaining:
  assumes "length (buckets h) = bucket_cnt h" and "b < bucket_cnt h" and "p \<le> length (buckets h ! b)"
    and "length (remaining h b p) < fuel"
  shows "hash_drain fuel h \<lparr>it_bucket = b, it_elem = Some p\<rparr> = Some (remaining h b p)"
  using assms(2-)
proof (induction fuel arbitrary: b p)
  case (Suc fuel)
  note step = hash_next_loop_spec [OF assms(1) Suc.prems(1), of "p + 1"]
  show ?case
  proof (cases "remaining h b p")
    case Nil
    then have "it_elem (hash_next_loop h b (p + 1)) = None" using step Suc.prems by simp
    with Nil Suc.prems show ?thesis by (simp add: hash_next_def hash_cur_def)
  next
    case (Cons x xs)
    with step Suc.prems obtain b' p' where "hash_next_loop h b (p + 1) = \<lparr>it_bucket = b', it_elem = Some p'\<rparr>"
      "b' < bucket_cnt h" "p' \<le> length (buckets h ! b')" "buckets h ! b' ! (p' - 1) = x" "remaining h b' p' = xs"
      by auto
    with Suc.IH [of b' p'] Cons Suc.prems show ?thesis by (simp add: hash_next_def hash_cur_def)
  qed
qed simp

lemma hash_drain_first:
  assumes "buckets_ok h" and "length (hash_elems h) < fuel"
  shows "hash_drain fuel h (hash_first h) = Some (hash_elems h)"
proof -
  have cnt: "0 < bucket_cnt h" and len: "length (buckets h) = bucket_cnt h"
    using assms(1) by (auto simp: buckets_ok_def is_power_of_2_def)
  then have "remaining h 0 0 = hash_elems h"
    by (cases "buckets h") (auto simp: remaining_def hash_elems_def)
  then show ?thesis
    using hash_drain_remaining [OF len cnt, of 0 fuel] assms(2) by (simp add: hash_first_def)
qed

section \<open>Properties\<close>

text \<open>
  C31. A hash table is a finite set: for a strict weak order and a hash function that agrees on equal
  elements, \<^verbatim>\<open>hash_insert\<close> keeps the table's invariant, adds the element exactly when no equal one is
  present, returns the equal element otherwise, and afterwards \<^verbatim>\<open>hash_find\<close> finds the inserted
  element or its equal while the answer for every other element is the one before; all this
  whether or not the table could be resized.
\<close>

theorem hash_insert_correct:
  assumes "\<And>a b. lt a b \<Longrightarrow> \<not> lt b a" and "\<And>a b c. lt a c \<Longrightarrow> lt a b \<or> lt b c"
    and "\<And>a b. \<not> lt a b \<Longrightarrow> \<not> lt b a \<Longrightarrow> hsh a = hsh b"
    and "hash_inv hsh lt h"
  shows "\<exists>old h'. hash_insert mem_ok h e = (old, h') \<and> hash_inv hsh lt h' \<and> old = hash_find h e \<and>
    hash_find h' e = (if old = None then Some e else old) \<and>
    (\<forall>x. lt x e \<or> lt e x \<longrightarrow> hash_find h' x = hash_find h x) \<and>
    hash_size h' = (if old = None then hash_size h + 1 else hash_size h)"
proof -
  have fns: "hash_functions lt hsh" using assms(1-3) by unfold_locales blast+
  let ?h' = "snd (hash_insert mem_ok h e)"
  note law = hash_functions.hash_insert_law [OF fns assms(4), of mem_ok e]
  then have inv': "hash_inv hsh lt ?h'" by simp
  note find = hash_functions.hash_find_Some [OF fns assms(4)] and find' = hash_functions.hash_find_Some [OF fns inv']
  have "\<not> lt e e" using assms(1) by blast
  have e: "hash_find ?h' e = (if hash_find h e = None then Some e else hash_find h e)"
  proof (cases "hash_find h e")
    case None
    with law \<open>\<not> lt e e\<close> show ?thesis by (simp add: find')
  next
    case (Some x)
    with law find [of e x] show ?thesis by (simp add: find')
  qed
  have other: "hash_find ?h' x = hash_find h x" if x: "lt x e \<or> lt e x" for x
  proof -
    have "hash_find ?h' x = Some y \<longleftrightarrow> hash_find h x = Some y" for y
      using law x by (auto simp: find find' split: if_splits)
    then show ?thesis by (metis option.exhaust)
  qed
  have "hash_size ?h' = card (set (hash_elems ?h'))" "hash_size h = card (set (hash_elems h))"
    using inv' assms(4) by (simp_all add: hash_inv_def hash_size_def distinct_card)
  moreover have "e \<notin> set (hash_elems h)" if "hash_find h e = None"
    using that find [of e e] \<open>\<not> lt e e\<close> by auto
  ultimately have "hash_size ?h' = (if hash_find h e = None then hash_size h + 1 else hash_size h)"
    using law by auto
  with law e other show ?thesis by (intro exI [of _ "hash_find h e"] exI [of _ ?h']) (auto simp: prod_eq_iff)
qed

theorem hash_insert_correct_witness:
  "\<exists>h. hash_init True hash_int (<) = Some h \<and> hash_find (snd (hash_insert True h 7)) 7 = Some 7 \<and>
    hash_find (snd (hash_insert True h 7)) 8 = None"
proof -
  obtain h where h: "hash_init True hash_int (<) = Some h" "hash_inv hash_int (<) h" "hash_elems h = []"
    using hash_init_inv by blast
  then have none: "hash_find h x = None" for x
    using int_keys.hash_find_None by simp
  have "\<exists>old h'. hash_insert True h 7 = (old, h') \<and> hash_inv hash_int (<) h' \<and> old = hash_find h 7 \<and>
      hash_find h' 7 = (if old = None then Some 7 else old) \<and>
      (\<forall>x. x < 7 \<or> 7 < x \<longrightarrow> hash_find h' x = hash_find h x) \<and>
      hash_size h' = (if old = None then hash_size h + 1 else hash_size h)"
    by (rule hash_insert_correct [OF _ _ _ h(2)]) auto
  with none [of 7] none [of 8] h(1) show ?thesis by auto
qed

text \<open>
  C37. \<^verbatim>\<open>hash_delete\<close> removes exactly the element equal to its argument, if there is one, and returns
  it; every other element stays in the table, and the invariant holds afterwards.
\<close>

theorem hash_delete_correct:
  assumes "\<And>a b. lt a b \<Longrightarrow> \<not> lt b a" and "\<And>a b c. lt a c \<Longrightarrow> lt a b \<or> lt b c"
    and "\<And>a b. \<not> lt a b \<Longrightarrow> \<not> lt b a \<Longrightarrow> hsh a = hsh b"
    and "hash_inv hsh lt h"
  shows "\<exists>h'. hash_delete mem_ok h e = (hash_find h e, h') \<and> hash_inv hsh lt h' \<and> hash_find h' e = None \<and>
    (\<forall>x. lt x e \<or> lt e x \<longrightarrow> hash_find h' x = hash_find h x)"
proof -
  have fns: "hash_functions lt hsh" using assms(1-3) by unfold_locales blast+
  let ?h' = "snd (hash_delete mem_ok h e)"
  note law = hash_functions.hash_delete_law [OF fns assms(4), of mem_ok e]
  then have inv': "hash_inv hsh lt ?h'" by simp
  note find = hash_functions.hash_find_Some [OF fns assms(4)] and find' = hash_functions.hash_find_Some [OF fns inv']
  have "hash_find ?h' e \<noteq> Some x" for x
    using law find [of e x] by (auto simp: find')
  then have "hash_find ?h' e = None" by (metis option.exhaust)
  moreover have "hash_find ?h' x = hash_find h x" if x: "lt x e \<or> lt e x" for x
  proof -
    have "y \<notin> set_option (hash_find h e)" if "\<not> lt y x" "\<not> lt x y" for y
      using that x assms(2) find [of e y] by auto
    then have "hash_find ?h' x = Some y \<longleftrightarrow> hash_find h x = Some y" for y
      using law by (auto simp: find find')
    then show ?thesis by (metis option.exhaust)
  qed
  ultimately show ?thesis using law by (intro exI [of _ ?h']) (auto simp: prod_eq_iff)
qed

theorem hash_delete_correct_witness:
  "\<exists>h. hash_init True hash_int (<) = Some h \<and>
    hash_find (snd (hash_delete False (snd (hash_insert True h 7)) 7)) 7 = None"
proof -
  obtain h where h: "hash_init True hash_int (<) = Some h" "hash_inv hash_int (<) h"
    using hash_init_inv by blast
  then have "hash_inv hash_int (<) (snd (hash_insert True h 7))" using int_keys.hash_insert_law by blast
  then have "\<exists>h'. hash_delete False (snd (hash_insert True h 7)) 7 = (hash_find (snd (hash_insert True h 7)) 7, h') \<and>
      hash_inv hash_int (<) h' \<and> hash_find h' 7 = None \<and>
      (\<forall>x. x < 7 \<or> 7 < x \<longrightarrow> hash_find h' x = hash_find (snd (hash_insert True h 7)) x)"
    by (intro hash_delete_correct) auto
  with h(1) show ?thesis by auto
qed

text \<open>
  C38. A loop with \<^verbatim>\<open>hash_first\<close> and \<^verbatim>\<open>hash_next\<close> over a well-formed table visits every element of the table
  exactly once, and ends after as many steps as there are elements.
\<close>

theorem hash_iteration_complete:
  assumes "hash_inv hsh lt h"
  shows "\<exists>xs. hash_drain (hash_size h + 1) h (hash_first h) = Some xs \<and> distinct xs \<and>
    length xs = hash_size h \<and> set xs = (\<Union>b \<in> set (buckets h). set b)"
  using hash_drain_first [of h "hash_size h + 1"] assms
  by (auto simp: hash_inv_def hash_size_def hash_elems_def)

theorem hash_iteration_complete_witness:
  "\<exists>h xs. hash_init True hash_int (<) = Some h \<and>
    hash_drain (hash_size (snd (hash_insert True h 7)) + 1) (snd (hash_insert True h 7))
      (hash_first (snd (hash_insert True h 7))) = Some xs \<and> distinct xs"
proof -
  obtain h where h: "hash_init True hash_int (<) = Some h" "hash_inv hash_int (<) h"
    using hash_init_inv by blast
  then have "hash_inv hash_int (<) (snd (hash_insert True h 7))" using int_keys.hash_insert_law by blast
  from hash_iteration_complete [OF this] h(1) show ?thesis by blast
qed

end
