(* ===== verification/Arith64.thy ===== *)
theory Arith64
  imports Pintos_Prelude
begin

text \<open>
  The 64-bit division routines of \<^verbatim>\<open>lib/arithmetic.c\<close>, which the compiler calls for \<^verbatim>\<open>/\<close> and \<^verbatim>\<open>%\<close> on
  \<^verbatim>\<open>long long\<close>.  Operands are 64-bit words; signed operands are read with \<open>sint\<close>.  The instruction
  \<^verbatim>\<open>divl\<close> traps when the quotient does not fit, which is \<open>None\<close> here.

  The lemmas show that unsigned division never traps and is exact for every non-zero divisor, and that signed
  division truncates towards zero; the remainder routines truncate their result to 32 bits.
\<close>

section \<open>The routines\<close>

definition divl :: "u64 \<Rightarrow> u32 \<Rightarrow> u32 option" where
  "divl n d =
     (if d = 0 \<or> unat n div unat d \<ge> 2 ^ 32 then None else Some (word_of_nat (unat n div unat d)))"

text \<open>One of the conditional shifts of \<^verbatim>\<open>nlz\<close>: \<^verbatim>\<open>if (x <= bound) { n += k; x <<= k; }\<close>.\<close>

definition nlz_step :: "u32 \<Rightarrow> nat \<Rightarrow> nat \<times> u32 \<Rightarrow> nat \<times> u32" where
  "nlz_step bound k nx = (if snd nx \<le> bound then (fst nx + k, push_bit k (snd nx)) else nx)"

definition nlz :: "u32 \<Rightarrow> nat" where
  "nlz x =
     (let nx = (0, x);
          nx = nlz_step 0x0000FFFF 16 nx;
          nx = nlz_step 0x00FFFFFF 8 nx;
          nx = nlz_step 0x0FFFFFFF 4 nx;
          nx = nlz_step 0x3FFFFFFF 2 nx
      in if snd nx \<le> 0x7FFFFFFF then fst nx + 1 else fst nx)"

definition udiv64 :: "u64 \<Rightarrow> u64 \<Rightarrow> u64 option" where
  "udiv64 n d =
     (if drop_bit 32 d = 0 then do {
        let b = push_bit 32 1;
        let n1 = (ucast (drop_bit 32 n) :: u32);
        let n0 = (ucast n :: u32);
        let d0 = (ucast d :: u32);
        ASSERT (d0 \<noteq> 0);
        q \<leftarrow> divl (b * ucast (n1 mod d0) + ucast n0) d0;
        Some (ucast q + b * ucast (n1 div d0))
      }
      else if n < d then Some 0
      else do {
        let d1 = (ucast (drop_bit 32 d) :: u32);
        let s = nlz d1;
        q0 \<leftarrow> divl (drop_bit 1 n) (ucast (drop_bit 32 (push_bit s d)));
        let q = (ucast (drop_bit (31 - s) q0) :: u64);
        Some (if n - (q - 1) * d < d then q - 1 else q)
      })"

definition umod64 :: "u64 \<Rightarrow> u64 \<Rightarrow> u32 option" where
  "umod64 n d = do { q \<leftarrow> udiv64 n d; Some (ucast (n - d * q)) }"

definition sdiv64 :: "u64 \<Rightarrow> u64 \<Rightarrow> u64 option" where
  "sdiv64 n d = do {
     let n_abs = (if 0 \<le> sint n then n else - n);
     let d_abs = (if 0 \<le> sint d then d else - d);
     q_abs \<leftarrow> udiv64 n_abs d_abs;
     Some (if (sint n < 0) = (sint d < 0) then q_abs else - q_abs)
   }"

definition smod64 :: "u64 \<Rightarrow> u64 \<Rightarrow> u32 option" where
  "smod64 n d = do { q \<leftarrow> sdiv64 n d; Some (ucast (n - d * q)) }"

text \<open>The entry points return 64-bit integers: the 32-bit remainders are extended again.\<close>

definition divdi3 :: "u64 \<Rightarrow> u64 \<Rightarrow> u64 option" where
  "divdi3 n d = sdiv64 n d"

definition moddi3 :: "u64 \<Rightarrow> u64 \<Rightarrow> u64 option" where
  "moddi3 n d = do { r \<leftarrow> smod64 n d; Some (scast r) }"

definition udivdi3 :: "u64 \<Rightarrow> u64 \<Rightarrow> u64 option" where
  "udivdi3 n d = udiv64 n d"

definition umoddi3 :: "u64 \<Rightarrow> u64 \<Rightarrow> u64 option" where
  "umoddi3 n d = do { r \<leftarrow> umod64 n d; Some (ucast r) }"

section \<open>Leading zeros\<close>

text \<open>
  The invariant of the steps: \<open>x\<close> is the argument shifted left by \<open>n\<close> bits, none of which was set, and
  exceeds \<open>low\<close>.
\<close>

definition nlz_inv :: "u32 \<Rightarrow> nat \<Rightarrow> nat \<Rightarrow> nat \<times> u32 \<Rightarrow> bool" where
  "nlz_inv x0 low m nx \<longleftrightarrow> unat (snd nx) = unat x0 * 2 ^ fst nx \<and> low \<le> unat (snd nx) \<and> fst nx \<le> m"

lemma nlz_step_inv:
  assumes "nlz_inv x0 low m nx" and "low * 2 ^ k \<ge> low'" and "low' = unat bound + 1"
    and "low' * 2 ^ k = 2 ^ 32"
  shows "nlz_inv x0 low' (m + k) (nlz_step bound k nx)"
proof (cases "snd nx \<le> bound")
  case True
  then have "unat (snd nx) < low'" using assms(3) by (simp add: word_le_nat_alt)
  then have "unat (snd nx) * 2 ^ k < low' * 2 ^ k" by simp
  then have "unat (push_bit k (snd nx)) = unat (snd nx) * 2 ^ k"
    using assms(4) by (intro unat_push_bit_small) simp
  moreover have "low * 2 ^ k \<le> unat (snd nx) * 2 ^ k"
    using assms(1) unfolding nlz_inv_def by (intro mult_le_mono1) simp
  then have "low' \<le> unat (snd nx) * 2 ^ k" using assms(2) by (rule le_trans [rotated])
  ultimately show ?thesis
    using True assms(1,2) by (simp add: nlz_inv_def nlz_step_def power_add)
next
  case False
  then show ?thesis using assms(1,3) by (auto simp: nlz_inv_def nlz_step_def word_le_nat_alt)
qed

lemma nlz_correct:
  assumes "x \<noteq> 0"
  shows "2 ^ 31 \<le> unat x * 2 ^ nlz x \<and> unat x * 2 ^ nlz x < 2 ^ 32 \<and> nlz x \<le> 31"
proof -
  let ?s1 = "nlz_step 0x0000FFFF 16 (0, x)"
  let ?s2 = "nlz_step 0x00FFFFFF 8 ?s1"
  let ?s3 = "nlz_step 0x0FFFFFFF 4 ?s2"
  let ?s4 = "nlz_step 0x3FFFFFFF 2 ?s3"
  have "nlz_inv x 1 0 (0, x)" using assms by (simp add: nlz_inv_def unat_gt_0 Suc_le_eq)
  then have "nlz_inv x (2 ^ 16) 16 ?s1" by (drule_tac nlz_step_inv [where k = 16]) simp_all
  then have "nlz_inv x (2 ^ 24) 24 ?s2" by (drule_tac nlz_step_inv [where k = 8]) simp_all
  then have "nlz_inv x (2 ^ 28) 28 ?s3" by (drule_tac nlz_step_inv [where k = 4]) simp_all
  then have s4: "nlz_inv x (2 ^ 30) 30 ?s4" by (drule_tac nlz_step_inv [where k = 2]) simp_all
  have nlz: "nlz x = (if snd ?s4 \<le> 0x7FFFFFFF then fst ?s4 + 1 else fst ?s4)"
    by (simp add: nlz_def Let_def)
  show ?thesis
  proof (cases "snd ?s4 \<le> 0x7FFFFFFF")
    case True
    then have "unat (snd ?s4) < 2 ^ 31" by (simp add: word_le_nat_alt)
    with s4 True show ?thesis by (simp add: nlz nlz_inv_def)
  next
    case False
    then have "2 ^ 31 \<le> unat (snd ?s4)" by (simp add: word_le_nat_alt)
    moreover have "unat (snd ?s4) < 2 ^ 32" by (rule unat_less_exp32)
    ultimately show ?thesis using s4 False by (simp add: nlz nlz_inv_def)
  qed
qed

section \<open>Unsigned division\<close>

lemma word_eq_unatI: "unat a = unat b \<Longrightarrow> a = (b :: 'a::len word)"
  by (rule word_unat_eq_iff [THEN iffD2])

lemma unat_div_word: "unat (a div b) = unat a div unat (b :: 'a::len word)"
  by (simp add: unat_div_distrib)

lemma divl_eq:
  assumes "d \<noteq> 0" and "unat n div unat d < 2 ^ 32"
  shows "\<exists>q. divl n d = Some q \<and> unat q = unat n div unat d"
  using assms by (simp add: divl_def unat_of_nat_small)

lemma split_division:
  fixes a c b d :: nat
  shows "(b * (a mod d) + c) div d + b * (a div d) = (b * a + c) div d"
proof (cases "d = 0")
  case False
  have "b * a + c = b * (a mod d) + c + d * (b * (a div d))"
    using mod_mult_div_eq [of a d, symmetric] by (metis add.commute add.left_commute distrib_left mult.left_commute)
  then have "(b * a + c) div d = (b * (a mod d) + c + d * (b * (a div d))) div d" by (rule arg_cong)
  then show ?thesis using False by (simp only: div_mult_self2 not_False_eq_True)
qed simp

lemma quotient_fits:
  fixes a c b d :: nat
  assumes "0 < d" and "c < b"
  shows "(b * (a mod d) + c) div d < b"
proof -
  have "b * (a mod d) + c < b * (a mod d + 1)" using assms(2) by simp
  also have "\<dots> \<le> b * d" using assms(1) by (intro mult_le_mono2) (simp add: Suc_le_eq)
  finally show ?thesis using assms(1) by (simp add: less_mult_imp_div_less)
qed

lemma udiv64_small:
  assumes "drop_bit 32 d = 0" and "d \<noteq> 0"
  shows "udiv64 n d = Some (n div d)"
proof -
  define n1 n0 d0 where "n1 = (ucast (drop_bit 32 n) :: u32)" and "n0 = (ucast n :: u32)" and "d0 = (ucast d :: u32)"
  define m where "m = (push_bit 32 1 * ucast (n1 mod d0) + ucast n0 :: u64)"
  have "unat d div 2 ^ 32 = 0" using assms(1) unat_drop_bit [of 32 d] by simp
  then have D: "unat d < 2 ^ 32" "unat d0 = unat d" by (auto simp: d0_def unat_ucast div_eq_0_iff)
  have N: "unat n < 2 ^ 64" by (rule unat_less_exp64)
  then have n1: "unat n1 = unat n div 2 ^ 32" by (simp add: n1_def unat_ucast unat_drop_bit)
  have n0: "unat n0 = unat n mod 2 ^ 32" by (simp add: n0_def unat_ucast)
  have pos: "0 < unat d" using assms(2) by (simp add: unat_gt_0)
  define r where "r = unat n div 2 ^ 32 mod unat d"
  have r: "r < 2 ^ 32" using pos D(1) unfolding r_def by (meson mod_less_divisor less_trans)
  have "unat (ucast (n1 mod d0) :: u64) = r"
    using r by (simp add: unat_ucast unat_mod_distrib n1 D(2) r_def)
  moreover have "unat (ucast n0 :: u64) = unat n mod 2 ^ 32" by (simp add: unat_ucast n0)
  moreover have "unat (push_bit 32 1 :: u64) = 2 ^ 32" by simp
  ultimately have m: "unat m = 2 ^ 32 * r + unat n mod 2 ^ 32"
    using r by (simp add: m_def unat_word_ariths)
  have "unat m div unat d0 < 2 ^ 32"
    unfolding m D(2) r_def by (rule quotient_fits) (use pos in simp_all)
  moreover have "d0 \<noteq> 0" using pos D(2) by auto
  ultimately obtain q where q: "divl m d0 = Some q" "unat q = unat m div unat d0"
    using divl_eq by blast
  have sum: "unat q + 2 ^ 32 * (unat n div 2 ^ 32 div unat d) = unat n div unat d"
    using split_division [of "2 ^ 32" "unat n div 2 ^ 32" "unat d" "unat n mod 2 ^ 32"]
    by (simp add: q(2) m D(2) r_def)
  have "unat n div unat d \<le> unat n" by (rule div_le_dividend)
  then have "unat q + 2 ^ 32 * (unat n div 2 ^ 32 div unat d) < 2 ^ 64" using sum N by linarith
  then have "unat (ucast q + push_bit 32 1 * ucast (n1 div d0) :: u64) = unat n div unat d"
    using sum by (simp add: unat_word_ariths unat_ucast unat_div_word n1 D(2))
  then have "ucast q + push_bit 32 1 * ucast (n1 div d0) = n div d"
    by (intro word_eq_unatI) (simp add: unat_div_word)
  with q(1) \<open>d0 \<noteq> 0\<close> assms(1) show ?thesis
    by (simp add: udiv64_def Let_def m_def n1_def n0_def d0_def)
qed

text \<open>
  The quotient estimate for large divisors: dividing by the leading 32 bits \<open>v\<close> of the divisor gives the
  quotient or one more.
\<close>

lemma quotient_estimate:
  fixes n d v P :: nat
  assumes "v * P \<le> d" and "d < v * P + P" and "2 ^ 31 \<le> v" and "n < 2 ^ 64" and "P = 2 \<or> 4 \<le> P"
  shows "n div d \<le> n div (v * P) \<and> (n div (v * P) - 1) * d \<le> n"
proof
  define q where "q = n div (v * P)"
  have P: "0 < P" using assms(5) by auto
  then have "0 < v * P" using assms(3) by (simp add: gr0I)
  then show "n div d \<le> n div (v * P)" using assms(1) by (intro div_le_mono2)
  have qn: "q * (v * P) \<le> n" unfolding q_def by (rule div_times_less_eq_dividend)
  have "q * P * 2 ^ 31 \<le> q * P * v" using assms(3) by (intro mult_le_mono2)
  also have "\<dots> \<le> n" using qn by (simp add: mult.commute mult.left_commute)
  finally have qP: "q * P < 2 ^ 33" using assms(4) by simp
  have slack: "(q - 1) * (P - 1) \<le> v * P"
  proof (cases "P = 2")
    case True
    then show ?thesis using qP assms(3) by simp
  next
    case False
    have "(q - 1) * (P - 1) \<le> q * P" by (intro mult_le_mono) simp_all
    also have "\<dots> \<le> 2 ^ 31 * 4" using qP by simp
    also have "\<dots> \<le> v * P" using assms(3,5) False by (intro mult_le_mono) simp_all
    finally show ?thesis .
  qed
  show "(n div (v * P) - 1) * d \<le> n"
  proof (cases "q = 0")
    case False
    have "(q - 1) * d \<le> (q - 1) * (v * P + (P - 1))" using assms(2) by (intro mult_le_mono2) linarith
    also have "\<dots> \<le> (q - 1) * (v * P) + v * P" using slack by (simp add: distrib_left)
    also have "\<dots> = q * (v * P)" using False by (cases q) (simp_all add: distrib_right)
    finally show ?thesis using qn unfolding q_def by (rule le_trans)
  qed (simp add: q_def)
qed

lemma correct_estimate:
  fixes n d q :: nat
  assumes "0 < d" and "n div d \<le> q" and "(q - 1) * d \<le> n" and "1 \<le> q"
  shows "(if n - (q - 1) * d < d then q - 1 else q) = n div d"
proof (cases "n - (q - 1) * d < d")
  case True
  then have "n < (q - 1) * d + d" using assms(3) by linarith
  with assms(3) have "n div d = q - 1" by (intro div_nat_eqI) (simp_all add: mult.commute)
  with True show ?thesis by simp
next
  case False
  then have "(q - 1) * d + d \<le> n" using assms(3) by linarith
  then have "q * d \<le> n" using assms(4) by (cases q) simp_all
  then have "q \<le> n div d" using assms(1) by (simp add: less_eq_div_iff_mult_less_eq)
  with False assms(2) show ?thesis by simp
qed

text \<open>The leading bits of a divisor of more than 32 bits.\<close>

lemma leading_bits:
  fixes d :: u64
  assumes "drop_bit 32 d \<noteq> 0"
  defines "s \<equiv> nlz (ucast (drop_bit 32 d))"
  shows "s \<le> 31" and "unat (ucast (drop_bit 32 (push_bit s d)) :: u32) = unat d div 2 ^ (32 - s)"
    and "2 ^ 31 \<le> unat d div 2 ^ (32 - s)"
proof -
  define d1 where "d1 = unat d div 2 ^ 32"
  have D: "unat d < 2 ^ 64" by (rule unat_less_exp64)
  have d1: "unat (ucast (drop_bit 32 d) :: u32) = d1"
    using D by (simp add: unat_ucast unat_drop_bit d1_def)
  have "unat (drop_bit 32 d) \<noteq> 0" using assms(1) by (metis unat_0 word_eq_unatI)
  then have "d1 \<noteq> 0" by (simp add: unat_drop_bit d1_def)
  then have "(ucast (drop_bit 32 d) :: u32) \<noteq> 0" using d1 by (metis unat_0)
  from nlz_correct [OF this] have s: "2 ^ 31 \<le> d1 * 2 ^ s" "d1 * 2 ^ s < 2 ^ 32" "s \<le> 31"
    by (simp_all only: d1 s_def)
  then show "s \<le> 31" by simp
  have split: "(2 :: nat) ^ 32 = 2 ^ (32 - s) * 2 ^ s" using s(3) by (simp flip: power_add)
  have "d1 < 2 ^ (32 - s)" using s(2) unfolding split by simp
  then have "(d1 + 1) * 2 ^ 32 * 2 ^ s \<le> 2 ^ (32 - s) * 2 ^ 32 * 2 ^ s" by (intro mult_le_mono1) simp
  also have "\<dots> = 2 ^ 64" using split by (simp add: mult.commute mult.left_commute)
  finally have "(d1 + 1) * 2 ^ 32 * 2 ^ s \<le> 2 ^ 64" .
  moreover have "unat d < (d1 + 1) * 2 ^ 32"
    using div_mult_mod_eq [of "unat d" "2 ^ 32"] mod_less_divisor [of "2 ^ 32" "unat d"] by (simp add: d1_def)
  then have "unat d * 2 ^ s < (d1 + 1) * 2 ^ 32 * 2 ^ s" by simp
  ultimately have fits: "unat d * 2 ^ s < 2 ^ 64" by linarith
  then have "unat (drop_bit 32 (push_bit s d)) = unat d * 2 ^ s div 2 ^ 32"
    using unat_push_bit_small [of d s] by (simp add: unat_drop_bit)
  also have "\<dots> = unat d div 2 ^ (32 - s)" unfolding split by simp
  finally have eq: "unat (drop_bit 32 (push_bit s d)) = unat d div 2 ^ (32 - s)" .
  have "unat d * 2 ^ s div 2 ^ 32 < 2 ^ 32" using fits by (simp add: less_mult_imp_div_less)
  then have "unat d div 2 ^ (32 - s) < 2 ^ 32" unfolding split by simp
  with eq show "unat (ucast (drop_bit 32 (push_bit s d)) :: u32) = unat d div 2 ^ (32 - s)"
    by (simp add: unat_ucast)
  have "2 ^ 31 * 2 ^ (32 - s) \<le> d1 * 2 ^ s * 2 ^ (32 - s)" using s(1) by (intro mult_le_mono1)
  also have "\<dots> = d1 * 2 ^ 32" using split by (simp add: mult.commute mult.left_commute)
  also have "\<dots> \<le> unat d" unfolding d1_def by (rule div_times_less_eq_dividend)
  finally show "2 ^ 31 \<le> unat d div 2 ^ (32 - s)" by (simp add: less_eq_div_iff_mult_less_eq)
qed

lemma udiv64_large:
  assumes "drop_bit 32 d \<noteq> 0" and "\<not> n < d"
  shows "udiv64 n d = Some (n div d)"
proof -
  define s where "s = nlz (ucast (drop_bit 32 d))"
  define v where "v = (ucast (drop_bit 32 (push_bit s d)) :: u32)"
  define P :: nat where "P = 2 ^ (32 - s)"
  note lead = leading_bits [OF assms(1), folded s_def, folded v_def P_def]
  have P: "0 < P" "P = 2 \<or> 4 \<le> P" "P = 2 * 2 ^ (31 - s)"
  proof -
    have "32 - s = Suc (31 - s)" using lead(1) by simp
    then show P2: "P = 2 * 2 ^ (31 - s)" by (simp add: P_def)
    then show "0 < P" "P = 2 \<or> 4 \<le> P" by (cases "31 - s"; simp)+
  qed
  have N: "unat n < 2 ^ 64" by (rule unat_less_exp64)
  have le: "unat d \<le> unat n" using assms(2) by (simp add: word_less_nat_alt)
  have "unat (drop_bit 32 d) \<noteq> 0" using assms(1) by (metis unat_0 word_eq_unatI)
  then have pos: "0 < unat d" by (auto simp: unat_drop_bit intro: gr0I)
  have half: "unat (drop_bit 1 n) = unat n div 2" by (simp add: unat_drop_bit)
  have "unat n div 2 div unat v < 2 ^ 32"
  proof -
    have "unat n div 2 < 2 ^ 32 * 2 ^ 31" using N by simp
    also have "\<dots> \<le> 2 ^ 32 * unat v" using lead(2,3) by simp
    finally show ?thesis by (simp add: less_mult_imp_div_less)
  qed
  moreover have "v \<noteq> 0" using lead(2,3) by auto
  ultimately obtain q0 where q0: "divl (drop_bit 1 n) v = Some q0" "unat q0 = unat n div 2 div unat v"
    using divl_eq [of v "drop_bit 1 n"] half by auto
  define q where "q = (ucast (drop_bit (31 - s) q0) :: u64)"
  have "unat q0 div 2 ^ (31 - s) < 2 ^ 64"
    using le_less_trans [OF div_le_dividend unat_less_exp32, of q0 "2 ^ (31 - s)"] by simp
  then have "unat q = unat n div 2 div unat v div 2 ^ (31 - s)"
    by (simp add: q_def unat_ucast unat_drop_bit q0(2))
  also have "\<dots> = unat n div (unat v * P)"
    by (simp add: P(3) div_mult2_eq [symmetric] ac_simps)
  finally have q: "unat q = unat n div (unat v * P)" .
  have "unat v * P \<le> unat d" "unat d < unat v * P + P"
    using P(1) div_mult_mod_eq [of "unat d" P] mod_less_divisor [OF P(1), of "unat d"]
    unfolding lead(2) by linarith+
  from quotient_estimate [OF this _ N P(2)] lead(2,3)
  have est: "unat n div unat d \<le> unat q" "(unat q - 1) * unat d \<le> unat n" unfolding q by auto
  have "1 \<le> unat n div unat d" using le pos by (simp add: div_greater_zero_iff Suc_le_eq)
  then have one: "1 \<le> unat q" using est(1) by linarith
  then have qm1: "unat (q - 1) = unat q - 1" by (simp add: unat_sub word_le_nat_alt)
  then have prod: "unat ((q - 1) * d) = (unat q - 1) * unat d"
    using est(2) N by (simp add: unat_word_ariths)
  then have "unat (n - (q - 1) * d) = unat n - (unat q - 1) * unat d"
    using est(2) by (simp add: unat_sub word_le_nat_alt)
  then have "unat (if n - (q - 1) * d < d then q - 1 else q) = unat n div unat d"
    using correct_estimate [OF pos est one] by (simp add: word_less_nat_alt qm1 split: if_splits)
  then have "(if n - (q - 1) * d < d then q - 1 else q) = n div d"
    by (intro word_eq_unatI) (simp add: unat_div_word)
  moreover have "udiv64 n d = Some (if n - (q - 1) * d < d then q - 1 else q)"
    using assms q0(1) by (simp add: udiv64_def Let_def q_def s_def v_def)
  ultimately show ?thesis by (simp only:)
qed

lemma udiv64_eq:
  assumes "d \<noteq> 0"
  shows "udiv64 n d = Some (n div d)"
proof (cases "drop_bit 32 d = 0")
  case True
  then show ?thesis by (rule udiv64_small [OF _ assms])
next
  case False
  show ?thesis
  proof (cases "n < d")
    case True
    then have "n div d = 0" by (intro word_eq_unatI) (simp add: unat_div_word word_less_nat_alt)
    with True False show ?thesis by (simp add: udiv64_def)
  next
    case ge: False
    then show ?thesis by (rule udiv64_large [OF False])
  qed
qed

section \<open>Signed division and remainders\<close>

lemma word_abs_sint:
  fixes n :: u64
  shows "uint (if 0 \<le> sint n then n else - n) = \<bar>sint n\<bar>"
proof (cases "0 \<le> sint n")
  case True
  then show ?thesis using sint_bounds64 [of n] by (simp add: uint_sint take_bit_eq_mod)
next
  case False
  have "uint (- n) = (- sint n) mod 2 ^ 64"
    using uint_word_of_int [of "- sint n", where ?'a = 64] by simp
  with False show ?thesis using sint_bounds64 [of n] by simp
qed

lemma div_abs_bound:
  fixes a b :: int
  assumes "- (2 ^ 63) \<le> a" and "a < 2 ^ 63" and "b \<noteq> 0" and "\<not> (a = - (2 ^ 63) \<and> b = - 1)"
  shows "- (2 ^ 63) \<le> c_div a b \<and> c_div a b < 2 ^ 63"
proof -
  have le: "\<bar>a\<bar> div \<bar>b\<bar> \<le> \<bar>a\<bar>" "0 \<le> \<bar>a\<bar> div \<bar>b\<bar>"
    using assms(3) int_div_le_self [of "\<bar>a\<bar>" "\<bar>b\<bar>"] by (cases "a = 0"; simp add: pos_imp_zdiv_nonneg_iff)+
  show ?thesis
  proof (cases "a = - (2 ^ 63) \<and> b < 0")
    case True
    then have "2 \<le> \<bar>b\<bar>" using assms(4) by auto
    then have "\<bar>a\<bar> div \<bar>b\<bar> \<le> \<bar>a\<bar> div 2" by (intro zdiv_mono2) simp_all
    then show ?thesis using True le by (simp add: c_div_def sgn_if)
  next
    case False
    then show ?thesis using le assms(1-3) by (auto simp: c_div_def sgn_if abs_if)
  qed
qed

lemma sdiv64_eq:
  assumes "d \<noteq> 0" and "\<not> (sint n = - (2 ^ 63) \<and> sint d = - 1)"
  shows "\<exists>q. sdiv64 n d = Some q \<and> sint q = c_div (sint n) (sint d) \<and> q = word_of_int (c_div (sint n) (sint d))"
proof -
  define na da where "na = (if 0 \<le> sint n then n else - n)" and "da = (if 0 \<le> sint d then d else - d)"
  have "sint d \<noteq> 0" using assms(1) by (metis word_of_int_sint word_of_int_0)
  have "da \<noteq> 0" using assms(1) by (simp add: da_def)
  then have q: "sdiv64 n d = Some (if (sint n < 0) = (sint d < 0) then na div da else - (na div da))"
    by (simp add: sdiv64_def udiv64_eq Let_def na_def da_def)
  have "uint (na div da) = \<bar>sint n\<bar> div \<bar>sint d\<bar>"
    using word_abs_sint [of n] word_abs_sint [of d] by (simp add: uint_div na_def da_def)
  then have "na div da = word_of_int (\<bar>sint n\<bar> div \<bar>sint d\<bar>)" by (metis word_of_int_uint)
  then have "(if (sint n < 0) = (sint d < 0) then na div da else - (na div da)) =
      word_of_int (c_div (sint n) (sint d))"
    using \<open>sint d \<noteq> 0\<close> by (auto simp: c_div_def sgn_if)
  moreover have "- (2 ^ 63) \<le> sint n" "sint n < 2 ^ 63" using sint_bounds64 [of n] by simp_all
  moreover from this have "sint (word_of_int (c_div (sint n) (sint d)) :: u64) = c_div (sint n) (sint d)"
    using div_abs_bound [OF _ _ \<open>sint d \<noteq> 0\<close> assms(2)] by (intro sint_of_int_small) simp_all
  ultimately show ?thesis using q by simp
qed

lemma umod64_eq:
  assumes "d \<noteq> 0"
  shows "umod64 n d = Some (ucast (n mod d))"
  by (simp add: umod64_def udiv64_eq [OF assms] minus_mult_div_eq_mod)

lemma smod64_eq:
  assumes "d \<noteq> 0" and "\<not> (sint n = - (2 ^ 63) \<and> sint d = - 1)"
  shows "smod64 n d = Some (word_of_int (c_mod (sint n) (sint d)))"
proof -
  obtain q where q: "sdiv64 n d = Some q" "q = word_of_int (c_div (sint n) (sint d))"
    using sdiv64_eq [OF assms] by blast
  have "n - d * q = word_of_int (sint n - sint d * c_div (sint n) (sint d))"
    by (simp add: q(2))
  then have "n - d * q = word_of_int (c_mod (sint n) (sint d))" by (simp add: c_mod_def)
  then have "ucast (n - d * q) = (word_of_int (c_mod (sint n) (sint d)) :: u32)"
    by (simp add: ucast_eq uint_word_of_int_eq word_of_int_eq_iff)
  with q(1) show ?thesis by (simp add: smod64_def)
qed

section \<open>Properties\<close>

text \<open>
  C30. Unsigned 64-bit division (\<^verbatim>\<open>__udivdi3\<close>) returns the exact quotient for every dividend and
  every non-zero divisor, and the \<^verbatim>\<open>divl\<close> instructions it executes never trap.
\<close>

theorem udivdi3_correct:
  assumes "d \<noteq> 0"
  shows "\<exists>q. udivdi3 n d = Some q \<and> unat q = unat n div unat d"
  by (simp add: udivdi3_def udiv64_eq [OF assms] unat_div_word)

theorem udivdi3_correct_witness:
  "\<exists>q. udivdi3 (2 ^ 64 - 1) (2 ^ 33 + 1) = Some q \<and> unat q = 2147483647"
  using udivdi3_correct [of "2 ^ 33 + 1" "2 ^ 64 - 1"] by simp

text \<open>
  Signed 64-bit division (\<^verbatim>\<open>__divdi3\<close>) returns the quotient truncated towards zero whenever the divisor
  is not zero and the quotient is representable.
\<close>

theorem divdi3_correct:
  assumes "d \<noteq> 0" and "\<not> (sint n = - (2 ^ 63) \<and> sint d = - 1)"
  shows "\<exists>q. divdi3 n d = Some q \<and> sint q = c_div (sint n) (sint d)"
  using sdiv64_eq [OF assms] by (auto simp: divdi3_def)

theorem divdi3_correct_witness: "\<exists>q. divdi3 (- 7) 2 = Some q \<and> sint q = - 3"
  using divdi3_correct [of 2 "- 7"] by (simp add: c_div_def)

text \<open>
  C39. The unsigned remainder (\<^verbatim>\<open>__umoddi3\<close>) is computed in a 32-bit variable: it returns the
  mathematical remainder exactly when that remainder is below \<open>2 ^ 32\<close>.
\<close>

theorem umoddi3_exact_iff:
  assumes "d \<noteq> 0"
  shows "\<exists>r. umoddi3 n d = Some r \<and> (unat r = unat n mod unat d \<longleftrightarrow> unat n mod unat d < 2 ^ 32)"
proof -
  have "umoddi3 n d = Some (ucast (ucast (n mod d) :: u32))"
    by (simp add: umoddi3_def umod64_eq [OF assms])
  moreover have "unat (ucast (ucast (n mod d) :: u32) :: u64) = unat n mod unat d mod 2 ^ 32"
    by (simp add: unat_ucast unat_mod_distrib)
  ultimately show ?thesis by (metis mod_less mod_less_divisor zero_less_numeral zero_less_power)
qed

theorem umoddi3_exact_iff_witness:
  "\<exists>r. umoddi3 (2 ^ 33) (2 ^ 33 + 1) = Some r \<and> unat r \<noteq> 2 ^ 33 mod (2 ^ 33 + 1)"
  using umoddi3_exact_iff [of "2 ^ 33 + 1" "2 ^ 33"] by simp

end
