(* ===== verification/Fixed_Point.thy ===== *)
theory Fixed_Point
  imports Pintos_Prelude
begin

text \<open>
  Fixed-point numbers in 16.16 format, \<^verbatim>\<open>threads/fixed-point.h\<close>.  The field \<^verbatim>\<open>f\<close> is a 32-bit word read as a
  signed integer; 32-bit additions and multiplications wrap around, the products and quotients that the
  code forms in \<^verbatim>\<open>long long\<close> fit there and are truncated to 32 bits when stored.  \<^verbatim>\<open>/\<close> truncates towards
  zero.  A failed assertion and a division by zero are \<open>None\<close>.
\<close>

definition FIX_P :: nat where "FIX_P = 16"
definition FIX_Q :: nat where "FIX_Q = 16"
definition FIX_F :: int where "FIX_F = 2 ^ FIX_Q"
definition FIX_MAX_INT :: int where "FIX_MAX_INT = 2 ^ FIX_P - 1"
definition FIX_MIN_INT :: int where "FIX_MIN_INT = - FIX_MAX_INT"

record fixed_point_t =
  fix_f :: u32

definition mk_fix :: "u32 \<Rightarrow> fixed_point_t" where
  "mk_fix f = \<lparr>fix_f = f\<rparr>"

definition fix_int :: "u32 \<Rightarrow> fixed_point_t option" where
  "fix_int n = do {
     ASSERT (sint n \<ge> FIX_MIN_INT \<and> sint n \<le> FIX_MAX_INT);
     Some (mk_fix (n * word_of_int FIX_F))
   }"

definition fix_frac :: "u32 \<Rightarrow> u32 \<Rightarrow> fixed_point_t option" where
  "fix_frac n d = do {
     ASSERT (d \<noteq> 0);
     ASSERT (c_div (sint n) (sint d) \<ge> FIX_MIN_INT \<and> c_div (sint n) (sint d) \<le> FIX_MAX_INT);
     Some (mk_fix (word_of_int (c_div (sint n * FIX_F) (sint d))))
   }"

definition fix_round :: "fixed_point_t \<Rightarrow> u32" where
  "fix_round x = word_of_int (c_div (sint (fix_f x + word_of_int (c_div FIX_F 2))) FIX_F)"

definition fix_trunc :: "fixed_point_t \<Rightarrow> u32" where
  "fix_trunc x = word_of_int (c_div (sint (fix_f x)) FIX_F)"

definition fix_add :: "fixed_point_t \<Rightarrow> fixed_point_t \<Rightarrow> fixed_point_t" where
  "fix_add x y = mk_fix (fix_f x + fix_f y)"

definition fix_sub :: "fixed_point_t \<Rightarrow> fixed_point_t \<Rightarrow> fixed_point_t" where
  "fix_sub x y = mk_fix (fix_f x - fix_f y)"

definition fix_mul :: "fixed_point_t \<Rightarrow> fixed_point_t \<Rightarrow> fixed_point_t" where
  "fix_mul x y = mk_fix (word_of_int (c_div (sint (fix_f x) * sint (fix_f y)) FIX_F))"

definition fix_scale :: "fixed_point_t \<Rightarrow> u32 \<Rightarrow> fixed_point_t option" where
  "fix_scale x n = do {
     ASSERT (sint n \<ge> 0);
     Some (mk_fix (fix_f x * n))
   }"

definition fix_div :: "fixed_point_t \<Rightarrow> fixed_point_t \<Rightarrow> fixed_point_t option" where
  "fix_div x y =
     (if fix_f y = 0 then None
      else Some (mk_fix (word_of_int (c_div (sint (fix_f x) * FIX_F) (sint (fix_f y))))))"

definition fix_unscale :: "fixed_point_t \<Rightarrow> u32 \<Rightarrow> fixed_point_t option" where
  "fix_unscale x n = do {
     ASSERT (sint n > 0);
     Some (mk_fix (word_of_int (c_div (sint (fix_f x)) (sint n))))
   }"

definition fix_inv :: "fixed_point_t \<Rightarrow> fixed_point_t option" where
  "fix_inv x = do { one \<leftarrow> fix_int 1; fix_div one x }"

definition fix_compare :: "fixed_point_t \<Rightarrow> fixed_point_t \<Rightarrow> int" where
  "fix_compare x y =
     (if sint (fix_f x) < sint (fix_f y) then - 1
      else if sint (fix_f x) > sint (fix_f y) then 1 else 0)"

section \<open>The value of a fixed-point number\<close>

text \<open>\<open>fx x\<close> is the value of \<open>x\<close> in units of \<open>2 ^ -16\<close>.\<close>

abbreviation fx :: "fixed_point_t \<Rightarrow> int" where
  "fx x \<equiv> sint (fix_f x)"

lemmas fix_consts = FIX_F_def FIX_Q_def FIX_P_def FIX_MAX_INT_def FIX_MIN_INT_def

lemma sint32_of_int: "- (2 ^ 31) \<le> x \<Longrightarrow> x < 2 ^ 31 \<Longrightarrow> sint (word_of_int x :: u32) = x"
  by (rule sint_of_int_small) simp_all

lemma sint32_mult_small:
  fixes a b :: u32
  assumes "- (2 ^ 31) \<le> sint a * sint b" and "sint a * sint b < 2 ^ 31"
  shows "sint (a * b) = sint a * sint b"
  using sint32_of_int [OF assms] by simp

lemma sint32_add_small:
  fixes a b :: u32
  assumes "- (2 ^ 31) \<le> sint a + sint b" and "sint a + sint b < 2 ^ 31"
  shows "sint (a + b) = sint a + sint b"
  using sint32_of_int [OF assms] by simp

text \<open>Division with truncation towards zero loses less than one unit.\<close>

lemma c_div_error:
  assumes "b \<noteq> 0"
  shows "\<bar>a - b * c_div a b\<bar> < \<bar>b\<bar>" and "0 \<le> (a - b * c_div a b) * sgn a"
proof -
  have eq: "b * c_div a b = sgn a * (\<bar>b\<bar> * (\<bar>a\<bar> div \<bar>b\<bar>))"
    by (simp add: c_div_def abs_sgn ac_simps)
  have "a = sgn a * \<bar>a\<bar>" by (simp add: sgn_mult_abs)
  then have "a - b * c_div a b = sgn a * (\<bar>a\<bar> - \<bar>b\<bar> * (\<bar>a\<bar> div \<bar>b\<bar>))"
    unfolding eq by (metis right_diff_distrib)
  also have "\<dots> = sgn a * (\<bar>a\<bar> mod \<bar>b\<bar>)" by (simp add: minus_mult_div_eq_mod)
  finally have r: "a - b * c_div a b = sgn a * (\<bar>a\<bar> mod \<bar>b\<bar>)" .
  have m: "0 \<le> \<bar>a\<bar> mod \<bar>b\<bar>" "\<bar>a\<bar> mod \<bar>b\<bar> < \<bar>b\<bar>" using assms by simp_all
  show "\<bar>a - b * c_div a b\<bar> < \<bar>b\<bar>" unfolding r using m by (auto simp: abs_mult sgn_if)
  show "0 \<le> (a - b * c_div a b) * sgn a" unfolding r using m by (auto simp: sgn_if)
qed

lemma c_div_multiple: "b \<noteq> 0 \<Longrightarrow> c_div (a * b) b = a"
  by (simp add: c_div_def abs_mult sgn_mult ac_simps abs_sgn [symmetric] abs_mult_sgn flip: mult.assoc)

lemma abs_c_div_le: "\<bar>c_div a b\<bar> \<le> \<bar>a\<bar> div \<bar>b\<bar>"
  by (cases "b = 0") (auto simp: c_div_def abs_mult sgn_if pos_imp_zdiv_nonneg_iff)

lemma c_div_nonneg: "0 \<le> a \<Longrightarrow> 0 < b \<Longrightarrow> c_div a b = a div b"
  by (cases "a = 0") (simp_all add: c_div_def)

lemma c_div_neg: "a < 0 \<Longrightarrow> 0 < b \<Longrightarrow> c_div a b = - (- a div b)"
  by (simp add: c_div_def)

lemma fix_int_value:
  assumes "- (2 ^ 15) \<le> sint n" and "sint n < 2 ^ 15"
  shows "\<exists>x. fix_int n = Some x \<and> fx x = sint n * 2 ^ 16"
proof -
  have "sint (n * 65536) = sint n * 2 ^ 16"
    using assms sint32_mult_small [of n 65536] by simp
  with assms show ?thesis by (simp add: fix_int_def fix_consts mk_fix_def)
qed

lemma fix_trunc_fix_int:
  assumes "- (2 ^ 15) \<le> sint n" and "sint n < 2 ^ 15"
  shows "\<exists>x. fix_int n = Some x \<and> fix_trunc x = n"
proof -
  obtain x where x: "fix_int n = Some x" "fx x = sint n * 2 ^ 16" using fix_int_value [OF assms] by blast
  have "fix_trunc x = n" using x(2) c_div_multiple [of "2 ^ 16" "sint n"] by (simp add: fix_trunc_def fix_consts)
  with x(1) show ?thesis by blast
qed

lemma fix_int_overflow:
  assumes "2 ^ 15 \<le> sint n" and "sint n < 2 ^ 16"
  shows "\<exists>x. fix_int n = Some x \<and> sint (fix_trunc x) = sint n - 2 ^ 16"
proof -
  have eq: "n * 65536 = word_of_int ((sint n - 2 ^ 16) * 2 ^ 16)" by simp
  have "sint (n * 65536) = (sint n - 2 ^ 16) * 2 ^ 16"
    unfolding eq using assms by (intro sint32_of_int) simp_all
  then have "fix_trunc (mk_fix (n * 65536)) = word_of_int (sint n - 2 ^ 16)"
    using c_div_multiple [of "2 ^ 16" "sint n - 2 ^ 16"] by (simp add: fix_trunc_def mk_fix_def fix_consts)
  moreover have "sint (word_of_int (sint n - 2 ^ 16) :: u32) = sint n - 2 ^ 16"
    using assms by (intro sint32_of_int) simp_all
  moreover have "fix_int n = Some (mk_fix (n * 65536))"
    using assms by (simp add: fix_int_def fix_consts)
  ultimately show ?thesis by simp
qed

lemma fix_int_underflow:
  assumes "- (2 ^ 16) < sint n" and "sint n < - (2 ^ 15)"
  shows "\<exists>x. fix_int n = Some x \<and> sint (fix_trunc x) = sint n + 2 ^ 16"
proof -
  have eq: "n * 65536 = word_of_int ((sint n + 2 ^ 16) * 2 ^ 16)" by simp
  have "sint (n * 65536) = (sint n + 2 ^ 16) * 2 ^ 16"
    unfolding eq using assms by (intro sint32_of_int) simp_all
  then have "fix_trunc (mk_fix (n * 65536)) = word_of_int (sint n + 2 ^ 16)"
    using c_div_multiple [of "2 ^ 16" "sint n + 2 ^ 16"] by (simp add: fix_trunc_def mk_fix_def fix_consts)
  moreover have "sint (word_of_int (sint n + 2 ^ 16) :: u32) = sint n + 2 ^ 16"
    using assms by (intro sint32_of_int) simp_all
  moreover have "fix_int n = Some (mk_fix (n * 65536))"
    using assms by (simp add: fix_int_def fix_consts)
  ultimately show ?thesis by simp
qed

section \<open>Properties\<close>

text \<open>
  C40. \<^verbatim>\<open>fix_int\<close> accepts every integer from \<^verbatim>\<open>FIX_MIN_INT\<close> to \<^verbatim>\<open>FIX_MAX_INT\<close>, but the conversion is faithful, in
  the sense that \<^verbatim>\<open>fix_trunc\<close> recovers the integer, exactly for those that fit in 16 signed bits; for
  the other accepted values the 32-bit product wraps around.
\<close>

theorem fix_int_faithful_iff:
  assumes "FIX_MIN_INT \<le> sint n" and "sint n \<le> FIX_MAX_INT"
  shows "\<exists>x. fix_int n = Some x \<and> (fix_trunc x = n \<longleftrightarrow> - (2 ^ 15) \<le> sint n \<and> sint n < 2 ^ 15)"
proof -
  have range: "- (2 ^ 16) < sint n" "sint n < 2 ^ 16" using assms by (simp_all add: fix_consts)
  consider "2 ^ 15 \<le> sint n" | "sint n < - (2 ^ 15)" | "- (2 ^ 15) \<le> sint n" "sint n < 2 ^ 15" by linarith
  then show ?thesis
  proof cases
    case 1
    with fix_int_overflow [OF 1 range(2)] show ?thesis by auto
  next
    case 2
    with fix_int_underflow [OF range(1) 2] show ?thesis by auto
  next
    case 3
    with fix_trunc_fix_int [OF 3] show ?thesis by auto
  qed
qed

theorem fix_int_faithful_iff_witness: "\<exists>x. fix_int 40000 = Some x \<and> fix_trunc x \<noteq> 40000"
  using fix_int_faithful_iff [of 40000] by (simp add: fix_consts)

text \<open>
  \<^verbatim>\<open>fix_mul\<close> computes the product up to less than one unit in the last place, whenever
  the product is in the range of the format.
\<close>

theorem fix_mul_error:
  assumes "\<bar>fx x * fx y\<bar> < 2 ^ 47"
  shows "\<bar>fx (fix_mul x y) * 2 ^ 16 - fx x * fx y\<bar> < 2 ^ 16"
proof -
  let ?p = "fx x * fx y"
  have err: "\<bar>?p - 2 ^ 16 * c_div ?p (2 ^ 16)\<bar> < 2 ^ 16" using c_div_error(1) [of "2 ^ 16" ?p] by simp
  moreover have "\<bar>c_div ?p (2 ^ 16)\<bar> < 2 ^ 31"
  proof -
    have "\<bar>?p\<bar> div 2 ^ 16 < 2 ^ 31" using assms by (simp add: div_less_iff_less_mult)
    then show ?thesis using abs_c_div_le [of ?p "2 ^ 16"] by simp
  qed
  then have "fx (fix_mul x y) = c_div ?p (2 ^ 16)"
    using sint32_of_int [of "c_div ?p (2 ^ 16)"] by (simp add: fix_mul_def mk_fix_def fix_consts)
  ultimately show ?thesis by (simp add: abs_minus_commute mult.commute)
qed

theorem fix_mul_error_witness:
  "\<bar>fx (fix_mul (mk_fix 100000) (mk_fix 3)) * 2 ^ 16 - 300000\<bar> < 2 ^ 16"
  using fix_mul_error [of "mk_fix 100000" "mk_fix 3"] by (simp add: mk_fix_def)

text \<open>
  \<^verbatim>\<open>fix_round\<close> rounds non-negative numbers to a nearest integer, but it adds one half also to negative
  numbers before truncating towards zero: every negative integer \<open>n\<close> is rounded to \<open>n + 1\<close>.
\<close>

theorem fix_round_behaviour:
  assumes "fx x < 2 ^ 31 - 2 ^ 15"
  shows "if 0 \<le> fx x then \<bar>sint (fix_round x) * 2 ^ 16 - fx x\<bar> \<le> 2 ^ 15
    else fx x mod 2 ^ 16 = 0 \<longrightarrow> sint (fix_round x) = fx x div 2 ^ 16 + 1"
proof -
  have lo: "- (2 ^ 31) \<le> fx x" using sint_bounds32 [of "fix_f x"] by simp
  have sum: "sint (fix_f x + 32768) = fx x + 2 ^ 15"
    using assms lo sint32_add_small [of "fix_f x" 32768] by simp
  then have r: "fix_round x = word_of_int (c_div (fx x + 2 ^ 15) (2 ^ 16))"
    by (simp add: fix_round_def fix_consts c_div_def [of 65536 2])
  show ?thesis
  proof (cases "0 \<le> fx x")
    case True
    then have q: "c_div (fx x + 2 ^ 15) (2 ^ 16) = (fx x + 2 ^ 15) div 2 ^ 16" by (intro c_div_nonneg) simp_all
    have "sint (fix_round x) = (fx x + 2 ^ 15) div 2 ^ 16"
      unfolding r q using True assms by (intro sint32_of_int) simp_all
    with True show ?thesis by simp
  next
    case False
    have "sint (fix_round x) = fx x div 2 ^ 16 + 1" if mult: "fx x mod 2 ^ 16 = 0"
    proof -
      obtain n where n: "fx x = n * 2 ^ 16" "n < 0" using mult False by (auto simp: mod_eq_0_iff_dvd elim!: dvdE)
      then have "c_div (fx x + 2 ^ 15) (2 ^ 16) = - ((- n * 2 ^ 16 - 2 ^ 15) div 2 ^ 16)"
        by (subst c_div_neg) simp_all
      also have "\<dots> = n + 1" by simp
      finally have "fix_round x = word_of_int (n + 1)" using r by simp
      moreover have "sint (word_of_int (n + 1) :: u32) = n + 1" using n lo by (intro sint32_of_int) simp_all
      ultimately show ?thesis using n by simp
    qed
    with False show ?thesis by simp
  qed
qed

theorem fix_round_behaviour_witness: "sint (fix_round (mk_fix (- 196608))) = - 2"
  using fix_round_behaviour [of "mk_fix (- 196608)"] by (simp add: mk_fix_def)

end
