(* ===== verification/Cstring.thy ===== *)
theory Cstring
  imports Pintos_Prelude
begin

text \<open>
  Strings and memory blocks, \<^verbatim>\<open>lib/string.c\<close>.  Memory is a function from addresses to bytes; addresses are
  natural numbers with 0 the null pointer, which presumes, as C does, that no object wraps around the end
  of the address space.  A loop that searches for a terminator is a partial function: a string without
  terminator gives \<open>None\<close>.

  The predicate \<open>str_at\<close> relates memory to the sequence of characters of a string.  The lemmas show what each
  routine computes on these sequences, that the copying routines write nothing outside their
  destination, and how \<^verbatim>\<open>strtok_r\<close> cuts a string into its tokens.
\<close>

type_synonym mem = "nat \<Rightarrow> byte"

section \<open>The routines\<close>

primrec copy_forward :: "nat \<Rightarrow> nat \<Rightarrow> nat \<Rightarrow> mem \<Rightarrow> mem" where
  "copy_forward 0 dst src m = m"
| "copy_forward (Suc sz) dst src m = copy_forward sz (dst + 1) (src + 1) (m(dst := m src))"

primrec copy_backward :: "nat \<Rightarrow> nat \<Rightarrow> nat \<Rightarrow> mem \<Rightarrow> mem" where
  "copy_backward 0 dst src m = m"
| "copy_backward (Suc sz) dst src m =
     copy_backward sz (dst - 1) (src - 1) (m(dst - 1 := m (src - 1)))"

definition memcpy :: "nat \<Rightarrow> nat \<Rightarrow> nat \<Rightarrow> mem \<Rightarrow> (nat \<times> mem) option" where
  "memcpy dst src sz m = do {
     ASSERT (dst \<noteq> 0 \<or> sz = 0);
     ASSERT (src \<noteq> 0 \<or> sz = 0);
     Some (dst, copy_forward sz dst src m)
   }"

text \<open>\<^verbatim>\<open>memmove\<close> returns its local variable \<^verbatim>\<open>dst\<close>, which the loops have moved.\<close>

definition memmove :: "nat \<Rightarrow> nat \<Rightarrow> nat \<Rightarrow> mem \<Rightarrow> (nat \<times> mem) option" where
  "memmove dst src sz m = do {
     ASSERT (dst \<noteq> 0 \<or> sz = 0);
     ASSERT (src \<noteq> 0 \<or> sz = 0);
     if dst < src then Some (dst + sz, copy_forward sz dst src m)
     else Some (dst, copy_backward sz (dst + sz) (src + sz) m)
   }"

primrec memcmp_loop :: "nat \<Rightarrow> nat \<Rightarrow> nat \<Rightarrow> mem \<Rightarrow> int" where
  "memcmp_loop 0 a b m = 0"
| "memcmp_loop (Suc sz) a b m =
     (if m a \<noteq> m b then (if m a > m b then 1 else - 1) else memcmp_loop sz (a + 1) (b + 1) m)"

definition memcmp :: "nat \<Rightarrow> nat \<Rightarrow> nat \<Rightarrow> mem \<Rightarrow> int option" where
  "memcmp a b sz m = do {
     ASSERT (a \<noteq> 0 \<or> sz = 0);
     ASSERT (b \<noteq> 0 \<or> sz = 0);
     Some (memcmp_loop sz a b m)
   }"

partial_function (option) strcmp_loop :: "nat \<Rightarrow> nat \<Rightarrow> mem \<Rightarrow> (nat \<times> nat) option" where
  "strcmp_loop a b m = (if m a \<noteq> 0 \<and> m a = m b then strcmp_loop (a + 1) (b + 1) m else Some (a, b))"

definition strcmp :: "nat \<Rightarrow> nat \<Rightarrow> mem \<Rightarrow> int option" where
  "strcmp a b m = do {
     ASSERT (a \<noteq> 0);
     ASSERT (b \<noteq> 0);
     (a, b) \<leftarrow> strcmp_loop a b m;
     Some (if m a < m b then - 1 else if m a > m b then 1 else 0)
   }"

primrec memchr_loop :: "nat \<Rightarrow> nat \<Rightarrow> byte \<Rightarrow> mem \<Rightarrow> nat" where
  "memchr_loop 0 block ch m = 0"
| "memchr_loop (Suc sz) block ch m = (if m block = ch then block else memchr_loop sz (block + 1) ch m)"

definition memchr :: "nat \<Rightarrow> byte \<Rightarrow> nat \<Rightarrow> mem \<Rightarrow> nat option" where
  "memchr block ch sz m = do {
     ASSERT (block \<noteq> 0 \<or> sz = 0);
     Some (memchr_loop sz block ch m)
   }"

partial_function (option) strchr_loop :: "nat \<Rightarrow> byte \<Rightarrow> mem \<Rightarrow> nat option" where
  "strchr_loop p c m =
     (if m p = c then Some p else if m p = 0 then Some 0 else strchr_loop (p + 1) c m)"

definition strchr :: "nat \<Rightarrow> byte \<Rightarrow> mem \<Rightarrow> nat option" where
  "strchr p c m = do { ASSERT (p \<noteq> 0); strchr_loop p c m }"

partial_function (option) strcspn_loop :: "nat \<Rightarrow> nat \<Rightarrow> nat \<Rightarrow> mem \<Rightarrow> nat option" where
  "strcspn_loop p stop len m =
     (if m (p + len) \<noteq> 0 then do {
        r \<leftarrow> strchr stop (m (p + len)) m;
        if r \<noteq> 0 then Some len else strcspn_loop p stop (len + 1) m
      }
      else Some len)"

definition strcspn :: "nat \<Rightarrow> nat \<Rightarrow> mem \<Rightarrow> nat option" where
  "strcspn p stop m = strcspn_loop p stop 0 m"

partial_function (option) strpbrk :: "nat \<Rightarrow> nat \<Rightarrow> mem \<Rightarrow> nat option" where
  "strpbrk p stop m =
     (if m p \<noteq> 0 then do {
        r \<leftarrow> strchr stop (m p) m;
        if r \<noteq> 0 then Some p else strpbrk (p + 1) stop m
      }
      else Some 0)"

partial_function (option) strrchr_loop :: "nat \<Rightarrow> byte \<Rightarrow> nat \<Rightarrow> mem \<Rightarrow> nat option" where
  "strrchr_loop s c p m =
     (if m s \<noteq> 0 then strrchr_loop (s + 1) c (if m s = c then s else p) m else Some p)"

definition strrchr :: "nat \<Rightarrow> byte \<Rightarrow> mem \<Rightarrow> nat option" where
  "strrchr s c m = strrchr_loop s c 0 m"

partial_function (option) strspn_loop :: "nat \<Rightarrow> nat \<Rightarrow> nat \<Rightarrow> mem \<Rightarrow> nat option" where
  "strspn_loop p skip len m =
     (if m (p + len) \<noteq> 0 then do {
        r \<leftarrow> strchr skip (m (p + len)) m;
        if r = 0 then Some len else strspn_loop p skip (len + 1) m
      }
      else Some len)"

definition strspn :: "nat \<Rightarrow> nat \<Rightarrow> mem \<Rightarrow> nat option" where
  "strspn p skip m = strspn_loop p skip 0 m"

partial_function (option) strlen_loop :: "nat \<Rightarrow> mem \<Rightarrow> nat option" where
  "strlen_loop p m = (if m p \<noteq> 0 then strlen_loop (p + 1) m else Some p)"

definition strlen :: "nat \<Rightarrow> mem \<Rightarrow> nat option" where
  "strlen s m = do { ASSERT (s \<noteq> 0); p \<leftarrow> strlen_loop s m; Some (p - s) }"

function strnlen_loop :: "nat \<Rightarrow> nat \<Rightarrow> nat \<Rightarrow> mem \<Rightarrow> nat" where
  "strnlen_loop s maxlen len m =
     (if m (s + len) \<noteq> 0 \<and> len < maxlen then strnlen_loop s maxlen (len + 1) m else len)"
  by pat_completeness auto
termination by (relation "measure (\<lambda>(s, maxlen, len, m). maxlen - len)") auto

declare strnlen_loop.simps [simp del]

definition strnlen :: "nat \<Rightarrow> nat \<Rightarrow> mem \<Rightarrow> nat" where
  "strnlen s maxlen m = strnlen_loop s maxlen 0 m"

definition strstr :: "nat \<Rightarrow> nat \<Rightarrow> mem \<Rightarrow> nat option" where
  "strstr haystack needle m = do {
     haystack_len \<leftarrow> strlen haystack m;
     needle_len \<leftarrow> strlen needle m;
     if haystack_len \<ge> needle_len then do {
       r \<leftarrow> find_upto 0 (haystack_len - needle_len + 1)
         (\<lambda>i. do { c \<leftarrow> memcmp (haystack + i) needle needle_len m; Some (c = 0) });
       Some (case r of Some i \<Rightarrow> haystack + i | None \<Rightarrow> 0)
     }
     else Some 0
   }"

text \<open>\<^verbatim>\<open>strtok_r\<close>: the state is the memory and the value of \<^verbatim>\<open>*save_ptr\<close>.\<close>

partial_function (option) strtok_skip :: "nat \<Rightarrow> nat \<Rightarrow> mem \<Rightarrow> (bool \<times> nat) option" where
  "strtok_skip s delimiters m = do {
     r \<leftarrow> strchr delimiters (m s) m;
     if r \<noteq> 0 then
       if m s = 0 then Some (False, s) else strtok_skip (s + 1) delimiters m
     else Some (True, s)
   }"

partial_function (option) strtok_scan :: "nat \<Rightarrow> nat \<Rightarrow> mem \<Rightarrow> nat option" where
  "strtok_scan s delimiters m = do {
     r \<leftarrow> strchr delimiters (m s) m;
     if r = 0 then strtok_scan (s + 1) delimiters m else Some s
   }"

definition strtok_r :: "nat \<Rightarrow> nat \<Rightarrow> nat \<Rightarrow> mem \<Rightarrow> (nat \<times> nat \<times> mem) option" where
  "strtok_r s delimiters save_ptr m = do {
     ASSERT (delimiters \<noteq> 0);
     let s = (if s = 0 then save_ptr else s);
     ASSERT (s \<noteq> 0);
     (more, s) \<leftarrow> strtok_skip s delimiters m;
     if \<not> more then Some (0, s, m)
     else do {
       let token = s;
       s \<leftarrow> strtok_scan s delimiters m;
       if m s \<noteq> 0 then Some (token, s + 1, m(s := 0)) else Some (token, s, m)
     }
   }"

primrec memset_loop :: "nat \<Rightarrow> nat \<Rightarrow> byte \<Rightarrow> mem \<Rightarrow> mem" where
  "memset_loop 0 dst v m = m"
| "memset_loop (Suc sz) dst v m = memset_loop sz (dst + 1) v (m(dst := v))"

definition memset :: "nat \<Rightarrow> byte \<Rightarrow> nat \<Rightarrow> mem \<Rightarrow> (nat \<times> mem) option" where
  "memset dst v sz m = do {
     ASSERT (dst \<noteq> 0 \<or> sz = 0);
     Some (dst, memset_loop sz dst v m)
   }"

definition strlcpy :: "nat \<Rightarrow> nat \<Rightarrow> nat \<Rightarrow> mem \<Rightarrow> (nat \<times> mem) option" where
  "strlcpy dst src sz m = do {
     ASSERT (dst \<noteq> 0);
     ASSERT (src \<noteq> 0);
     src_len \<leftarrow> strlen src m;
     if sz > 0 then do {
       let dst_len = (if src_len < sz - 1 then src_len else sz - 1);
       (_, m) \<leftarrow> memcpy dst src dst_len m;
       Some (src_len, m(dst + dst_len := 0))
     }
     else Some (src_len, m)
   }"

definition strlcat :: "nat \<Rightarrow> nat \<Rightarrow> nat \<Rightarrow> mem \<Rightarrow> (nat \<times> mem) option" where
  "strlcat dst src sz m = do {
     ASSERT (dst \<noteq> 0);
     ASSERT (src \<noteq> 0);
     src_len \<leftarrow> strlen src m;
     dst_len \<leftarrow> strlen dst m;
     if sz > 0 \<and> dst_len < sz then do {
       let copy_cnt = (if src_len < sz - dst_len - 1 then src_len else sz - dst_len - 1);
       (_, m) \<leftarrow> memcpy (dst + dst_len) src copy_cnt m;
       Some (src_len + dst_len, m(dst + dst_len + copy_cnt := 0))
     }
     else Some (src_len + dst_len, m)
   }"

section \<open>Blocks of memory\<close>

lemma copy_forward_apply:
  "dst \<le> src \<or> src + n \<le> dst \<Longrightarrow>
     copy_forward n dst src m x = (if dst \<le> x \<and> x < dst + n then m (src + (x - dst)) else m x)"
proof (induction n arbitrary: dst src m)
  case (Suc n)
  have "copy_forward (Suc n) dst src m x = copy_forward n (dst + 1) (src + 1) (m(dst := m src)) x" by simp
  also have "\<dots> = (if dst + 1 \<le> x \<and> x < dst + 1 + n then (m(dst := m src)) (src + 1 + (x - (dst + 1)))
      else (m(dst := m src)) x)"
    using Suc.prems by (intro Suc.IH) auto
  also have "\<dots> = (if dst \<le> x \<and> x < dst + Suc n then m (src + (x - dst)) else m x)"
  proof (cases "dst + 1 \<le> x \<and> x < dst + 1 + n")
    case True
    then have "src + 1 + (x - (dst + 1)) = src + (x - dst)" "src + (x - dst) \<noteq> dst"
      using Suc.prems by auto
    with True show ?thesis by (simp only: fun_upd_other) simp
  next
    case False
    then show ?thesis by auto
  qed
  finally show ?case .
qed auto

lemma copy_backward_apply:
  "src \<le> dst \<Longrightarrow> copy_backward n (dst + n) (src + n) m x =
     (if dst \<le> x \<and> x < dst + n then m (src + (x - dst)) else m x)"
proof (induction n arbitrary: m)
  case (Suc n)
  have "copy_backward (Suc n) (dst + Suc n) (src + Suc n) m x =
      copy_backward n (dst + n) (src + n) (m(dst + n := m (src + n))) x" by simp
  also have "\<dots> = (if dst \<le> x \<and> x < dst + n then (m(dst + n := m (src + n))) (src + (x - dst))
      else (m(dst + n := m (src + n))) x)"
    using Suc.prems by (rule Suc.IH)
  also have "\<dots> = (if dst \<le> x \<and> x < dst + Suc n then m (src + (x - dst)) else m x)"
    using Suc.prems by (auto simp: less_Suc_eq)
  finally show ?case .
qed auto

lemma memset_loop_apply: "memset_loop n dst v m x = (if dst \<le> x \<and> x < dst + n then v else m x)"
  by (induction n arbitrary: dst m) auto

definition block :: "mem \<Rightarrow> nat \<Rightarrow> nat \<Rightarrow> byte list" where
  "block m p n = map (\<lambda>i. m (p + i)) [0..<n]"

lemma length_block [simp]: "length (block m p n) = n"
  by (simp add: block_def)

lemma nth_block [simp]: "i < n \<Longrightarrow> block m p n ! i = m (p + i)"
  by (simp add: block_def)

lemma block_Suc: "block m p (Suc n) = m p # block m (p + 1) n"
  by (rule nth_equalityI) (auto simp: nth_Cons split: nat.split)

text \<open>Comparison of sequences of characters, the reference for \<^verbatim>\<open>memcmp\<close> and \<^verbatim>\<open>strcmp\<close>.\<close>

fun seq_cmp :: "byte list \<Rightarrow> byte list \<Rightarrow> int" where
  "seq_cmp [] [] = 0"
| "seq_cmp [] (y # ys) = - 1"
| "seq_cmp (x # xs) [] = 1"
| "seq_cmp (x # xs) (y # ys) = (if x = y then seq_cmp xs ys else if x < y then - 1 else 1)"

lemma seq_cmp_eq_0: "seq_cmp xs ys = 0 \<longleftrightarrow> xs = ys"
  by (induction xs ys rule: seq_cmp.induct) auto

lemma seq_cmp_swap: "seq_cmp ys xs = - seq_cmp xs ys"
  by (induction xs ys rule: seq_cmp.induct) auto

lemma memcmp_loop_eq: "memcmp_loop n a b m = seq_cmp (block m a n) (block m b n)"
proof (induction n arbitrary: a b)
  case 0
  then show ?case by (simp add: block_def)
next
  case (Suc n)
  then show ?case by (auto simp: block_Suc)
qed

section \<open>Strings\<close>

primrec str_at :: "mem \<Rightarrow> nat \<Rightarrow> byte list \<Rightarrow> bool" where
  "str_at m p [] \<longleftrightarrow> p \<noteq> 0 \<and> m p = 0"
| "str_at m p (c # s) \<longleftrightarrow> p \<noteq> 0 \<and> m p = c \<and> c \<noteq> 0 \<and> str_at m (p + 1) s"

lemma str_at_nonnull: "str_at m p s \<Longrightarrow> p \<noteq> 0"
  by (cases s) auto

lemma str_at_iff:
  "str_at m p s \<longleftrightarrow> p \<noteq> 0 \<and> 0 \<notin> set s \<and> block m p (length s) = s \<and> m (p + length s) = 0"
  by (induction s arbitrary: p) (auto simp: block_Suc block_def [of _ _ 0])

lemma str_at_cong: "str_at m p s \<Longrightarrow> (\<And>x. p \<le> x \<Longrightarrow> x \<le> p + length s \<Longrightarrow> m' x = m x) \<Longrightarrow> str_at m' p s"
  by (induction s arbitrary: p) auto

lemma str_at_append: "str_at m p (s @ t) \<Longrightarrow> str_at m (p + length s) t"
proof (induction s arbitrary: p)
  case (Cons c s)
  then show ?case using Cons.IH [of "p + 1"] by simp
qed simp

lemma strlen_loop_eq: "str_at m p s \<Longrightarrow> strlen_loop p m = Some (p + length s)"
  by (induction s arbitrary: p) (subst strlen_loop.simps; simp)+

lemma strlen_eq: "str_at m p s \<Longrightarrow> strlen p m = Some (length s)"
  by (simp add: strlen_def strlen_loop_eq str_at_nonnull)

lemma strchr_loop_eq:
  "str_at m p s \<Longrightarrow> strchr_loop p c m =
     Some (if c = 0 \<or> c \<in> set s then p + length (takeWhile (\<lambda>x. x \<noteq> c) s) else 0)"
  by (induction s arbitrary: p) (subst strchr_loop.simps; auto)+

lemma strchr_eq:
  "str_at m p s \<Longrightarrow> strchr p c m =
     Some (if c = 0 \<or> c \<in> set s then p + length (takeWhile (\<lambda>x. x \<noteq> c) s) else 0)"
  by (simp add: strchr_def strchr_loop_eq str_at_nonnull)

lemma strchr_member: "str_at m p s \<Longrightarrow> \<exists>r. strchr p c m = Some r \<and> (r \<noteq> 0 \<longleftrightarrow> c = 0 \<or> c \<in> set s)"
  using str_at_nonnull by (simp add: strchr_eq)

lemma strcmp_loop_eq:
  "str_at m a s \<Longrightarrow> str_at m b t \<Longrightarrow> \<exists>a' b'. strcmp_loop a b m = Some (a', b') \<and>
     (if m a' < m b' then - 1 else if m a' > m b' then 1 else 0) = seq_cmp s t"
proof (induction s t arbitrary: a b rule: seq_cmp.induct)
  case (4 x xs y ys)
  show ?case
  proof (cases "x = y")
    case True
    then have "strcmp_loop a b m = strcmp_loop (a + 1) (b + 1) m"
      using 4(2,3) by (subst strcmp_loop.simps) simp
    with 4 True show ?thesis by simp
  next
    case False
    with 4(2,3) show ?thesis by (subst strcmp_loop.simps) auto
  qed
qed (subst strcmp_loop.simps; auto simp: word_gt_0)+

lemma strcmp_eq: "str_at m a s \<Longrightarrow> str_at m b t \<Longrightarrow> strcmp a b m = Some (seq_cmp s t)"
  using strcmp_loop_eq [of m a s b t] by (auto simp: strcmp_def str_at_nonnull)

lemma strcspn_loop_eq:
  "str_at m (p + len) s \<Longrightarrow> str_at m stop D \<Longrightarrow>
     strcspn_loop p stop len m = Some (len + length (takeWhile (\<lambda>c. c \<notin> set D) s))"
proof (induction s arbitrary: len)
  case Nil
  then show ?case by (subst strcspn_loop.simps) simp
next
  case (Cons c s)
  obtain r where "strchr stop c m = Some r" "r \<noteq> 0 \<longleftrightarrow> c \<in> set D"
    using strchr_member [OF Cons.prems(2), of c] Cons.prems(1) by auto
  with Cons show ?case by (subst strcspn_loop.simps) auto
qed

lemma strcspn_eq:
  "str_at m p s \<Longrightarrow> str_at m stop D \<Longrightarrow> strcspn p stop m = Some (length (takeWhile (\<lambda>c. c \<notin> set D) s))"
  by (simp add: strcspn_def strcspn_loop_eq)

lemma strspn_loop_eq:
  "str_at m (p + len) s \<Longrightarrow> str_at m skip D \<Longrightarrow>
     strspn_loop p skip len m = Some (len + length (takeWhile (\<lambda>c. c \<in> set D) s))"
proof (induction s arbitrary: len)
  case Nil
  then show ?case by (subst strspn_loop.simps) simp
next
  case (Cons c s)
  obtain r where "strchr skip c m = Some r" "r \<noteq> 0 \<longleftrightarrow> c \<in> set D"
    using strchr_member [OF Cons.prems(2), of c] Cons.prems(1) by auto
  with Cons show ?case by (subst strspn_loop.simps) auto
qed

lemma strspn_eq:
  "str_at m p s \<Longrightarrow> str_at m skip D \<Longrightarrow> strspn p skip m = Some (length (takeWhile (\<lambda>c. c \<in> set D) s))"
  by (simp add: strspn_def strspn_loop_eq)

lemma strpbrk_eq:
  "str_at m p s \<Longrightarrow> str_at m stop D \<Longrightarrow> strpbrk p stop m =
     Some (if set s \<inter> set D = {} then 0 else p + length (takeWhile (\<lambda>c. c \<notin> set D) s))"
proof (induction s arbitrary: p)
  case Nil
  then show ?case by (subst strpbrk.simps) simp
next
  case (Cons c s)
  obtain r where "strchr stop c m = Some r" "r \<noteq> 0 \<longleftrightarrow> c \<in> set D"
    using strchr_member [OF Cons.prems(2), of c] Cons.prems(1) by auto
  with Cons show ?case by (subst strpbrk.simps) auto
qed

lemma strnlen_loop_eq:
  "str_at m (s + len) cs \<Longrightarrow> strnlen_loop s maxlen len m = max len (min maxlen (len + length cs))"
proof (induction cs arbitrary: len)
  case Nil
  then show ?case by (subst strnlen_loop.simps) simp
next
  case (Cons c cs)
  then show ?case using Cons.IH [of "len + 1"] by (subst strnlen_loop.simps) auto
qed

lemma strnlen_eq: "str_at m s cs \<Longrightarrow> strnlen s maxlen m = min maxlen (length cs)"
  by (simp add: strnlen_def strnlen_loop_eq)

lemma strstr_eq:
  assumes "str_at m h hs" and "str_at m n ns"
  shows "case strstr h n m of
      None \<Rightarrow> False
    | Some r \<Rightarrow> if r = 0 then \<not> (\<exists>i. take (length ns) (drop i hs) = ns \<and> i + length ns \<le> length hs)
        else \<exists>i. r = h + i \<and> i + length ns \<le> length hs \<and> take (length ns) (drop i hs) = ns \<and>
          (\<forall>j < i. take (length ns) (drop j hs) \<noteq> ns)"
proof (cases "length ns \<le> length hs")
  case True
  let ?t = "\<lambda>i. do { c \<leftarrow> memcmp (h + i) n (length ns) m; Some (c = 0) }"
  have n: "block m n (length ns) = ns" and nn: "h \<noteq> 0" "n \<noteq> 0"
    using assms by (simp_all add: str_at_iff)
  have blk: "block m (h + i) (length ns) = take (length ns) (drop i hs)" if "i + length ns \<le> length hs" for i
  proof (rule nth_equalityI)
    fix k assume "k < length (block m (h + i) (length ns))"
    then have "k < length ns" by simp
    moreover have "block m h (length hs) ! (i + k) = hs ! (i + k)" using assms(1) by (simp add: str_at_iff)
    ultimately show "block m (h + i) (length ns) ! k = take (length ns) (drop i hs) ! k"
      using that by (simp add: add.assoc)
  qed (use that in simp)
  have test: "?t i = Some (take (length ns) (drop i hs) = ns)" if "0 \<le> i" "i < length hs - length ns + 1" for i
    using that True nn by (simp add: memcmp_def memcmp_loop_eq seq_cmp_eq_0 blk n)
  have str: "strstr h n m = do { r \<leftarrow> find_upto 0 (length hs - length ns + 1) ?t;
      Some (case r of Some i \<Rightarrow> h + i | None \<Rightarrow> 0) }"
    using True by (simp add: strstr_def strlen_eq [OF assms(1)] strlen_eq [OF assms(2)])
  show ?thesis
    by (rule find_upto_cases [OF test, of 0 "length hs - length ns + 1" "\<lambda>i. i"])
      (use True nn in \<open>auto simp: str\<close>)
next
  case False
  then show ?thesis by (simp add: strstr_def strlen_eq [OF assms(1)] strlen_eq [OF assms(2)])
qed

section \<open>Bounded copies\<close>

lemma str_at_write:
  assumes "p \<noteq> 0" and "0 \<notin> set s" and "\<And>i. i < length s \<Longrightarrow> m (p + i) = s ! i" and "m (p + length s) = 0"
  shows "str_at m p s"
  unfolding str_at_iff using assms by (auto intro: nth_equalityI)

lemma str_at_nth: "str_at m p s \<Longrightarrow> i < length s \<Longrightarrow> m (p + i) = s ! i"
  unfolding str_at_iff by (metis nth_block)

lemma strlcpy_spec:
  assumes "str_at m src s" and "dst \<noteq> 0" and "src + length s < dst \<or> dst + sz \<le> src"
  shows "\<exists>m'. strlcpy dst src sz m = Some (length s, m') \<and> (sz > 0 \<longrightarrow> str_at m' dst (take (sz - 1) s)) \<and>
    (\<forall>x. x < dst \<or> dst + sz \<le> x \<longrightarrow> m' x = m x)"
proof (cases "sz = 0")
  case True
  then show ?thesis using assms by (simp add: strlcpy_def strlen_eq str_at_nonnull)
next
  case False
  define n where "n = (if length s < sz - 1 then length s else sz - 1)"
  define m' where "m' = (copy_forward n dst src m)(dst + n := 0)"
  have n: "n < sz" "n \<le> length s" "take (sz - 1) s = take n s" using False by (auto simp: n_def)
  have copy: "copy_forward n dst src m x = (if dst \<le> x \<and> x < dst + n then m (src + (x - dst)) else m x)" for x
    by (rule copy_forward_apply) (use assms(3) n in auto)
  have "strlcpy dst src sz m = Some (length s, m')"
    using False assms(1,2) by (simp add: strlcpy_def strlen_eq str_at_nonnull memcpy_def m'_def n_def Let_def)
  moreover have "str_at m' dst (take n s)"
    using assms(1,2) n by (intro str_at_write) (auto simp: m'_def copy str_at_nth str_at_iff dest: in_set_takeD)
  moreover have "m' x = m x" if "x < dst \<or> dst + sz \<le> x" for x
    using that n by (auto simp: m'_def copy)
  ultimately show ?thesis unfolding n(3) by blast
qed

lemma strlcat_spec:
  assumes "str_at m src s" and "str_at m dst t" and "src + length s < dst \<or> dst + sz \<le> src"
    and "length t < sz"
  shows "\<exists>m'. strlcat dst src sz m = Some (length s + length t, m') \<and> str_at m' dst (take (sz - 1) (t @ s)) \<and>
    (\<forall>x. x < dst + length t \<or> dst + sz \<le> x \<longrightarrow> m' x = m x)"
proof -
  let ?d = "dst + length t"
  define n where "n = (if length s < sz - length t - 1 then length s else sz - length t - 1)"
  define m' where "m' = (copy_forward n ?d src m)(?d + n := 0)"
  have n: "length t + n < sz" "n \<le> length s" "take (sz - 1) (t @ s) = t @ take n s"
    using assms(4) by (auto simp: n_def)
  have copy: "copy_forward n ?d src m x = (if ?d \<le> x \<and> x < ?d + n then m (src + (x - ?d)) else m x)" for x
    by (rule copy_forward_apply) (use assms(3) n in auto)
  have "strlcat dst src sz m = Some (length s + length t, m')"
    using assms by (simp add: strlcat_def strlen_eq [OF assms(1)] strlen_eq [OF assms(2)] str_at_nonnull [OF assms(1)]
        str_at_nonnull [OF assms(2)] memcpy_def m'_def n_def Let_def)
  moreover have "m' (dst + i) = (t @ take n s) ! i" if i: "i < length (t @ take n s)" for i
  proof (cases "i < length t")
    case True
    then show ?thesis using str_at_nth [OF assms(2) True] by (simp add: m'_def copy nth_append)
  next
    case False
    then obtain k where "i = length t + k" using le_Suc_ex by (metis not_less)
    with i n show ?thesis using str_at_nth [OF assms(1), of k] by (simp add: m'_def copy nth_append)
  qed
  then have "str_at m' dst (t @ take n s)"
    using assms(1,2) n
    by (intro str_at_write) (auto simp: m'_def copy str_at_iff min_def add.assoc dest: in_set_takeD)
  moreover have "m' x = m x" if "x < ?d \<or> dst + sz \<le> x" for x
    using that n by (auto simp: m'_def copy)
  ultimately show ?thesis unfolding n(3) by blast
qed

section \<open>Tokens\<close>

text \<open>The reference: the maximal runs of characters that are not delimiters.\<close>

function tokens :: "byte set \<Rightarrow> byte list \<Rightarrow> byte list list" where
  "tokens D s =
     (let r = dropWhile (\<lambda>c. c \<in> D) s in
      if r = [] then [] else takeWhile (\<lambda>c. c \<notin> D) r # tokens D (dropWhile (\<lambda>c. c \<notin> D) r))"
  by pat_completeness auto
termination
proof (relation "measure (\<lambda>(D, s). length s)")
  fix D :: "byte set" and s r assume r: "r = dropWhile (\<lambda>c. c \<in> D) s" "r \<noteq> []"
  then have "hd r \<notin> D" using hd_dropWhile by blast
  with r(2) have "length (dropWhile (\<lambda>c. c \<notin> D) r) < length r"
    by (cases r) (auto simp: le_imp_less_Suc length_dropWhile_le)
  also have "\<dots> \<le> length s" using r(1) by (simp add: length_dropWhile_le)
  finally show "((D, dropWhile (\<lambda>c. c \<notin> D) r), (D, s)) \<in> measure (\<lambda>(D, s). length s)" by simp
qed simp

declare tokens.simps [simp del]

text \<open>A loop that calls \<^verbatim>\<open>strtok_r\<close> until it returns a null pointer; the pointers it returned.\<close>

fun strtok_all :: "nat \<Rightarrow> nat \<Rightarrow> nat \<Rightarrow> nat \<Rightarrow> mem \<Rightarrow> (nat list \<times> mem) option" where
  "strtok_all 0 s delimiters save_ptr m = None"
| "strtok_all (Suc fuel) s delimiters save_ptr m = do {
     (token, save_ptr, m) \<leftarrow> strtok_r s delimiters save_ptr m;
     if token = 0 then Some ([], m)
     else do {
       (ts, m) \<leftarrow> strtok_all fuel 0 delimiters save_ptr m;
       Some (token # ts, m)
     }
   }"

lemma strtok_skip_eq:
  assumes "str_at m d D"
  shows "str_at m s cs \<Longrightarrow> strtok_skip s d m =
    Some (dropWhile (\<lambda>c. c \<in> set D) cs \<noteq> [], s + length (takeWhile (\<lambda>c. c \<in> set D) cs))"
proof (induction cs arbitrary: s)
  case Nil
  obtain r where "strchr d 0 m = Some r" "r \<noteq> 0" using strchr_member [OF assms, of 0] by auto
  with Nil show ?case by (subst strtok_skip.simps) simp
next
  case (Cons c cs)
  obtain r where "strchr d c m = Some r" "r \<noteq> 0 \<longleftrightarrow> c \<in> set D"
    using strchr_member [OF assms, of c] Cons.prems by auto
  with Cons show ?case by (subst strtok_skip.simps) auto
qed

lemma strtok_scan_eq:
  assumes "str_at m d D"
  shows "str_at m s cs \<Longrightarrow> strtok_scan s d m = Some (s + length (takeWhile (\<lambda>c. c \<notin> set D) cs))"
proof (induction cs arbitrary: s)
  case Nil
  obtain r where "strchr d 0 m = Some r" "r \<noteq> 0" using strchr_member [OF assms, of 0] by auto
  with Nil show ?case by (subst strtok_scan.simps) simp
next
  case (Cons c cs)
  obtain r where "strchr d c m = Some r" "r \<noteq> 0 \<longleftrightarrow> c \<in> set D"
    using strchr_member [OF assms, of c] Cons.prems by auto
  with Cons show ?case by (subst strtok_scan.simps) auto
qed

text \<open>One call: no token is left, or the first token is cut off and terminated in place.\<close>

lemma strtok_r_none:
  assumes "str_at m d D" and "str_at m p cs" and "set cs \<subseteq> set D"
  shows "strtok_r p d save m = Some (0, p + length cs, m)" and "strtok_r 0 d p m = Some (0, p + length cs, m)"
proof -
  have "strtok_skip p d m = Some (False, p + length cs)"
    using strtok_skip_eq [OF assms(1,2)] assms(3) by (auto simp: subset_iff takeWhile_eq_all_conv [THEN iffD2])
  then show "strtok_r p d save m = Some (0, p + length cs, m)" "strtok_r 0 d p m = Some (0, p + length cs, m)"
    using str_at_nonnull [OF assms(1)] str_at_nonnull [OF assms(2)] by (simp_all add: strtok_r_def Let_def)
qed

lemma strtok_r_cut:
  assumes "str_at m d D" and "str_at m p (skip @ tok @ rest)"
    and "set skip \<subseteq> set D" and "tok \<noteq> []" and "set tok \<inter> set D = {}" and "rest = [] \<or> hd rest \<in> set D"
  defines "q \<equiv> p + length skip + length tok"
  defines "r \<equiv> if rest = [] then (p + length skip, q, m) else (p + length skip, q + 1, m(q := 0))"
  shows "strtok_r p d save m = Some r" and "strtok_r 0 d p m = Some r"
proof -
  have "takeWhile (\<lambda>c. c \<in> set D) (tok @ rest) = []" using assms(4,5) by (cases tok) auto
  then have tw: "takeWhile (\<lambda>c. c \<in> set D) (skip @ tok @ rest) = skip"
    using assms(3) by (subst takeWhile_append2) auto
  have "dropWhile (\<lambda>c. c \<in> set D) (skip @ tok @ rest) \<noteq> []"
    using assms(4,5) by (cases tok) auto
  then have skip: "strtok_skip p d m = Some (True, p + length skip)"
    using strtok_skip_eq [OF assms(1,2)] tw by simp
  have at: "str_at m (p + length skip) (tok @ rest)" by (rule str_at_append [OF assms(2)])
  have "takeWhile (\<lambda>c. c \<notin> set D) rest = []" using assms(6) by (cases rest) auto
  then have "takeWhile (\<lambda>c. c \<notin> set D) (tok @ rest) = tok"
    using assms(5) by (subst takeWhile_append2) auto
  then have scan: "strtok_scan (p + length skip) d m = Some q"
    using strtok_scan_eq [OF assms(1) at] by (simp add: q_def)
  have "str_at m q rest" using str_at_append [OF at] by (simp add: q_def)
  then have "m q \<noteq> 0 \<longleftrightarrow> rest \<noteq> []" by (cases rest) auto
  with skip scan show "strtok_r p d save m = Some r" "strtok_r 0 d p m = Some r"
    using str_at_nonnull [OF assms(1)] str_at_nonnull [OF assms(2)] by (simp_all add: strtok_r_def r_def Let_def)
qed

lemma tokens_skip: "c \<in> D \<Longrightarrow> tokens D (c # s) = tokens D s"
  by (subst (1 2) tokens.simps) simp

lemma tokens_none: "set s \<subseteq> D \<Longrightarrow> tokens D s = []"
  by (subst tokens.simps) (auto simp: subset_iff)

lemma tokens_cut:
  assumes "set skip \<subseteq> D" and "tok \<noteq> []" and "set tok \<inter> D = {}" and "rest = [] \<or> hd rest \<in> D"
  shows "tokens D (skip @ tok @ rest) = tok # tokens D (tl rest)"
proof -
  have "dropWhile (\<lambda>c. c \<in> D) (tok @ rest) = tok @ rest" using assms(2,3) by (cases tok) auto
  then have 1: "dropWhile (\<lambda>c. c \<in> D) (skip @ tok @ rest) = tok @ rest"
    using assms(1) by (subst dropWhile_append2) auto
  have "takeWhile (\<lambda>c. c \<notin> D) rest = []" using assms(4) by (cases rest) auto
  then have 2: "takeWhile (\<lambda>c. c \<notin> D) (tok @ rest) = tok" "dropWhile (\<lambda>c. c \<notin> D) (tok @ rest) = rest"
    using assms(3,4) by (subst takeWhile_append2 dropWhile_append2; cases rest; auto)+
  have "tokens D rest = tokens D (tl rest)" using assms(4) by (cases rest) (auto simp: tokens_skip)
  with 1 2 assms(2) show ?thesis by (subst tokens.simps) simp
qed

lemma split_token:
  obtains "set cs \<subseteq> D" | skip tok rest where "cs = skip @ tok @ rest" "set skip \<subseteq> D" "tok \<noteq> []"
    "set tok \<inter> D = {}" "rest = [] \<or> hd rest \<in> D"
proof (cases "set cs \<subseteq> D")
  case False
  let ?r = "dropWhile (\<lambda>c. c \<in> D) cs"
  have "?r \<noteq> []" using False by (auto simp: subset_iff)
  then have "takeWhile (\<lambda>c. c \<notin> D) ?r \<noteq> []" using hd_dropWhile [of "\<lambda>c. c \<in> D" cs] by (cases ?r) auto
  moreover have "dropWhile (\<lambda>c. c \<notin> D) ?r = [] \<or> hd (dropWhile (\<lambda>c. c \<notin> D) ?r) \<in> D"
    using hd_dropWhile [of "\<lambda>c. c \<notin> D" ?r] by blast
  moreover have "cs = takeWhile (\<lambda>c. c \<in> D) cs @ takeWhile (\<lambda>c. c \<notin> D) ?r @ dropWhile (\<lambda>c. c \<notin> D) ?r" by simp
  moreover have "set (takeWhile (\<lambda>c. c \<in> D) cs) \<subseteq> D" "set (takeWhile (\<lambda>c. c \<notin> D) ?r) \<inter> D = {}"
    by (auto dest: set_takeWhileD)
  ultimately show ?thesis using that(2) by blast
qed

lemma strtok_all_saved:
  "str_at m d D \<Longrightarrow> str_at m p cs \<Longrightarrow> d + length D < p \<or> p + length cs < d \<Longrightarrow> length cs < fuel \<Longrightarrow>
   s = p \<or> s = 0 \<and> save = p \<Longrightarrow>
   \<exists>ts m'. strtok_all fuel s d save m = Some (ts, m') \<and> list_all2 (str_at m') ts (tokens (set D) cs) \<and>
     (\<forall>x. x < p \<or> p + length cs \<le> x \<longrightarrow> m' x = m x)"
proof (induction fuel arbitrary: m p cs s save)
  case (Suc fuel)
  show ?case
  proof (rule split_token [of cs "set D"])
    assume "set cs \<subseteq> set D"
    with strtok_r_none [OF Suc.prems(1,2) this] Suc.prems(5) show ?thesis by (auto simp: tokens_none)
  next
    fix skip tok rest
    assume split: "cs = skip @ tok @ rest" "set skip \<subseteq> set D" "tok \<noteq> []" "set tok \<inter> set D = {}"
      "rest = [] \<or> hd rest \<in> set D"
    define q where "q = p + length skip + length tok"
    define save' where "save' = (if rest = [] then q else q + 1)"
    define m1 where "m1 = (if rest = [] then m else m(q := 0))"
    have at: "str_at m p (skip @ tok @ rest)" using Suc.prems(2) split(1) by simp
    have call: "strtok_r s d save m = Some (p + length skip, save', m1)"
      using strtok_r_cut [OF Suc.prems(1) at split(2-5)] Suc.prems(5)
      by (auto simp: q_def save'_def m1_def split: if_splits)
    have len: "q + length rest = p + length cs" by (simp add: q_def split(1))
    have rest: "str_at m q rest"
      using str_at_append [OF str_at_append [OF at]] by (simp add: q_def add.assoc)
    have q0: "m1 q = 0" using rest by (cases rest) (auto simp: m1_def)
    have other: "m1 x = m x" if "x \<noteq> q \<or> rest = []" for x using that by (auto simp: m1_def)
    have "q < d \<or> d + length D < q" using Suc.prems(3) len by (auto simp: q_def)
    then have D1: "str_at m1 d D"
      by (intro str_at_cong [OF Suc.prems(1)] other) auto
    have len': "save' + length (tl rest) = p + length cs" using len by (cases rest) (simp_all add: save'_def)
    have le: "q \<le> save'" "rest \<noteq> [] \<Longrightarrow> q < save'" by (simp_all add: save'_def)
    have "str_at m save' (tl rest)" using rest by (cases rest) (simp_all add: save'_def)
    then have rest1: "str_at m1 save' (tl rest)"
      by (rule str_at_cong) (intro other, use le(2) in linarith)
    have "str_at m (p + length skip) (tok @ rest)" by (rule str_at_append [OF at])
    then have tok_nth: "m (p + length skip + i) = tok ! i" if "i < length tok" for i
      using str_at_nth [of m "p + length skip" "tok @ rest" i] that by (simp add: nth_append)
    have "0 \<notin> set tok" using at by (auto simp: str_at_iff)
    have "d + length D < save' \<or> save' + length (tl rest) < d" using Suc.prems(3) len' le(1) by (auto simp: q_def)
    moreover have "length (tl rest) < fuel" using Suc.prems(4) split(1,3) by (cases tok) auto
    ultimately obtain ts m2 where IH: "strtok_all fuel 0 d save' m1 = Some (ts, m2)"
      "list_all2 (str_at m2) ts (tokens (set D) (tl rest))"
      "\<And>x. x < save' \<or> save' + length (tl rest) \<le> x \<Longrightarrow> m2 x = m1 x"
      using Suc.IH [OF D1 rest1, of 0 save'] by blast
    have keep: "m2 x = m1 x" if "x \<le> q" for x using that le IH(3) [of x] len' len by (cases "rest = []") (auto simp: le_less)
    have "m2 (p + length skip + i) = tok ! i" if "i < length tok" for i
      using that keep [of "p + length skip + i"] other [of "p + length skip + i"] tok_nth [OF that]
      by (simp add: q_def)
    moreover have "m2 (p + length skip + length tok) = 0" using keep [of q] q0 by (simp add: q_def)
    ultimately have "str_at m2 (p + length skip) tok"
      using \<open>0 \<notin> set tok\<close> str_at_nonnull [OF Suc.prems(2)] by (intro str_at_write) simp_all
    moreover have "m2 x = m x" if "x < p \<or> p + length cs \<le> x" for x
      using that IH(3) [of x] other [of x] len len' le q_def by (cases "rest = []") auto
    ultimately show ?thesis
      using call IH(1,2) tokens_cut [OF split(2-5)] str_at_nonnull [OF Suc.prems(2)] split(1) by simp
  qed
qed simp

section \<open>Properties\<close>

text \<open>
  A concrete memory for the witnesses: the string \<open>"ls -l"\<close> at address 100, the delimiter string \<open>" "\<close> at
  address 200, zeros everywhere else.
\<close>

definition demo_mem :: mem where
  "demo_mem = (\<lambda>_. 0)(100 := 108, 101 := 115, 102 := 32, 103 := 45, 104 := 108, 200 := 32)"

lemma demo_mem_strings: "str_at demo_mem 100 [108, 115, 32, 45, 108]" "str_at demo_mem 200 [32]"
  by (simp_all add: demo_mem_def)

text \<open>
  C36. \<^verbatim>\<open>memmove\<close> copies a block correctly even if source and destination overlap: the destination
  holds what the source held before the call and every other byte is unchanged.  The
  pointer it returns is the destination only if the destination does not precede the source; otherwise it
  is the address just behind the destination.
\<close>

theorem memmove_correct:
  assumes "dst \<noteq> 0" and "src \<noteq> 0"
  shows "\<exists>r m'. memmove dst src sz m = Some (r, m') \<and> block m' dst sz = block m src sz \<and>
    (\<forall>x. x < dst \<or> dst + sz \<le> x \<longrightarrow> m' x = m x) \<and> r = (if dst < src then dst + sz else dst)"
proof (cases "dst < src")
  case True
  have copy: "copy_forward sz dst src m x = (if dst \<le> x \<and> x < dst + sz then m (src + (x - dst)) else m x)" for x
    by (rule copy_forward_apply) (use True in simp)
  have "block (copy_forward sz dst src m) dst sz = block m src sz"
    by (rule nth_equalityI) (simp_all add: copy)
  then show ?thesis using True assms by (simp add: memmove_def copy)
next
  case False
  have copy: "copy_backward sz (dst + sz) (src + sz) m x = (if dst \<le> x \<and> x < dst + sz then m (src + (x - dst)) else m x)" for x
    by (rule copy_backward_apply) (use False in simp)
  have "block (copy_backward sz (dst + sz) (src + sz) m) dst sz = block m src sz"
    by (rule nth_equalityI) (simp_all add: copy)
  then show ?thesis using False assms by (simp add: memmove_def copy)
qed

theorem memmove_correct_witness:
  "\<exists>m'. memmove 100 102 3 demo_mem = Some (103, m') \<and> block m' 100 3 = [32, 45, 108]"
proof -
  have "block demo_mem 102 3 = [32, 45, 108]" by (simp add: block_def demo_mem_def upt_rec)
  with memmove_correct [of 100 102 3 demo_mem] show ?thesis by auto
qed

text \<open>
  \<^verbatim>\<open>strcmp\<close> compares two strings as sequences of unsigned characters in lexicographic order, and
  returns zero exactly when they are equal.
\<close>

theorem strcmp_correct:
  assumes "str_at m a s" and "str_at m b t"
  shows "strcmp a b m = Some (seq_cmp s t) \<and> (strcmp a b m = Some 0 \<longleftrightarrow> s = t) \<and>
    strcmp b a m = Some (- seq_cmp s t)"
  using strcmp_eq [OF assms] strcmp_eq [OF assms(2,1)] seq_cmp_eq_0 [of s t] seq_cmp_swap [of t s] by simp

theorem strcmp_correct_witness: "strcmp 100 200 demo_mem = Some 1"
  using strcmp_correct [OF demo_mem_strings] by simp

text \<open>
  C35. \<^verbatim>\<open>strlcpy\<close> never overruns its destination: it writes only inside the \<open>sz\<close> bytes of the
  destination, always leaves a terminated string there (unless \<open>sz\<close> is 0), namely the
  longest prefix of the source that fits, and returns the length of the source.
\<close>

theorem strlcpy_correct:
  assumes "str_at m src s" and "dst \<noteq> 0" and "src + length s < dst \<or> dst + sz \<le> src"
  shows "\<exists>m'. strlcpy dst src sz m = Some (length s, m') \<and> (sz > 0 \<longrightarrow> str_at m' dst (take (sz - 1) s)) \<and>
    (\<forall>x. x < dst \<or> dst + sz \<le> x \<longrightarrow> m' x = m x)"
  using assms by (rule strlcpy_spec)

theorem strlcpy_correct_witness:
  "\<exists>m'. strlcpy 300 100 4 demo_mem = Some (5, m') \<and> str_at m' 300 [108, 115, 32] \<and> m' 304 = 0"
  using strlcpy_correct [OF demo_mem_strings(1), of 300 4] by (auto simp: demo_mem_def)

text \<open>
  C27. Calling \<^verbatim>\<open>strtok_r\<close> until it returns a null pointer splits a string into its tokens: the pointers
  returned point, in order, to the maximal runs of characters that are not delimiters, each
  terminated by a null byte and intact after the last call, and nothing outside the string is
  modified.
\<close>

theorem strtok_r_tokens:
  assumes "str_at m d D" and "str_at m s cs" and "d + length D < s \<or> s + length cs < d"
  shows "\<exists>ts m'. strtok_all (length cs + 1) s d save m = Some (ts, m') \<and>
    list_all2 (str_at m') ts (tokens (set D) cs) \<and> (\<forall>x. x < s \<or> s + length cs \<le> x \<longrightarrow> m' x = m x)"
  by (rule strtok_all_saved [OF assms]) simp_all

theorem strtok_r_tokens_witness:
  "\<exists>t u m'. strtok_all (length [108, 115, 32, 45, 108 :: byte] + 1) 100 200 0 demo_mem = Some ([t, u], m') \<and>
    str_at m' t [108, 115] \<and> str_at m' u [45, 108]"
proof -
  have tok: "tokens (set [32]) [108, 115, 32, 45, 108] = [[108, 115], [45, 108]]"
    by (simp add: tokens.simps)
  obtain ts m' where r: "strtok_all (length [108, 115, 32, 45, 108 :: byte] + 1) 100 200 0 demo_mem = Some (ts, m')"
    "list_all2 (str_at m') ts [[108, 115], [45, 108]]"
    using strtok_r_tokens [OF demo_mem_strings(2,1), of 0] unfolding tok by auto
  then show ?thesis unfolding list_all2_Cons2 by auto
qed

end
