(* ===== verification/Vaddr.thy ===== *)
theory Vaddr
  imports Cstring
begin

text \<open>
  Virtual addresses, \<^verbatim>\<open>threads/vaddr.h\<close>, and the entries of x86 page tables, \<^verbatim>\<open>threads/pte.h\<close>.  Addresses are
  natural numbers below \<open>2 ^ 32\<close>, as in the theory of strings; page directory and page table entries
  are 32-bit words.  \<open>load32\<close> and \<open>store32\<close> are the accesses to a \<^verbatim>\<open>uint32_t\<close> in memory.
\<close>

unbundle bit_operations_syntax

section \<open>Words in memory\<close>

definition load32 :: "mem \<Rightarrow> nat \<Rightarrow> u32" where
  "load32 m a = of_le32 [m a, m (a + 1), m (a + 2), m (a + 3)]"

definition store32 :: "nat \<Rightarrow> u32 \<Rightarrow> mem \<Rightarrow> mem" where
  "store32 a w m = m(a := le32 w ! 0, a + 1 := le32 w ! 1, a + 2 := le32 w ! 2, a + 3 := le32 w ! 3)"

section \<open>Virtual addresses\<close>

definition BITMASK :: "nat \<Rightarrow> nat \<Rightarrow> u32" where
  "BITMASK shift cnt = push_bit shift (push_bit cnt 1 - 1)"

definition PGSHIFT :: nat where "PGSHIFT = 0"
definition PGBITS :: nat where "PGBITS = 12"
definition PGSIZE :: nat where "PGSIZE = 2 ^ PGBITS"
definition PGMASK :: u32 where "PGMASK = BITMASK PGSHIFT PGBITS"

definition PHYS_BASE :: nat where "PHYS_BASE = 0xc0000000"

text \<open>The \<^verbatim>\<open>uintptr_t\<close> of a pointer, and back.\<close>

abbreviation word :: "nat \<Rightarrow> u32" where
  "word va \<equiv> word_of_nat va"

definition pg_ofs :: "nat \<Rightarrow> nat" where
  "pg_ofs va = unat (word va AND PGMASK)"

definition pg_no :: "nat \<Rightarrow> nat" where
  "pg_no va = unat (drop_bit PGBITS (word va))"

definition pg_round_up :: "nat \<Rightarrow> nat" where
  "pg_round_up va = unat ((word va + word PGSIZE - 1) AND NOT PGMASK)"

definition pg_round_down :: "nat \<Rightarrow> nat" where
  "pg_round_down va = unat (word va AND NOT PGMASK)"

definition is_user_vaddr :: "nat \<Rightarrow> bool" where
  "is_user_vaddr vaddr \<longleftrightarrow> vaddr < PHYS_BASE"

definition is_kernel_vaddr :: "nat \<Rightarrow> bool" where
  "is_kernel_vaddr vaddr \<longleftrightarrow> vaddr \<ge> PHYS_BASE"

definition ptov :: "u32 \<Rightarrow> nat option" where
  "ptov paddr = do {
     ASSERT (unat paddr < PHYS_BASE);
     Some (unat (paddr + word PHYS_BASE))
   }"

definition vtop :: "nat \<Rightarrow> u32 option" where
  "vtop vaddr = do {
     ASSERT (is_kernel_vaddr vaddr);
     Some (word vaddr - word PHYS_BASE)
   }"

section \<open>Page table entries\<close>

definition PTSHIFT :: nat where "PTSHIFT = PGBITS"
definition PTBITS :: nat where "PTBITS = 10"
definition PTMASK :: u32 where "PTMASK = BITMASK PTSHIFT PTBITS"
definition PDSHIFT :: nat where "PDSHIFT = PTSHIFT + PTBITS"

definition pt_no :: "nat \<Rightarrow> nat" where
  "pt_no va = unat (drop_bit PTSHIFT (word va AND PTMASK))"

definition pd_no :: "nat \<Rightarrow> nat" where
  "pd_no va = unat (drop_bit PDSHIFT (word va))"

definition PTE_FLAGS :: u32 where "PTE_FLAGS = 0x00000fff"
definition PTE_ADDR :: u32 where "PTE_ADDR = 0xfffff000"
definition PTE_P :: u32 where "PTE_P = 0x1"
definition PTE_W :: u32 where "PTE_W = 0x2"
definition PTE_U :: u32 where "PTE_U = 0x4"
definition PTE_A :: u32 where "PTE_A = 0x20"
definition PTE_D :: u32 where "PTE_D = 0x40"

definition pde_create :: "nat \<Rightarrow> u32 option" where
  "pde_create pt = do {
     ASSERT (pg_ofs pt = 0);
     p \<leftarrow> vtop pt;
     Some (p OR PTE_U OR PTE_P OR PTE_W)
   }"

definition pde_get_pt :: "u32 \<Rightarrow> nat option" where
  "pde_get_pt pde = do {
     ASSERT (pde AND PTE_P \<noteq> 0);
     ptov (pde AND PTE_ADDR)
   }"

definition pte_create_kernel :: "nat \<Rightarrow> bool \<Rightarrow> u32 option" where
  "pte_create_kernel page writable = do {
     ASSERT (pg_ofs page = 0);
     p \<leftarrow> vtop page;
     Some (p OR PTE_P OR (if writable then PTE_W else 0))
   }"

definition pte_create_user :: "nat \<Rightarrow> bool \<Rightarrow> u32 option" where
  "pte_create_user page writable = do {
     p \<leftarrow> pte_create_kernel page writable;
     Some (p OR PTE_U)
   }"

definition pte_get_page :: "u32 \<Rightarrow> nat option" where
  "pte_get_page pte = ptov (pte AND PTE_ADDR)"

section \<open>Arithmetic of addresses\<close>

lemma PGSIZE_eq [simp]: "PGSIZE = 4096"
  by (simp add: PGSIZE_def PGBITS_def)

lemma PGMASK_eq: "PGMASK = mask 12"
  by (simp add: PGMASK_def BITMASK_def PGSHIFT_def PGBITS_def mask_eq_exp_minus_1 push_bit_eq_mult)

lemma unat_word [simp]: "va < 4294967296 \<Longrightarrow> unat (word va) = va"
  by (simp add: unat_of_nat_small)

lemma pg_ofs_eq: "pg_ofs va = va mod 4096"
proof -
  have "va mod 2 ^ 32 mod 4096 = va mod 4096" by (rule mod_mod_cancel) simp
  then show ?thesis
    unfolding pg_ofs_def PGMASK_eq take_bit_eq_mask [symmetric] unsigned_take_bit_eq
    by (simp add: unat_of_nat take_bit_eq_mod)
qed

lemma pg_no_eq: "va < 2 ^ 32 \<Longrightarrow> pg_no va = va div 4096"
  by (simp add: pg_no_def PGBITS_def unat_drop_bit)

lemma pd_no_eq: "va < 2 ^ 32 \<Longrightarrow> pd_no va = va div 4194304"
  by (simp add: pd_no_def PDSHIFT_def PTSHIFT_def PTBITS_def PGBITS_def unat_drop_bit)

lemma PTMASK_eq: "PTMASK = push_bit 12 (mask 10)"
  by (simp add: PTMASK_def BITMASK_def PTSHIFT_def PTBITS_def PGBITS_def mask_eq_exp_minus_1 push_bit_eq_mult)

lemma pt_no_eq:
  assumes "va < 2 ^ 32"
  shows "pt_no va = va div 4096 mod 1024"
proof -
  have "drop_bit 12 (word va AND PTMASK) = take_bit 10 (drop_bit 12 (word va))"
    unfolding PTMASK_eq by (auto intro!: bit_word_eqI simp: bit_simps)
  moreover have "unat (take_bit 10 (drop_bit 12 (word va))) = va div 4096 mod 1024"
    unfolding unsigned_take_bit_eq unat_drop_bit using assms by (simp add: take_bit_eq_mod)
  ultimately show ?thesis by (simp add: pt_no_def PTSHIFT_def PGBITS_def)
qed

lemma pg_round_down_eq:
  assumes "va < 2 ^ 32"
  shows "pg_round_down va = va div 4096 * 4096"
proof -
  have "word va AND NOT PGMASK = push_bit 12 (drop_bit 12 (word va))"
    unfolding PGMASK_eq by (auto intro!: bit_word_eqI simp: bit_simps)
  moreover have "unat (push_bit 12 (drop_bit 12 (word va))) = va div 4096 * 4096"
    using assms by (subst unat_push_bit_small) (auto simp: unat_drop_bit)
  ultimately show ?thesis by (simp add: pg_round_down_def)
qed

definition phys :: "nat \<Rightarrow> u32" where
  "phys va = word (va - PHYS_BASE)"

lemma vtop_eq: "PHYS_BASE \<le> va \<Longrightarrow> va < 2 ^ 32 \<Longrightarrow> vtop va = Some (phys va)"
  by (simp add: vtop_def is_kernel_vaddr_def phys_def of_nat_diff)

lemma ptov_eq: "unat p < 2 ^ 32 - PHYS_BASE \<Longrightarrow> ptov p = Some (unat p + PHYS_BASE)"
  by (simp add: ptov_def PHYS_BASE_def unat_add_no_wrap)

lemma ptov_word:
  assumes "PHYS_BASE \<le> va" and "va < 2 ^ 32"
  shows "ptov (phys va) = Some va"
proof -
  have "unat (word (va - PHYS_BASE)) = va - PHYS_BASE" using assms by (intro unat_word) simp
  with assms show ?thesis unfolding phys_def by (simp only: ptov_eq) simp
qed

section \<open>Flags and addresses of entries\<close>

lemma and_flag_bit: "k < 32 \<Longrightarrow> (w :: u32) AND push_bit k 1 \<noteq> 0 \<longleftrightarrow> bit w k"
  using bit_eq_iff [of "w AND push_bit k 1" 0] by (auto simp: bit_simps)

lemma pte_flag_bits:
  "w AND PTE_P \<noteq> 0 \<longleftrightarrow> bit w 0" "w AND PTE_W \<noteq> 0 \<longleftrightarrow> bit w 1" "w AND PTE_U \<noteq> 0 \<longleftrightarrow> bit w 2"
  "w AND PTE_A \<noteq> 0 \<longleftrightarrow> bit w 5" "w AND PTE_D \<noteq> 0 \<longleftrightarrow> bit w 6"
  using and_flag_bit [of 0 w] and_flag_bit [of 1 w] and_flag_bit [of 2 w] and_flag_bit [of 5 w]
    and_flag_bit [of 6 w]
  by (simp_all add: PTE_P_def PTE_W_def PTE_U_def PTE_A_def PTE_D_def push_bit_eq_mult)

lemma bit_flags:
  "bit PTE_P k \<longleftrightarrow> k = 0" "bit PTE_W k \<longleftrightarrow> k = 1" "bit PTE_U k \<longleftrightarrow> k = 2"
  "bit PTE_A k \<longleftrightarrow> k = 5" "bit PTE_D k \<longleftrightarrow> k = 6"
proof -
  have *: "bit (push_bit n 1 :: u32) k \<longleftrightarrow> k = n" if "n < 32" for n
    using that by (auto simp: bit_simps)
  show "bit PTE_P k \<longleftrightarrow> k = 0" "bit PTE_W k \<longleftrightarrow> k = 1" "bit PTE_U k \<longleftrightarrow> k = 2"
    "bit PTE_A k \<longleftrightarrow> k = 5" "bit PTE_D k \<longleftrightarrow> k = 6"
    using * [of 0] * [of 1] * [of 2] * [of 5] * [of 6]
    by (simp_all add: PTE_P_def PTE_W_def PTE_U_def PTE_A_def PTE_D_def push_bit_eq_mult)
qed

lemma PTE_ADDR_eq: "PTE_ADDR = NOT (mask 12)"
  by (simp add: PTE_ADDR_def mask_eq_exp_minus_1)

text \<open>The addresses of page frames: page-aligned kernel virtual addresses.\<close>

definition kernel_page :: "nat \<Rightarrow> bool" where
  "kernel_page p \<longleftrightarrow> PHYS_BASE \<le> p \<and> p < 2 ^ 32 \<and> p mod 4096 = 0"

lemma kernel_page_word:
  assumes "kernel_page p"
  shows "phys p AND PTE_ADDR = phys p"
proof -
  have "(p - PHYS_BASE) mod 4096 = 0" using assms by (auto simp: kernel_page_def PHYS_BASE_def mod_nat_eqI)
  then obtain q where q: "p - PHYS_BASE = q * 2 ^ 12" by auto
  have "phys p = push_bit 12 (word q)" by (simp add: phys_def q push_bit_eq_mult)
  then show ?thesis unfolding PTE_ADDR_eq by (auto intro!: bit_word_eqI simp: bit_simps)
qed

lemma kernel_page_low_bits: "kernel_page p \<Longrightarrow> k < 12 \<Longrightarrow> \<not> bit (phys p) k"
  using kernel_page_word [of p] bit_and_iff [of "phys p" PTE_ADDR k]
  by (simp add: PTE_ADDR_eq bit_simps)

lemma or_flags_addr: "f AND PTE_ADDR = 0 \<Longrightarrow> (e OR f) AND PTE_ADDR = e AND PTE_ADDR"
  by (simp add: bit.conj_disj_distrib2)

lemma and_flags_addr:
  assumes "f AND PTE_ADDR = 0"
  shows "(e AND NOT f) AND PTE_ADDR = e AND PTE_ADDR"
proof (rule bit_word_eqI)
  fix n assume "n < LENGTH(32)"
  moreover have "\<not> (bit f n \<and> bit PTE_ADDR n)" using assms by (metis bit_and_iff bit_0_eq bot_apply bot_bool_def)
  ultimately show "bit ((e AND NOT f) AND PTE_ADDR) n = bit (e AND PTE_ADDR) n" by (auto simp: bit_simps)
qed

lemma flags_no_addr [simp]:
  "PTE_P AND PTE_ADDR = 0" "PTE_W AND PTE_ADDR = 0" "PTE_U AND PTE_ADDR = 0" "PTE_A AND PTE_ADDR = 0"
  "PTE_D AND PTE_ADDR = 0"
  by (simp_all add: PTE_P_def PTE_W_def PTE_U_def PTE_A_def PTE_D_def PTE_ADDR_def)

text \<open>The entries that \<^verbatim>\<open>pte_create_user\<close> and \<^verbatim>\<open>pde_create\<close> make, read back.\<close>

lemma pte_create_user_entry:
  assumes "kernel_page p"
  shows "\<exists>e. pte_create_user p w = Some e \<and> pte_get_page e = Some p \<and> bit e 0 \<and> bit e 1 = w \<and> bit e 2 \<and>
    \<not> bit e 5 \<and> \<not> bit e 6"
proof -
  let ?e = "(phys p OR PTE_P OR (if w then PTE_W else 0)) OR PTE_U"
  have p: "PHYS_BASE \<le> p" "p < 2 ^ 32" "pg_ofs p = 0" using assms by (auto simp: kernel_page_def pg_ofs_eq)
  then have "pte_create_user p w = Some ?e"
    by (simp add: pte_create_user_def pte_create_kernel_def vtop_eq)
  moreover have "?e AND PTE_ADDR = phys p"
    using kernel_page_word [OF assms] by (cases w) (simp_all add: bit.conj_disj_distrib2)
  then have "pte_get_page ?e = Some p" using p by (simp add: pte_get_page_def ptov_word)
  ultimately show ?thesis
    using kernel_page_low_bits [OF assms] by (auto simp: bit_or_iff bit_flags)
qed

lemma pde_create_entry:
  assumes "kernel_page p"
  shows "\<exists>e. pde_create p = Some e \<and> pde_get_pt e = Some p \<and> bit e 0 \<and> e \<noteq> 0"
proof -
  let ?e = "phys p OR PTE_U OR PTE_P OR PTE_W"
  have p: "PHYS_BASE \<le> p" "p < 2 ^ 32" "pg_ofs p = 0" using assms by (auto simp: kernel_page_def pg_ofs_eq)
  have "?e AND PTE_ADDR = phys p"
    using kernel_page_word [OF assms] by (simp add: bit.conj_disj_distrib2)
  moreover have "bit ?e 0" by (simp add: bit_or_iff bit_flags)
  moreover from this have "?e \<noteq> 0" by (metis bit_0_eq bot_apply bot_bool_def)
  ultimately show ?thesis
    using p by (simp add: pde_create_def pde_get_pt_def vtop_eq ptov_word pte_flag_bits)
qed

section \<open>Reading and writing words\<close>

lemma load32_store32 [simp]: "load32 (store32 a w m) a = w"
proof -
  have "[le32 w ! 0, le32 w ! 1, le32 w ! 2, le32 w ! 3] = le32 w" by (simp add: le32_def)
  then show ?thesis by (simp add: load32_def store32_def)
qed

lemma store32_apply: "x < a \<or> a + 4 \<le> x \<Longrightarrow> store32 a w m x = m x"
  by (auto simp: store32_def)

lemma load32_store32_other: "b + 4 \<le> a \<or> a + 4 \<le> b \<Longrightarrow> load32 (store32 a w m) b = load32 m b"
  by (auto simp: load32_def store32_apply)

lemma load32_cong: "(\<And>x. a \<le> x \<Longrightarrow> x < a + 4 \<Longrightarrow> m' x = m x) \<Longrightarrow> load32 m' a = load32 m a"
  by (simp add: load32_def)

end
