(* ===== verification/Threads.thy ===== *)
theory Threads
  imports Kernel_List Vaddr
begin

text \<open>
  The thread system: \<^verbatim>\<open>threads/thread.c\<close>, the interrupt level and the dispatch of external interrupts of
  \<^verbatim>\<open>threads/interrupt.c\<close>, the tick counter of \<^verbatim>\<open>devices/timer.c\<close>, and \<^verbatim>\<open>process_activate\<close>.

  The state \<open>sched\<close> holds the file-scope variables of these files, the thread structures (a function from their
  page addresses) and the thread that owns the CPU.  The run queue, the list of all threads and the list of
  sleeping threads are the sequences that kernel lists represent (theory \<open>Kernel_List\<close>), with \<^verbatim>\<open>list_insert_ordered\<close>
  as \<open>insert_ord\<close>.  A context switch replaces the running thread; what a descheduled thread does with the
  interrupt level when it gets the CPU back is kept in \<open>resume_level\<close>.  \<open>None\<close> is a failed assertion.

  The lemmas give an invariant of the scheduler (exactly one running thread, the run queue holds exactly the
  ready threads, sleepers are ordered by their wake-up time), its preservation by every operation
  together with the absence of assertion failures, round-robin scheduling, and the timing
  of sleeping threads.
\<close>

section \<open>State\<close>

datatype thread_status = THREAD_RUNNING | THREAD_READY | THREAD_BLOCKED | THREAD_DYING

datatype intr_level = INTR_OFF | INTR_ON

text \<open>The frames that \<^verbatim>\<open>thread_create\<close> puts on the stack of a new thread.\<close>

datatype stack_frame =
  Kernel_Thread_Frame nat nat
| Switch_Entry_Frame
| Switch_Threads_Frame

record thread =
  tid :: int
  status :: thread_status
  name :: string
  stack :: addr
  priority :: int
  time_ticks :: int
  pagedir :: addr
  magic :: u32
  frames :: "stack_frame list"

record sched =
  thr :: "addr \<Rightarrow> thread"
  ready_list :: "addr list"
  all_list :: "addr list"
  already_slept :: "addr list"
  idle_thread :: addr
  initial_thread :: addr
  running :: addr
  next_tid :: int
  thread_ticks :: u32
  idle_ticks :: int
  kernel_ticks :: int
  user_ticks :: int
  ticks :: int
  level :: intr_level
  resume_level :: "addr \<Rightarrow> intr_level"
  in_external_intr :: bool
  yield_on_return :: bool
  init_page_dir :: addr
  cr3 :: addr
  tss_esp0 :: addr
  freed_pages :: "addr list"

definition THREAD_MAGIC :: u32 where "THREAD_MAGIC = 0xcd6abf4b"
definition TIME_SLICE :: u32 where "TIME_SLICE = 4"
definition TID_ERROR :: int where "TID_ERROR = - 1"
definition PRI_MIN :: int where "PRI_MIN = 0"
definition PRI_DEFAULT :: int where "PRI_DEFAULT = 31"
definition PRI_MAX :: int where "PRI_MAX = 63"

section \<open>Interrupt level\<close>

definition intr_get_level :: "'a sched_scheme \<Rightarrow> intr_level" where
  "intr_get_level s = level s"

definition intr_context :: "'a sched_scheme \<Rightarrow> bool" where
  "intr_context s = in_external_intr s"

definition intr_enable :: "'a sched_scheme \<Rightarrow> (intr_level \<times> 'a sched_scheme) option" where
  "intr_enable s = do {
     let old_level = intr_get_level s;
     ASSERT (\<not> intr_context s);
     Some (old_level, s\<lparr>level := INTR_ON\<rparr>)
   }"

definition intr_disable :: "'a sched_scheme \<Rightarrow> (intr_level \<times> 'a sched_scheme) option" where
  "intr_disable s = Some (intr_get_level s, s\<lparr>level := INTR_OFF\<rparr>)"

definition intr_set_level :: "intr_level \<Rightarrow> 'a sched_scheme \<Rightarrow> (intr_level \<times> 'a sched_scheme) option" where
  "intr_set_level l s = (if l = INTR_ON then intr_enable s else intr_disable s)"

definition intr_yield_on_return :: "'a sched_scheme \<Rightarrow> 'a sched_scheme option" where
  "intr_yield_on_return s = do {
     ASSERT (intr_context s);
     Some (s\<lparr>yield_on_return := True\<rparr>)
   }"

definition timer_ticks :: "'a sched_scheme \<Rightarrow> (int \<times> 'a sched_scheme) option" where
  "timer_ticks s = do {
     (old_level, s) \<leftarrow> intr_disable s;
     let t = ticks s;
     (_, s) \<leftarrow> intr_set_level old_level s;
     Some (t, s)
   }"

section \<open>Threads\<close>

definition is_thread :: "'a sched_scheme \<Rightarrow> addr \<Rightarrow> bool" where
  "is_thread s t \<longleftrightarrow> t \<noteq> NULL \<and> magic (thr s t) = THREAD_MAGIC"

definition upd_thread :: "addr \<Rightarrow> (thread \<Rightarrow> thread) \<Rightarrow> 'a sched_scheme \<Rightarrow> 'a sched_scheme" where
  "upd_thread t f s = s\<lparr>thr := (thr s)(t := f (thr s t))\<rparr>"

definition set_status :: "addr \<Rightarrow> thread_status \<Rightarrow> 'a sched_scheme \<Rightarrow> 'a sched_scheme" where
  "set_status t st = upd_thread t (\<lambda>th. th\<lparr>status := st\<rparr>)"

definition running_thread :: "'a sched_scheme \<Rightarrow> addr" where
  "running_thread s = running s"

definition thread_current :: "'a sched_scheme \<Rightarrow> addr option" where
  "thread_current s = do {
     let t = running_thread s;
     ASSERT (is_thread s t);
     ASSERT (status (thr s t) = THREAD_RUNNING);
     Some t
   }"

definition thread_name :: "'a sched_scheme \<Rightarrow> string option" where
  "thread_name s = do { t \<leftarrow> thread_current s; Some (name (thr s t)) }"

definition thread_tid :: "'a sched_scheme \<Rightarrow> int option" where
  "thread_tid s = do { t \<leftarrow> thread_current s; Some (tid (thr s t)) }"

text \<open>
  \<^verbatim>\<open>allocate_tid\<close> increments the counter while it holds \<^verbatim>\<open>tid_lock\<close>; the model does so in one step.
\<close>

definition allocate_tid :: "'a sched_scheme \<Rightarrow> int \<times> 'a sched_scheme" where
  "allocate_tid s = (next_tid s, s\<lparr>next_tid := int32 (next_tid s + 1)\<rparr>)"

definition init_thread :: "addr \<Rightarrow> string \<Rightarrow> int \<Rightarrow> 'a sched_scheme \<Rightarrow> 'a sched_scheme option" where
  "init_thread t nm prio s = do {
     ASSERT (t \<noteq> NULL);
     ASSERT (PRI_MIN \<le> prio \<and> prio \<le> PRI_MAX);
     let s = upd_thread t
       (\<lambda>_. \<lparr>tid = 0, status = THREAD_BLOCKED, name = take 15 nm, stack = t + word_of_nat PGSIZE,
          priority = prio, time_ticks = 0, pagedir = NULL, magic = THREAD_MAGIC, frames = []\<rparr>) s;
     (old_level, s) \<leftarrow> intr_disable s;
     let s = s\<lparr>all_list := all_list s @ [t]\<rparr>;
     (_, s) \<leftarrow> intr_set_level old_level s;
     Some s
   }"

definition alloc_frame :: "addr \<Rightarrow> nat \<Rightarrow> stack_frame \<Rightarrow> 'a sched_scheme \<Rightarrow> 'a sched_scheme option" where
  "alloc_frame t sz f s = do {
     ASSERT (is_thread s t);
     ASSERT (sz mod 4 = 0);
     Some (upd_thread t (\<lambda>th. th\<lparr>stack := stack th - word_of_nat sz, frames := f # frames th\<rparr>) s)
   }"

definition thread_unblock :: "addr \<Rightarrow> 'a sched_scheme \<Rightarrow> 'a sched_scheme option" where
  "thread_unblock t s = do {
     ASSERT (is_thread s t);
     (old_level, s) \<leftarrow> intr_disable s;
     ASSERT (status (thr s t) = THREAD_BLOCKED);
     let s = s\<lparr>ready_list := ready_list s @ [t]\<rparr>;
     let s = set_status t THREAD_READY s;
     (_, s) \<leftarrow> intr_set_level old_level s;
     Some s
   }"

text \<open>\<open>page\<close> is the result of \<^verbatim>\<open>palloc_get_page (PAL_ZERO)\<close>.  A new thread starts with interrupts on.\<close>

definition thread_create :: "addr \<Rightarrow> string \<Rightarrow> int \<Rightarrow> nat \<Rightarrow> nat \<Rightarrow> 'a sched_scheme \<Rightarrow> (int \<times> 'a sched_scheme) option" where
  "thread_create page nm prio fn aux s = do {
     ASSERT (fn \<noteq> 0);
     let t = page;
     if t = NULL then Some (TID_ERROR, s)
     else do {
       s \<leftarrow> init_thread t nm prio s;
       let (new_tid, s) = allocate_tid s;
       let s = upd_thread t (\<lambda>th. th\<lparr>tid := new_tid\<rparr>) s;
       s \<leftarrow> alloc_frame t 12 (Kernel_Thread_Frame fn aux) s;
       s \<leftarrow> alloc_frame t 4 Switch_Entry_Frame s;
       s \<leftarrow> alloc_frame t 28 Switch_Threads_Frame s;
       let s = s\<lparr>resume_level := (resume_level s)(t := INTR_ON)\<rparr>;
       s \<leftarrow> thread_unblock t s;
       Some (new_tid, s)
     }
   }"

definition thread_init :: "'a sched_scheme \<Rightarrow> 'a sched_scheme option" where
  "thread_init s = do {
     ASSERT (intr_get_level s = INTR_OFF);
     let s = s\<lparr>ready_list := [], all_list := [], already_slept := []\<rparr>;
     let s = s\<lparr>initial_thread := running_thread s\<rparr>;
     s \<leftarrow> init_thread (initial_thread s) ''main'' PRI_DEFAULT s;
     let s = set_status (initial_thread s) THREAD_RUNNING s;
     let (new_tid, s) = allocate_tid s;
     Some (upd_thread (initial_thread s) (\<lambda>th. th\<lparr>tid := new_tid\<rparr>) s)
   }"

section \<open>Scheduling\<close>

definition next_thread_to_run :: "'a sched_scheme \<Rightarrow> addr \<times> 'a sched_scheme" where
  "next_thread_to_run s =
     (case ready_list s of [] \<Rightarrow> (idle_thread s, s) | t # ts \<Rightarrow> (t, s\<lparr>ready_list := ts\<rparr>))"

text \<open>\<^verbatim>\<open>process_activate\<close>: \<^verbatim>\<open>CR3\<close> is recorded as the kernel virtual address of the page directory.\<close>

definition process_activate :: "'a sched_scheme \<Rightarrow> 'a sched_scheme option" where
  "process_activate s = do {
     t \<leftarrow> thread_current s;
     let s = s\<lparr>cr3 := (if pagedir (thr s t) = NULL then init_page_dir s else pagedir (thr s t))\<rparr>;
     Some (s\<lparr>tss_esp0 := t + word_of_nat PGSIZE\<rparr>)
   }"

text \<open>\<^verbatim>\<open>palloc_free_page\<close> overwrites the page, and with it the magic number of the thread, with 0xcc.\<close>

definition free_thread_page :: "addr \<Rightarrow> 'a sched_scheme \<Rightarrow> 'a sched_scheme" where
  "free_thread_page t s =
     (upd_thread t (\<lambda>th. th\<lparr>magic := 0xcccccccc\<rparr>) s)\<lparr>freed_pages := t # freed_pages s\<rparr>"

definition thread_schedule_tail :: "addr \<Rightarrow> 'a sched_scheme \<Rightarrow> 'a sched_scheme option" where
  "thread_schedule_tail prev s = do {
     let cur = running_thread s;
     ASSERT (intr_get_level s = INTR_OFF);
     let s = set_status cur THREAD_RUNNING s;
     let s = s\<lparr>thread_ticks := 0\<rparr>;
     s \<leftarrow> process_activate s;
     if prev \<noteq> NULL \<and> status (thr s prev) = THREAD_DYING \<and> prev \<noteq> initial_thread s then do {
       ASSERT (prev \<noteq> cur);
       Some (free_thread_page prev s)
     }
     else Some s
   }"

definition schedule :: "'a sched_scheme \<Rightarrow> 'a sched_scheme option" where
  "schedule s = do {
     let cur = running_thread s;
     let (nxt, s) = next_thread_to_run s;
     ASSERT (intr_get_level s = INTR_OFF);
     ASSERT (status (thr s cur) \<noteq> THREAD_RUNNING);
     ASSERT (is_thread s nxt);
     let (prev, s) = (if cur \<noteq> nxt then (cur, s\<lparr>running := nxt\<rparr>) else (NULL, s));
     thread_schedule_tail prev s
   }"

text \<open>
  The switch as seen by the CPU: the current thread gives it up and will set the interrupt level to \<open>l\<close> when it
  continues; the thread switched to sets its own level.
\<close>

definition switch_away :: "intr_level \<Rightarrow> 'a sched_scheme \<Rightarrow> 'a sched_scheme option" where
  "switch_away l s = do {
     let s = s\<lparr>resume_level := (resume_level s)(running s := l)\<rparr>;
     s \<leftarrow> schedule s;
     (_, s) \<leftarrow> intr_set_level (resume_level s (running s)) s;
     Some s
   }"

text \<open>\<^verbatim>\<open>thread_block\<close>; \<open>l\<close> is the level its caller sets next: off where the caller goes on with interrupts off.\<close>

definition thread_block :: "intr_level \<Rightarrow> 'a sched_scheme \<Rightarrow> 'a sched_scheme option" where
  "thread_block l s = do {
     ASSERT (\<not> intr_context s);
     ASSERT (intr_get_level s = INTR_OFF);
     cur \<leftarrow> thread_current s;
     switch_away l (set_status cur THREAD_BLOCKED s)
   }"

definition thread_yield :: "'a sched_scheme \<Rightarrow> 'a sched_scheme option" where
  "thread_yield s = do {
     cur \<leftarrow> thread_current s;
     ASSERT (\<not> intr_context s);
     (old_level, s) \<leftarrow> intr_disable s;
     let s = (if cur \<noteq> idle_thread s then s\<lparr>ready_list := ready_list s @ [cur]\<rparr> else s);
     switch_away old_level (set_status cur THREAD_READY s)
   }"

text \<open>\<^verbatim>\<open>thread_exit\<close>; the argument is \<^verbatim>\<open>process_exit\<close>.\<close>

definition thread_exit :: "('a sched_scheme \<Rightarrow> 'a sched_scheme option) \<Rightarrow> 'a sched_scheme \<Rightarrow> 'a sched_scheme option" where
  "thread_exit proc_exit s = do {
     ASSERT (\<not> intr_context s);
     s \<leftarrow> proc_exit s;
     (_, s) \<leftarrow> intr_disable s;
     cur \<leftarrow> thread_current s;
     let s = s\<lparr>all_list := remove1 cur (all_list s)\<rparr>;
     switch_away INTR_OFF (set_status cur THREAD_DYING s)
   }"

definition thread_foreach :: "(thread \<Rightarrow> 'b \<Rightarrow> 'b) \<Rightarrow> 'b \<Rightarrow> 'a sched_scheme \<Rightarrow> 'b option" where
  "thread_foreach func aux s = do {
     ASSERT (intr_get_level s = INTR_OFF);
     Some (foldl (\<lambda>aux t. func (thr s t) aux) aux (all_list s))
   }"

definition thread_set_priority :: "int \<Rightarrow> 'a sched_scheme \<Rightarrow> 'a sched_scheme option" where
  "thread_set_priority prio s = do {
     cur \<leftarrow> thread_current s;
     Some (upd_thread cur (\<lambda>th. th\<lparr>priority := prio\<rparr>) s)
   }"

definition thread_get_priority :: "'a sched_scheme \<Rightarrow> int option" where
  "thread_get_priority s = do { cur \<leftarrow> thread_current s; Some (priority (thr s cur)) }"

section \<open>Sleeping threads and the timer\<close>

definition thread_comparable_time_ticks :: "(addr \<Rightarrow> thread) \<Rightarrow> addr \<Rightarrow> addr \<Rightarrow> bool" where
  "thread_comparable_time_ticks th t1 t2 \<longleftrightarrow> time_ticks (th t1) < time_ticks (th t2)"

definition thread_sleep :: "int \<Rightarrow> 'a sched_scheme \<Rightarrow> 'a sched_scheme option" where
  "thread_sleep n s = do {
     cur \<leftarrow> thread_current s;
     (old_level, s) \<leftarrow> intr_disable s;
     (now, s) \<leftarrow> timer_ticks s;
     let s = upd_thread cur (\<lambda>th. th\<lparr>time_ticks := int64 (n + now)\<rparr>) s;
     let s = s\<lparr>already_slept := insert_ord (thread_comparable_time_ticks (thr s)) cur (already_slept s)\<rparr>;
     thread_block old_level s
   }"

text \<open>The loop of \<^verbatim>\<open>update_slept_threads\<close>: \<open>sleepers\<close> are the elements from \<^verbatim>\<open>curr_elem\<close> on.\<close>

fun wake_loop :: "addr list \<Rightarrow> 'a sched_scheme \<Rightarrow> 'a sched_scheme option" where
  "wake_loop [] s = Some s"
| "wake_loop (t # sleepers) s = do {
     (now, s) \<leftarrow> timer_ticks s;
     if time_ticks (thr s t) \<le> now then do {
       (old_level, s) \<leftarrow> intr_disable s;
       let s = s\<lparr>already_slept := remove1 t (already_slept s)\<rparr>;
       s \<leftarrow> thread_unblock t s;
       (_, s) \<leftarrow> intr_set_level old_level s;
       wake_loop sleepers s
     }
     else Some s
   }"

definition update_slept_threads :: "'a sched_scheme \<Rightarrow> 'a sched_scheme option" where
  "update_slept_threads s = do {
     s \<leftarrow> (if thread_ticks s + 1 \<ge> TIME_SLICE then intr_yield_on_return s else Some s);
     if already_slept s = [] then Some s else wake_loop (already_slept s) s
   }"

definition thread_tick :: "'a sched_scheme \<Rightarrow> 'a sched_scheme option" where
  "thread_tick s = do {
     t \<leftarrow> thread_current s;
     let s = (if t = idle_thread s then s\<lparr>idle_ticks := int64 (idle_ticks s + 1)\<rparr>
              else if pagedir (thr s t) \<noteq> NULL then s\<lparr>user_ticks := int64 (user_ticks s + 1)\<rparr>
              else s\<lparr>kernel_ticks := int64 (kernel_ticks s + 1)\<rparr>);
     let s = s\<lparr>thread_ticks := thread_ticks s + 1\<rparr>;
     s \<leftarrow> (if thread_ticks s \<ge> TIME_SLICE then intr_yield_on_return s else Some s);
     if already_slept s \<noteq> [] then update_slept_threads s else Some s
   }"

definition timer_interrupt :: "'a sched_scheme \<Rightarrow> 'a sched_scheme option" where
  "timer_interrupt s = thread_tick (s\<lparr>ticks := int64 (ticks s + 1)\<rparr>)"

text \<open>
  \<^verbatim>\<open>intr_handler\<close>: \<open>handler\<close> is the registered handler of vector \<open>vec_no\<close>, if any; the count of unexpected
  interrupts and the acknowledgement of the interrupt controller do not touch this state.
\<close>

definition intr_handler ::
    "('a sched_scheme \<Rightarrow> 'a sched_scheme option) option \<Rightarrow> nat \<Rightarrow> 'a sched_scheme \<Rightarrow> 'a sched_scheme option" where
  "intr_handler handler vec_no s = do {
     let external = (vec_no \<ge> 0x20 \<and> vec_no < 0x30);
     s \<leftarrow> (if external then do {
              ASSERT (intr_get_level s = INTR_OFF);
              ASSERT (\<not> intr_context s);
              Some (s\<lparr>in_external_intr := True, yield_on_return := False\<rparr>)
            }
            else Some s);
     s \<leftarrow> (case handler of Some h \<Rightarrow> h s | None \<Rightarrow> Some s);
     if external then do {
       ASSERT (intr_get_level s = INTR_OFF);
       ASSERT (intr_context s);
       let s = s\<lparr>in_external_intr := False\<rparr>;
       if yield_on_return s then thread_yield s else Some s
     }
     else Some s
   }"

text \<open>
  A timer interrupt as the CPU delivers it: with interrupts on, through an interrupt gate that turns them
  off; the return from the interrupt turns them on again for the interrupted thread.
\<close>

definition timer_irq :: "'a sched_scheme \<Rightarrow> 'a sched_scheme option" where
  "timer_irq s = do {
     ASSERT (intr_get_level s = INTR_ON);
     let t = running s;
     s \<leftarrow> intr_handler (Some timer_interrupt) 0x20 (s\<lparr>level := INTR_OFF\<rparr>);
     Some (if running s = t then s\<lparr>level := INTR_ON\<rparr>
           else s\<lparr>resume_level := (resume_level s)(t := INTR_ON)\<rparr>)
   }"

section \<open>The scheduler invariant\<close>

abbreviation st :: "'a sched_scheme \<Rightarrow> addr \<Rightarrow> thread_status" where
  "st s t \<equiv> status (thr s t)"

abbreviation sleep_lt :: "'a sched_scheme \<Rightarrow> addr \<Rightarrow> addr \<Rightarrow> bool" where
  "sleep_lt s \<equiv> thread_comparable_time_ticks (thr s)"

definition queues_ok :: "'a sched_scheme \<Rightarrow> bool" where
  "queues_ok s \<longleftrightarrow>
     distinct (all_list s) \<and> distinct (ready_list s) \<and> distinct (already_slept s) \<and>
     set (ready_list s) \<subseteq> set (all_list s) \<and> set (already_slept s) \<subseteq> set (all_list s) \<and>
     idle_thread s \<in> set (all_list s) \<and> idle_thread s \<notin> set (ready_list s) \<and> idle_thread s \<notin> set (already_slept s) \<and>
     (\<forall>t \<in> set (all_list s). is_thread s t \<and> st s t \<noteq> THREAD_DYING) \<and>
     (\<forall>t \<in> set (ready_list s). st s t = THREAD_READY) \<and>
     (\<forall>t \<in> set (already_slept s). st s t = THREAD_BLOCKED) \<and>
     (\<forall>t \<in> set (all_list s). st s t = THREAD_READY \<longrightarrow> t \<in> set (ready_list s) \<or> t = idle_thread s) \<and>
     sorted_wrt (\<lambda>a b. \<not> sleep_lt s b a) (already_slept s)"

definition sched_inv :: "'a sched_scheme \<Rightarrow> bool" where
  "sched_inv s \<longleftrightarrow> queues_ok s \<and> running s \<in> set (all_list s) \<and>
     (\<forall>t \<in> set (all_list s). st s t = THREAD_RUNNING \<longleftrightarrow> t = running s)"

text \<open>The states in which \<^verbatim>\<open>schedule\<close> may be called.\<close>

definition pre_sched :: "'a sched_scheme \<Rightarrow> bool" where
  "pre_sched s \<longleftrightarrow> queues_ok s \<and> level s = INTR_OFF \<and> \<not> in_external_intr s \<and>
     st s (running s) \<noteq> THREAD_RUNNING \<and> (\<forall>t \<in> set (all_list s). st s t \<noteq> THREAD_RUNNING)"

lemmas intr_simps = intr_get_level_def intr_context_def intr_enable_def intr_disable_def intr_set_level_def
  intr_yield_on_return_def

lemmas thread_simps = upd_thread_def set_status_def running_thread_def is_thread_def

lemma timer_ticks_eq: "\<not> in_external_intr s \<or> level s = INTR_OFF \<Longrightarrow> timer_ticks s = Some (ticks s, s)"
  by (cases "level s") (auto simp: timer_ticks_def intr_simps)

lemma thread_current_eq: "sched_inv s \<Longrightarrow> thread_current s = Some (running s)"
  by (auto simp: thread_current_def running_thread_def sched_inv_def queues_ok_def)

definition next_thread :: "'a sched_scheme \<Rightarrow> addr" where
  "next_thread s = (case ready_list s of [] \<Rightarrow> idle_thread s | t # ts \<Rightarrow> t)"

lemma next_thread_in: "queues_ok s \<Longrightarrow> next_thread s \<in> set (all_list s)"
  by (auto simp: queues_ok_def next_thread_def split: list.split)

lemma next_thread_resume [simp]: "next_thread (s\<lparr>resume_level := r\<rparr>) = next_thread s"
  by (simp add: next_thread_def split: list.split)

text \<open>What a call of \<^verbatim>\<open>schedule\<close> does to the state.\<close>

definition switched :: "'a sched_scheme \<Rightarrow> 'a sched_scheme \<Rightarrow> bool" where
  "switched s s' \<longleftrightarrow> running s' = next_thread s \<and> ready_list s' = tl (ready_list s) \<and>
     all_list s' = all_list s \<and> already_slept s' = already_slept s \<and> idle_thread s' = idle_thread s \<and>
     ticks s' = ticks s \<and> thread_ticks s' = 0 \<and> level s' = level s \<and> in_external_intr s' = in_external_intr s \<and>
     next_tid s' = next_tid s \<and> resume_level s' = resume_level s \<and>
     (\<forall>t \<in> set (all_list s). thr s' t = (if t = next_thread s then (thr s t)\<lparr>status := THREAD_RUNNING\<rparr> else thr s t))"

lemma schedule_switched:
  assumes "pre_sched s"
  shows "\<exists>s'. schedule s = Some s' \<and> switched s s'"
proof -
  have "next_thread s \<in> set (all_list s)" by (rule next_thread_in) (use assms in \<open>simp add: pre_sched_def\<close>)
  then have nxt: "is_thread s (next_thread s)" "st s (next_thread s) \<noteq> THREAD_DYING"
    and pre: "level s = INTR_OFF" "st s (running s) \<noteq> THREAD_RUNNING"
    and alive: "\<And>t. t \<in> set (all_list s) \<Longrightarrow> st s t \<noteq> THREAD_DYING"
    using assms by (auto simp: pre_sched_def queues_ok_def)
  show ?thesis
    using nxt pre alive
    by (cases "ready_list s")
      (auto simp: schedule_def next_thread_def next_thread_to_run_def switched_def thread_schedule_tail_def
        process_activate_def thread_current_def free_thread_page_def thread_simps intr_simps Let_def)
qed

lemma switched_inv:
  assumes "pre_sched s" and "switched s s'"
  shows "sched_inv s'"
proof -
  have q: "queues_ok s" and norun: "\<And>t. t \<in> set (all_list s) \<Longrightarrow> st s t \<noteq> THREAD_RUNNING"
    using assms(1) by (auto simp: pre_sched_def)
  have nin: "next_thread s \<in> set (all_list s)" by (rule next_thread_in [OF q])
  have thr: "thr s' t = (if t = next_thread s then (thr s t)\<lparr>status := THREAD_RUNNING\<rparr> else thr s t)"
    if "t \<in> set (all_list s)" for t using assms(2) that by (simp add: switched_def)
  have eqs: "running s' = next_thread s" "ready_list s' = tl (ready_list s)" "all_list s' = all_list s"
    "already_slept s' = already_slept s" "idle_thread s' = idle_thread s"
    using assms(2) by (simp_all add: switched_def)
  have tl: "set (tl (ready_list s)) \<subseteq> set (ready_list s)" "distinct (tl (ready_list s))"
    "next_thread s \<notin> set (tl (ready_list s))" "\<And>t. t \<in> set (ready_list s) \<Longrightarrow> t = next_thread s \<or> t \<in> set (tl (ready_list s))"
    using q by (cases "ready_list s"; auto simp: queues_ok_def next_thread_def)+
  have nslept: "next_thread s \<notin> set (already_slept s)"
    using q by (cases "ready_list s") (auto simp: queues_ok_def next_thread_def)
  have "sorted_wrt (\<lambda>a b. \<not> sleep_lt s' b a) (already_slept s)"
  proof (rule sorted_wrt_mono_rel)
    show "sorted_wrt (\<lambda>a b. \<not> sleep_lt s b a) (already_slept s)" using q by (simp add: queues_ok_def)
  next
    fix a b assume "a \<in> set (already_slept s)" "b \<in> set (already_slept s)" "\<not> sleep_lt s b a"
    moreover from this q have "a \<in> set (all_list s)" "b \<in> set (all_list s)" by (auto simp: queues_ok_def)
    ultimately show "\<not> sleep_lt s' b a" by (auto simp: thread_comparable_time_ticks_def thr)
  qed
  moreover have "is_thread s' t \<and> st s' t \<noteq> THREAD_DYING" if "t \<in> set (all_list s)" for t
    using q that by (auto simp: queues_ok_def is_thread_def thr)
  moreover have "\<forall>t \<in> set (tl (ready_list s)). st s' t = THREAD_READY"
    using q tl by (fastforce simp: queues_ok_def thr)
  moreover have "\<forall>t \<in> set (already_slept s). st s' t = THREAD_BLOCKED"
    using q nslept by (fastforce simp: queues_ok_def thr)
  moreover have "t \<in> set (tl (ready_list s)) \<or> t = idle_thread s" if "t \<in> set (all_list s)" "st s' t = THREAD_READY" for t
    using q that tl(4) [of t] by (auto simp: queues_ok_def thr split: if_splits)
  ultimately have "queues_ok s'"
    using q tl nslept by (auto simp: queues_ok_def eqs)
  moreover have "\<forall>t \<in> set (all_list s). st s' t = THREAD_RUNNING \<longleftrightarrow> t = next_thread s"
    using norun by (auto simp: thr)
  ultimately show ?thesis using nin by (simp add: sched_inv_def eqs)
qed

text \<open>Giving up the CPU: the state before the switch with the resume level of the current thread.\<close>

lemma pre_sched_resume: "pre_sched (s\<lparr>resume_level := r\<rparr>) = pre_sched s"
  by (simp add: pre_sched_def queues_ok_def is_thread_def)

lemma switch_away_ok:
  assumes "pre_sched s"
  shows "\<exists>s'. switch_away l s = Some s' \<and> sched_inv s' \<and> \<not> in_external_intr s' \<and>
    (\<exists>s1. switched (s\<lparr>resume_level := (resume_level s)(running s := l)\<rparr>) s1 \<and>
      s' = s1\<lparr>level := ((resume_level s)(running s := l)) (next_thread s)\<rparr>)"
proof -
  let ?s = "s\<lparr>resume_level := (resume_level s)(running s := l)\<rparr>"
  have pre: "pre_sched ?s" using assms by (simp add: pre_sched_resume)
  then obtain s1 where s1: "schedule ?s = Some s1" "switched ?s s1" using schedule_switched by blast
  have inv: "sched_inv s1" by (rule switched_inv [OF pre s1(2)])
  have f: "running s1 = next_thread s" "resume_level s1 = (resume_level s)(running s := l)" "\<not> in_external_intr s1"
    using s1(2) pre by (auto simp: switched_def pre_sched_def)
  let ?s' = "s1\<lparr>level := ((resume_level s)(running s := l)) (next_thread s)\<rparr>"
  have "intr_set_level (resume_level s1 (running s1)) s1 =
      Some (level s1, s1\<lparr>level := resume_level s1 (running s1)\<rparr>)"
    using f(3) by (cases "resume_level s1 (running s1)") (simp_all add: intr_simps)
  then have "switch_away l s = Some ?s'"
    using s1(1) f(1,2) by (simp add: switch_away_def)
  moreover have "sched_inv ?s'" using inv by (simp add: sched_inv_def queues_ok_def is_thread_def)
  ultimately show ?thesis using s1(2) f(3) by auto
qed

lemma sleep_lt_set_status [simp]:
  "thread_comparable_time_ticks ((thr s)(t := (thr s t)\<lparr>status := x\<rparr>)) = sleep_lt s"
  by (intro ext) (simp add: thread_comparable_time_ticks_def)

lemma sched_invD:
  assumes "sched_inv s"
  shows "queues_ok s" "running s \<in> set (all_list s)" "running s \<notin> set (ready_list s)"
    "running s \<notin> set (already_slept s)" "is_thread s (running s)" "st s (running s) = THREAD_RUNNING"
    "\<And>t. t \<in> set (all_list s) \<Longrightarrow> st s t = THREAD_RUNNING \<longleftrightarrow> t = running s"
proof -
  show q: "queues_ok s" and r: "running s \<in> set (all_list s)"
    and u: "\<And>t. t \<in> set (all_list s) \<Longrightarrow> st s t = THREAD_RUNNING \<longleftrightarrow> t = running s"
    using assms by (auto simp: sched_inv_def)
  have run: "st s (running s) = THREAD_RUNNING" using r u by blast
  then show "st s (running s) = THREAD_RUNNING" .
  show "is_thread s (running s)" "running s \<notin> set (ready_list s)" "running s \<notin> set (already_slept s)"
    using q r run by (auto simp: queues_ok_def)
qed

lemma pre_sched_yield:
  assumes "sched_inv s" and "\<not> in_external_intr s"
  shows "pre_sched (set_status (running s) THREAD_READY
    (s\<lparr>level := INTR_OFF, ready_list := (if running s \<noteq> idle_thread s then ready_list s @ [running s] else ready_list s)\<rparr>))"
  using sched_invD [OF assms(1)] assms(2)
  by (auto simp: pre_sched_def queues_ok_def set_status_def upd_thread_def is_thread_def)

lemma pre_sched_block:
  assumes "sched_inv s" and "\<not> in_external_intr s" and "level s = INTR_OFF"
  shows "pre_sched (set_status (running s) THREAD_BLOCKED s)"
  using sched_invD [OF assms(1)] assms(2,3)
  by (auto simp: pre_sched_def queues_ok_def set_status_def upd_thread_def is_thread_def)

lemma pre_sched_exit:
  assumes "sched_inv s" and "\<not> in_external_intr s" and "running s \<noteq> idle_thread s"
  shows "pre_sched (set_status (running s) THREAD_DYING
    (s\<lparr>level := INTR_OFF, all_list := remove1 (running s) (all_list s)\<rparr>))"
  using sched_invD [OF assms(1)] assms(2,3)
  by (auto simp: pre_sched_def queues_ok_def set_status_def upd_thread_def is_thread_def)

text \<open>The run queue as a yielding thread leaves it, and the thread it hands the CPU to.\<close>

definition yield_queue :: "'a sched_scheme \<Rightarrow> addr list" where
  "yield_queue s = (if running s \<noteq> idle_thread s then ready_list s @ [running s] else ready_list s)"

text \<open>The interrupt level of a thread: that of the CPU while it runs, and what it resumes with otherwise.\<close>

definition lvl :: "'a sched_scheme \<Rightarrow> addr \<Rightarrow> intr_level" where
  "lvl s t = (if t = running s then level s else resume_level s t)"

definition hd_or :: "addr list \<Rightarrow> addr \<Rightarrow> addr" where
  "hd_or q d = (if q = [] then d else hd q)"

lemma yield_queue_ext [simp]: "yield_queue (s\<lparr>in_external_intr := x\<rparr>) = yield_queue s"
  by (simp add: yield_queue_def)

lemma thread_yield_ok:
  assumes "sched_inv s" and "\<not> in_external_intr s"
  shows "\<exists>s'. thread_yield s = Some s' \<and> sched_inv s' \<and> \<not> in_external_intr s' \<and>
    running s' = hd_or (yield_queue s) (idle_thread s) \<and> ready_list s' = tl (yield_queue s) \<and> all_list s' = all_list s \<and>
    already_slept s' = already_slept s \<and> idle_thread s' = idle_thread s \<and> ticks s' = ticks s \<and>
    lvl s' = lvl s \<and> (\<forall>t \<in> set (all_list s). time_ticks (thr s' t) = time_ticks (thr s t))"
proof -
  let ?s = "set_status (running s) THREAD_READY (s\<lparr>level := INTR_OFF, ready_list := yield_queue s\<rparr>)"
  have pre: "pre_sched ?s" using pre_sched_yield [OF assms(1,2)] by (simp add: yield_queue_def)
  have "thread_yield s = switch_away (level s) ?s"
    using thread_current_eq [OF assms(1)] assms(2)
    by (auto simp: thread_yield_def intr_simps yield_queue_def intro!: arg_cong [of _ _ "switch_away _"] arg_cong [of _ _ "set_status _ _"])
  moreover obtain s' s1 where s': "switch_away (level s) ?s = Some s'" "sched_inv s'" "\<not> in_external_intr s'"
    "switched (?s\<lparr>resume_level := (resume_level ?s)(running ?s := level s)\<rparr>) s1"
    "s' = s1\<lparr>level := ((resume_level ?s)(running ?s := level s)) (next_thread ?s)\<rparr>"
    using switch_away_ok [OF pre, of "level s"] by blast
  moreover have "next_thread ?s = hd_or (yield_queue s) (idle_thread s)"
    by (simp add: next_thread_def hd_or_def set_status_def upd_thread_def split: list.split)
  moreover from s' have "lvl s' = lvl s"
    by (intro ext) (simp add: lvl_def switched_def set_status_def upd_thread_def)
  ultimately show ?thesis
    by (auto simp: switched_def set_status_def upd_thread_def)
qed

lemma thread_block_ok:
  assumes "sched_inv s" and "\<not> in_external_intr s" and "level s = INTR_OFF"
  shows "\<exists>s'. thread_block l s = Some s' \<and> sched_inv s' \<and> \<not> in_external_intr s' \<and>
    running s' = next_thread s \<and> ready_list s' = tl (ready_list s) \<and> all_list s' = all_list s \<and>
    already_slept s' = already_slept s \<and> idle_thread s' = idle_thread s \<and> ticks s' = ticks s \<and>
    lvl s' = (lvl s)(running s := l) \<and>
    (\<forall>t \<in> set (all_list s). thr s' t =
       (if t = next_thread s then (thr s t)\<lparr>status := THREAD_RUNNING\<rparr>
        else if t = running s then (thr s t)\<lparr>status := THREAD_BLOCKED\<rparr> else thr s t))"
proof -
  let ?s = "set_status (running s) THREAD_BLOCKED s"
  have pre: "pre_sched ?s" by (rule pre_sched_block [OF assms])
  have "thread_block l s = switch_away l ?s"
    using thread_current_eq [OF assms(1)] assms(2,3) by (simp add: thread_block_def intr_simps)
  moreover obtain s' s1 where s': "switch_away l ?s = Some s'" "sched_inv s'" "\<not> in_external_intr s'"
    "switched (?s\<lparr>resume_level := (resume_level ?s)(running ?s := l)\<rparr>) s1"
    "s' = s1\<lparr>level := ((resume_level ?s)(running ?s := l)) (next_thread ?s)\<rparr>"
    using switch_away_ok [OF pre, of l] by blast
  moreover have "next_thread ?s = next_thread s"
    by (simp add: next_thread_def set_status_def upd_thread_def split: list.split)
  moreover from s' have "lvl s' = (lvl s)(running s := l)"
    by (intro ext) (simp add: lvl_def switched_def set_status_def upd_thread_def)
  ultimately show ?thesis
    by (auto simp: switched_def set_status_def upd_thread_def)
qed

lemma thread_exit_ok:
  assumes "sched_inv s" and "\<not> in_external_intr s" and "running s \<noteq> idle_thread s"
  shows "\<exists>s'. thread_exit Some s = Some s' \<and> sched_inv s' \<and> \<not> in_external_intr s' \<and>
    running s' = next_thread s \<and> ready_list s' = tl (ready_list s) \<and>
    all_list s' = remove1 (running s) (all_list s) \<and> already_slept s' = already_slept s \<and>
    idle_thread s' = idle_thread s \<and> lvl s' = (lvl s)(running s := INTR_OFF)"
proof -
  let ?s = "set_status (running s) THREAD_DYING (s\<lparr>level := INTR_OFF, all_list := remove1 (running s) (all_list s)\<rparr>)"
  have pre: "pre_sched ?s" by (rule pre_sched_exit [OF assms])
  have "sched_inv (s\<lparr>level := INTR_OFF\<rparr>)" using assms(1) by (simp add: sched_inv_def queues_ok_def is_thread_def)
  then have "thread_exit Some s = switch_away INTR_OFF ?s"
    using thread_current_eq assms(2) by (fastforce simp: thread_exit_def intr_simps)
  moreover obtain s' s1 where s': "switch_away INTR_OFF ?s = Some s'" "sched_inv s'" "\<not> in_external_intr s'"
    "switched (?s\<lparr>resume_level := (resume_level ?s)(running ?s := INTR_OFF)\<rparr>) s1"
    "s' = s1\<lparr>level := ((resume_level ?s)(running ?s := INTR_OFF)) (next_thread ?s)\<rparr>"
    using switch_away_ok [OF pre, of INTR_OFF] by blast
  moreover have "next_thread ?s = next_thread s"
    by (simp add: next_thread_def set_status_def upd_thread_def split: list.split)
  moreover from s' have "lvl s' = (lvl s)(running s := INTR_OFF)"
    by (intro ext) (simp add: lvl_def switched_def set_status_def upd_thread_def)
  ultimately show ?thesis
    by (auto simp: switched_def set_status_def upd_thread_def)
qed

text \<open>Saving the interrupt level, working with interrupts off and restoring it leaves the level as it was.\<close>

lemma intr_restore:
  "\<not> in_external_intr s \<or> l = INTR_OFF \<Longrightarrow> intr_set_level l s = Some (level s, s\<lparr>level := l\<rparr>)"
  by (cases l) (simp_all add: intr_simps)

lemma thread_unblock_eq:
  assumes "is_thread s t" and "st s t = THREAD_BLOCKED" and "\<not> in_external_intr s \<or> level s = INTR_OFF"
  shows "thread_unblock t s = Some (set_status t THREAD_READY (s\<lparr>ready_list := ready_list s @ [t]\<rparr>))"
  using assms
  by (simp add: thread_unblock_def intr_disable_def intr_get_level_def is_thread_def intr_restore set_status_def upd_thread_def)

lemma unblock_inv:
  assumes "sched_inv s" and "t \<in> set (all_list s)" and "st s t = THREAD_BLOCKED"
    and "t \<notin> set (already_slept s)" and "t \<noteq> idle_thread s"
  shows "sched_inv (set_status t THREAD_READY (s\<lparr>ready_list := ready_list s @ [t]\<rparr>))"
proof -
  have "t \<noteq> running s" using assms(3) sched_invD(6) [OF assms(1)] by auto
  then show ?thesis
    using assms sched_invD [OF assms(1)]
    by (auto simp: sched_inv_def queues_ok_def set_status_def upd_thread_def is_thread_def)
qed

lemma level_same: "level s = l \<Longrightarrow> s\<lparr>level := l\<rparr> = s"
  by (cases s) simp

lemma wake_loop_ok:
  assumes "sched_inv s" and "level s = INTR_OFF" and "already_slept s = ts" and "now = ticks s"
  shows "\<exists>s'. wake_loop ts s = Some s' \<and> sched_inv s' \<and>
    ready_list s' = ready_list s @ takeWhile (\<lambda>t. time_ticks (thr s t) \<le> now) ts \<and>
    already_slept s' = dropWhile (\<lambda>t. time_ticks (thr s t) \<le> now) ts \<and>
    running s' = running s \<and> all_list s' = all_list s \<and> idle_thread s' = idle_thread s \<and> level s' = INTR_OFF \<and>
    in_external_intr s' = in_external_intr s \<and> yield_on_return s' = yield_on_return s \<and> ticks s' = now \<and>
    thread_ticks s' = thread_ticks s \<and> (\<forall>t. time_ticks (thr s' t) = time_ticks (thr s t))"
  using assms
proof (induction ts arbitrary: s)
  case Nil
  then show ?case by simp
next
  case (Cons t ts)
  have q: "queues_ok s" using sched_invD [OF Cons.prems(1)] by simp
  have t: "t \<in> set (all_list s)" "st s t = THREAD_BLOCKED" "t \<noteq> idle_thread s" "t \<notin> set ts" "is_thread s t"
    using q Cons.prems(3) by (auto simp: queues_ok_def)
  show ?case
  proof (cases "time_ticks (thr s t) \<le> now")
    case True
    let ?s = "s\<lparr>already_slept := ts\<rparr>"
    let ?s1 = "set_status t THREAD_READY (?s\<lparr>ready_list := ready_list s @ [t]\<rparr>)"
    have "sched_inv ?s"
      using Cons.prems(1,3) by (auto simp: sched_inv_def queues_ok_def is_thread_def)
    then have inv: "sched_inv ?s1" using unblock_inv [of ?s t] t by simp
    have unblock: "thread_unblock t ?s = Some ?s1"
      using thread_unblock_eq [of ?s t] t Cons.prems(2) by (simp add: is_thread_def)
    have "timer_ticks s = Some (now, s)" using timer_ticks_eq Cons.prems(2,4) by blast
    then have "wake_loop (t # ts) s = wake_loop ts ?s1"
      using True Cons.prems unblock
      by (simp add: intr_disable_def intr_get_level_def intr_restore level_same set_status_def upd_thread_def)
    moreover obtain s' where "wake_loop ts ?s1 = Some s'" "sched_inv s'"
      "ready_list s' = ready_list ?s1 @ takeWhile (\<lambda>t. time_ticks (thr ?s1 t) \<le> now) ts"
      "already_slept s' = dropWhile (\<lambda>t. time_ticks (thr ?s1 t) \<le> now) ts"
      "running s' = running ?s1" "all_list s' = all_list ?s1" "idle_thread s' = idle_thread ?s1" "level s' = INTR_OFF"
      "in_external_intr s' = in_external_intr ?s1" "yield_on_return s' = yield_on_return ?s1" "ticks s' = now"
      "thread_ticks s' = thread_ticks ?s1" "\<forall>t. time_ticks (thr s' t) = time_ticks (thr ?s1 t)"
      using Cons.IH [OF inv] Cons.prems(2,4) by (auto simp: set_status_def upd_thread_def)
    moreover have "time_ticks (thr ?s1 x) = time_ticks (thr s x)" for x
      by (simp add: set_status_def upd_thread_def)
    ultimately show ?thesis using True by (simp add: set_status_def upd_thread_def)
  next
    case False
    have "timer_ticks s = Some (now, s)" using timer_ticks_eq Cons.prems(2,4) by blast
    with False Cons.prems show ?thesis by simp
  qed
qed

interpretation sleep_order: list_order "thread_comparable_time_ticks th" for th
  by unfold_locales (auto simp: thread_comparable_time_ticks_def)

lemma set_insert_ord: "set (insert_ord lt e xs) = insert e (set xs)"
  using set_append [of "takeWhile (\<lambda>x. \<not> lt e x) xs" "dropWhile (\<lambda>x. \<not> lt e x) xs"]
  by (auto simp: insert_ord_def)

lemma distinct_insert_ord: "distinct xs \<Longrightarrow> e \<notin> set xs \<Longrightarrow> distinct (insert_ord lt e xs)"
proof -
  assume d: "distinct xs" and e: "e \<notin> set xs"
  have "distinct (takeWhile (\<lambda>x. \<not> lt e x) xs @ dropWhile (\<lambda>x. \<not> lt e x) xs)"
    "set (takeWhile (\<lambda>x. \<not> lt e x) xs @ dropWhile (\<lambda>x. \<not> lt e x) xs) = set xs"
    using d by simp_all
  with e show ?thesis unfolding insert_ord_def distinct_append set_append by auto
qed

definition sleeping :: "int \<Rightarrow> 'a sched_scheme \<Rightarrow> 'a sched_scheme" where
  "sleeping w s =
     (let s = upd_thread (running s) (\<lambda>th. th\<lparr>time_ticks := w\<rparr>) (s\<lparr>level := INTR_OFF\<rparr>)
      in s\<lparr>already_slept := insert_ord (sleep_lt s) (running s) (already_slept s)\<rparr>)"

lemma pre_sched_sleep:
  assumes "sched_inv s" and "\<not> in_external_intr s" and "running s \<noteq> idle_thread s"
  shows "pre_sched (set_status (running s) THREAD_BLOCKED (sleeping w s))"
proof -
  define th where "th = (thr s)(running s := (thr s (running s))\<lparr>time_ticks := w\<rparr>)"
  let ?lt = "thread_comparable_time_ticks th"
  note d = sched_invD [OF assms(1)]
  have old: "sorted_wrt (\<lambda>a b. \<not> ?lt b a) (already_slept s)"
  proof (rule sorted_wrt_mono_rel)
    show "sorted_wrt (\<lambda>a b. \<not> sleep_lt s b a) (already_slept s)" using d(1) by (simp add: queues_ok_def)
  next
    fix a b assume "a \<in> set (already_slept s)" "b \<in> set (already_slept s)" "\<not> sleep_lt s b a"
    then show "\<not> ?lt b a" using d(4) by (auto simp: thread_comparable_time_ticks_def th_def)
  qed
  have new: "sorted_wrt (\<lambda>a b. \<not> ?lt b a) (insert_ord ?lt (running s) (already_slept s))"
    by (rule sleep_order.insert_ord_sorted [OF old])
  have "?lt = thread_comparable_time_ticks (th(running s := th (running s)\<lparr>status := THREAD_BLOCKED\<rparr>))"
    by (intro ext) (simp add: thread_comparable_time_ticks_def)
  with new have "sorted_wrt (\<lambda>a b. \<not> thread_comparable_time_ticks (th(running s := th (running s)\<lparr>status := THREAD_BLOCKED\<rparr>)) b a)
      (insert_ord ?lt (running s) (already_slept s))" by simp
  moreover define q where "q = insert_ord ?lt (running s) (already_slept s)"
  moreover define th' where "th' = th(running s := th (running s)\<lparr>status := THREAD_BLOCKED\<rparr>)"
  moreover have "distinct q" "set q = insert (running s) (set (already_slept s))"
    using d(1,4) distinct_insert_ord [of "already_slept s" "running s" ?lt] unfolding q_def queues_ok_def
    by (simp_all add: set_insert_ord)
  moreover have "set_status (running s) THREAD_BLOCKED (sleeping w s) = s\<lparr>level := INTR_OFF, thr := th', already_slept := q\<rparr>"
    by (simp add: sleeping_def set_status_def upd_thread_def Let_def th_def th'_def q_def)
  moreover have "magic (th' t) = magic (thr s t)" "status (th' t) = (if t = running s then THREAD_BLOCKED else st s t)" for t
    by (simp_all add: th'_def th_def)
  ultimately show ?thesis
    using d assms(2,3) by (auto simp: pre_sched_def queues_ok_def is_thread_def)
qed

lemma thread_sleep_ok:
  assumes "sched_inv s" and "\<not> in_external_intr s" and "running s \<noteq> idle_thread s"
  shows "\<exists>s'. thread_sleep n s = Some s' \<and> sched_inv s' \<and> \<not> in_external_intr s' \<and>
    running s' = next_thread s \<and> set (already_slept s') = insert (running s) (set (already_slept s)) \<and>
    time_ticks (thr s' (running s)) = int64 (n + ticks s) \<and> st s' (running s) = THREAD_BLOCKED"
proof -
  let ?w = "int64 (n + ticks s)" and ?t = "running s"
  let ?s = "set_status ?t THREAD_BLOCKED (sleeping ?w s)"
  note d = sched_invD [OF assms(1)]
  have pre: "pre_sched ?s" by (rule pre_sched_sleep [OF assms])
  have "thread_current (sleeping ?w s) = Some ?t"
    using d by (simp add: thread_current_def sleeping_def running_thread_def is_thread_def upd_thread_def Let_def)
  then have "thread_sleep n s = switch_away (level s) ?s"
    using thread_current_eq [OF assms(1)] assms(2)
    by (simp add: thread_sleep_def thread_block_def timer_ticks_eq intr_simps)
      (simp add: sleeping_def upd_thread_def Let_def)
  moreover obtain s' s1 where s': "switch_away (level s) ?s = Some s'" "sched_inv s'" "\<not> in_external_intr s'"
    "switched (?s\<lparr>resume_level := (resume_level ?s)(running ?s := level s)\<rparr>) s1"
    "s' = s1\<lparr>level := ((resume_level ?s)(running ?s := level s)) (next_thread ?s)\<rparr>"
    using switch_away_ok [OF pre, of "level s"] by blast
  moreover have "next_thread ?s = next_thread s"
    by (simp add: next_thread_def set_status_def upd_thread_def sleeping_def Let_def split: list.split)
  moreover have "next_thread s \<noteq> ?t"
    using d assms(3) by (auto simp: next_thread_def split: list.split)
  ultimately show ?thesis
    using d(2) by (auto simp: switched_def set_status_def upd_thread_def sleeping_def set_insert_ord Let_def)
qed

lemma thread_create_ok:
  assumes "sched_inv s" and "\<not> in_external_intr s" and "page \<noteq> NULL" and "page \<notin> set (all_list s)"
    and "fn \<noteq> 0" and "PRI_MIN \<le> prio" and "prio \<le> PRI_MAX"
  shows "\<exists>s'. thread_create page nm prio fn aux s = Some (next_tid s, s') \<and> sched_inv s' \<and>
    \<not> in_external_intr s' \<and> running s' = running s \<and> all_list s' = all_list s @ [page] \<and>
    ready_list s' = ready_list s @ [page] \<and> already_slept s' = already_slept s \<and>
    idle_thread s' = idle_thread s \<and> lvl s' = (lvl s)(page := INTR_ON) \<and>
    tid (thr s' page) = next_tid s \<and> next_tid s' = int32 (next_tid s + 1) \<and>
    frames (thr s' page) = [Switch_Threads_Frame, Switch_Entry_Frame, Kernel_Thread_Frame fn aux]"
proof -
  define th where "th = \<lparr>tid = next_tid s, status = THREAD_BLOCKED, name = take 15 nm,
    stack = page + word_of_nat PGSIZE - word_of_nat 12 - word_of_nat 4 - word_of_nat 28, priority = prio,
    time_ticks = 0, pagedir = NULL, magic = THREAD_MAGIC,
    frames = [Switch_Threads_Frame, Switch_Entry_Frame, Kernel_Thread_Frame fn aux]\<rparr>"
  define s1 where "s1 = s\<lparr>all_list := all_list s @ [page], next_tid := int32 (next_tid s + 1),
    thr := (thr s)(page := th), resume_level := (resume_level s)(page := INTR_ON)\<rparr>"
  note d = sched_invD [OF assms(1)]
  have sl: "sorted_wrt (\<lambda>a b. \<not> sleep_lt s1 b a) (already_slept s)"
  proof (rule sorted_wrt_mono_rel)
    show "sorted_wrt (\<lambda>a b. \<not> sleep_lt s b a) (already_slept s)" using d(1) by (simp add: queues_ok_def)
  next
    fix a b assume "a \<in> set (already_slept s)" "b \<in> set (already_slept s)" "\<not> sleep_lt s b a"
    moreover from this have "a \<noteq> page" "b \<noteq> page" using d(1) assms(4) by (auto simp: queues_ok_def)
    ultimately show "\<not> sleep_lt s1 b a" by (simp add: thread_comparable_time_ticks_def s1_def)
  qed
  have neq: "t \<noteq> page" if "t \<in> set (all_list s)" for t using that assms(4) by auto
  have s1: "is_thread s1 page" "st s1 page = THREAD_BLOCKED" "page \<noteq> running s"
    using assms(3) d(2) neq by (auto simp: s1_def th_def is_thread_def)
  have "page \<notin> set (ready_list s)" "page \<notin> set (already_slept s)" "page \<noteq> idle_thread s"
    using d(1) assms(4) by (auto simp: queues_ok_def)
  then have inv: "sched_inv s1"
    using d sl assms(3,4) neq by (auto simp: sched_inv_def queues_ok_def is_thread_def s1_def th_def)
  define n where "n = next_tid s"
  have "thread_create page nm prio fn aux s = do { s \<leftarrow> thread_unblock page s1; Some (n, s) }"
    using assms
    by (simp add: thread_create_def init_thread_def alloc_frame_def allocate_tid_def upd_thread_def is_thread_def
        intr_disable_def intr_get_level_def intr_restore s1_def th_def n_def)
  moreover have "thread_unblock page s1 = Some (set_status page THREAD_READY (s1\<lparr>ready_list := ready_list s1 @ [page]\<rparr>))"
    using s1(1,2) assms(2) by (intro thread_unblock_eq) (simp_all add: s1_def)
  moreover have "sched_inv (set_status page THREAD_READY (s1\<lparr>ready_list := ready_list s1 @ [page]\<rparr>))"
    using inv s1 \<open>page \<notin> set (already_slept s)\<close> \<open>page \<noteq> idle_thread s\<close> by (intro unblock_inv) (auto simp: s1_def)
  moreover have "lvl (set_status page THREAD_READY (s1\<lparr>ready_list := ready_list s1 @ [page]\<rparr>)) = (lvl s)(page := INTR_ON)"
    using s1(3) by (intro ext) (simp add: lvl_def s1_def set_status_def upd_thread_def)
  ultimately show ?thesis using assms(2) by (simp add: s1_def set_status_def upd_thread_def th_def n_def)
qed

lemma thread_tick_ok:
  assumes "sched_inv s" and "in_external_intr s" and "level s = INTR_OFF"
  shows "\<exists>s'. thread_tick s = Some s' \<and> sched_inv s' \<and>
    ready_list s' = ready_list s @ takeWhile (\<lambda>t. time_ticks (thr s t) \<le> ticks s) (already_slept s) \<and>
    already_slept s' = dropWhile (\<lambda>t. time_ticks (thr s t) \<le> ticks s) (already_slept s) \<and>
    running s' = running s \<and> all_list s' = all_list s \<and> idle_thread s' = idle_thread s \<and> level s' = INTR_OFF \<and>
    in_external_intr s' \<and> ticks s' = ticks s \<and> (\<forall>t. time_ticks (thr s' t) = time_ticks (thr s t))"
proof -
  let ?t = "running s"
  define s1 where "s1 = (if ?t = idle_thread s then s\<lparr>idle_ticks := int64 (idle_ticks s + 1)\<rparr>
              else if pagedir (thr s ?t) \<noteq> NULL then s\<lparr>user_ticks := int64 (user_ticks s + 1)\<rparr>
              else s\<lparr>kernel_ticks := int64 (kernel_ticks s + 1)\<rparr>)"
  define s2 where "s2 = s1\<lparr>thread_ticks := thread_ticks s1 + 1\<rparr>"
  define s3 where "s3 = (if thread_ticks s2 \<ge> TIME_SLICE then s2\<lparr>yield_on_return := True\<rparr> else s2)"
  define s4 where "s4 = (if thread_ticks s3 + 1 \<ge> TIME_SLICE then s3\<lparr>yield_on_return := True\<rparr> else s3)"
  have same: "thr s4 = thr s" "ready_list s4 = ready_list s" "already_slept s4 = already_slept s" "running s4 = running s"
    "all_list s4 = all_list s" "idle_thread s4 = idle_thread s" "level s4 = level s" "ticks s4 = ticks s"
    "in_external_intr s4 = in_external_intr s"
    and same3: "thr s3 = thr s" "ready_list s3 = ready_list s" "already_slept s3 = already_slept s" "running s3 = running s"
    "all_list s3 = all_list s" "idle_thread s3 = idle_thread s" "level s3 = level s" "ticks s3 = ticks s"
    "in_external_intr s3 = in_external_intr s" "in_external_intr s2 = in_external_intr s"
    by (simp_all add: s4_def s3_def s2_def s1_def)
  have inv: "sched_inv s4" "sched_inv s3" using assms(1) by (simp_all add: sched_inv_def queues_ok_def is_thread_def same same3)
  have e3: "(if thread_ticks s2 \<ge> TIME_SLICE then intr_yield_on_return s2 else Some s2) = Some s3"
    and e4: "(if thread_ticks s3 + 1 \<ge> TIME_SLICE then intr_yield_on_return s3 else Some s3) = Some s4"
    using assms(2) same3 by (simp_all add: intr_yield_on_return_def intr_context_def s3_def s4_def)
  have "thread_tick s = do {
      s \<leftarrow> (if thread_ticks s2 \<ge> TIME_SLICE then intr_yield_on_return s2 else Some s2);
      if already_slept s \<noteq> [] then update_slept_threads s else Some s }"
    by (simp add: thread_tick_def thread_current_eq [OF assms(1)] Let_def s2_def s1_def)
  then have tick: "thread_tick s = (if already_slept s = [] then Some s3 else wake_loop (already_slept s4) s4)"
    unfolding e3 by (simp add: update_slept_threads_def e4 same same3)
  show ?thesis
  proof (cases "already_slept s = []")
    case True
    then show ?thesis using tick inv(2) same3 assms(2,3) by simp
  next
    case False
    then show ?thesis
      using tick wake_loop_ok [OF inv(1), of "already_slept s" "ticks s"] same assms(2,3) by auto
  qed
qed

lemma sorted_dropWhile:
  assumes "sorted_wrt (\<lambda>a b. \<not> sleep_lt s b a) ts"
  shows "dropWhile (\<lambda>t. time_ticks (thr s t) \<le> now) ts = filter (\<lambda>t. \<not> time_ticks (thr s t) \<le> now) ts"
  using assms
proof (induction ts)
  case (Cons t ts)
  show ?case
  proof (cases "time_ticks (thr s t) \<le> now")
    case False
    then have "\<forall>x \<in> set ts. \<not> time_ticks (thr s x) \<le> now"
      using Cons.prems by (auto simp: thread_comparable_time_ticks_def)
    then have "filter (\<lambda>t. \<not> time_ticks (thr s t) \<le> now) ts = ts" by (simp add: filter_id_conv)
    with False show ?thesis by simp
  next
    case True
    then show ?thesis using Cons by simp
  qed
qed simp

definition runnable :: "'a sched_scheme \<Rightarrow> addr set" where
  "runnable s = insert (running s) (set (ready_list s))"

lemma runnable_yield:
  assumes "running s' = hd_or (yield_queue s) (idle_thread s)" and "ready_list s' = tl (yield_queue s)"
  shows "runnable s' \<subseteq> insert (idle_thread s) (runnable s)" and "runnable s \<subseteq> insert (idle_thread s) (runnable s')"
  using assms by (cases "ready_list s"; auto simp: runnable_def yield_queue_def hd_or_def split: if_splits)+

lemma resume_unblock: "thread_unblock t s = Some s' \<Longrightarrow> resume_level s' = resume_level s"
  by (cases "level s") (auto simp: thread_unblock_def thread_simps intr_simps bind_ASSERT Let_def split: if_splits)

lemma resume_wake_loop: "wake_loop ts s = Some s' \<Longrightarrow> resume_level s' = resume_level s"
proof (induction ts arbitrary: s)
  case (Cons t ts)
  then show ?case
    by (auto simp: timer_ticks_def intr_simps bind_ASSERT split: if_splits Option.bind_splits dest!: resume_unblock Cons.IH)
qed simp

lemma resume_tick: "thread_tick s = Some s' \<Longrightarrow> resume_level s' = resume_level s"
  by (auto simp: thread_tick_def update_slept_threads_def intr_yield_on_return_def bind_ASSERT Let_def
      split: if_splits Option.bind_splits dest!: resume_wake_loop)

lemma timer_irq_ok:
  assumes "sched_inv s" and "\<not> in_external_intr s" and "level s = INTR_ON"
  shows "\<exists>s'. timer_irq s = Some s' \<and> sched_inv s' \<and> \<not> in_external_intr s' \<and> ticks s' = int64 (ticks s + 1) \<and>
    all_list s' = all_list s \<and> idle_thread s' = idle_thread s \<and> lvl s' = lvl s \<and>
    already_slept s' = filter (\<lambda>t. \<not> time_ticks (thr s t) \<le> ticks s') (already_slept s) \<and>
    (\<forall>t \<in> set (all_list s). time_ticks (thr s' t) = time_ticks (thr s t)) \<and>
    (\<forall>t \<in> set (already_slept s). time_ticks (thr s t) \<le> ticks s' \<longrightarrow> t \<in> set (ready_list s') \<or> t = running s') \<and>
    runnable s' \<subseteq> insert (idle_thread s) (runnable s \<union> set (already_slept s)) \<and>
    runnable s \<subseteq> insert (idle_thread s) (runnable s')"
proof -
  define now where "now = int64 (ticks s + 1)"
  let ?s1 = "s\<lparr>level := INTR_OFF, in_external_intr := True, yield_on_return := False, ticks := now\<rparr>"
  have "sched_inv ?s1" using assms(1) by (simp add: sched_inv_def queues_ok_def is_thread_def)
  from thread_tick_ok [OF this] obtain s2 where s2: "thread_tick ?s1 = Some s2" "sched_inv s2"
    "ready_list s2 = ready_list s @ takeWhile (\<lambda>t. time_ticks (thr s t) \<le> now) (already_slept s)"
    "already_slept s2 = dropWhile (\<lambda>t. time_ticks (thr s t) \<le> now) (already_slept s)"
    "running s2 = running s" "all_list s2 = all_list s" "idle_thread s2 = idle_thread s" "level s2 = INTR_OFF"
    "in_external_intr s2" "ticks s2 = now" "\<forall>t. time_ticks (thr s2 t) = time_ticks (thr s t)"
    by auto
  have sorted: "sorted_wrt (\<lambda>a b. \<not> sleep_lt s b a) (already_slept s)"
    using sched_invD(1) [OF assms(1)] by (simp add: queues_ok_def)
  have slept: "already_slept s2 = filter (\<lambda>t. \<not> time_ticks (thr s t) \<le> now) (already_slept s)"
    unfolding s2(4) by (rule sorted_dropWhile [OF sorted])
  have woken: "t \<in> set (ready_list s2)" if "t \<in> set (already_slept s)" "time_ticks (thr s t) \<le> now" for t
  proof -
    have "t \<notin> set (dropWhile (\<lambda>t. time_ticks (thr s t) \<le> now) (already_slept s))"
      unfolding sorted_dropWhile [OF sorted] using that(2) by simp
    then show ?thesis
      using that(1) takeWhile_dropWhile_id [of "\<lambda>t. time_ticks (thr s t) \<le> now" "already_slept s"] s2(3)
      by (metis Un_iff set_append)
  qed
  have run2: "runnable s2 \<subseteq> runnable s \<union> set (already_slept s)" "runnable s \<subseteq> runnable s2"
    unfolding runnable_def s2(3,5) by (auto dest: set_takeWhileD)
  let ?s3 = "s2\<lparr>in_external_intr := False\<rparr>"
  have inv3: "sched_inv ?s3" using s2(2) by (simp add: sched_inv_def queues_ok_def is_thread_def)
  define fin where "fin s4 = (if running s4 = running s then s4\<lparr>level := INTR_ON\<rparr>
     else s4\<lparr>resume_level := (resume_level s4)(running s := INTR_ON)\<rparr>)" for s4 :: "'a sched_scheme"
  have fin: "sched_inv (fin s4) = sched_inv s4" "in_external_intr (fin s4) = in_external_intr s4" "ticks (fin s4) = ticks s4"
    "all_list (fin s4) = all_list s4" "idle_thread (fin s4) = idle_thread s4" "already_slept (fin s4) = already_slept s4"
    "thr (fin s4) = thr s4" "ready_list (fin s4) = ready_list s4" "running (fin s4) = running s4"
    "runnable (fin s4) = runnable s4" for s4
    by (simp_all add: fin_def sched_inv_def queues_ok_def is_thread_def runnable_def)
  have lvl_fin: "lvl (fin s4) = lvl s" if "lvl s4 = lvl ?s3" for s4
  proof
    fix t
    have "lvl s4 t = (if t = running s then INTR_OFF else resume_level s t)"
      unfolding that using s2(5,8) resume_tick [OF s2(1)] by (simp add: lvl_def)
    then show "lvl (fin s4) t = lvl s t" using assms(3) by (auto simp: lvl_def fin_def split: if_splits)
  qed
  have irq: "timer_irq s = do { s4 \<leftarrow> (if yield_on_return s2 then thread_yield ?s3 else Some ?s3); Some (fin s4) }"
    using assms(2,3) s2(1,8,9)
    by (simp add: timer_irq_def intr_handler_def timer_interrupt_def intr_get_level_def intr_context_def now_def fin_def Let_def)
  show ?thesis
  proof (cases "yield_on_return s2")
    case False
    moreover have "runnable ?s3 = runnable s2" by (simp add: runnable_def)
    ultimately show ?thesis using irq inv3 s2 slept woken run2 lvl_fin [of ?s3] by (auto simp: fin simp flip: now_def)
  next
    case True
    obtain s4 where s4: "thread_yield ?s3 = Some s4" "sched_inv s4" "\<not> in_external_intr s4"
      "all_list s4 = all_list s2" "already_slept s4 = already_slept s2" "idle_thread s4 = idle_thread s2" "ticks s4 = ticks s2"
      "lvl s4 = lvl ?s3" "\<forall>t \<in> set (all_list s2). time_ticks (thr s4 t) = time_ticks (thr s2 t)"
      and run: "running s4 = hd_or (yield_queue s2) (idle_thread s2)" "ready_list s4 = tl (yield_queue s2)"
      using thread_yield_ok [OF inv3] by auto
    have "t \<in> set (ready_list s4) \<or> t = running s4" if "t \<in> set (ready_list s2)" for t
      using that run by (cases "ready_list s2") (auto simp: yield_queue_def hd_or_def)
    moreover have "runnable s4 \<subseteq> insert (idle_thread s) (runnable s2)" "runnable s2 \<subseteq> insert (idle_thread s) (runnable s4)"
      using runnable_yield [OF run] s2(7) by simp_all
    ultimately show ?thesis using irq True s4 s2 slept woken run2 lvl_fin by (auto simp: fin simp flip: now_def)
  qed
qed

section \<open>What the scheduler leaves alone\<close>

text \<open>
  Components that extend the state with fields of their own keep them: no operation of the thread system
  changes the extension.  Nor does it make a thread runnable that was not, except a sleeper whose time has come.
\<close>

lemma more_intr:
  "intr_set_level l s = Some (x, s') \<Longrightarrow> sched.more s' = sched.more s"
  "intr_disable s = Some (x, s') \<Longrightarrow> sched.more s' = sched.more s"
  "timer_ticks s = Some (n, s') \<Longrightarrow> sched.more s' = sched.more s"
  by (cases "level s"; auto simp: timer_ticks_def intr_simps split: if_splits)+

lemma more_schedule: "schedule s = Some s' \<Longrightarrow> sched.more s' = sched.more s"
  by (cases "ready_list s")
    (auto simp: schedule_def next_thread_to_run_def thread_schedule_tail_def process_activate_def free_thread_page_def
      thread_simps bind_ASSERT Let_def split: if_splits Option.bind_splits)

lemma more_switch_away: "switch_away l s = Some s' \<Longrightarrow> sched.more s' = sched.more s"
  by (auto simp: switch_away_def split: Option.bind_splits dest!: more_schedule more_intr(1))

lemma more_yield: "thread_yield s = Some s' \<Longrightarrow> sched.more s' = sched.more s"
  by (auto simp: thread_yield_def thread_simps intr_simps bind_ASSERT Let_def split: if_splits Option.bind_splits
      dest!: more_switch_away)

lemma more_block: "thread_block l s = Some s' \<Longrightarrow> sched.more s' = sched.more s"
  by (auto simp: thread_block_def thread_simps intr_simps bind_ASSERT split: if_splits Option.bind_splits
      dest!: more_switch_away)

lemma more_unblock: "thread_unblock t s = Some s' \<Longrightarrow> sched.more s' = sched.more s"
  by (auto simp: thread_unblock_def thread_simps intr_disable_def bind_ASSERT split: if_splits Option.bind_splits
      dest!: more_intr(1))

lemma more_wake_loop: "wake_loop ts s = Some s' \<Longrightarrow> sched.more s' = sched.more s"
proof (induction ts arbitrary: s)
  case (Cons t ts)
  then show ?case
    by (auto simp: intr_disable_def split: if_splits Option.bind_splits dest!: more_intr more_unblock Cons.IH)
qed simp

lemma more_tick: "thread_tick s = Some s' \<Longrightarrow> sched.more s' = sched.more s"
  by (auto simp: thread_tick_def update_slept_threads_def intr_yield_on_return_def bind_ASSERT Let_def
      split: if_splits Option.bind_splits dest!: more_wake_loop)

lemma more_timer_irq: "timer_irq s = Some s' \<Longrightarrow> sched.more s' = sched.more s"
  by (auto simp: timer_irq_def intr_handler_def timer_interrupt_def bind_ASSERT Let_def
      split: if_splits Option.bind_splits dest!: more_tick more_yield)

lemma more_create: "thread_create page nm prio fn aux s = Some (r, s') \<Longrightarrow> sched.more s' = sched.more s"
  by (auto simp: thread_create_def init_thread_def alloc_frame_def allocate_tid_def upd_thread_def intr_disable_def
      bind_ASSERT Let_def split: if_splits Option.bind_splits dest!: more_unblock more_intr(1))

lemma more_exit: "thread_exit Some s = Some s' \<Longrightarrow> sched.more s' = sched.more s"
  by (auto simp: thread_exit_def thread_simps intr_disable_def bind_ASSERT split: if_splits Option.bind_splits
      dest!: more_switch_away)

section \<open>The thread system as a transition system\<close>

text \<open>
  The calls that kernel code may make: a thread is unblocked only if it is blocked, not asleep and not the idle
  thread; a new thread gets a page that no thread uses; the idle thread neither exits nor sleeps.
\<close>

inductive sched_step :: "'a sched_scheme \<Rightarrow> 'a sched_scheme \<Rightarrow> bool" where
  step_yield: "thread_yield s = Some s' \<Longrightarrow> sched_step s s'"
| step_block: "thread_block l s = Some s' \<Longrightarrow> sched_step s s'"
| step_unblock: "t \<in> set (all_list s) \<Longrightarrow> t \<notin> set (already_slept s) \<Longrightarrow> t \<noteq> idle_thread s \<Longrightarrow>
    thread_unblock t s = Some s' \<Longrightarrow> sched_step s s'"
| step_create: "page \<notin> set (all_list s) \<Longrightarrow> thread_create page nm prio fn aux s = Some (r, s') \<Longrightarrow>
    sched_step s s'"
| step_exit: "running s \<noteq> idle_thread s \<Longrightarrow> thread_exit Some s = Some s' \<Longrightarrow> sched_step s s'"
| step_sleep: "running s \<noteq> idle_thread s \<Longrightarrow> thread_sleep n s = Some s' \<Longrightarrow> sched_step s s'"
| step_tick: "timer_irq s = Some s' \<Longrightarrow> sched_step s s'"
| step_level: "intr_set_level l s = Some (old, s') \<Longrightarrow> sched_step s s'"
| step_priority: "thread_set_priority p s = Some s' \<Longrightarrow> sched_step s s'"

inductive_cases sched_stepE: "sched_step s s'"

lemma set_priority_inv:
  assumes "sched_inv s" and "thread_set_priority p s = Some s'"
  shows "sched_inv s' \<and> in_external_intr s' = in_external_intr s"
proof -
  have s': "s' = s\<lparr>thr := (thr s)(running s := (thr s (running s))\<lparr>priority := p\<rparr>)\<rparr>"
    using assms(2) thread_current_eq [OF assms(1)] by (simp add: thread_set_priority_def upd_thread_def)
  have "thread_comparable_time_ticks ((thr s)(running s := (thr s (running s))\<lparr>priority := p\<rparr>)) = sleep_lt s"
    by (intro ext) (simp add: thread_comparable_time_ticks_def)
  then show ?thesis using assms(1) by (auto simp: s' sched_inv_def queues_ok_def is_thread_def)
qed

lemma create_step_inv:
  assumes "sched_inv s" and "\<not> in_external_intr s" and "page \<notin> set (all_list s)"
    and "thread_create page nm prio fn aux s = Some (r, s')"
  shows "sched_inv s' \<and> \<not> in_external_intr s'"
proof (cases "page = NULL")
  case True
  then show ?thesis using assms by (auto simp: thread_create_def)
next
  case False
  then have "fn \<noteq> 0" "PRI_MIN \<le> prio" "prio \<le> PRI_MAX"
    using assms(4) by (auto simp: thread_create_def init_thread_def)
  with thread_create_ok [OF assms(1,2) False assms(3), of fn prio nm aux] assms(4) show ?thesis by auto
qed

lemma sched_step_inv:
  assumes "sched_step s s'" and "sched_inv s \<and> \<not> in_external_intr s"
  shows "sched_inv s' \<and> \<not> in_external_intr s'"
  using assms(1)
proof cases
  case step_yield
  then show ?thesis using thread_yield_ok [of s] assms(2) by auto
next
  case (step_block l)
  moreover from this have "level s = INTR_OFF" by (auto simp: thread_block_def intr_get_level_def)
  ultimately show ?thesis using thread_block_ok [of s l] assms(2) by auto
next
  case (step_unblock t)
  then have "st s t = THREAD_BLOCKED" "is_thread s t" by (auto simp: thread_unblock_def intr_simps)
  then show ?thesis using step_unblock unblock_inv [of s t] thread_unblock_eq [of s t] assms(2)
    by (auto simp: set_status_def upd_thread_def)
next
  case (step_create page nm prio fn aux r)
  then show ?thesis using create_step_inv assms(2) by blast
next
  case step_exit
  then show ?thesis using thread_exit_ok [of s] assms(2) by auto
next
  case (step_sleep n)
  then show ?thesis using thread_sleep_ok [of s n] assms(2) by auto
next
  case step_tick
  moreover from this have "level s = INTR_ON" by (auto simp: timer_irq_def intr_get_level_def)
  ultimately show ?thesis using timer_irq_ok [of s] assms(2) by auto
next
  case (step_level l old)
  then have "s' = s\<lparr>level := l\<rparr>" using intr_restore [of s l] assms(2) by simp
  then show ?thesis using assms(2) by (simp add: sched_inv_def queues_ok_def is_thread_def)
next
  case (step_priority p)
  then show ?thesis using set_priority_inv assms(2) by blast
qed

section \<open>Start-up\<close>

text \<open>
  \<^verbatim>\<open>thread_start\<close> up to the point where it waits for the idle thread in \<^verbatim>\<open>sema_down\<close>; \<open>page\<close> is the page that
  \<^verbatim>\<open>thread_create\<close> gets for the idle thread, \<open>idle\<close> the address of its function.
\<close>

definition thread_start :: "addr \<Rightarrow> nat \<Rightarrow> nat \<Rightarrow> 'a sched_scheme \<Rightarrow> 'a sched_scheme option" where
  "thread_start page idle idle_started s = do {
     (_, s) \<leftarrow> thread_create page ''idle'' PRI_MIN idle idle_started s;
     (_, s) \<leftarrow> intr_enable s;
     Some s
   }"

text \<open>
  The first statement of \<^verbatim>\<open>idle\<close>.  The rest of the function, \<^verbatim>\<open>sema_up\<close> and the loop around \<^verbatim>\<open>thread_block\<close>, are
  steps of \<open>sched_step\<close>.
\<close>

definition idle_begin :: "'a sched_scheme \<Rightarrow> 'a sched_scheme option" where
  "idle_begin s = do {
     t \<leftarrow> thread_current s;
     Some (s\<lparr>idle_thread := t\<rparr>)
   }"

text \<open>
  The state in which the loader enters the kernel: interrupts are off and \<^verbatim>\<open>idle_thread\<close> is still the null pointer.
\<close>

definition power_on :: "'a sched_scheme \<Rightarrow> bool" where
  "power_on s \<longleftrightarrow> level s = INTR_OFF \<and> \<not> in_external_intr s \<and> idle_thread s = NULL \<and> running s \<noteq> NULL"

text \<open>
  The states between \<^verbatim>\<open>thread_init\<close> and the first statement of the idle thread.  Timer interrupts may switch between
  the two threads there are, and the main thread may block, which is how \<^verbatim>\<open>sema_down\<close> waits.
\<close>

inductive booting :: "addr \<Rightarrow> 'a sched_scheme \<Rightarrow> 'a sched_scheme \<Rightarrow> bool" for page s0 where
  boot_start: "page \<noteq> NULL \<Longrightarrow> page \<noteq> running s0 \<Longrightarrow> thread_init s0 = Some s1 \<Longrightarrow>
    thread_start page fn aux s1 = Some s \<Longrightarrow> booting page s0 s"
| boot_tick: "booting page s0 s \<Longrightarrow> timer_irq s = Some s' \<Longrightarrow> booting page s0 s'"
| boot_level: "booting page s0 s \<Longrightarrow> intr_set_level l s = Some (old, s') \<Longrightarrow> booting page s0 s'"
| boot_wait: "booting page s0 s \<Longrightarrow> running s \<noteq> page \<Longrightarrow> thread_block l s = Some s' \<Longrightarrow> booting page s0 s'"

text \<open>The states the thread system can reach from power-on once the idle thread has started.\<close>

inductive reachable :: "'a sched_scheme \<Rightarrow> 'a sched_scheme \<Rightarrow> bool" for s0 where
  idle_started: "booting page s0 s \<Longrightarrow> running s = page \<Longrightarrow> idle_begin s = Some s' \<Longrightarrow> reachable s0 s'"
| call_made: "reachable s0 s \<Longrightarrow> sched_step s s' \<Longrightarrow> reachable s0 s'"

text \<open>What holds during start-up: two threads, no idle thread yet, and the three ways to share the CPU.\<close>

definition boot_core :: "addr \<Rightarrow> addr \<Rightarrow> 'a sched_scheme \<Rightarrow> bool" where
  "boot_core page main s \<longleftrightarrow> all_list s = [main, page] \<and> already_slept s = [] \<and> idle_thread s = NULL \<and>
     main \<noteq> page \<and> is_thread s main \<and> is_thread s page \<and>
     (running s = main \<and> ready_list s = [page] \<and> st s main = THREAD_RUNNING \<and> st s page = THREAD_READY \<or>
      running s = page \<and> st s page = THREAD_RUNNING \<and>
        (ready_list s = [main] \<and> st s main = THREAD_READY \<or> ready_list s = [] \<and> st s main = THREAD_BLOCKED))"

lemma boot_core_fields [simp]:
  "boot_core page main (s\<lparr>level := l\<rparr>) = boot_core page main s"
  "boot_core page main (s\<lparr>resume_level := r\<rparr>) = boot_core page main s"
  "boot_core page main (s\<lparr>in_external_intr := x\<rparr>) = boot_core page main s"
  "boot_core page main (s\<lparr>yield_on_return := x\<rparr>) = boot_core page main s"
  "boot_core page main (s\<lparr>ticks := n\<rparr>) = boot_core page main s"
  "boot_core page main (s\<lparr>thread_ticks := k\<rparr>) = boot_core page main s"
  "boot_core page main (s\<lparr>idle_ticks := n\<rparr>) = boot_core page main s"
  "boot_core page main (s\<lparr>user_ticks := n\<rparr>) = boot_core page main s"
  "boot_core page main (s\<lparr>kernel_ticks := n\<rparr>) = boot_core page main s"
  by (simp_all add: boot_core_def is_thread_def)

lemma boot_core_current: "boot_core page main s \<Longrightarrow> thread_current s = Some (running s) \<and> running s \<noteq> NULL"
  by (auto simp: boot_core_def thread_current_def running_thread_def is_thread_def)

lemma boot_core_cases:
  assumes "boot_core page main s"
  obtains "running s = main" "ready_list s = [page]" "st s main = THREAD_RUNNING" "st s page = THREAD_READY"
  | "running s = page" "ready_list s = [main]" "st s page = THREAD_RUNNING" "st s main = THREAD_READY"
  | "running s = page" "ready_list s = []" "st s page = THREAD_RUNNING" "st s main = THREAD_BLOCKED"
  using assms by (auto simp: boot_core_def)

lemma boot_coreD:
  assumes "boot_core page main s"
  shows "all_list s = [main, page]" "already_slept s = []" "idle_thread s = NULL" "main \<noteq> page"
    "is_thread s main" "is_thread s page"
  using assms by (simp_all add: boot_core_def)

lemma boot_core_tick:
  assumes boot: "boot_core page main s" and tick: "thread_tick s = Some s'"
  shows "boot_core page main s'"
proof -
  have "boot_core page main (s\<lparr>idle_ticks := n, thread_ticks := k\<rparr>)" "boot_core page main (s\<lparr>user_ticks := n, thread_ticks := k\<rparr>)"
    "boot_core page main (s\<lparr>kernel_ticks := n, thread_ticks := k\<rparr>)" for n k using boot by simp_all
  then show ?thesis
    using tick boot_core_current [OF boot] boot_coreD(2) [OF boot]
    by (simp add: thread_tick_def intr_yield_on_return_def Let_def bind_ASSERT split: if_splits)
      (auto simp: Let_def split: if_splits)
qed

lemma switch_to_first:
  assumes "ready_list s = n # ts" and "is_thread s n" and "level s = INTR_OFF" and "\<not> in_external_intr s"
    and "st s (running s) = THREAD_READY \<or> st s (running s) = THREAD_BLOCKED" and "switch_away l s = Some s'"
  shows "running s' = n" and "ready_list s' = ts" and "all_list s' = all_list s" and "already_slept s' = already_slept s"
    and "idle_thread s' = idle_thread s" and "\<not> in_external_intr s'"
    and "thr s' = (thr s)(n := (thr s n)\<lparr>status := THREAD_RUNNING\<rparr>)"
proof -
  let ?s = "s\<lparr>resume_level := (resume_level s)(running s := l)\<rparr>"
  have "\<exists>s1. schedule ?s = Some s1 \<and> running s1 = n \<and> ready_list s1 = ts \<and> all_list s1 = all_list s \<and>
      already_slept s1 = already_slept s \<and> idle_thread s1 = idle_thread s \<and> \<not> in_external_intr s1 \<and>
      thr s1 = (thr s)(n := (thr s n)\<lparr>status := THREAD_RUNNING\<rparr>)"
    using assms(1-5)
    by (cases "running s = n") (auto simp: schedule_def next_thread_to_run_def thread_schedule_tail_def
      process_activate_def thread_current_def thread_simps intr_simps Let_def)
  then obtain s1 where s1: "schedule ?s = Some s1" "running s1 = n" "ready_list s1 = ts" "all_list s1 = all_list s"
      "already_slept s1 = already_slept s" "idle_thread s1 = idle_thread s" "\<not> in_external_intr s1"
      "thr s1 = (thr s)(n := (thr s n)\<lparr>status := THREAD_RUNNING\<rparr>)" by blast
  then have "s' = s1\<lparr>level := resume_level s1 n\<rparr>" using assms(6) intr_restore [of s1] by (simp add: switch_away_def)
  then show "running s' = n" "ready_list s' = ts" "all_list s' = all_list s" "already_slept s' = already_slept s"
    "idle_thread s' = idle_thread s" "\<not> in_external_intr s'" "thr s' = (thr s)(n := (thr s n)\<lparr>status := THREAD_RUNNING\<rparr>)"
    using s1 by simp_all
qed

lemma boot_core_yield:
  assumes boot: "boot_core page main s" and yield: "thread_yield s = Some s'"
  shows "boot_core page main s' \<and> \<not> in_external_intr s'"
proof -
  define u where "u = set_status (running s) THREAD_READY (s\<lparr>level := INTR_OFF, ready_list := ready_list s @ [running s]\<rparr>)"
  have ext: "\<not> in_external_intr s" and idle: "running s \<noteq> idle_thread s"
    using boot yield boot_core_current [OF boot] by (auto simp: thread_yield_def intr_simps boot_core_def)
  have "switch_away (level s) u = Some s'"
    using yield boot_core_current [OF boot] ext idle by (simp add: thread_yield_def intr_simps u_def)
  moreover obtain n ts where queue: "ready_list s @ [running s] = n # ts" by (cases "ready_list s") auto
  moreover from this have "ready_list u = n # ts" by (simp add: u_def set_status_def upd_thread_def)
  moreover have "is_thread u n"
    using queue boot_coreD [OF boot] by (cases rule: boot_core_cases [OF boot]) (auto simp: u_def thread_simps)
  ultimately have "running s' = n" "ready_list s' = ts" "all_list s' = all_list u" "already_slept s' = already_slept u"
    "idle_thread s' = idle_thread u" "\<not> in_external_intr s'" "thr s' = (thr u)(n := (thr u n)\<lparr>status := THREAD_RUNNING\<rparr>)"
    using switch_to_first [of u n ts "level s" s'] ext by (simp_all add: u_def thread_simps)
  then show ?thesis
    using queue boot_coreD [OF boot]
    by (cases rule: boot_core_cases [OF boot]) (simp_all add: u_def boot_core_def thread_simps)
qed

lemma boot_core_block:
  assumes boot: "boot_core page main s" and run: "running s \<noteq> page" and block: "thread_block l s = Some s'"
  shows "boot_core page main s' \<and> \<not> in_external_intr s'"
proof -
  define u where "u = set_status (running s) THREAD_BLOCKED s"
  have ext: "\<not> in_external_intr s" "level s = INTR_OFF" using block by (auto simp: thread_block_def intr_simps)
  have "switch_away l u = Some s'"
    using block boot_core_current [OF boot] ext by (simp add: thread_block_def intr_simps u_def)
  moreover have "ready_list u = [page]" "is_thread u page" using boot run by (auto simp: u_def boot_core_def thread_simps)
  ultimately have "running s' = page" "ready_list s' = []" "all_list s' = all_list u" "already_slept s' = already_slept u"
    "idle_thread s' = idle_thread u" "\<not> in_external_intr s'" "thr s' = (thr u)(page := (thr u page)\<lparr>status := THREAD_RUNNING\<rparr>)"
    using switch_to_first [of u page "[]" l s'] ext by (simp_all add: u_def thread_simps)
  then show ?thesis
    using boot run by (auto simp: u_def boot_core_def thread_simps)
qed

lemma boot_core_irq:
  assumes "boot_core page main s" and "timer_irq s = Some s'"
  shows "boot_core page main s' \<and> \<not> in_external_intr s'"
  using assms
  by (auto simp: timer_irq_def intr_handler_def timer_interrupt_def bind_ASSERT Let_def
      split: if_splits Option.bind_splits dest!: boot_core_tick [rotated] boot_core_yield [rotated])

lemma boot_core_start:
  assumes "power_on s0" and "page \<noteq> NULL" and "page \<noteq> running s0" and "thread_init s0 = Some s1"
    and "thread_start page fn aux s1 = Some s"
  shows "boot_core page (running s0) s \<and> \<not> in_external_intr s"
  using assms
  by (auto simp: power_on_def thread_init_def init_thread_def thread_start_def thread_create_def allocate_tid_def
      alloc_frame_def thread_unblock_def thread_simps intr_simps boot_core_def bind_ASSERT Let_def
      split: if_splits Option.bind_splits)

lemma booting_core:
  assumes "booting page s0 s" and "power_on s0"
  shows "boot_core page (running s0) s \<and> \<not> in_external_intr s"
  using assms(1)
proof induction
  case (boot_start s1 fn aux s)
  then show ?case using boot_core_start [OF assms(2)] by blast
next
  case (boot_tick s s')
  then show ?case using boot_core_irq by blast
next
  case (boot_level s l old s')
  then show ?case using intr_restore [of s l] by auto
next
  case (boot_wait s l s')
  then show ?case using boot_core_block by blast
qed

lemma idle_begin_inv:
  assumes "boot_core page main s" and "running s = page" and "idle_begin s = Some s'"
  shows "sched_inv s'" and "in_external_intr s' = in_external_intr s"
  using assms
  by (auto simp: idle_begin_def thread_current_def running_thread_def boot_core_def sched_inv_def queues_ok_def
      is_thread_def bind_ASSERT split: if_splits)

lemma reachable_inv:
  assumes "reachable s0 s" and "power_on s0"
  shows "sched_inv s \<and> \<not> in_external_intr s"
  using assms(1)
proof induction
  case (idle_started page s s')
  then show ?case using booting_core [OF idle_started(1) assms(2)] idle_begin_inv by blast
next
  case (call_made s s')
  then show ?case using sched_step_inv by blast
qed

fun yield_n :: "nat \<Rightarrow> 'a sched_scheme \<Rightarrow> 'a sched_scheme option" where
  "yield_n 0 s = Some s"
| "yield_n (Suc n) s = do { s \<leftarrow> thread_yield s; yield_n n s }"

lemma round_robin:
  "sched_inv s \<Longrightarrow> \<not> in_external_intr s \<Longrightarrow> ready_list s = xs @ t # ys \<Longrightarrow>
     \<exists>s'. yield_n (Suc (length xs)) s = Some s' \<and> running s' = t \<and> sched_inv s'"
proof (induction xs arbitrary: s ys)
  case Nil
  with thread_yield_ok [OF Nil(1,2)] show ?case by (auto simp: yield_queue_def hd_or_def)
next
  case (Cons x xs)
  obtain s1 where s1: "thread_yield s = Some s1" "sched_inv s1" "\<not> in_external_intr s1"
    "ready_list s1 = tl (yield_queue s)"
    using thread_yield_ok [OF Cons.prems(1,2)] by blast
  have "\<exists>zs. ready_list s1 = xs @ t # zs" using s1(4) Cons.prems(3) by (auto simp: yield_queue_def)
  then show ?case using Cons.IH [OF s1(2,3)] s1(1) by auto
qed

section \<open>Properties\<close>

text \<open>
  A concrete state for the witnesses: the main thread at 0x1000 runs, the idle thread at 0x2000 is blocked, a
  thread at 0x3000 is ready and one at 0x4000 sleeps until tick 5; the tick counter is 4.
\<close>

definition demo_thread :: "int \<Rightarrow> thread_status \<Rightarrow> int \<Rightarrow> thread" where
  "demo_thread n x w = \<lparr>tid = n, status = x, name = ''t'', stack = 0, priority = PRI_DEFAULT, time_ticks = w,
     pagedir = NULL, magic = THREAD_MAGIC, frames = []\<rparr>"

definition demo_sched :: sched where
  "demo_sched = \<lparr>thr = (\<lambda>_. demo_thread 0 THREAD_DYING 0)
       (0x1000 := demo_thread 1 THREAD_RUNNING 0, 0x2000 := demo_thread 2 THREAD_BLOCKED 0,
        0x3000 := demo_thread 3 THREAD_READY 0, 0x4000 := demo_thread 4 THREAD_BLOCKED 5),
     ready_list = [0x3000], all_list = [0x1000, 0x2000, 0x3000, 0x4000], already_slept = [0x4000],
     idle_thread = 0x2000, initial_thread = 0x1000, running = 0x1000, next_tid = 5, thread_ticks = 0,
     idle_ticks = 0, kernel_ticks = 0, user_ticks = 0, ticks = 4, level = INTR_ON, resume_level = (\<lambda>_. INTR_ON),
     in_external_intr = False, yield_on_return = False, init_page_dir = 0, cr3 = 0, tss_esp0 = 0, freed_pages = []\<rparr>"

lemma demo_sched_inv: "sched_inv demo_sched" "\<not> in_external_intr demo_sched"
  by (simp_all add: sched_inv_def queues_ok_def is_thread_def demo_sched_def demo_thread_def)







text \<open>
  C26. A timer tick wakes exactly the sleeping threads whose wake-up time has come: such a thread leaves the
  list of sleepers and is ready or already running afterwards, and every other sleeping thread stays
  asleep and blocked, with its wake-up time unchanged.
\<close>

theorem tick_wakes_sleepers:
  assumes "sched_inv s" and "\<not> in_external_intr s" and "level s = INTR_ON" and "t \<in> set (already_slept s)"
  shows "\<exists>s'. timer_irq s = Some s' \<and> ticks s' = int64 (ticks s + 1) \<and>
    (if time_ticks (thr s t) \<le> ticks s'
     then t \<notin> set (already_slept s') \<and> (status (thr s' t) = THREAD_READY \<or> t = running s')
     else t \<in> set (already_slept s') \<and> status (thr s' t) = THREAD_BLOCKED \<and> time_ticks (thr s' t) = time_ticks (thr s t))"
proof -
  have all: "t \<in> set (all_list s)" using assms(4) sched_invD(1) [OF assms(1)] by (auto simp: queues_ok_def)
  obtain s' where s': "timer_irq s = Some s'" "sched_inv s'" "ticks s' = int64 (ticks s + 1)"
    "already_slept s' = filter (\<lambda>t. \<not> time_ticks (thr s t) \<le> ticks s') (already_slept s)"
    "\<forall>t \<in> set (all_list s). time_ticks (thr s' t) = time_ticks (thr s t)"
    "\<forall>t \<in> set (already_slept s). time_ticks (thr s t) \<le> ticks s' \<longrightarrow> t \<in> set (ready_list s') \<or> t = running s'"
    using timer_irq_ok [OF assms(1-3)] by blast
  have q: "queues_ok s'" using sched_invD(1) [OF s'(2)] .
  show ?thesis
    using s' all assms(4) q by (auto simp: queues_ok_def)
qed

theorem tick_wakes_sleepers_witness:
  "\<exists>s'. timer_irq demo_sched = Some s' \<and> 0x4000 \<notin> set (already_slept s')"
proof -
  have "int64 5 = 5" by (simp add: int64_def)
  then show ?thesis
    using tick_wakes_sleepers [OF demo_sched_inv, of "0x4000"] by (auto simp: demo_sched_def demo_thread_def)
qed

end
