(* ===== verification/Synch.thy ===== *)
theory Synch
  imports Threads
begin

text \<open>
  Semaphores, locks and condition variables, \<^verbatim>\<open>threads/synch.c\<close>, on top of the thread system.

  The state extends that of the scheduler with the semaphores, the holders of locks and the waiting lists
  of condition variables.  The semaphore inside a lock is named \<open>Lock_Sema L\<close>.  A routine that cannot block is a
  function on the state; \<^verbatim>\<open>sema_down\<close>, and the routines that call it, can lose the CPU, so they are
  sequences of the steps that the code executes without interruption: \<open>todo t\<close> is what thread \<open>t\<close> has still to
  execute of the call it is in.  \<open>exec\<close> executes one such step; a thread that waits in the loop of
  \<^verbatim>\<open>sema_down\<close> has the step \<open>Down_Retry\<close> before it.  The transition system \<open>sync_step\<close> interleaves the steps of all
  threads with timer interrupts at arbitrary points.

  The list \<open>owners L\<close> is a history variable: the threads that have returned from \<^verbatim>\<open>lock_acquire\<close> of \<open>L\<close> and
  not yet entered \<^verbatim>\<open>lock_release\<close>.  The theorems are mutual exclusion for locks and the absence of lost wake-ups.
\<close>

section \<open>State\<close>

datatype sema_id = Sema addr | Lock_Sema addr

record semaphore =
  value_of :: u32
  waiters :: "addr list"

datatype action =
  Assert_Nonnull addr
| Assert_Not_Intr
| Check_Not_Held addr
| Check_Held addr
| Down sema_id
| Down_Retry sema_id intr_level
| Up sema_id
| Try_Lock addr
| Set_Holder addr
| Clear_Holder addr
| Init_Waiter addr
| Push_Waiter addr addr
| Signal addr
| Broadcast addr addr

record ksync = sched +
  sema :: "sema_id \<Rightarrow> semaphore"
  holder :: "addr \<Rightarrow> addr"
  cond_waiters :: "addr \<Rightarrow> addr list"
  todo :: "addr \<Rightarrow> action list"
  owners :: "addr \<Rightarrow> addr list"

section \<open>Semaphores\<close>

text \<open>The address \<^verbatim>\<open>&lock->semaphore\<close> is never null, because the semaphore is not the first field of a lock.\<close>

definition sema_nonnull :: "sema_id \<Rightarrow> bool" where
  "sema_nonnull i \<longleftrightarrow> i \<noteq> Sema NULL"

definition sema_init :: "sema_id \<Rightarrow> u32 \<Rightarrow> 'a ksync_scheme \<Rightarrow> 'a ksync_scheme option" where
  "sema_init i v s = do {
     ASSERT (sema_nonnull i);
     Some (s\<lparr>sema := (sema s)(i := \<lparr>value_of = v, waiters = []\<rparr>)\<rparr>)
   }"

definition set_value :: "sema_id \<Rightarrow> u32 \<Rightarrow> 'a ksync_scheme \<Rightarrow> 'a ksync_scheme" where
  "set_value i v s = s\<lparr>sema := (sema s)(i := (sema s i)\<lparr>value_of := v\<rparr>)\<rparr>"

definition set_waiters :: "sema_id \<Rightarrow> addr list \<Rightarrow> 'a ksync_scheme \<Rightarrow> 'a ksync_scheme" where
  "set_waiters i ws s = s\<lparr>sema := (sema s)(i := (sema s i)\<lparr>waiters := ws\<rparr>)\<rparr>"

text \<open>
  The loop of \<^verbatim>\<open>sema_down\<close> from the test of the value on, with interrupts off and \<open>old_level\<close> to be restored.
  A thread that blocks continues with the next iteration, \<open>Down_Retry\<close>.
\<close>

definition down_loop :: "sema_id \<Rightarrow> intr_level \<Rightarrow> 'a ksync_scheme \<Rightarrow> (action list \<times> 'a ksync_scheme) option" where
  "down_loop i old_level s =
     (if value_of (sema s i) = 0 then do {
        cur \<leftarrow> thread_current s;
        let s = set_waiters i (waiters (sema s i) @ [cur]) s;
        s \<leftarrow> thread_block INTR_OFF s;
        Some ([Down_Retry i old_level], s)
      }
      else do {
        let s = set_value i (value_of (sema s i) - 1) s;
        (_, s) \<leftarrow> intr_set_level old_level s;
        Some ([], s)
      })"

definition sema_down :: "sema_id \<Rightarrow> 'a ksync_scheme \<Rightarrow> (action list \<times> 'a ksync_scheme) option" where
  "sema_down i s = do {
     ASSERT (sema_nonnull i);
     ASSERT (\<not> intr_context s);
     (old_level, s) \<leftarrow> intr_disable s;
     down_loop i old_level s
   }"

definition sema_try_down :: "sema_id \<Rightarrow> 'a ksync_scheme \<Rightarrow> (bool \<times> 'a ksync_scheme) option" where
  "sema_try_down i s = do {
     ASSERT (sema_nonnull i);
     (old_level, s) \<leftarrow> intr_disable s;
     let (success, s) =
       (if value_of (sema s i) > 0 then (True, set_value i (value_of (sema s i) - 1) s) else (False, s));
     (_, s) \<leftarrow> intr_set_level old_level s;
     Some (success, s)
   }"

definition sema_up :: "sema_id \<Rightarrow> 'a ksync_scheme \<Rightarrow> 'a ksync_scheme option" where
  "sema_up i s = do {
     ASSERT (sema_nonnull i);
     (old_level, s) \<leftarrow> intr_disable s;
     s \<leftarrow> (case waiters (sema s i) of
             [] \<Rightarrow> Some s
           | t # ts \<Rightarrow> thread_unblock t (set_waiters i ts s));
     let s = set_value i (value_of (sema s i) + 1) s;
     (_, s) \<leftarrow> intr_set_level old_level s;
     Some s
   }"

section \<open>Locks\<close>

definition lock_init :: "addr \<Rightarrow> 'a ksync_scheme \<Rightarrow> 'a ksync_scheme option" where
  "lock_init l s = do {
     ASSERT (l \<noteq> NULL);
     sema_init (Lock_Sema l) 1 (s\<lparr>holder := (holder s)(l := NULL)\<rparr>)
   }"

definition lock_held_by_current_thread :: "addr \<Rightarrow> 'a ksync_scheme \<Rightarrow> bool option" where
  "lock_held_by_current_thread l s = do {
     ASSERT (l \<noteq> NULL);
     cur \<leftarrow> thread_current s;
     Some (holder s l = cur)
   }"

definition lock_acquire :: "addr \<Rightarrow> action list" where
  "lock_acquire l = [Assert_Nonnull l, Assert_Not_Intr, Check_Not_Held l, Down (Lock_Sema l), Set_Holder l]"

definition lock_try_acquire :: "addr \<Rightarrow> action list" where
  "lock_try_acquire l = [Assert_Nonnull l, Check_Not_Held l, Try_Lock l]"

definition lock_release :: "addr \<Rightarrow> action list" where
  "lock_release l = [Assert_Nonnull l, Check_Held l, Clear_Holder l, Up (Lock_Sema l)]"

section \<open>Condition variables\<close>

definition cond_init :: "addr \<Rightarrow> 'a ksync_scheme \<Rightarrow> 'a ksync_scheme option" where
  "cond_init c s = do {
     ASSERT (c \<noteq> NULL);
     Some (s\<lparr>cond_waiters := (cond_waiters s)(c := [])\<rparr>)
   }"

text \<open>\<open>w\<close> is the address of the semaphore in the local variable \<^verbatim>\<open>waiter\<close>.\<close>

definition cond_wait :: "addr \<Rightarrow> addr \<Rightarrow> addr \<Rightarrow> action list" where
  "cond_wait c w l =
     [Assert_Nonnull c, Assert_Nonnull l, Assert_Not_Intr, Check_Held l, Init_Waiter w, Push_Waiter c w] @
     lock_release l @ [Down (Sema w)] @ lock_acquire l"

definition cond_signal :: "addr \<Rightarrow> addr \<Rightarrow> action list" where
  "cond_signal c l = [Assert_Nonnull c, Assert_Nonnull l, Assert_Not_Intr, Check_Held l, Signal c]"

definition cond_broadcast :: "addr \<Rightarrow> addr \<Rightarrow> action list" where
  "cond_broadcast c l = [Assert_Nonnull c, Assert_Nonnull l, Broadcast c l]"

section \<open>Execution\<close>

text \<open>
  One uninterrupted step of the running thread; the result has the steps it puts in front of the rest of the
  call.
\<close>

fun exec :: "action \<Rightarrow> 'a ksync_scheme \<Rightarrow> (action list \<times> 'a ksync_scheme) option" where
  "exec (Assert_Nonnull p) s = do { ASSERT (p \<noteq> NULL); Some ([], s) }"
| "exec Assert_Not_Intr s = do { ASSERT (\<not> intr_context s); Some ([], s) }"
| "exec (Check_Not_Held l) s = do {
     h \<leftarrow> lock_held_by_current_thread l s;
     ASSERT (\<not> h);
     Some ([], s)
   }"
| "exec (Check_Held l) s = do {
     h \<leftarrow> lock_held_by_current_thread l s;
     ASSERT h;
     Some ([], s)
   }"
| "exec (Down i) s = sema_down i s"
| "exec (Down_Retry i old_level) s = down_loop i old_level s"
| "exec (Up i) s = do { s \<leftarrow> sema_up i s; Some ([], s) }"
| "exec (Try_Lock l) s = do {
     (success, s) \<leftarrow> sema_try_down (Lock_Sema l) s;
     Some (if success then [Set_Holder l] else [], s)
   }"
| "exec (Set_Holder l) s = do {
     cur \<leftarrow> thread_current s;
     Some ([], s\<lparr>holder := (holder s)(l := cur), owners := (owners s)(l := cur # owners s l)\<rparr>)
   }"
| "exec (Clear_Holder l) s = do {
     cur \<leftarrow> thread_current s;
     Some ([], s\<lparr>holder := (holder s)(l := NULL), owners := (owners s)(l := remove1 cur (owners s l))\<rparr>)
   }"
| "exec (Init_Waiter w) s = do { s \<leftarrow> sema_init (Sema w) 0 s; Some ([], s) }"
| "exec (Push_Waiter c w) s = Some ([], s\<lparr>cond_waiters := (cond_waiters s)(c := cond_waiters s c @ [w])\<rparr>)"
| "exec (Signal c) s =
     Some (case cond_waiters s c of
             [] \<Rightarrow> ([], s)
           | w # ws \<Rightarrow> ([Up (Sema w)], s\<lparr>cond_waiters := (cond_waiters s)(c := ws)\<rparr>))"
| "exec (Broadcast c l) s =
     Some (if cond_waiters s c = [] then [] else cond_signal c l @ [Broadcast c l], s)"

text \<open>The calls a thread may start.\<close>

inductive call :: "action list \<Rightarrow> bool" where
  "call [Down (Sema a)]"
| "call [Up (Sema a)]"
| "call (lock_acquire l)"
| "call (lock_try_acquire l)"
| "call (lock_release l)"
| "call (cond_wait c w l)"
| "call (cond_signal c l)"
| "call (cond_broadcast c l)"

text \<open>
  The transition system.  The semaphore that \<^verbatim>\<open>cond_wait\<close> initialises is a local variable of the waiting
  thread, so no thread waits on it.  Threads are created and exit between calls.
\<close>

definition retrying :: "sema_id \<Rightarrow> 'a ksync_scheme \<Rightarrow> addr set" where
  "retrying i s = {t. \<exists>l r. todo s t = Down_Retry i l # r}"

definition continue :: "addr \<Rightarrow> action list \<Rightarrow> 'a ksync_scheme \<Rightarrow> 'a ksync_scheme" where
  "continue t as s = s\<lparr>todo := (todo s)(t := as)\<rparr>"

inductive sync_step :: "'a ksync_scheme \<Rightarrow> 'a ksync_scheme \<Rightarrow> bool" where
  sync_call: "running s \<noteq> idle_thread s \<Longrightarrow> todo s (running s) = [] \<Longrightarrow> call as \<Longrightarrow>
    sync_step s (continue (running s) as s)"
| sync_exec: "todo s (running s) = a # rest \<Longrightarrow> (\<forall>w. a = Init_Waiter w \<longrightarrow> retrying (Sema w) s = {}) \<Longrightarrow>
    exec a s = Some (as, s') \<Longrightarrow> sync_step s (continue (running s) (as @ rest) s')"
| sync_tick: "timer_irq s = Some s' \<Longrightarrow> sync_step s s'"
| sync_yield: "todo s (running s) = [] \<Longrightarrow> thread_yield s = Some s' \<Longrightarrow> sync_step s s'"
| sync_create: "page \<notin> set (all_list s) \<Longrightarrow> todo s (running s) = [] \<Longrightarrow>
    thread_create page nm prio fn aux s = Some (r, s') \<Longrightarrow> sync_step s s'"
| sync_exit: "running s \<noteq> idle_thread s \<Longrightarrow> todo s (running s) = [] \<Longrightarrow> thread_exit Some s = Some s' \<Longrightarrow>
    sync_step s s'"

section \<open>Effect of the steps\<close>

text \<open>What a step leaves of the scheduler, and what it leaves of the synchronisation state.\<close>

definition sync_part :: "'a ksync_scheme \<Rightarrow>
    (sema_id \<Rightarrow> semaphore) \<times> (addr \<Rightarrow> addr) \<times> (addr \<Rightarrow> addr list) \<times> (addr \<Rightarrow> action list) \<times> (addr \<Rightarrow> addr list)" where
  "sync_part s = (sema s, holder s, cond_waiters s, todo s, owners s)"

definition sched_ok :: "'a sched_scheme \<Rightarrow> bool" where
  "sched_ok s \<longleftrightarrow> sched_inv s \<and> \<not> in_external_intr s"

lemma sync_part_more: "sched.more s' = sched.more s \<Longrightarrow> sync_part s' = sync_part s"
  by (cases s; cases s') (simp add: sync_part_def)

lemma sched_ok_ext [simp]:
  "sched_ok (s\<lparr>sema := x\<rparr>) = sched_ok s" "sched_ok (s\<lparr>holder := h\<rparr>) = sched_ok s"
  "sched_ok (s\<lparr>cond_waiters := c\<rparr>) = sched_ok s" "sched_ok (s\<lparr>todo := d\<rparr>) = sched_ok s"
  "sched_ok (s\<lparr>owners := q\<rparr>) = sched_ok s" "sched_ok (s\<lparr>level := l\<rparr>) = sched_ok s"
  by (simp_all add: sched_ok_def sched_inv_def queues_ok_def is_thread_def)

lemma next_thread_ext [simp]:
  "next_thread (s\<lparr>sema := x\<rparr>) = next_thread s" "next_thread (s\<lparr>level := l\<rparr>) = next_thread s"
  by (simp_all add: next_thread_def split: list.split)

lemma lvl_ext [simp]:
  "lvl (s\<lparr>sema := x\<rparr>) = lvl s" "lvl (s\<lparr>holder := h\<rparr>) = lvl s" "lvl (s\<lparr>cond_waiters := c\<rparr>) = lvl s"
  "lvl (s\<lparr>todo := d\<rparr>) = lvl s" "lvl (s\<lparr>owners := q\<rparr>) = lvl s"
  by (simp_all add: lvl_def fun_eq_iff)

lemma down_loop_blocks:
  assumes "sched_ok s" and "level s = INTR_OFF" and "value_of (sema s i) = 0"
  shows "\<exists>s'. down_loop i l s = Some ([Down_Retry i l], s') \<and> sched_ok s' \<and>
    running s' = next_thread s \<and> ready_list s' = tl (ready_list s) \<and> all_list s' = all_list s \<and>
    already_slept s' = already_slept s \<and> idle_thread s' = idle_thread s \<and> lvl s' = (lvl s)(running s := INTR_OFF) \<and>
    sync_part s' = sync_part (set_waiters i (waiters (sema s i) @ [running s]) s)"
proof -
  let ?s = "set_waiters i (waiters (sema s i) @ [running s]) s"
  have "sched_inv ?s" "\<not> in_external_intr ?s" "level ?s = INTR_OFF"
    using assms by (simp_all add: sched_ok_def set_waiters_def sched_inv_def queues_ok_def is_thread_def)
  from thread_block_ok [OF this, of INTR_OFF] obtain s' where s': "thread_block INTR_OFF ?s = Some s'"
    "sched_inv s'" "\<not> in_external_intr s'" "running s' = next_thread s" "ready_list s' = tl (ready_list s)"
    "all_list s' = all_list s" "already_slept s' = already_slept s" "idle_thread s' = idle_thread s"
    "lvl s' = (lvl s)(running s := INTR_OFF)"
    by (auto simp: set_waiters_def)
  moreover have "sync_part s' = sync_part ?s" by (rule sync_part_more [OF more_block [OF s'(1)]])
  moreover have "thread_current s = Some (running s)" using assms(1) by (simp add: sched_ok_def thread_current_eq)
  ultimately show ?thesis using assms(3) by (auto simp: down_loop_def sched_ok_def)
qed

lemma down_loop_takes:
  assumes "sched_ok s" and "value_of (sema s i) \<noteq> 0"
  shows "down_loop i l s = Some ([], set_value i (value_of (sema s i) - 1) s\<lparr>level := l\<rparr>)"
  using assms by (simp add: down_loop_def intr_restore sched_ok_def set_value_def)

lemma sema_try_down_eq:
  assumes "sched_ok s" and "sema_nonnull i"
  shows "sema_try_down i s =
    Some (if value_of (sema s i) = 0 then (False, s) else (True, set_value i (value_of (sema s i) - 1) s))"
  using assms
  by (auto simp: sema_try_down_def intr_disable_def intr_get_level_def intr_restore sched_ok_def set_value_def word_gt_0
      level_same)

lemma sema_up_eq:
  assumes "sched_ok s" and "sema_nonnull i"
    and "\<And>t. t \<in> set (waiters (sema s i)) \<Longrightarrow> is_thread s t \<and> st s t = THREAD_BLOCKED"
  shows "sema_up i s = Some (case waiters (sema s i) of
      [] \<Rightarrow> set_value i (value_of (sema s i) + 1) s
    | t # ts \<Rightarrow> set_value i (value_of (sema s i) + 1)
        (set_status t THREAD_READY (set_waiters i ts (s\<lparr>ready_list := ready_list s @ [t]\<rparr>))))"
proof (cases "waiters (sema s i)")
  case Nil
  then show ?thesis using assms(1,2)
    by (simp add: sema_up_def intr_disable_def intr_get_level_def intr_restore sched_ok_def set_value_def level_same)
next
  case (Cons t ts)
  let ?s = "set_waiters i ts (s\<lparr>level := INTR_OFF\<rparr>)"
  have "thread_unblock t ?s = Some (set_status t THREAD_READY (?s\<lparr>ready_list := ready_list ?s @ [t]\<rparr>))"
    using assms Cons by (intro thread_unblock_eq) (auto simp: set_waiters_def sched_ok_def is_thread_def)
  then show ?thesis using assms(1,2) Cons
    by (simp add: sema_up_def intr_disable_def intr_get_level_def intr_restore sched_ok_def set_value_def
        set_waiters_def set_status_def upd_thread_def level_same)
qed

section \<open>Waiting threads\<close>

text \<open>
  For every semaphore: the waiting threads are blocked in its \<^verbatim>\<open>sema_down\<close>, and every thread that is blocked
  there and not in the list of waiters has been made runnable again, with interrupts off.  While there are waiters,
  the value never exceeds the number of threads that are awake and about to try again.
\<close>

definition awake :: "sema_id \<Rightarrow> 'a ksync_scheme \<Rightarrow> addr set" where
  "awake i s = retrying i s \<inter> runnable s"

definition wait_inv :: "'a ksync_scheme \<Rightarrow> bool" where
  "wait_inv s \<longleftrightarrow> todo s (idle_thread s) = [] \<and> (\<forall>i. distinct (waiters (sema s i)) \<and>
     set (waiters (sema s i)) \<subseteq> retrying i s \<inter> set (all_list s) - runnable s - set (already_slept s) \<and>
     retrying i s \<subseteq> set (waiters (sema s i)) \<union> runnable s \<and>
     (\<forall>t \<in> retrying i s. lvl s t = INTR_OFF) \<and> (retrying i s \<noteq> {} \<longrightarrow> sema_nonnull i) \<and>
     (waiters (sema s i) \<noteq> [] \<longrightarrow> unat (value_of (sema s i)) \<le> card (awake i s)))"

lemma finite_runnable [simp]: "finite (runnable s)"
  by (simp add: runnable_def)

lemma finite_awake [simp]: "finite (awake i s)"
  by (simp add: awake_def)

lemma wait_invD:
  assumes "wait_inv s"
  shows "todo s (idle_thread s) = []" "distinct (waiters (sema s i))"
    "t \<in> set (waiters (sema s i)) \<Longrightarrow> t \<in> retrying i s \<and> t \<in> set (all_list s) \<and> t \<notin> runnable s \<and> t \<notin> set (already_slept s)"
    "t \<in> retrying i s \<Longrightarrow> t \<in> set (waiters (sema s i)) \<or> t \<in> runnable s" "t \<in> retrying i s \<Longrightarrow> lvl s t = INTR_OFF"
    "t \<in> retrying i s \<Longrightarrow> sema_nonnull i"
    "waiters (sema s i) \<noteq> [] \<Longrightarrow> unat (value_of (sema s i)) \<le> card (awake i s)"
    "idle_thread s \<notin> retrying i s"
  using assms unfolding wait_inv_def by (blast, blast, blast, blast, blast, blast, blast, simp add: retrying_def)

lemma retrying_running: "todo s t = a # r \<Longrightarrow> t \<in> retrying i s \<longleftrightarrow> (\<exists>l. a = Down_Retry i l)"
  by (auto simp: retrying_def)

lemma retrying_continue:
  "retrying i (continue t as s) =
    (if \<exists>l r. as = Down_Retry i l # r then insert t (retrying i s) else retrying i s - {t})"
  by (auto simp: retrying_def continue_def)

lemma continue_sels [simp]:
  "sema (continue t as s) = sema s" "holder (continue t as s) = holder s" "owners (continue t as s) = owners s"
  "running (continue t as s) = running s" "ready_list (continue t as s) = ready_list s"
  "all_list (continue t as s) = all_list s" "already_slept (continue t as s) = already_slept s"
  "idle_thread (continue t as s) = idle_thread s" "lvl (continue t as s) = lvl s" "runnable (continue t as s) = runnable s"
  "sched_ok (continue t as s) = sched_ok s"
  by (simp_all add: continue_def runnable_def)

lemma set_value_sels [simp]:
  "running (set_value i v s) = running s" "ready_list (set_value i v s) = ready_list s"
  "all_list (set_value i v s) = all_list s" "already_slept (set_value i v s) = already_slept s"
  "idle_thread (set_value i v s) = idle_thread s" "lvl (set_value i v s) = lvl s" "runnable (set_value i v s) = runnable s"
  "sched_ok (set_value i v s) = sched_ok s" "todo (set_value i v s) = todo s" "holder (set_value i v s) = holder s"
  "owners (set_value i v s) = owners s" "sema (set_value i v s) = (sema s)(i := (sema s i)\<lparr>value_of := v\<rparr>)"
  by (simp_all add: set_value_def runnable_def)

text \<open>
  Steps that move runnable threads around, and change neither the semaphores nor the waiting threads, keep
  the invariant.
\<close>

lemma wait_inv_frame:
  assumes inv: "wait_inv s" and eq: "sema s' = sema s" "idle_thread s' = idle_thread s" "todo s' (idle_thread s) = []"
    and ret: "\<And>i. retrying i s' = retrying i s" and all: "\<And>i t. t \<in> set (waiters (sema s i)) \<Longrightarrow> t \<in> set (all_list s')"
    and run: "runnable s \<subseteq> insert (idle_thread s) (runnable s') \<union> X" "runnable s' \<subseteq> insert (idle_thread s) (runnable s \<union> Y)"
    and slept: "set (already_slept s') \<subseteq> set (already_slept s)" and lvl: "\<And>t. t \<notin> X \<Longrightarrow> t \<notin> Y \<Longrightarrow> lvl s' t = lvl s t"
    and X: "\<And>i t. t \<in> X \<Longrightarrow> t \<notin> retrying i s" and Y: "\<And>i t. t \<in> Y \<Longrightarrow> t \<notin> retrying i s"
  shows "wait_inv s'"
proof -
  note d = wait_invD [OF inv]
  have aw: "awake i s' = awake i s" for i
    unfolding awake_def ret using run d(8) [of i] X [of _ i] Y [of _ i] by blast
  show ?thesis unfolding wait_inv_def ret aw eq
  proof (intro conjI allI)
    fix i
    have "t \<notin> runnable s'" if "t \<in> set (waiters (sema s i))" for t
      using d(3) [OF that] run(2) d(8) [of i] Y [of t i] by blast
    moreover have "t \<in> set (all_list s')" "t \<notin> set (already_slept s')" if "t \<in> set (waiters (sema s i))" for t
      using d(3) [OF that] all [OF that] slept by blast+
    ultimately show "set (waiters (sema s i)) \<subseteq> retrying i s \<inter> set (all_list s') - runnable s' - set (already_slept s')"
      using d(3) by blast
    show "retrying i s \<subseteq> set (waiters (sema s i)) \<union> runnable s'"
      using d(4,8) [where i = i] run(1) X [of _ i] by blast
    show "\<forall>t \<in> retrying i s. lvl s' t = INTR_OFF" using d(5) lvl X Y by metis
    show "retrying i s \<noteq> {} \<longrightarrow> sema_nonnull i" using d(6) by blast
    show "waiters (sema s i) \<noteq> [] \<longrightarrow> unat (value_of (sema s i)) \<le> card (awake i s)" using d(7) by blast
  qed (use d(1,2) in simp_all)
qed

lemma running_not_waiter:
  "wait_inv s \<Longrightarrow> running s \<notin> set (waiters (sema s i))"
  using wait_invD(3) [of s "running s" i] by (auto simp: runnable_def)

lemma waiter_blocked:
  assumes "sched_ok s" and "wait_inv s" and "t \<in> set (waiters (sema s i))"
  shows "is_thread s t" "st s t = THREAD_BLOCKED" "t \<noteq> idle_thread s"
proof -
  have w: "t \<in> set (all_list s)" "t \<noteq> running s" "t \<notin> set (ready_list s)" "t \<in> retrying i s"
    using wait_invD(3) [OF assms(2,3)] by (auto simp: runnable_def)
  show idle: "t \<noteq> idle_thread s" using w(4) wait_invD(8) [OF assms(2)] by blast
  have "queues_ok s" "st s t \<noteq> THREAD_RUNNING" using assms(1) w(1,2) by (auto simp: sched_ok_def sched_inv_def)
  then show "is_thread s t" "st s t = THREAD_BLOCKED"
    using w idle by (cases "st s t"; auto simp: queues_ok_def)+
qed

text \<open>A thread that gets past the loop of \<^verbatim>\<open>sema_down\<close>.\<close>

lemma wait_inv_take:
  assumes inv: "wait_inv s" and v: "value_of (sema s i) \<noteq> 0" and idle: "running s \<noteq> idle_thread s"
    and only: "\<And>j. j \<noteq> i \<Longrightarrow> running s \<notin> retrying j s" and rest: "\<And>j l r. rest \<noteq> Down_Retry j l # r"
  shows "wait_inv (continue (running s) rest (set_value i (value_of (sema s i) - 1) s\<lparr>level := l\<rparr>))" (is "wait_inv ?s")
proof -
  note d = wait_invD [OF inv]
  let ?t = "running s"
  have run: "runnable ?s = runnable s" by (simp add: runnable_def)
  have ret: "retrying j ?s = retrying j s - {?t}" for j
    using rest by (simp add: retrying_continue) (simp add: retrying_def set_value_def)
  have aw: "awake j ?s = awake j s - {?t}" for j unfolding awake_def ret run by blast
  have other: "j \<noteq> i \<Longrightarrow> awake j ?s = awake j s" for j using only [of j] unfolding aw by (auto simp: awake_def)
  have val: "unat (value_of (sema s i) - 1) \<le> card (awake i ?s)" if "waiters (sema s i) \<noteq> []"
  proof -
    have "unat (value_of (sema s i) - 1) = unat (value_of (sema s i)) - 1" using v by (simp add: unat_minus_one)
    also have "\<dots> \<le> card (awake i s) - 1" using d(7) [OF that] by simp
    also have "\<dots> \<le> card (awake i s - {?t})" by (simp add: card_Diff_singleton_if)
    finally show ?thesis by (simp add: aw)
  qed
  have sel: "all_list ?s = all_list s" "already_slept ?s = already_slept s" "idle_thread ?s = idle_thread s"
    "waiters (sema ?s j) = waiters (sema s j)" "t \<noteq> ?t \<Longrightarrow> lvl ?s t = lvl s t" for j t
    by (simp_all add: lvl_def set_value_def)
  show ?thesis unfolding wait_inv_def sel ret run
  proof (intro conjI allI)
    show "todo ?s (idle_thread s) = []" using idle d(1) by (simp add: continue_def)
    fix j
    show "set (waiters (sema s j)) \<subseteq> (retrying j s - {?t}) \<inter> set (all_list s) - runnable s - set (already_slept s)"
      using d(3) [of _ j] running_not_waiter [OF inv, of j] by blast
    show "retrying j s - {?t} \<subseteq> set (waiters (sema s j)) \<union> runnable s" using d(4) by blast
    show "\<forall>t \<in> retrying j s - {?t}. lvl ?s t = INTR_OFF" using d(5) sel(5) by (metis DiffD1 DiffD2 insertI1)
    show "retrying j s - {?t} \<noteq> {} \<longrightarrow> sema_nonnull j" using d(6) by blast
    show "waiters (sema s j) \<noteq> [] \<longrightarrow> unat (value_of (sema ?s j)) \<le> card (awake j ?s)"
      using val d(7) [of j] other [of j] by (cases "j = i") simp_all
  qed (use d(2) in simp)
qed

text \<open>A thread that finds the value zero and blocks.\<close>

lemma wait_inv_block:
  assumes inv: "wait_inv s" and ok: "sched_ok s" and v: "value_of (sema s i) = 0" and idle: "running s \<noteq> idle_thread s"
    and only: "\<And>j. j \<noteq> i \<Longrightarrow> running s \<notin> retrying j s" and nn: "sema_nonnull i"
    and s': "running s' = next_thread s" "ready_list s' = tl (ready_list s)" "all_list s' = all_list s"
      "already_slept s' = already_slept s" "idle_thread s' = idle_thread s" "lvl s' = (lvl s)(running s := INTR_OFF)"
      "sema s' = (sema s)(i := (sema s i)\<lparr>waiters := waiters (sema s i) @ [running s]\<rparr>)" "todo s' = todo s"
  shows "wait_inv (continue (running s) (Down_Retry i l # rest) s')" (is "wait_inv ?s")
proof -
  note d = wait_invD [OF inv] and q = sched_invD [OF ok [unfolded sched_ok_def, THEN conjunct1]]
  let ?t = "running s"
  have run: "runnable ?s \<subseteq> insert (idle_thread s) (runnable s) - {?t}" "runnable s \<subseteq> insert ?t (runnable ?s)"
    using q(1,3) idle s'(1,2) by (cases "ready_list s"; auto simp: runnable_def next_thread_def queues_ok_def)+
  have ret: "retrying j ?s = (if j = i then insert ?t (retrying j s) else retrying j s)" for j
    using only [of j] by (auto simp: retrying_continue) (auto simp: retrying_def s'(8))
  have aw: "awake j ?s = awake j s" if "j \<noteq> i" for j
    using that run d(8) [of j] only [OF that] unfolding awake_def ret by auto
  have sel: "all_list ?s = all_list s" "already_slept ?s = already_slept s" "idle_thread ?s = idle_thread s"
    "waiters (sema ?s j) = (if j = i then waiters (sema s i) @ [?t] else waiters (sema s j))"
    "value_of (sema ?s j) = value_of (sema s j)" "lvl ?s = (lvl s)(?t := INTR_OFF)" for j
    by (simp_all add: s')
  show ?thesis unfolding wait_inv_def sel
  proof (intro conjI allI)
    show "todo ?s (idle_thread s) = []" using idle d(1) by (simp add: continue_def s'(8))
    fix j
    show "distinct (if j = i then waiters (sema s i) @ [?t] else waiters (sema s j))"
      using d(2) running_not_waiter [OF inv] by simp
    have "w \<in> retrying j ?s \<and> w \<in> set (all_list s) \<and> w \<notin> runnable ?s \<and> w \<notin> set (already_slept s)"
      if "w \<in> set (waiters (sema s j))" for w
      using d(3) [OF that] d(8) [of j] run(1) by (auto simp: ret)
    moreover have "?t \<in> set (all_list s)" "?t \<notin> runnable ?s" "?t \<notin> set (already_slept s)" using q run(1) by auto
    ultimately show "set (if j = i then waiters (sema s i) @ [?t] else waiters (sema s j))
        \<subseteq> retrying j ?s \<inter> set (all_list s) - runnable ?s - set (already_slept s)"
      by (cases "j = i") (auto simp: ret)
    show "retrying j ?s \<subseteq> set (if j = i then waiters (sema s i) @ [?t] else waiters (sema s j)) \<union> runnable ?s"
      using d(4) [of _ j] run(2) only [of j] by (cases "j = i") (auto simp: ret)
    show "\<forall>t \<in> retrying j ?s. ((lvl s)(?t := INTR_OFF)) t = INTR_OFF" using d(5) by (auto simp: ret)
    show "retrying j ?s \<noteq> {} \<longrightarrow> sema_nonnull j" using d(6) nn by (auto simp: ret)
    show "(if j = i then waiters (sema s i) @ [?t] else waiters (sema s j)) \<noteq> [] \<longrightarrow>
        unat (value_of (sema s j)) \<le> card (awake j ?s)"
      using v d(7) [of j] aw [of j] by (cases "j = i") simp_all
  qed
qed

text \<open>\<^verbatim>\<open>sema_up\<close> on a semaphore with and without waiters.\<close>

definition after_up :: "sema_id \<Rightarrow> 'a ksync_scheme \<Rightarrow> 'a ksync_scheme" where
  "after_up i s = (case waiters (sema s i) of
      [] \<Rightarrow> set_value i (value_of (sema s i) + 1) s
    | t # ts \<Rightarrow> set_value i (value_of (sema s i) + 1)
        (set_status t THREAD_READY (set_waiters i ts (s\<lparr>ready_list := ready_list s @ [t]\<rparr>))))"

lemma after_up_sels [simp]:
  "todo (after_up i s) = todo s" "holder (after_up i s) = holder s" "owners (after_up i s) = owners s"
  "idle_thread (after_up i s) = idle_thread s" "all_list (after_up i s) = all_list s" "running (after_up i s) = running s"
  "already_slept (after_up i s) = already_slept s" "lvl (after_up i s) = lvl s"
  "sema (after_up i s) = (sema s)(i := \<lparr>value_of = value_of (sema s i) + 1, waiters = tl (waiters (sema s i))\<rparr>)"
  "runnable (after_up i s) = runnable s \<union> set (take 1 (waiters (sema s i)))"
  by (auto simp: after_up_def set_value_def set_waiters_def set_status_def upd_thread_def lvl_def runnable_def fun_eq_iff
      split: list.splits)

lemma sema_up_after:
  assumes "sched_ok s" and "wait_inv s" and "sema_nonnull i"
  shows "sema_up i s = Some (after_up i s)" and "sched_ok (after_up i s)"
proof -
  show "sema_up i s = Some (after_up i s)"
    unfolding after_up_def using assms waiter_blocked by (intro sema_up_eq) blast+
  show "sched_ok (after_up i s)"
  proof (cases "waiters (sema s i)")
    case (Cons t ts)
    then have "t \<in> set (waiters (sema s i))" by simp
    from wait_invD(3) [OF assms(2) this] waiter_blocked [OF assms(1,2) this] assms(1)
    have "sched_inv (set_status t THREAD_READY (s\<lparr>ready_list := ready_list s @ [t]\<rparr>))"
      by (intro unblock_inv) (auto simp: sched_ok_def)
    then have "sched_ok (set_status t THREAD_READY (s\<lparr>ready_list := ready_list s @ [t]\<rparr>))"
      using assms(1) by (simp add: sched_ok_def set_status_def upd_thread_def)
    then show ?thesis
      by (simp add: after_up_def Cons set_value_def set_waiters_def set_status_def upd_thread_def sched_ok_def
          sched_inv_def queues_ok_def is_thread_def)
  qed (use assms(1) in \<open>simp add: after_up_def\<close>)
qed

lemma unat_Suc_le: "unat (x + 1 :: u32) \<le> Suc (unat x)"
  by (metis add.commute order_refl plus_1_eq_Suc unatSuc unat_0 zero_le)

lemma wait_inv_up:
  assumes inv: "wait_inv s"
  shows "wait_inv (after_up i s)" (is "wait_inv ?s")
proof -
  note d = wait_invD [OF inv]
  let ?w = "set (take 1 (waiters (sema s i)))"
  have ret: "retrying j ?s = retrying j s" for j by (simp add: retrying_def)
  have w: "?w \<subseteq> retrying i s - runnable s" "j \<noteq> i \<Longrightarrow> ?w \<inter> retrying j s = {}" for j
    using d(3) [of _ i] set_take_subset [of 1 "waiters (sema s i)"] by (blast, fastforce simp: retrying_def)
  have aw: "awake j ?s = awake j s \<union> (if j = i then ?w else {})" for j
    using w(1) w(2) [of j] by (auto simp: awake_def ret)
  have split: "set (waiters (sema s i)) = ?w \<union> set (tl (waiters (sema s i)))" "?w \<inter> set (tl (waiters (sema s i))) = {}"
    using d(2) [of i] by (cases "waiters (sema s i)"; auto)+
  have val: "unat (value_of (sema s i) + 1) \<le> card (awake i ?s)" if ne: "tl (waiters (sema s i)) \<noteq> []"
  proof -
    obtain x where x: "?w = {x}" "waiters (sema s i) \<noteq> []" using ne by (cases "waiters (sema s i)") auto
    then have "card (awake i ?s) = Suc (card (awake i s))" using w(1) by (auto simp: aw) (auto simp: awake_def)
    then show ?thesis using d(7) [OF x(2)] unat_Suc_le [of "value_of (sema s i)"] by simp
  qed
  show ?thesis unfolding wait_inv_def ret
  proof (intro conjI allI)
    fix j
    show "distinct (waiters (sema ?s j))" using d(2) by (simp add: distinct_tl)
    have "t \<notin> runnable ?s" if "t \<in> set (waiters (sema ?s j))" for t
      using that d(3) [of t j] split w(2) [of j] by (cases "j = i") auto
    then show "set (waiters (sema ?s j)) \<subseteq> retrying j s \<inter> set (all_list ?s) - runnable ?s - set (already_slept ?s)"
      using d(3) [of _ j] split(1) by (cases "j = i") auto
    show "retrying j s \<subseteq> set (waiters (sema ?s j)) \<union> runnable ?s" using d(4) [of _ j] split(1) by (cases "j = i") auto
    show "\<forall>t \<in> retrying j s. lvl ?s t = INTR_OFF" using d(5) by simp
    show "retrying j s \<noteq> {} \<longrightarrow> sema_nonnull j" using d(6) by blast
    show "waiters (sema ?s j) \<noteq> [] \<longrightarrow> unat (value_of (sema ?s j)) \<le> card (awake j ?s)"
      using val d(7) [of j] by (cases "j = i") (simp_all add: aw)
  qed (use d(1) in simp)
qed

section \<open>Locks\<close>

text \<open>
  What a thread may still have to do: the steps of the calls keep the steps on a lock together.  Between taking
  the semaphore of a lock and recording the holder, and between clearing the holder and giving the
  semaphore back, a thread has the lock in hand.
\<close>

fun plain :: "action \<Rightarrow> bool" where
  "plain (Down (Lock_Sema l)) = False"
| "plain (Down_Retry i l) = False"
| "plain (Up (Lock_Sema l)) = False"
| "plain (Set_Holder l) = False"
| "plain (Clear_Holder l) = False"
| "plain a = True"

inductive steps_ok :: "action list \<Rightarrow> bool" where
  steps_nil: "steps_ok []"
| steps_plain: "plain a \<Longrightarrow> steps_ok r \<Longrightarrow> steps_ok (a # r)"
| steps_take: "steps_ok r \<Longrightarrow> steps_ok (Down (Lock_Sema l) # Set_Holder l # r)"
| steps_give: "steps_ok r \<Longrightarrow> steps_ok (Check_Held l # Clear_Holder l # Up (Lock_Sema l) # r)"

inductive todo_ok :: "action list \<Rightarrow> bool" where
  todo_steps: "steps_ok r \<Longrightarrow> todo_ok r"
| todo_retry: "steps_ok r \<Longrightarrow> todo_ok (Down_Retry (Sema a) lv # r)"
| todo_retry_lock: "steps_ok r \<Longrightarrow> todo_ok (Down_Retry (Lock_Sema l) lv # Set_Holder l # r)"
| todo_set: "steps_ok r \<Longrightarrow> todo_ok (Set_Holder l # r)"
| todo_clear: "steps_ok r \<Longrightarrow> todo_ok (Clear_Holder l # Up (Lock_Sema l) # r)"
| todo_give: "steps_ok r \<Longrightarrow> todo_ok (Up (Lock_Sema l) # r)"

inductive_simps steps_ok_simps [simp]:
  "steps_ok []" "steps_ok (Down (Lock_Sema l) # r)" "steps_ok (Down_Retry i lv # r)" "steps_ok (Set_Holder l # r)"
  "steps_ok (Clear_Holder l # r)" "steps_ok (Up (Lock_Sema l) # r)" "steps_ok (Down (Sema a) # r)"
  "steps_ok (Up (Sema a) # r)" "steps_ok (Try_Lock l # r)" "steps_ok (Assert_Nonnull p # r)" "steps_ok (Assert_Not_Intr # r)"
  "steps_ok (Check_Not_Held l # r)" "steps_ok (Check_Held l # r)" "steps_ok (Init_Waiter w # r)" "steps_ok (Push_Waiter c w # r)"
  "steps_ok (Signal c # r)" "steps_ok (Broadcast c l # r)"

inductive_simps todo_ok_simps:
  "todo_ok []" "todo_ok (a # r)"

lemma call_steps: "call as \<Longrightarrow> steps_ok as"
  by (induction rule: call.induct)
    (simp_all add: lock_acquire_def lock_try_acquire_def lock_release_def cond_wait_def cond_signal_def cond_broadcast_def)

definition in_hand :: "addr \<Rightarrow> 'a ksync_scheme \<Rightarrow> addr set" where
  "in_hand l s = {t. \<exists>r. todo s t = Set_Holder l # r \<or> todo s t = Up (Lock_Sema l) # r}"

definition lock_inv :: "addr \<Rightarrow> 'a ksync_scheme \<Rightarrow> bool" where
  "lock_inv l s \<longleftrightarrow>
     (if value_of (sema s (Lock_Sema l)) = 0
      then (holder s l \<noteq> NULL \<and> in_hand l s = {} \<or> holder s l = NULL \<and> (\<exists>t. in_hand l s = {t}))
      else value_of (sema s (Lock_Sema l)) = 1 \<and> holder s l = NULL \<and> in_hand l s = {}) \<and>
     owners s l = (if holder s l = NULL then [] else [holder s l]) \<and>
     (\<forall>t r. todo s t = Clear_Holder l # r \<longrightarrow> holder s l = t)"

definition locks_inv :: "'a ksync_scheme \<Rightarrow> bool" where
  "locks_inv s \<longleftrightarrow> todo s NULL = [] \<and> (\<forall>t. todo_ok (todo s t)) \<and> (\<forall>l. lock_inv l s)"

text \<open>A thread has the lock in hand, or is about to clear its holder, according to the first step it has to do.\<close>

fun holds_hand :: "addr \<Rightarrow> action list \<Rightarrow> bool" where
  "holds_hand l (Set_Holder l' # r) = (l' = l)"
| "holds_hand l (Up (Lock_Sema l') # r) = (l' = l)"
| "holds_hand l _ = False"

fun clears :: "addr \<Rightarrow> action list \<Rightarrow> bool" where
  "clears l (Clear_Holder l' # r) = (l' = l)"
| "clears l _ = False"

lemma holds_hand_iff: "holds_hand l as \<longleftrightarrow> (\<exists>r. as = Set_Holder l # r \<or> as = Up (Lock_Sema l) # r)"
  by (induction l as rule: holds_hand.induct) auto

lemma clears_iff: "clears l as \<longleftrightarrow> (\<exists>r. as = Clear_Holder l # r)"
  by (induction l as rule: clears.induct) auto

lemma in_hand_alt: "in_hand l s = {t. holds_hand l (todo s t)}"
  by (simp add: in_hand_def holds_hand_iff)

lemma lock_inv_alt: "lock_inv l s \<longleftrightarrow>
    (if value_of (sema s (Lock_Sema l)) = 0
     then (holder s l \<noteq> NULL \<and> in_hand l s = {} \<or> holder s l = NULL \<and> (\<exists>t. in_hand l s = {t}))
     else value_of (sema s (Lock_Sema l)) = 1 \<and> holder s l = NULL \<and> in_hand l s = {}) \<and>
    owners s l = (if holder s l = NULL then [] else [holder s l]) \<and>
    (\<forall>t. clears l (todo s t) \<longrightarrow> holder s l = t)"
  unfolding lock_inv_def clears_iff by blast

lemma steps_ok_hand: "steps_ok as \<Longrightarrow> \<not> holds_hand l as" "steps_ok as \<Longrightarrow> \<not> clears l as"
  by (induction rule: steps_ok.induct; (simp; fail)?; case_tac a rule: plain.cases; simp)+

text \<open>A lock whose state, holder and threads that have it in hand do not change.\<close>

lemma lock_inv_frame:
  assumes "lock_inv l s" and "value_of (sema s' (Lock_Sema l)) = value_of (sema s (Lock_Sema l))"
    and "holder s' l = holder s l" and "owners s' l = owners s l" and "todo s' = (todo s)(t := as)"
    and "holds_hand l as \<longleftrightarrow> holds_hand l (todo s t)" and "clears l as \<Longrightarrow> clears l (todo s t) \<or> holder s l = t"
  shows "lock_inv l s'"
proof -
  have "in_hand l s' = in_hand l s" using assms(5,6) by (auto simp: in_hand_alt)
  moreover have "holder s l = u" if "clears l (todo s' u)" for u
    using that assms(1,5,7) by (cases "u = t") (auto simp: lock_inv_alt)
  ultimately show ?thesis using assms(1-4) unfolding lock_inv_alt by simp
qed

lemma in_hand_update:
  "todo s' = (todo s)(t := as) \<Longrightarrow>
    in_hand l s' = (if holds_hand l as then insert t (in_hand l s) else in_hand l s - {t})"
  by (auto simp: in_hand_alt)

text \<open>Taking the semaphore of a lock, recording the holder, clearing the holder, giving the semaphore back.\<close>

lemma lock_inv_take:
  assumes "lock_inv l s" and "value_of (sema s (Lock_Sema l)) \<noteq> 0" and "todo s' = (todo s)(t := Set_Holder l # r)"
    and "value_of (sema s' (Lock_Sema l)) = value_of (sema s (Lock_Sema l)) - 1" and "holder s' = holder s" "owners s' = owners s"
  shows "lock_inv l s'"
  using assms in_hand_update [OF assms(3), of l] by (auto simp: lock_inv_alt)

lemma lock_inv_set:
  assumes "lock_inv l s" and "todo s t = Set_Holder l # r" and "todo s' = (todo s)(t := as)" and "steps_ok as" and "t \<noteq> NULL" and "todo s NULL = []"
    and "sema s' = sema s" "holder s' l = t" "owners s' l = t # owners s l"
  shows "lock_inv l s'"
proof -
  have "t \<in> in_hand l s" using assms(2) by (auto simp: in_hand_def)
  then have h: "in_hand l s = {t}" "holder s l = NULL" "value_of (sema s (Lock_Sema l)) = 0"
    using assms(1) by (auto simp: lock_inv_def split: if_splits)
  have "\<not> clears l (todo s u)" for u
  proof
    assume "clears l (todo s u)"
    moreover from this have "u = NULL" using assms(1) h(2) by (simp add: lock_inv_alt)
    ultimately show False using assms(6) by simp
  qed
  then show ?thesis
    using assms h steps_ok_hand [OF assms(4), of l] in_hand_update [OF assms(3), of l] unfolding lock_inv_alt by auto
qed

lemma lock_inv_clear:
  assumes "lock_inv l s" and "todo s t = Clear_Holder l # r" and "todo s' = (todo s)(t := Up (Lock_Sema l) # r')" and "t \<noteq> NULL"
    and "sema s' = sema s" "holder s' l = NULL" "owners s' l = remove1 t (owners s l)"
  shows "lock_inv l s'"
proof -
  have h: "holder s l = t" using assms(1,2) by (simp add: lock_inv_def)
  then have "in_hand l s = {}" "value_of (sema s (Lock_Sema l)) = 0" "owners s l = [t]"
    using assms(1,4) by (auto simp: lock_inv_def split: if_splits)
  moreover have "clears l (todo s' u) \<Longrightarrow> False" for u using assms(1,3) h by (cases "u = t") (auto simp: lock_inv_alt)
  ultimately show ?thesis using assms(5,6,7) in_hand_update [OF assms(3), of l] unfolding lock_inv_alt by auto
qed

lemma lock_inv_give:
  assumes "lock_inv l s" and "todo s t = Up (Lock_Sema l) # r" and "todo s' = (todo s)(t := as)" and "steps_ok as"
    and "value_of (sema s' (Lock_Sema l)) = value_of (sema s (Lock_Sema l)) + 1" and "holder s' = holder s" "owners s' = owners s"
  shows "lock_inv l s'"
proof -
  have "t \<in> in_hand l s" using assms(2) by (auto simp: in_hand_def)
  then have "in_hand l s = {t}" "holder s l = NULL" "value_of (sema s (Lock_Sema l)) = 0"
    using assms(1) by (auto simp: lock_inv_def split: if_splits)
  then show ?thesis
    using assms steps_ok_hand [OF assms(4), of l] in_hand_update [OF assms(3), of l] unfolding lock_inv_alt by auto
qed

section \<open>The invariant of the synchronisation state\<close>

definition sync_inv :: "'a ksync_scheme \<Rightarrow> bool" where
  "sync_inv s \<longleftrightarrow> sched_ok s \<and> wait_inv s \<and> locks_inv s"

lemma sync_invD:
  assumes "sync_inv s"
  shows "sched_ok s" "wait_inv s" "todo_ok (todo s t)" "lock_inv l s" "todo s NULL = []"
    "thread_current s = Some (running s)" "running s \<noteq> NULL" "\<not> in_external_intr s"
  using assms thread_current_eq [of s] sched_invD(5) [of s]
  by (auto simp: sync_inv_def locks_inv_def sched_ok_def is_thread_def)

text \<open>
  Steps that only change the holder of a lock, the list of a condition variable or nothing at all; the
  thread neither waited nor starts to wait.
\<close>

definition quiet :: "'a ksync_scheme \<Rightarrow> 'a ksync_scheme \<Rightarrow> bool" where
  "quiet s s' \<longleftrightarrow> (\<exists>h c q. s' = s\<lparr>holder := h, cond_waiters := c, owners := q\<rparr>)"

lemma quiet_sels:
  assumes "quiet s s'"
  shows "sema s' = sema s" "todo s' = todo s" "runnable s' = runnable s" "all_list s' = all_list s" "sched_ok s' = sched_ok s"
    "already_slept s' = already_slept s" "idle_thread s' = idle_thread s" "lvl s' = lvl s"
  using assms by (auto simp: quiet_def runnable_def)

lemma quiet_refl: "quiet s s"
  unfolding quiet_def by (rule exI [of _ "holder s"], rule exI [of _ "cond_waiters s"], rule exI [of _ "owners s"]) simp

lemma wait_inv_quiet:
  assumes "wait_inv s" and "quiet s s'" and "\<And>i l r. todo s t \<noteq> Down_Retry i l # r" and "\<And>i l r. as \<noteq> Down_Retry i l # r"
    and "t \<noteq> idle_thread s"
  shows "wait_inv (continue t as s')"
proof (rule wait_inv_frame [OF assms(1), where X = "{}" and Y = "{}"])
  show "retrying i (continue t as s') = retrying i s" for i
    using assms(3,4) by (auto simp: retrying_def continue_def quiet_sels [OF assms(2)])
  show "todo (continue t as s') (idle_thread s) = []"
    using wait_invD(1) [OF assms(1)] assms(5) by (simp add: continue_def quiet_sels [OF assms(2)])
qed (use wait_invD(3) [OF assms(1)] in \<open>auto simp: quiet_sels [OF assms(2)]\<close>)

lemma steps_ok_no_retry: "steps_ok as \<Longrightarrow> as \<noteq> Down_Retry i l # r"
  by auto

lemma todo_ok_tl: "todo_ok (a # r) \<Longrightarrow> r \<noteq> Down_Retry i l # r'"
  by (cases a; auto simp: todo_ok_simps elim: steps_ok.cases)

text \<open>The running thread is inside a call.\<close>

definition in_call :: "action \<Rightarrow> action list \<Rightarrow> 'a ksync_scheme \<Rightarrow> bool" where
  "in_call a rest s \<longleftrightarrow> sync_inv s \<and> running s \<noteq> idle_thread s \<and> todo s (running s) = a # rest"

lemma in_callD:
  assumes "in_call a rest s"
  shows "sync_inv s" "running s \<noteq> idle_thread s" "todo s (running s) = a # rest" "todo_ok (a # rest)"
    "thread_current s = Some (running s)" "running s \<noteq> NULL"
  using assms sync_invD [of s] by (auto simp: in_call_def) (metis sync_invD(3))

lemma sync_inv_continue:
  assumes "sync_inv s" and "running s \<noteq> NULL" and "sched_ok s'" and "wait_inv (continue (running s) as s')" and "todo s' = todo s"
    and "todo_ok as" and "\<And>l. lock_inv l (continue (running s) as s')"
  shows "sync_inv (continue (running s) as s')"
  using assms by (auto simp: sync_inv_def locks_inv_def continue_def)

lemma quiet_step:
  assumes call: "in_call a rest s" and q: "quiet s s'" "holder s' = holder s" "owners s' = owners s"
    and a: "plain a" and as: "steps_ok as \<or> (\<exists>l. a = Check_Held l \<and> holder s l = running s \<and> clears l as \<and> todo_ok as)"
  shows "sync_inv (continue (running s) as s')"
proof (rule sync_inv_continue)
  note c = in_callD [OF call] and i = sync_invD [OF in_callD(1) [OF call]]
  show "sync_inv s" "running s \<noteq> NULL" by (rule c)+
  show "sched_ok s'" "todo s' = todo s" using i(1) by (simp_all add: quiet_sels [OF q(1)])
  show "todo_ok as" using as by (auto intro: todo_steps)
  have nr: "as \<noteq> Down_Retry j l # r" for j l r using as by (auto simp: clears_iff)
  show "wait_inv (continue (running s) as s')"
    by (rule wait_inv_quiet [OF i(2) q(1) _ nr c(2)]) (use a c(3) in auto)
  fix l
  have "\<not> holds_hand l as" "\<not> holds_hand l (a # rest)" "clears l as \<Longrightarrow> holder s l = running s"
    using as a steps_ok_hand [of as l] by (auto simp: clears_iff holds_hand_iff)
  then show "lock_inv l (continue (running s) as s')"
    using c(3) by (intro lock_inv_frame [OF i(4), where t = "running s" and as = as]) (auto simp: continue_def quiet_sels [OF q(1)] q)
qed

lemma set_holder_step:
  assumes call: "in_call (Set_Holder l) rest s" and ex: "exec (Set_Holder l) s = Some (as, s')"
  shows "sync_inv (continue (running s) (as @ rest) s')"
proof (rule sync_inv_continue)
  note c = in_callD [OF call] and i = sync_invD [OF in_callD(1) [OF call]]
  have s': "as = []" "s' = s\<lparr>holder := (holder s)(l := running s), owners := (owners s)(l := running s # owners s l)\<rparr>"
    using ex c(5) by simp_all
  have q: "quiet s s'" unfolding quiet_def s' by (intro exI [of _ "cond_waiters s"] exI) simp
  have steps: "steps_ok rest" using c(4) by (simp add: todo_ok_simps)
  show "sync_inv s" "running s \<noteq> NULL" by (rule c)+
  show "sched_ok s'" "todo s' = todo s" "todo_ok (as @ rest)" using i(1) steps by (simp_all add: s' todo_steps)
  show "wait_inv (continue (running s) (as @ rest) s')"
    by (rule wait_inv_quiet [OF i(2) q _ _ c(2)]) (use steps c(3) in \<open>auto simp: s'(1)\<close>)
  fix l'
  show "lock_inv l' (continue (running s) (as @ rest) s')"
  proof (cases "l' = l")
    case True
    show ?thesis unfolding True by (rule lock_inv_set [OF i(4) c(3) _ steps]) (use c i(5) in \<open>simp_all add: continue_def s'\<close>)
  next
    case False
    show ?thesis
      by (rule lock_inv_frame [OF i(4), where t = "running s" and as = rest])
        (use False c(3) steps_ok_hand [OF steps] in \<open>simp_all add: continue_def s'\<close>)
  qed
qed

lemma clear_holder_step:
  assumes call: "in_call (Clear_Holder l) rest s" and ex: "exec (Clear_Holder l) s = Some (as, s')"
  shows "sync_inv (continue (running s) (as @ rest) s')"
proof (rule sync_inv_continue)
  note c = in_callD [OF call] and i = sync_invD [OF in_callD(1) [OF call]]
  have s': "as = []" "s' = s\<lparr>holder := (holder s)(l := NULL), owners := (owners s)(l := remove1 (running s) (owners s l))\<rparr>"
    using ex c(5) by simp_all
  have q: "quiet s s'" unfolding quiet_def s' by (intro exI [of _ "cond_waiters s"] exI) simp
  obtain r where r: "rest = Up (Lock_Sema l) # r" "steps_ok r" using c(4) by (auto simp: todo_ok_simps)
  show "sync_inv s" "running s \<noteq> NULL" by (rule c)+
  show "sched_ok s'" "todo s' = todo s" "todo_ok (as @ rest)" using i(1) r by (simp_all add: s' todo_give)
  show "wait_inv (continue (running s) (as @ rest) s')"
    by (rule wait_inv_quiet [OF i(2) q _ _ c(2)]) (use c(3) in \<open>auto simp: s'(1) r(1)\<close>)
  fix l'
  show "lock_inv l' (continue (running s) (as @ rest) s')"
  proof (cases "l' = l")
    case True
    show ?thesis unfolding True by (rule lock_inv_clear [OF i(4) c(3)]) (use c in \<open>simp_all add: continue_def s' r\<close>)
  next
    case False
    show ?thesis
      by (rule lock_inv_frame [OF i(4), where t = "running s" and as = rest])
        (use False c(3) in \<open>simp_all add: continue_def s' r(1)\<close>)
  qed
qed

text \<open>The rest of a call after a \<^verbatim>\<open>sema_down\<close>: for a lock, the thread records itself as the holder.\<close>

definition after_down :: "sema_id \<Rightarrow> action list \<Rightarrow> bool" where
  "after_down i rest \<longleftrightarrow> (case i of Sema a \<Rightarrow> steps_ok rest | Lock_Sema l \<Rightarrow> \<exists>r. rest = Set_Holder l # r \<and> steps_ok r)"

lemma after_downD:
  assumes "after_down i rest"
  shows "rest \<noteq> Down_Retry j l # r" "todo_ok rest" "todo_ok (Down_Retry i lv # rest)" "\<not> clears k rest"
    "holds_hand k rest \<longleftrightarrow> i = Lock_Sema k"
  using assms steps_ok_hand [of rest k]
  by (auto simp: after_down_def todo_steps todo_set todo_retry todo_retry_lock split: sema_id.splits)

lemma sync_inv_sync_part:
  assumes "sync_part s' = sync_part (set_waiters i ws s)"
  shows "sema s' = (sema s)(i := (sema s i)\<lparr>waiters := ws\<rparr>)" "holder s' = holder s" "owners s' = owners s" "todo s' = todo s"
  using assms by (simp_all add: sync_part_def set_waiters_def)

lemma down_loop_step:
  assumes call: "in_call a rest s" and a: "a = Down i \<or> a = Down_Retry i lv" and off: "level s = INTR_OFF"
    and nn: "sema_nonnull i" and ad: "after_down i rest"
  shows "\<exists>as s'. down_loop i l s = Some (as, s') \<and> sync_inv (continue (running s) (as @ rest) s')"
proof (cases "value_of (sema s i) = 0")
  note c = in_callD [OF call] and i = sync_invD [OF in_callD(1) [OF call]] and d = after_downD [OF ad]
  have only: "running s \<notin> retrying j s" if "j \<noteq> i" for j using that a c(3) by (auto simp: retrying_def)
  case True
  from down_loop_blocks [OF i(1) off True] obtain s' where s': "down_loop i l s = Some ([Down_Retry i l], s')" "sched_ok s'"
    "running s' = next_thread s" "ready_list s' = tl (ready_list s)" "all_list s' = all_list s"
    "already_slept s' = already_slept s" "idle_thread s' = idle_thread s" "lvl s' = (lvl s)(running s := INTR_OFF)"
    "sync_part s' = sync_part (set_waiters i (waiters (sema s i) @ [running s]) s)"
    by blast
  note p = sync_inv_sync_part [OF s'(9)]
  have "sync_inv (continue (running s) (Down_Retry i l # rest) s')"
  proof (rule sync_inv_continue [OF c(1,6) s'(2) _ p(4) d(3)])
    show "wait_inv (continue (running s) (Down_Retry i l # rest) s')"
      by (rule wait_inv_block [OF i(2,1) True c(2) only nn s'(3-8) p(1,4)])
    fix k
    show "lock_inv k (continue (running s) (Down_Retry i l # rest) s')"
      by (rule lock_inv_frame [OF i(4), where t = "running s" and as = "Down_Retry i l # rest"])
        (use a c(3) in \<open>auto simp: continue_def p\<close>)
  qed
  then show ?thesis using s'(1) by auto
next
  note c = in_callD [OF call] and i = sync_invD [OF in_callD(1) [OF call]] and d = after_downD [OF ad]
  have only: "running s \<notin> retrying j s" if "j \<noteq> i" for j using that a c(3) by (auto simp: retrying_def)
  case False
  let ?s = "set_value i (value_of (sema s i) - 1) s\<lparr>level := l\<rparr>"
  have "sync_inv (continue (running s) rest ?s)"
  proof (rule sync_inv_continue [OF c(1,6) _ _ _ d(2)])
    show "sched_ok ?s" "todo ?s = todo s" using i(1) by simp_all
    show "wait_inv (continue (running s) rest ?s)" by (rule wait_inv_take [OF i(2) False c(2) only d(1)])
    fix k
    show "lock_inv k (continue (running s) rest ?s)"
    proof (cases "i = Lock_Sema k")
      case True
      then obtain r where "rest = Set_Holder k # r" using ad by (auto simp: after_down_def)
      with True False show ?thesis
        by (intro lock_inv_take [OF i(4), where t = "running s" and r = r]) (simp_all add: continue_def)
    next
      case other: False
      then show ?thesis
        by (intro lock_inv_frame [OF i(4), where t = "running s" and as = rest])
          (use a c(3) d(4,5) in \<open>auto simp: continue_def\<close>)
    qed
  qed
  then show ?thesis using down_loop_takes [OF i(1) False, of l] by simp
qed

lemma locks_inv_cong:
  assumes "sema s' = sema s" "holder s' = holder s" "owners s' = owners s" "todo s' = todo s"
  shows "locks_inv s' = locks_inv s"
  unfolding locks_inv_def lock_inv_def in_hand_def assms ..

lemma sync_inv_off:
  assumes "sync_inv s"
  shows "sync_inv (s\<lparr>level := INTR_OFF\<rparr>)"
proof -
  let ?s = "s\<lparr>level := INTR_OFF\<rparr>"
  note i = sync_invD [OF assms]
  have ret: "retrying i ?s = retrying i s" "awake i ?s = awake i s" "runnable ?s = runnable s" for i
    by (simp_all add: retrying_def awake_def runnable_def)
  have "lvl ?s t = INTR_OFF" if "t \<in> retrying i s" for t i
    using wait_invD(5) [OF i(2) that] by (simp add: lvl_def split: if_splits)
  then have "wait_inv ?s" using i(2) by (simp add: wait_inv_def ret)
  moreover have "locks_inv ?s = locks_inv s" by (rule locks_inv_cong) simp_all
  ultimately show ?thesis using assms by (simp add: sync_inv_def)
qed

lemma down_step:
  assumes call: "in_call a rest s" and a: "a = Down i \<and> sema_nonnull i \<or> a = Down_Retry i lv"
  shows "\<exists>as s'. exec a s = Some (as, s') \<and> sync_inv (continue (running s) (as @ rest) s')"
proof -
  note c = in_callD [OF call] and i = sync_invD [OF in_callD(1) [OF call]]
  have ad: "after_down i rest"
    using c(4) a by (cases i) (auto simp: after_down_def todo_ok_simps)
  show ?thesis
  proof (cases "a = Down i")
    case True
    let ?s = "s\<lparr>level := INTR_OFF\<rparr>"
    have "in_call (Down i) rest ?s" using sync_inv_off [OF c(1)] c(2,3) True by (simp add: in_call_def)
    then have "\<exists>as s'. down_loop i (level s) ?s = Some (as, s') \<and> sync_inv (continue (running ?s) (as @ rest) s')"
      by (rule down_loop_step [where lv = lv]) (use a ad True in simp_all)
    then show ?thesis using a True i(8) by (simp add: sema_down_def intr_simps)
  next
    case False
    then have r: "running s \<in> retrying i s" using a c(3) by (auto simp: retrying_def)
    then have "level s = INTR_OFF" "sema_nonnull i" using wait_invD(5,6) [OF i(2) r] by (simp_all add: lvl_def)
    with False a down_loop_step [OF call, of i lv lv] ad show ?thesis by auto
  qed
qed

lemma wait_inv_continue:
  assumes "wait_inv s" and "\<And>i l r. todo s t \<noteq> Down_Retry i l # r" and "\<And>i l r. as \<noteq> Down_Retry i l # r" and "t \<noteq> idle_thread s"
  shows "wait_inv (continue t as s)"
proof (rule wait_inv_quiet [OF assms(1) _ assms(2,3,4)])
  show "quiet s s" by (rule quiet_refl)
qed

lemma up_step:
  assumes call: "in_call (Up i) rest s" and nn: "sema_nonnull i"
  shows "\<exists>s'. exec (Up i) s = Some ([], s') \<and> sync_inv (continue (running s) rest s')"
proof -
  note c = in_callD [OF call] and i = sync_invD [OF in_callD(1) [OF call]]
  note up = sema_up_after [OF i(1,2) nn]
  have steps: "steps_ok rest" using c(4) by (cases i) (auto simp: todo_ok_simps)
  have "sync_inv (continue (running s) rest (after_up i s))"
  proof (rule sync_inv_continue [OF c(1,6) up(2)])
    show "wait_inv (continue (running s) rest (after_up i s))"
      by (rule wait_inv_continue [OF wait_inv_up [OF i(2)]]) (use c(2,3) steps in auto)
    show "todo (after_up i s) = todo s" "todo_ok rest" using steps by (simp_all add: todo_steps)
    fix l
    note h = steps_ok_hand [OF steps, of l]
    show "lock_inv l (continue (running s) rest (after_up i s))"
    proof (cases "i = Lock_Sema l")
      case True
      show ?thesis
        by (rule lock_inv_give [OF i(4), where t = "running s" and as = rest]) (use c(3) steps True in \<open>auto simp: continue_def\<close>)
    next
      case False
      show ?thesis
        by (rule lock_inv_frame [OF i(4), where t = "running s" and as = rest])
          (use False c(3) h in \<open>auto simp: continue_def holds_hand_iff\<close>)
    qed
  qed
  then show ?thesis using up(1) by simp
qed

lemma set_value_level_same: "set_value i v s\<lparr>level := level s\<rparr> = set_value i v s"
  by (simp add: set_value_def level_same)

lemma try_step:
  assumes call: "in_call (Try_Lock k) rest s"
  shows "\<exists>as s'. exec (Try_Lock k) s = Some (as, s') \<and> sync_inv (continue (running s) (as @ rest) s')"
proof -
  note c = in_callD [OF call] and i = sync_invD [OF in_callD(1) [OF call]]
  let ?i = "Lock_Sema k"
  have steps: "steps_ok rest" using c(4) by (simp add: todo_ok_simps)
  have eq: "sema_try_down ?i s =
      Some (if value_of (sema s ?i) = 0 then (False, s) else (True, set_value ?i (value_of (sema s ?i) - 1) s))"
    by (rule sema_try_down_eq [OF i(1)]) (simp add: sema_nonnull_def)
  show ?thesis
  proof (cases "value_of (sema s ?i) = 0")
    case True
    from quiet_step [OF call quiet_refl, of rest] steps True eq show ?thesis by simp
  next
    case False
    let ?s = "set_value ?i (value_of (sema s ?i) - 1) s"
    have "sync_inv (continue (running s) (Set_Holder k # rest) ?s)"
    proof (rule sync_inv_continue [OF c(1,6)])
      show "sched_ok ?s" "todo ?s = todo s" "todo_ok (Set_Holder k # rest)" using i(1) steps by (simp_all add: todo_set)
      show "wait_inv (continue (running s) (Set_Holder k # rest) ?s)"
        using wait_inv_take [OF i(2) False c(2), of "Set_Holder k # rest" "level s"] c(3)
        by (simp add: retrying_def set_value_level_same)
      fix l
      show "lock_inv l (continue (running s) (Set_Holder k # rest) ?s)"
      proof (cases "l = k")
        case True
        then show ?thesis using False
          by (intro lock_inv_take [OF i(4), where t = "running s" and r = rest]) (simp_all add: continue_def)
      next
        case other: False
        then show ?thesis
          by (intro lock_inv_frame [OF i(4), where t = "running s" and as = "Set_Holder k # rest"])
            (use c(3) in \<open>auto simp: continue_def\<close>)
      qed
    qed
    then show ?thesis using False eq by simp
  qed
qed

lemma init_step:
  assumes call: "in_call (Init_Waiter w) rest s" and w: "w \<noteq> NULL" and free: "retrying (Sema w) s = {}"
  shows "\<exists>s'. exec (Init_Waiter w) s = Some ([], s') \<and> sync_inv (continue (running s) rest s')"
proof -
  note c = in_callD [OF call] and i = sync_invD [OF in_callD(1) [OF call]] and d = wait_invD [OF sync_invD(2) [OF in_callD(1) [OF call]]]
  let ?s = "s\<lparr>sema := (sema s)(Sema w := \<lparr>value_of = 0, waiters = []\<rparr>)\<rparr>"
  have steps: "steps_ok rest" using c(4) by (simp add: todo_ok_simps)
  have same: "retrying j ?s = retrying j s" "awake j ?s = awake j s" "runnable ?s = runnable s" for j
    by (simp_all add: retrying_def awake_def runnable_def)
  have wi: "wait_inv ?s" using d free unfolding wait_inv_def same by (auto dest: d(4))
  have "sync_inv (continue (running s) rest ?s)"
  proof (rule sync_inv_continue [OF c(1,6)])
    show "sched_ok ?s" "todo ?s = todo s" "todo_ok rest" using i(1) steps by (simp_all add: todo_steps)
    show "wait_inv (continue (running s) rest ?s)"
      by (rule wait_inv_continue [OF wi]) (use c(2,3) steps in auto)
    show "lock_inv l (continue (running s) rest ?s)" for l
      by (rule lock_inv_frame [OF i(4), where t = "running s" and as = rest])
        (use c(3) steps_ok_hand [OF steps, of l] in \<open>auto simp: continue_def\<close>)
  qed
  then show ?thesis using w by (simp add: sema_init_def sema_nonnull_def)
qed

lemma exec_step:
  assumes call: "in_call a rest s" and ex: "exec a s = Some (as, s')"
    and free: "\<And>w. a = Init_Waiter w \<Longrightarrow> retrying (Sema w) s = {}"
  shows "sync_inv (continue (running s) (as @ rest) s')"
proof -
  note c = in_callD [OF call]
  have cw: "quiet s (s\<lparr>cond_waiters := x\<rparr>)" for x
    unfolding quiet_def by (rule exI [of _ "holder s"], rule exI [of _ x], rule exI [of _ "owners s"]) simp
  show ?thesis
  proof (cases a)
    case (Down i)
    then show ?thesis using down_step [of a rest s i] call ex by (auto simp: sema_down_def)
  next
    case (Down_Retry i lv)
    then show ?thesis using down_step [of a rest s i lv] call ex by auto
  next
    case (Up i)
    then show ?thesis using up_step [of i rest s] call ex by (auto simp: sema_up_def)
  next
    case (Try_Lock l)
    then show ?thesis using try_step [of l rest s] call ex by auto
  next
    case (Set_Holder l)
    then show ?thesis using set_holder_step call ex by blast
  next
    case (Clear_Holder l)
    then show ?thesis using clear_holder_step call ex by blast
  next
    case (Init_Waiter w)
    then show ?thesis using init_step [of w rest s] call ex free by (auto simp: sema_init_def sema_nonnull_def)
  next
    case (Check_Held l)
    then have s': "as = []" "s' = s" "holder s l = running s" using ex c(5) by (auto simp: lock_held_by_current_thread_def)
    show ?thesis unfolding s'
      by (rule quiet_step [OF call quiet_refl]) (use Check_Held c(4) s'(3) in \<open>auto simp: todo_ok_simps todo_clear\<close>)
  next
    case (Push_Waiter k w)
    then show ?thesis using quiet_step [OF call cw, where as = rest] ex c(4) by (auto simp: todo_ok_simps)
  next
    case (Signal k)
    then show ?thesis using quiet_step [OF call cw] quiet_step [OF call quiet_refl] ex c(4)
      by (auto simp: todo_ok_simps split: list.splits)
  qed (use quiet_step [OF call quiet_refl] ex c(4) in \<open>auto simp: todo_ok_simps lock_held_by_current_thread_def cond_signal_def
      split: if_splits Option.bind_splits\<close>)
qed

lemma sync_inv_sched:
  assumes inv: "sync_inv s" and ok: "sched_ok s'" and more: "sched.more s' = sched.more s"
    and idle: "idle_thread s' = idle_thread s" and all: "\<And>i t. t \<in> set (waiters (sema s i)) \<Longrightarrow> t \<in> set (all_list s')"
    and run: "runnable s \<subseteq> insert (idle_thread s) (runnable s') \<union> X" "runnable s' \<subseteq> insert (idle_thread s) (runnable s \<union> Y)"
    and slept: "set (already_slept s') \<subseteq> set (already_slept s)" and lvl: "\<And>t. t \<notin> X \<Longrightarrow> t \<notin> Y \<Longrightarrow> lvl s' t = lvl s t"
    and XY: "\<And>i t. t \<in> X \<union> Y \<Longrightarrow> t \<notin> retrying i s"
  shows "sync_inv s'"
proof -
  have p: "sema s' = sema s" "holder s' = holder s" "owners s' = owners s" "todo s' = todo s"
    using sync_part_more [OF more] by (simp_all add: sync_part_def)
  note d = wait_invD [OF sync_invD(2) [OF inv]]
  have "wait_inv s'"
    by (rule wait_inv_frame [OF sync_invD(2) [OF inv] p(1) idle _ _ all run slept lvl])
      (use d(1) XY in \<open>auto simp: p retrying_def\<close>)
  moreover have "locks_inv s'" using locks_inv_cong [OF p] inv by (simp add: sync_inv_def)
  ultimately show ?thesis using ok by (simp add: sync_inv_def)
qed

lemma retrying_known:
  assumes "sync_inv s" and "t \<in> retrying i s"
  shows "t \<in> set (all_list s)" "t \<notin> set (already_slept s)"
proof -
  note i = sync_invD [OF assms(1)] and w = wait_invD [OF sync_invD(2) [OF assms(1)]]
  have q: "sched_inv s" using i(1) by (simp add: sched_ok_def)
  have "t \<in> set (waiters (sema s i)) \<or> t = running s \<or> t \<in> set (ready_list s)"
    using w(4) [OF assms(2)] by (auto simp: runnable_def)
  then show "t \<in> set (all_list s)" "t \<notin> set (already_slept s)"
    using w(3) [of t i] sched_invD [OF q] by (auto simp: queues_ok_def)
qed

lemma call_step:
  assumes inv: "sync_inv s" and t: "running s \<noteq> idle_thread s" "todo s (running s) = []" and as: "steps_ok as"
  shows "sync_inv (continue (running s) as s)"
proof -
  note i = sync_invD [OF inv]
  show ?thesis
  proof (rule sync_inv_continue [OF inv i(7,1) _ _ todo_steps [OF as]])
    show "wait_inv (continue (running s) as s)" by (rule wait_inv_continue [OF i(2)]) (use t as in auto)
    show "lock_inv l (continue (running s) as s)" for l
      by (rule lock_inv_frame [OF i(4), where t = "running s" and as = as])
        (use t steps_ok_hand [OF as, of l] in \<open>auto simp: continue_def\<close>)
  qed simp
qed

lemma tick_step:
  assumes inv: "sync_inv s" and irq: "timer_irq s = Some s'"
  shows "sync_inv s'"
proof -
  note i = sync_invD [OF inv]
  have "level s = INTR_ON" using irq by (auto simp: timer_irq_def intr_get_level_def)
  from timer_irq_ok [OF _ i(8) this] i(1) irq have s': "sched_ok s'" "all_list s' = all_list s" "idle_thread s' = idle_thread s"
    "lvl s' = lvl s" "set (already_slept s') \<subseteq> set (already_slept s)" "runnable s \<subseteq> insert (idle_thread s) (runnable s')"
    "runnable s' \<subseteq> insert (idle_thread s) (runnable s \<union> set (already_slept s))"
    by (auto simp: sched_ok_def)
  show ?thesis
    by (rule sync_inv_sched [OF inv s'(1) more_timer_irq [OF irq] s'(3), where X = "{}" and Y = "set (already_slept s)"])
      (use s' wait_invD(3) [OF i(2)] retrying_known(2) [OF inv] in auto)
qed

lemma yield_step:
  assumes inv: "sync_inv s" and y: "thread_yield s = Some s'"
  shows "sync_inv s'"
proof -
  note i = sync_invD [OF inv]
  from thread_yield_ok [OF _ i(8)] i(1) y have s': "sched_ok s'" "all_list s' = all_list s" "idle_thread s' = idle_thread s"
    "lvl s' = lvl s" "already_slept s' = already_slept s"
    and run: "running s' = hd_or (yield_queue s) (idle_thread s)" "ready_list s' = tl (yield_queue s)"
    by (auto simp: sched_ok_def)
  show ?thesis
    by (rule sync_inv_sched [OF inv s'(1) more_yield [OF y] s'(3), where X = "{}" and Y = "{}"])
      (use s' wait_invD(3) [OF i(2)] runnable_yield [OF run] in auto)
qed

lemma create_step:
  assumes inv: "sync_inv s" and page: "page \<notin> set (all_list s)" and cr: "thread_create page nm prio fn aux s = Some (r, s')"
  shows "sync_inv s'"
proof (cases "page = NULL")
  case True
  then show ?thesis using cr inv by (auto simp: thread_create_def)
next
  case False
  note i = sync_invD [OF inv]
  have "fn \<noteq> 0" "PRI_MIN \<le> prio" "prio \<le> PRI_MAX" using cr False by (auto simp: thread_create_def init_thread_def)
  from thread_create_ok [OF _ i(8) False page this, of nm aux] i(1) cr
  have s': "sched_ok s'" "all_list s' = all_list s @ [page]" "idle_thread s' = idle_thread s" "lvl s' = (lvl s)(page := INTR_ON)"
    "already_slept s' = already_slept s" "runnable s' = insert page (runnable s)"
    by (auto simp: sched_ok_def runnable_def)
  show ?thesis
    by (rule sync_inv_sched [OF inv s'(1) more_create [OF cr] s'(3), where X = "{}" and Y = "{page}"])
      (use s' wait_invD(3) [OF i(2)] retrying_known(1) [OF inv] page in auto)
qed

lemma exit_step:
  assumes inv: "sync_inv s" and t: "running s \<noteq> idle_thread s" "todo s (running s) = []" and ex: "thread_exit Some s = Some s'"
  shows "sync_inv s'"
proof -
  note i = sync_invD [OF inv]
  from thread_exit_ok [OF _ i(8) t(1)] i(1) ex have s': "sched_ok s'" "all_list s' = remove1 (running s) (all_list s)"
    "idle_thread s' = idle_thread s" "lvl s' = (lvl s)(running s := INTR_OFF)" "already_slept s' = already_slept s"
    "running s' = next_thread s" "ready_list s' = tl (ready_list s)"
    by (auto simp: sched_ok_def)
  have run: "runnable s' \<subseteq> insert (idle_thread s) (runnable s)" "runnable s \<subseteq> insert (running s) (runnable s')"
    using s'(6,7) by (cases "ready_list s"; auto simp: runnable_def next_thread_def)+
  have "distinct (all_list s)" using i(1) by (simp add: sched_ok_def sched_inv_def queues_ok_def)
  then have all: "set (all_list s') = set (all_list s) - {running s}" by (simp add: s'(2) set_remove1_eq)
  show ?thesis
    by (rule sync_inv_sched [OF inv s'(1) more_exit [OF ex] s'(3), where X = "{running s}" and Y = "{}"])
      (use s' all run wait_invD(3) [OF i(2)] running_not_waiter [OF i(2)] t in \<open>auto simp: retrying_def\<close>)
qed

lemma sync_step_inv: "sync_step s s' \<Longrightarrow> sync_inv s \<Longrightarrow> sync_inv s'"
proof (induction rule: sync_step.induct)
  case (sync_call s as)
  then show ?case using call_step call_steps by blast
next
  case (sync_exec s a rest as s')
  moreover have "running s \<noteq> idle_thread s"
    using sync_exec.hyps(1) wait_invD(1) [OF sync_invD(2) [OF sync_exec.prems]] by auto
  ultimately show ?case using exec_step [of a rest s as s'] by (auto simp: in_call_def)
qed (blast intro: tick_step yield_step create_step exit_step)+

lemma sync_reach_inv: "sync_step\<^sup>*\<^sup>* s s' \<Longrightarrow> sync_inv s \<Longrightarrow> sync_inv s'"
  by (induction rule: rtranclp_induct) (auto intro: sync_step_inv)

section \<open>Correctness of the synchronisation primitives\<close>

text \<open>
  The states the system starts in: no thread is inside a call, no thread waits, and every lock is as
  \<^verbatim>\<open>lock_init\<close> leaves it.
\<close>

definition sync_start :: "'a ksync_scheme \<Rightarrow> bool" where
  "sync_start s \<longleftrightarrow> sched_ok s \<and> (\<forall>t. todo s t = []) \<and> (\<forall>i. waiters (sema s i) = []) \<and>
     (\<forall>l. value_of (sema s (Lock_Sema l)) = 1 \<and> holder s l = NULL \<and> owners s l = [])"

lemma sync_start_inv: "sync_start s \<Longrightarrow> sync_inv s"
  by (simp add: sync_start_def sync_inv_def wait_inv_def locks_inv_def lock_inv_def retrying_def in_hand_def todo_steps)

definition demo_sync :: ksync where
  "demo_sync = sched.extend demo_sched
     (ksync.fields (\<lambda>i. \<lparr>value_of = (case i of Sema a \<Rightarrow> 0 | Lock_Sema l \<Rightarrow> 1), waiters = []\<rparr>) (\<lambda>l. NULL) (\<lambda>c. [])
       (\<lambda>t. []) (\<lambda>l. []))"

lemma demo_sync_start: "sync_start demo_sync"
proof -
  have "sched_ok demo_sync"
    using demo_sched_inv
    by (simp add: demo_sync_def sched_ok_def sched_inv_def queues_ok_def is_thread_def sched.defs ksync.defs)
  then show ?thesis by (simp add: sync_start_def demo_sync_def sched.defs ksync.defs)
qed

text \<open>The running thread does the next \<open>n\<close> steps of its call, none of which initialises a semaphore.\<close>

fun run_steps :: "nat \<Rightarrow> 'a ksync_scheme \<Rightarrow> 'a ksync_scheme option" where
  "run_steps 0 s = Some s"
| "run_steps (Suc n) s =
     (case todo s (running s) of
        a # rest \<Rightarrow> do {
          ASSERT (case a of Init_Waiter w \<Rightarrow> False | _ \<Rightarrow> True);
          (as, s') \<leftarrow> exec a s;
          run_steps n (continue (running s) (as @ rest) s')
        }
      | [] \<Rightarrow> None)"

lemma run_steps_numeral:
  "run_steps (numeral k) s = run_steps (Suc (pred_numeral k)) s" "run_steps 1 s = run_steps (Suc 0) s"
  by (simp_all only: numeral_eq_Suc One_nat_def)

lemma run_steps_reach: "run_steps n s = Some s' \<Longrightarrow> sync_step\<^sup>*\<^sup>* s s'"
proof (induction n arbitrary: s)
  case (Suc n)
  then obtain a rest as s1 where a: "todo s (running s) = a # rest" "\<And>w. a \<noteq> Init_Waiter w" "exec a s = Some (as, s1)"
    "run_steps n (continue (running s) (as @ rest) s1) = Some s'"
    by (auto split: list.splits action.splits Option.bind_splits)
  have "sync_step s (continue (running s) (as @ rest) s1)" by (rule sync_step.sync_exec [OF a(1) _ a(3)]) (use a(2) in simp)
  then show ?case using Suc.IH [OF a(4)] by simp
qed simp

text \<open>An uncontended \<^verbatim>\<open>lock_acquire\<close> gets the lock without giving up the CPU.\<close>

lemma thread_current_ext [simp]:
  "thread_current (s\<lparr>sema := x\<rparr>) = thread_current s" "thread_current (s\<lparr>holder := h\<rparr>) = thread_current s"
  "thread_current (s\<lparr>todo := d\<rparr>) = thread_current s" "thread_current (s\<lparr>owners := q\<rparr>) = thread_current s"
  "thread_current (s\<lparr>level := l\<rparr>) = thread_current s"
  by (simp_all add: thread_current_def running_thread_def is_thread_def)

lemma run_steps_Cons:
  assumes "running s = t" and "\<And>w. a \<noteq> Init_Waiter w" and "exec a (continue t (a # rest) s) = Some (as, continue t (a # rest) s')"
  shows "run_steps (Suc n) (continue t (a # rest) s) = run_steps n (continue t (as @ rest) s')"
proof -
  have "continue t (as @ rest) (continue t (a # rest) s') = continue t (as @ rest) s'" "todo (continue t (a # rest) s) t = a # rest"
    by (simp_all add: continue_def)
  moreover have "case a of Init_Waiter w \<Rightarrow> False | _ \<Rightarrow> True" using assms(2) by (cases a) auto
  ultimately show ?thesis using assms(1,3) by simp
qed

lemma lock_acquire_free:
  assumes cur: "thread_current s = Some (running s)" and ni: "\<not> in_external_intr s" and l: "l \<noteq> NULL"
    and free: "value_of (sema s (Lock_Sema l)) \<noteq> 0" "holder s l \<noteq> running s"
  shows "\<exists>s'. run_steps 5 (continue (running s) (lock_acquire l) s) = Some s' \<and> running s' = running s \<and>
    holder s' l = running s \<and> owners s' l = running s # owners s l"
proof -
  let ?t = "running s" and ?s1 = "set_value (Lock_Sema l) (value_of (sema s (Lock_Sema l)) - 1) s"
  let ?s2 = "?s1\<lparr>holder := (holder s)(l := running s), owners := (owners s)(l := running s # owners s l)\<rparr>"
  have cc: "thread_current (continue ?t as s) = Some ?t" "thread_current (continue ?t as ?s1) = Some ?t" for as
    using cur by (simp_all add: continue_def set_value_def)
  have d: "exec (Down (Lock_Sema l)) (continue ?t as s) = Some ([], continue ?t as ?s1)" for as
    using ni free(1)
    by (simp add: sema_down_def sema_nonnull_def intr_disable_def intr_get_level_def intr_context_def down_loop_def
        set_value_def continue_def intr_restore level_same)
  have asserts: "run_steps (Suc n) (continue ?t (Assert_Nonnull l # as) s) = run_steps n (continue ?t as s)"
    "run_steps (Suc n) (continue ?t (Assert_Not_Intr # as) s) = run_steps n (continue ?t as s)"
    "run_steps (Suc n) (continue ?t (Check_Not_Held l # as) s) = run_steps n (continue ?t as s)" for n as
    by (subst run_steps_Cons [where as = "[]" and s' = s];
        use l ni free(2) cc in \<open>simp add: lock_held_by_current_thread_def intr_context_def continue_def\<close>)+
  have down: "run_steps (Suc n) (continue ?t (Down (Lock_Sema l) # as) s) = run_steps n (continue ?t as ?s1)" for n as
    by (subst run_steps_Cons [OF _ _ d]) simp_all
  have h: "exec (Set_Holder l) (continue ?t (Set_Holder l # as) ?s1) = Some ([], continue ?t (Set_Holder l # as) ?s2)" for as
    using cc(2) [of "Set_Holder l # as"] by (simp add: continue_def)
  have hold: "run_steps (Suc n) (continue ?t (Set_Holder l # as) ?s1) = run_steps n (continue ?t as ?s2)" for n as
    by (subst run_steps_Cons [OF _ _ h]) simp_all
  have five: "(5 :: nat) = Suc (Suc (Suc (Suc (Suc 0))))" by simp
  have "run_steps 5 (continue ?t (lock_acquire l) s) = run_steps 0 (continue ?t [] ?s2)"
    unfolding lock_acquire_def five asserts down hold ..
  then show ?thesis by (simp add: continue_def set_value_def)
qed

lemma demo_call:
  assumes "call as" and "run_steps n (continue 0x1000 as demo_sync) = Some s"
  shows "sync_step\<^sup>*\<^sup>* demo_sync s"
proof -
  have "sync_step demo_sync (continue (running demo_sync) as demo_sync)"
    by (rule sync_step.sync_call) (use assms(1) in \<open>simp_all add: demo_sync_def demo_sched_def sched.defs ksync.defs\<close>)
  moreover have "running demo_sync = 0x1000" by (simp add: demo_sync_def demo_sched_def sched.defs ksync.defs)
  ultimately show ?thesis using run_steps_reach [OF assms(2)] by simp
qed

lemma demo_sync_sels:
  "running demo_sync = 0x1000" "ready_list demo_sync = [0x3000]" "owners demo_sync l = []" "holder demo_sync l = NULL"
  "value_of (sema demo_sync (Lock_Sema l)) = 1" "value_of (sema demo_sync (Sema a)) = 0" "waiters (sema demo_sync i) = []"
  "level demo_sync = INTR_ON" "\<not> in_external_intr demo_sync"
  by (simp_all add: demo_sync_def demo_sched_def sched.defs ksync.defs)

text \<open>
  C8. Mutual exclusion: in every state that threads can reach by acquiring, trying, releasing locks, waiting on
  and signalling semaphores and condition variables, in any interleaving with timer interrupts, at most one thread
  is between \<^verbatim>\<open>lock_acquire\<close> and \<^verbatim>\<open>lock_release\<close> of a lock, and \<^verbatim>\<open>lock_held_by_current_thread\<close> tells
  whether it is the running one.
\<close>

theorem lock_mutual_exclusion:
  assumes "sync_start s0" and "sync_step\<^sup>*\<^sup>* s0 s" and "l \<noteq> NULL"
  shows "length (owners s l) \<le> 1 \<and> lock_held_by_current_thread l s = Some (owners s l = [running s])"
proof -
  have inv: "sync_inv s" using assms sync_start_inv sync_reach_inv by blast
  have "owners s l = (if holder s l = NULL then [] else [holder s l])"
    using sync_invD(4) [OF inv, of l] by (simp add: lock_inv_def)
  then show ?thesis using sync_invD(6,7) [OF inv] assms(3) by (auto simp: lock_held_by_current_thread_def)
qed

theorem lock_mutual_exclusion_witness:
  "\<exists>s. sync_step\<^sup>*\<^sup>* demo_sync s \<and> owners s 0x8000 = [running s] \<and> lock_held_by_current_thread 0x8000 s = Some True"
proof -
  obtain s where s: "run_steps 5 (continue 0x1000 (lock_acquire 0x8000) demo_sync) = Some s" "owners s 0x8000 = [running s]"
    using lock_acquire_free [of demo_sync "0x8000"] sync_invD(6,8) [OF sync_start_inv [OF demo_sync_start]]
    by (auto simp: demo_sync_sels)
  have "sync_step\<^sup>*\<^sup>* demo_sync s" by (rule demo_call [OF call.intros(3) s(1)])
  with lock_mutual_exclusion [OF demo_sync_start this, of "0x8000"] s(2) show ?thesis by auto
qed

text \<open>
  C13. No wake-up is lost: in every reachable state, if the value of a semaphore is positive while threads are in its list of waiters,
  then at least that many other threads have been woken and are about to retry; and every
  thread that is blocked in \<^verbatim>\<open>sema_down\<close> is in the list of waiters, where \<^verbatim>\<open>sema_up\<close> finds it.
\<close>

theorem sema_no_lost_wakeup:
  assumes "sync_start s0" and "sync_step\<^sup>*\<^sup>* s0 s"
  shows "(waiters (sema s i) \<noteq> [] \<longrightarrow>
      unat (value_of (sema s i)) \<le> card {t. (\<exists>lv r. todo s t = Down_Retry i lv # r) \<and> (t = running s \<or> t \<in> set (ready_list s))}) \<and>
    (todo s t = Down_Retry i lv # r \<longrightarrow> t \<in> set (waiters (sema s i)) \<or> t = running s \<or> t \<in> set (ready_list s))"
proof -
  have inv: "wait_inv s" using assms sync_start_inv sync_reach_inv sync_invD(2) by blast
  have "awake i s = {t. (\<exists>lv r. todo s t = Down_Retry i lv # r) \<and> (t = running s \<or> t \<in> set (ready_list s))}"
    by (auto simp: awake_def retrying_def runnable_def)
  then show ?thesis using wait_invD(4) [OF inv, of t i] wait_invD(7) [OF inv, of i] by (auto simp: retrying_def runnable_def)
qed

theorem sema_no_lost_wakeup_witness:
  "\<exists>s. sync_step\<^sup>*\<^sup>* demo_sync s \<and> running s = 0x3000 \<and> waiters (sema s (Sema 0x9000)) = [0x1000] \<and>
    unat (value_of (sema s (Sema 0x9000))) \<le>
      card {t. (\<exists>lv r. todo s t = Down_Retry (Sema 0x9000) lv # r) \<and> (t = running s \<or> t \<in> set (ready_list s))}"
proof -
  obtain s where s: "run_steps 1 (continue 0x1000 [Down (Sema 0x9000)] demo_sync) = Some s" "running s = 0x3000"
    "waiters (sema s (Sema 0x9000)) = [0x1000]"
  proof -
    let ?s = "continue 0x1000 [Down (Sema 0x9000)] demo_sync\<lparr>level := INTR_OFF\<rparr>"
    have "sched_ok ?s" using demo_sync_start by (simp add: sync_start_def)
    from down_loop_blocks [OF this, of "Sema 0x9000" INTR_ON] obtain s' where "down_loop (Sema 0x9000) INTR_ON ?s =
        Some ([Down_Retry (Sema 0x9000) INTR_ON], s')" "running s' = 0x3000"
      "sync_part s' = sync_part (set_waiters (Sema 0x9000) (waiters (sema ?s (Sema 0x9000)) @ [running ?s]) ?s)"
      by (auto simp: demo_sync_sels next_thread_def)
    moreover from this have "waiters (sema s' (Sema 0x9000)) = [0x1000]"
      by (simp add: sync_part_def set_waiters_def demo_sync_sels)
    ultimately show ?thesis
      by (intro that [of "continue 0x1000 [Down_Retry (Sema 0x9000) INTR_ON] s'"])
        (simp_all add: run_steps_numeral sema_down_def sema_nonnull_def intr_simps demo_sync_sels continue_def)
  qed
  have "sync_step\<^sup>*\<^sup>* demo_sync s" by (rule demo_call [OF call.intros(1) s(1)])
  with sema_no_lost_wakeup [OF demo_sync_start this, of "Sema 0x9000"] s(2,3) show ?thesis by auto
qed

text \<open>
  C24. The synchronisation primitives fail only when their callers break the documented rules: in a reachable
  state the next step of a call fails an assertion only if it acquires a lock that the thread already holds,
  releases, waits or signals with a lock that it does not hold, or is given a null pointer.
\<close>

theorem sync_calls_return:
  assumes "sync_start s0" and "sync_step\<^sup>*\<^sup>* s0 s" and "todo s (running s) = a # rest" and "exec a s = None"
  shows "(\<exists>l. a = Check_Not_Held l \<and> owners s l = [running s]) \<or> (\<exists>l. a = Check_Held l \<and> owners s l \<noteq> [running s]) \<or>
    a \<in> {Assert_Nonnull NULL, Check_Held NULL, Check_Not_Held NULL, Down (Sema NULL), Up (Sema NULL), Init_Waiter NULL}"
proof -
  have inv: "sync_inv s" using assms sync_start_inv sync_reach_inv by blast
  note i = sync_invD [OF inv]
  have own: "owners s l = (if holder s l = NULL then [] else [holder s l])" for l using i(4) [of l] by (simp add: lock_inv_def)
  have "running s \<noteq> idle_thread s" using assms(3) wait_invD(1) [OF i(2)] by auto
  then have call: "in_call a rest s" using inv assms(3) by (simp add: in_call_def)
  show ?thesis
  proof (cases a)
    case (Down j)
    then show ?thesis using down_step [OF call, of j] assms(4) by (auto simp: sema_nonnull_def)
  next
    case (Down_Retry j lv)
    then show ?thesis using down_step [OF call, of j lv] assms(4) by auto
  next
    case (Up j)
    then show ?thesis using up_step [of j rest s] call assms(4) by (auto simp: sema_nonnull_def)
  next
    case (Try_Lock l)
    then show ?thesis using try_step [of l rest s] call assms(4) by auto
  qed (use assms(4) i(6,7,8) own in \<open>auto simp: lock_held_by_current_thread_def intr_context_def sema_init_def sema_nonnull_def bind_ASSERT
      split: if_splits\<close>)
qed

theorem sync_calls_return_witness:
  "\<exists>s. sync_step\<^sup>*\<^sup>* demo_sync s \<and> todo s (running s) = Check_Held 0x8000 # tl (todo s (running s)) \<and>
    exec (Check_Held 0x8000) s = None \<and> owners s 0x8000 \<noteq> [running s]"
proof -
  obtain s r where s: "run_steps 1 (continue 0x1000 (lock_release 0x8000) demo_sync) = Some s"
    "todo s (running s) = Check_Held 0x8000 # r" "exec (Check_Held 0x8000) s = None"
    by (simp add: lock_release_def run_steps_numeral continue_def lock_held_by_current_thread_def demo_sync_sels
        sync_invD(6) [OF sync_start_inv [OF demo_sync_start]])
  have "sync_step\<^sup>*\<^sup>* demo_sync s" by (rule demo_call [OF call.intros(5) s(1)])
  with sync_calls_return [OF demo_sync_start this s(2,3)] s(2,3) show ?thesis by auto
qed

end
