(* ===== verification/Fs_Inode.thy ===== *)
theory Fs_Inode
  imports Pintos_Prelude
begin

text \<open>
  Reading and writing the data of an inode, \<^verbatim>\<open>filesys/inode.c\<close>, on a block device, \<^verbatim>\<open>devices/block.c\<close>.

  The state \<open>fs\<close> has the sectors of the file system device, the in-memory inodes by address, and the kernel
  heap the file system allocates from.  \<^verbatim>\<open>off_t\<close> is a signed 32-bit integer: offsets and sizes are integers
  and their sums and differences wrap around.  The buffer of a read is the list of the bytes stored in it; the buffer of a write
  is the list of the bytes it holds, and an access behind its end is undefined and gives \<open>None\<close>, as does an
  access to a null pointer or to memory that is not allocated.

  The main results are that \<^verbatim>\<open>inode_read_at\<close> returns, and \<^verbatim>\<open>inode_write_at\<close> replaces, exactly a
  segment of the byte sequence \<open>content\<close> that the inode stands for, however the segment lies across sectors.
\<close>

unbundle bit_operations_syntax

section \<open>State\<close>

definition BLOCK_SECTOR_SIZE :: nat where
  "BLOCK_SECTOR_SIZE = 512"

definition INODE_MAGIC :: u32 where
  "INODE_MAGIC = 0x494e4f44"

record inode_disk =
  start :: u32
  length_of :: int
  magic :: u32
  unused :: "byte list"

record inode =
  sector :: u32
  open_cnt :: int
  removed :: bool
  deny_write_cnt :: int
  data :: inode_disk

text \<open>
  The heap: \<open>answers\<close> are the addresses that the next calls of \<^verbatim>\<open>malloc\<close> come up with, \<open>in_use\<close> the blocks that
  are allocated.  \<^verbatim>\<open>malloc\<close> gives an address that is not in use, or a null pointer, and any sequence of
  such results is possible.
\<close>

record fs =
  disk :: "u32 \<Rightarrow> byte list"
  disk_size :: u32
  inodes :: "addr \<Rightarrow> inode"
  open_inodes :: "addr list"
  answers :: "addr list"
  in_use :: "addr list"

definition fs_malloc :: "'a fs_scheme \<Rightarrow> addr \<times> 'a fs_scheme" where
  "fs_malloc s =
     (case answers s of
        [] \<Rightarrow> (NULL, s)
      | p # ps \<Rightarrow>
          if p = NULL \<or> p \<in> set (in_use s) then (NULL, s\<lparr>answers := ps\<rparr>)
          else (p, s\<lparr>answers := ps, in_use := p # in_use s\<rparr>))"

definition fs_free :: "addr \<Rightarrow> 'a fs_scheme \<Rightarrow> 'a fs_scheme option" where
  "fs_free p s =
     (if p = NULL then Some s
      else do { ASSERT (p \<in> set (in_use s)); Some (s\<lparr>in_use := remove1 p (in_use s)\<rparr>) })"

text \<open>An access to the object at \<open>p\<close>.\<close>

definition deref :: "addr \<Rightarrow> 'a fs_scheme \<Rightarrow> unit option" where
  "deref p s = ASSERT (p \<noteq> NULL \<and> p \<in> set (in_use s))"

section \<open>The block device\<close>

definition fs_check_sector :: "u32 \<Rightarrow> 'a fs_scheme \<Rightarrow> unit option" where
  "fs_check_sector n s = ASSERT (n < disk_size s)"

definition fs_read_sector :: "u32 \<Rightarrow> 'a fs_scheme \<Rightarrow> byte list option" where
  "fs_read_sector n s = do { fs_check_sector n s; Some (disk s n) }"

definition fs_write_sector :: "u32 \<Rightarrow> byte list \<Rightarrow> 'a fs_scheme \<Rightarrow> 'a fs_scheme option" where
  "fs_write_sector n bs s = do { fs_check_sector n s; Some (s\<lparr>disk := (disk s)(n := bs)\<rparr>) }"

section \<open>Inodes\<close>

definition bytes_to_sectors :: "int \<Rightarrow> nat" where
  "bytes_to_sectors sz =
     unat (word_of_int (c_div (int32 (sz + int BLOCK_SECTOR_SIZE - 1)) (int BLOCK_SECTOR_SIZE)) :: u32)"

definition inode_length :: "inode \<Rightarrow> int" where
  "inode_length i = length_of (data i)"

definition byte_to_sector :: "inode \<Rightarrow> int \<Rightarrow> u32" where
  "byte_to_sector i pos =
     (if pos < length_of (data i) then start (data i) + word_of_int (c_div pos (int BLOCK_SECTOR_SIZE)) else - 1)"

text \<open>How much of the current sector one iteration of the read and write loops handles.\<close>

definition sector_ofs :: "int \<Rightarrow> int" where
  "sector_ofs ofs = c_mod ofs (int BLOCK_SECTOR_SIZE)"

definition chunk_size :: "inode \<Rightarrow> int \<Rightarrow> int \<Rightarrow> int" where
  "chunk_size i sz ofs =
     (let inode_left = int32 (inode_length i - ofs);
          sector_left = int BLOCK_SECTOR_SIZE - sector_ofs ofs;
          min_left = (if inode_left < sector_left then inode_left else sector_left)
      in if sz < min_left then sz else min_left)"

text \<open>The bounce buffer is allocated when it is first needed.\<close>

definition get_bounce :: "addr \<Rightarrow> 'a fs_scheme \<Rightarrow> addr \<times> 'a fs_scheme" where
  "get_bounce bounce s = (if bounce = NULL then fs_malloc s else (bounce, s))"

lemma chunk_size_le: "chunk_size i sz ofs \<le> sz"
  by (simp add: chunk_size_def Let_def)

function read_loop :: "inode \<Rightarrow> int \<Rightarrow> int \<Rightarrow> byte list \<Rightarrow> addr \<Rightarrow> 'a fs_scheme \<Rightarrow> (byte list \<times> addr \<times> 'a fs_scheme) option" where
  "read_loop i sz ofs acc bounce s =
     (if sz > 0 then
        let sector_idx = byte_to_sector i ofs; chunk = chunk_size i sz ofs in
        if chunk \<le> 0 then Some (acc, bounce, s)
        else if sector_ofs ofs = 0 \<and> chunk = int BLOCK_SECTOR_SIZE then
          (case fs_read_sector sector_idx s of
             None \<Rightarrow> None
           | Some bs \<Rightarrow> read_loop i (sz - chunk) (int32 (ofs + chunk)) (acc @ bs) bounce s)
        else
          let (bounce', s') = get_bounce bounce s in
          if bounce' = NULL then Some (acc, NULL, s')
          else
            (case fs_read_sector sector_idx s' of
               None \<Rightarrow> None
             | Some bs \<Rightarrow>
                 if sector_ofs ofs < 0 then None
                 else read_loop i (sz - chunk) (int32 (ofs + chunk))
                   (acc @ take (nat chunk) (drop (nat (sector_ofs ofs)) bs)) bounce' s')
      else Some (acc, bounce, s))"
  by pat_completeness auto
termination
  by (relation "measure (\<lambda>(_, sz, _). nat sz)") auto

text \<open>
  \<^verbatim>\<open>inode_read_at\<close>: the result is the list of the bytes read; the function of the source returns its length.
\<close>

definition inode_read_at :: "addr \<Rightarrow> int \<Rightarrow> int \<Rightarrow> 'a fs_scheme \<Rightarrow> (byte list \<times> 'a fs_scheme) option" where
  "inode_read_at p sz ofs s = do {
     deref p s;
     (bs, bounce, s) \<leftarrow> read_loop (inodes s p) sz ofs [] NULL s;
     s \<leftarrow> fs_free bounce s;
     Some (bs, s)
   }"

text \<open>One iteration of the write loop writes \<open>bs\<close>, the next bytes of the buffer, into sector \<open>sector_idx\<close>.\<close>

definition patch :: "byte list \<Rightarrow> nat \<Rightarrow> byte list \<Rightarrow> byte list" where
  "patch old ofs bs = take ofs old @ bs @ drop (ofs + length bs) old"

function write_loop ::
    "inode \<Rightarrow> byte list \<Rightarrow> int \<Rightarrow> int \<Rightarrow> nat \<Rightarrow> addr \<Rightarrow> 'a fs_scheme \<Rightarrow> (nat \<times> addr \<times> 'a fs_scheme) option" where
  "write_loop i buf sz ofs written bounce s =
     (if sz > 0 then
        let sector_idx = byte_to_sector i ofs; chunk = chunk_size i sz ofs; n = nat chunk in
        if chunk \<le> 0 then Some (written, bounce, s)
        else if length buf < written + n then None
        else if sector_ofs ofs = 0 \<and> chunk = int BLOCK_SECTOR_SIZE then
          (case fs_write_sector sector_idx (take n (drop written buf)) s of
             None \<Rightarrow> None
           | Some s' \<Rightarrow> write_loop i buf (sz - chunk) (int32 (ofs + chunk)) (written + n) bounce s')
        else
          let (bounce', s') = get_bounce bounce s in
          if bounce' = NULL then Some (written, NULL, s')
          else
            (case (if sector_ofs ofs > 0 \<or> chunk < int BLOCK_SECTOR_SIZE - sector_ofs ofs then fs_read_sector sector_idx s'
                   else Some (replicate BLOCK_SECTOR_SIZE 0)) of
               None \<Rightarrow> None
             | Some old \<Rightarrow>
                 if sector_ofs ofs < 0 then None
                 else
                   (case fs_write_sector sector_idx (patch old (nat (sector_ofs ofs)) (take n (drop written buf))) s' of
                      None \<Rightarrow> None
                    | Some s'' \<Rightarrow> write_loop i buf (sz - chunk) (int32 (ofs + chunk)) (written + n) bounce' s''))
      else Some (written, bounce, s))"
  by pat_completeness auto
termination
  by (relation "measure (\<lambda>(_, _, sz, _). nat sz)") auto

declare read_loop.simps [simp del] write_loop.simps [simp del]

definition inode_write_at :: "addr \<Rightarrow> byte list \<Rightarrow> int \<Rightarrow> int \<Rightarrow> 'a fs_scheme \<Rightarrow> (nat \<times> 'a fs_scheme) option" where
  "inode_write_at p buf sz ofs s = do {
     deref p s;
     if deny_write_cnt (inodes s p) \<noteq> 0 then Some (0, s)
     else do {
       (n, bounce, s) \<leftarrow> write_loop (inodes s p) buf sz ofs 0 NULL s;
       s \<leftarrow> fs_free bounce s;
       Some (n, s)
     }
   }"

section \<open>The byte sequence of an inode\<close>

definition disk_ok :: "'a fs_scheme \<Rightarrow> bool" where
  "disk_ok s \<longleftrightarrow> (\<forall>n < disk_size s. length (disk s n) = BLOCK_SECTOR_SIZE)"

text \<open>The length of an inode is such that rounding it up to sectors does not overflow, and its sectors lie on the disk.\<close>

definition inode_ok :: "inode \<Rightarrow> 'a fs_scheme \<Rightarrow> bool" where
  "inode_ok i s \<longleftrightarrow> 0 \<le> inode_length i \<and> inode_length i + 512 \<le> 2 ^ 31 \<and>
     unat (start (data i)) + bytes_to_sectors (inode_length i) \<le> unat (disk_size s)"

definition data_sector :: "inode \<Rightarrow> nat \<Rightarrow> u32" where
  "data_sector i k = start (data i) + of_nat k"

definition data_sectors :: "inode \<Rightarrow> u32 set" where
  "data_sectors i = data_sector i ` {..<bytes_to_sectors (inode_length i)}"

definition sector_bytes :: "inode \<Rightarrow> 'a fs_scheme \<Rightarrow> byte list" where
  "sector_bytes i s = concat (map (\<lambda>k. disk s (data_sector i k)) [0..<bytes_to_sectors (inode_length i)])"

definition content :: "inode \<Rightarrow> 'a fs_scheme \<Rightarrow> byte list" where
  "content i s = take (nat (inode_length i)) (sector_bytes i s)"

lemma int32_small: "- (2 ^ 31) \<le> x \<Longrightarrow> x < 2 ^ 31 \<Longrightarrow> int32 x = x"
  unfolding int32_def by (rule sint_of_int_small) simp_all

lemma c_div_pos: "0 \<le> a \<Longrightarrow> 0 < b \<Longrightarrow> c_div a b = a div b"
  by (cases "a = 0") (simp_all add: c_div_def)

lemma c_mod_nonneg: "0 \<le> a \<Longrightarrow> 0 < b \<Longrightarrow> c_mod a b = a mod b"
  by (simp add: c_mod_def c_div_pos minus_mult_div_eq_mod)

lemma bytes_to_sectors_eq:
  assumes "0 \<le> sz" and "sz + 512 \<le> 2 ^ 31"
  shows "bytes_to_sectors sz = nat ((sz + 511) div 512)"
proof -
  have "(sz + 511) div 512 < 2 ^ 32" using assms by simp
  then show ?thesis using assms
    by (simp add: bytes_to_sectors_def BLOCK_SECTOR_SIZE_def int32_small c_div_pos unsigned_of_int take_bit_int_eq_self)
qed

lemma sectors_of_nat: "int l + 512 \<le> 2 ^ 31 \<Longrightarrow> bytes_to_sectors (int l) = (l + 511) div 512"
  using nat_div_distrib [of "int l + 511" 512] by (simp add: bytes_to_sectors_eq nat_add_distrib)

lemma sector_ofs_eq: "0 \<le> ofs \<Longrightarrow> sector_ofs ofs = ofs mod 512"
  by (simp add: sector_ofs_def c_mod_nonneg BLOCK_SECTOR_SIZE_def)

lemma length_concat_const: "(\<And>xs. xs \<in> set xss \<Longrightarrow> length xs = n) \<Longrightarrow> length (concat xss) = length xss * n"
  by (induction xss) auto

lemma drop_concat_const:
  assumes "\<And>xs. xs \<in> set xss \<Longrightarrow> length xs = n" and "k < length xss" and "j \<le> n"
  shows "drop (k * n + j) (concat xss) = drop j (xss ! k) @ concat (drop (Suc k) xss)"
  using assms
proof (induction xss arbitrary: k)
  case (Cons xs xss)
  then show ?case by (cases k) auto
qed simp

lemma data_sector_disk:
  assumes "inode_ok i s" and "k < bytes_to_sectors (inode_length i)"
  shows "unat (data_sector i k) = unat (start (data i)) + k" "data_sector i k < disk_size s"
proof -
  have "unat (start (data i)) + k < unat (disk_size s)" using assms by (simp add: inode_ok_def)
  moreover from this have "unat (start (data i)) + k < 2 ^ 32" using unat_less_exp32 [of "disk_size s"] by linarith
  moreover from this show "unat (data_sector i k) = unat (start (data i)) + k"
    unfolding data_sector_def by (simp add: unat_word_ariths unat_of_nat_small)
  ultimately show "data_sector i k < disk_size s" by (simp add: word_less_nat_alt)
qed

lemma data_sector_inj:
  assumes "inode_ok i s" and "j < bytes_to_sectors (inode_length i)" "k < bytes_to_sectors (inode_length i)"
  shows "data_sector i j = data_sector i k \<longleftrightarrow> j = k"
  using data_sector_disk(1) [OF assms(1,2)] data_sector_disk(1) [OF assms(1,3)] by (metis add_left_cancel)

lemma length_sectors:
  assumes "disk_ok s" and "inode_ok i s" and "xs \<in> set (map (\<lambda>k. disk s (data_sector i k)) [0..<bytes_to_sectors (inode_length i)])"
  shows "length xs = 512"
  using assms data_sector_disk(2) [OF assms(2)] by (auto simp: disk_ok_def BLOCK_SECTOR_SIZE_def)

lemma length_content:
  assumes "disk_ok s" and "inode_ok i s"
  shows "length (content i s) = nat (inode_length i)"
proof -
  let ?xss = "map (\<lambda>k. disk s (data_sector i k)) [0..<bytes_to_sectors (inode_length i)]"
  have "length (concat ?xss) = length ?xss * 512" by (rule length_concat_const) (rule length_sectors [OF assms])
  then have "length (sector_bytes i s) = bytes_to_sectors (inode_length i) * 512"
    unfolding sector_bytes_def by simp
  moreover obtain l where l: "inode_length i = int l" using assms(2) nonneg_int_cases [of "inode_length i"] by (auto simp: inode_ok_def)
  have "(l + 511) mod 512 < 512" by simp
  then have "l \<le> (l + 511) div 512 * 512" using div_mult_mod_eq [of "l + 511" 512] by linarith
  then have "nat (inode_length i) \<le> bytes_to_sectors (inode_length i) * 512"
    using sectors_of_nat [of l] assms(2) by (simp add: inode_ok_def l)
  ultimately show ?thesis by (simp add: content_def)
qed

text \<open>The bytes of one sector from an offset on are the bytes of the content from that offset on.\<close>

lemma chunk_size_eq:
  assumes "inode_ok i s" and "0 \<le> ofs" "ofs < 2 ^ 31"
  shows "chunk_size i sz ofs = min sz (min (inode_length i - ofs) (512 - ofs mod 512))"
proof -
  have "int32 (inode_length i - ofs) = inode_length i - ofs"
    using assms by (intro int32_small) (auto simp: inode_ok_def)
  then show ?thesis using assms(2) by (simp add: chunk_size_def sector_ofs_eq BLOCK_SECTOR_SIZE_def Let_def min_def)
qed

lemma sector_number:
  assumes "inode_ok i s" and "int m < inode_length i"
  shows "byte_to_sector i (int m) = data_sector i (m div 512)" "m div 512 < bytes_to_sectors (inode_length i)"
proof -
  have "c_div (int m) 512 = int (m div 512)" by (simp add: c_div_pos zdiv_int)
  then show "byte_to_sector i (int m) = data_sector i (m div 512)"
    using assms(2) by (simp add: byte_to_sector_def data_sector_def BLOCK_SECTOR_SIZE_def inode_length_def)
  obtain l where l: "inode_length i = int l" using assms(2) nonneg_int_cases [of "inode_length i"] by auto
  have "bytes_to_sectors (inode_length i) = (l + 511) div 512"
    using sectors_of_nat [of l] assms(1) by (simp add: inode_ok_def l)
  moreover have "(m + 512) div 512 \<le> (l + 511) div 512" using assms(2) l by (intro div_le_mono) simp
  ultimately show "m div 512 < bytes_to_sectors (inode_length i)" by simp
qed

lemma content_at:
  assumes "disk_ok s" "inode_ok i s" and "m + n \<le> nat (inode_length i)" "m mod 512 + n \<le> 512" "0 < n"
  shows "take n (drop m (content i s)) = take n (drop (m mod 512) (disk s (byte_to_sector i (int m))))"
proof -
  let ?xss = "map (\<lambda>k. disk s (data_sector i k)) [0..<bytes_to_sectors (inode_length i)]"
  have lt: "int m < inode_length i" using assms(3,5) by linarith
  note k = sector_number [OF assms(2) lt]
  have j: "m mod 512 \<le> 512" by (rule less_imp_le) simp
  have "drop m (sector_bytes i s) = drop (m mod 512) (?xss ! (m div 512)) @ concat (drop (Suc (m div 512)) ?xss)"
    unfolding sector_bytes_def
    using drop_concat_const [where xss = ?xss and n = 512 and k = "m div 512", OF _ _ j] length_sectors [OF assms(1,2)] k(2)
    by (metis (no_types, lifting) div_mult_mod_eq length_map length_upt minus_nat.diff_0)
  moreover have "length (disk s (data_sector i (m div 512))) = 512"
    using data_sector_disk(2) [OF assms(2) k(2)] assms(1) by (simp add: disk_ok_def BLOCK_SECTOR_SIZE_def)
  ultimately have "take n (drop m (sector_bytes i s)) = take n (drop (m mod 512) (disk s (data_sector i (m div 512))))"
    using assms(4) k(2) by simp
  moreover have "take n (drop m (content i s)) = take n (drop m (sector_bytes i s))"
    using assms(3) by (simp add: content_def drop_take min_def)
  ultimately show ?thesis by (simp add: k(1))
qed

section \<open>Reading\<close>

text \<open>What one iteration handles, as a natural number.\<close>

definition step_size :: "inode \<Rightarrow> int \<Rightarrow> nat \<Rightarrow> nat" where
  "step_size i sz m = min (nat sz) (min (nat (inode_length i) - m) (512 - m mod 512))"

lemma chunk_step:
  assumes "inode_ok i s" and "int m < 2 ^ 31" and "0 < sz"
  shows "chunk_size i sz (int m) = (if nat (inode_length i) \<le> m then inode_length i - int m else int (step_size i sz m))"
    "sector_ofs (int m) = int (m mod 512)"
proof -
  have "int m mod 512 = int (m mod 512)" by (simp add: zmod_int)
  have "m mod 512 < 512" by simp
  show "chunk_size i sz (int m) = (if nat (inode_length i) \<le> m then inode_length i - int m else int (step_size i sz m))"
  proof (cases "nat (inode_length i) \<le> m")
    case False
    then have "int (nat (inode_length i) - m) = inode_length i - int m" by linarith
    moreover have "int (512 - m mod 512) = 512 - int (m mod 512)" by (simp add: of_nat_diff less_imp_le)
    ultimately show ?thesis using False chunk_size_eq [OF assms(1), of "int m" sz] assms(2,3) \<open>int m mod 512 = int (m mod 512)\<close>
      by (simp add: step_size_def of_nat_min)
  qed (use chunk_size_eq [OF assms(1), of "int m" sz] assms(2,3) \<open>int m mod 512 = int (m mod 512)\<close> in \<open>simp add: min.absorb1 min.absorb2\<close>)
  show "sector_ofs (int m) = int (m mod 512)" by (simp add: sector_ofs_eq zmod_int)
qed

lemma step_size_pos: "0 < sz \<Longrightarrow> m < nat (inode_length i) \<Longrightarrow> 0 < step_size i sz m"
  by (simp add: step_size_def)

lemma step_sizeD:
  assumes "0 < sz" and "m < nat (inode_length i)"
  shows "int (step_size i sz m) \<le> sz" "m + step_size i sz m \<le> nat (inode_length i)" "m mod 512 + step_size i sz m \<le> 512"
proof -
  have "step_size i sz m \<le> nat sz" "step_size i sz m \<le> nat (inode_length i) - m" "step_size i sz m \<le> 512 - m mod 512"
    by (simp_all add: step_size_def)
  moreover have "m mod 512 < 512" by simp
  ultimately show "int (step_size i sz m) \<le> sz" "m + step_size i sz m \<le> nat (inode_length i)" "m mod 512 + step_size i sz m \<le> 512"
    using assms by linarith+
qed

lemma get_bounce_sels:
  assumes "get_bounce b s = (b', s')"
  shows "disk s' = disk s" "disk_size s' = disk_size s" "inodes s' = inodes s" "open_inodes s' = open_inodes s"
  using assms by (auto simp: get_bounce_def fs_malloc_def split: if_splits list.splits)

lemma content_cong: "disk s' = disk s \<Longrightarrow> content i s' = content i s"
  by (simp add: content_def sector_bytes_def)

lemma inode_ok_cong: "disk_size s' = disk_size s \<Longrightarrow> inode_ok i s' = inode_ok i s"
  by (simp add: inode_ok_def)

lemma disk_ok_cong: "disk s' = disk s \<Longrightarrow> disk_size s' = disk_size s \<Longrightarrow> disk_ok s' = disk_ok s"
  by (simp add: disk_ok_def)

lemma get_bounce_get: "get_bounce b s = (b', s') \<Longrightarrow> b' \<noteq> NULL \<Longrightarrow> get_bounce b' s' = (b', s')"
  by (simp add: get_bounce_def)

lemma take_step: "n \<le> nat sz \<Longrightarrow> int n \<le> sz \<Longrightarrow> take n xs @ take (nat (sz - int n)) (drop n xs) = take (nat sz) xs"
  by (metis add.commute le_add_diff_inverse nat_diff_distrib' nat_int of_nat_0_le_iff order_trans take_add)

lemma read_sector_data:
  assumes "inode_ok i s" and "int m < inode_length i"
  shows "fs_read_sector (byte_to_sector i (int m)) s = Some (disk s (byte_to_sector i (int m)))"
  using data_sector_disk(2) [OF assms(1) sector_number(2) [OF assms]] sector_number(1) [OF assms]
  by (simp add: fs_read_sector_def fs_check_sector_def)

lemma read_loop_full:
  assumes "0 < sz" and "chunk_size i sz ofs = 512" and "sector_ofs ofs = 0" and "fs_read_sector (byte_to_sector i ofs) s = Some bs"
  shows "read_loop i sz ofs acc b s = read_loop i (sz - 512) (int32 (ofs + 512)) (acc @ bs) b s"
  using assms by (subst read_loop.simps) (simp add: BLOCK_SECTOR_SIZE_def Let_def)

lemma read_loop_part:
  assumes "0 < sz" and "chunk_size i sz ofs = int n" "0 < n" and "sector_ofs ofs = int j" and "\<not> (j = 0 \<and> n = 512)"
    and "get_bounce b s = (b1, s1)" and "fs_read_sector (byte_to_sector i ofs) s1 = Some bs"
  shows "read_loop i sz ofs acc b s = (if b1 = NULL then Some (acc, NULL, s1)
    else read_loop i (sz - int n) (int32 (ofs + int n)) (acc @ take n (drop j bs)) b1 s1)"
proof -
  have "\<not> (sector_ofs ofs = 0 \<and> chunk_size i sz ofs = int BLOCK_SECTOR_SIZE)"
    using assms(2,4,5) by (auto simp: BLOCK_SECTOR_SIZE_def)
  then show ?thesis using assms by (subst read_loop.simps) (auto simp: Let_def)
qed

lemma read_loop_ok:
  assumes "disk_ok s" "inode_ok i s" and "int m < 2 ^ 31"
  shows "\<exists>k b' s'. read_loop i sz (int m) acc b s = Some (acc @ take k (drop m (content i s)), b', s') \<and> k \<le> nat sz \<and>
    (b', s') \<in> {(b, s), get_bounce b s} \<and> (fst (get_bounce b s) \<noteq> NULL \<longrightarrow> k = nat sz)"
  using assms
proof (induction "nat sz" arbitrary: sz m acc b s rule: less_induct)
  case less
  let ?n = "step_size i sz m" and ?c = "content i s"
  consider (stop) "sz \<le> 0" | (eof) "0 < sz" "nat (inode_length i) \<le> m" | (data) "0 < sz" "m < nat (inode_length i)"
    by linarith
  then show ?case
  proof cases
    case stop
    then have "read_loop i sz (int m) acc b s = Some (acc @ take 0 (drop m ?c), b, s)" by (subst read_loop.simps) simp
    then show ?thesis using stop by - (rule exI [of _ 0], rule exI [of _ b], rule exI [of _ s], simp)
  next
    case eof
    have "chunk_size i sz (int m) \<le> 0" using chunk_step(1) [OF less.prems(2,3) eof(1)] eof(2) less.prems(2) by (simp add: inode_ok_def)
    then have "read_loop i sz (int m) acc b s = Some (acc, b, s)" using eof(1) by (subst read_loop.simps) simp
    moreover have "drop m ?c = []" using length_content [OF less.prems(1,2)] eof(2) by simp
    ultimately show ?thesis by (intro exI [of _ "nat sz"]) simp
  next
    case data
    note n = step_size_pos [OF data] step_sizeD [OF data]
    have lt: "int m < inode_length i" using data(2) by linarith
    have chunk: "chunk_size i sz (int m) = int ?n" "sector_ofs (int m) = int (m mod 512)"
      using chunk_step [OF less.prems(2,3) data(1)] data(2) by auto
    have next_ofs: "int (m + ?n) < 2 ^ 31" using n(3) less.prems(2) unfolding inode_ok_def by linarith
    then have wrap: "int32 (int m + int ?n) = int (m + ?n)" by (subst int32_small) simp_all
    note read = read_sector_data [OF _ lt]
    have bytes: "take ?n (drop m ?c) = take ?n (drop (m mod 512) (disk s (byte_to_sector i (int m))))"
      by (rule content_at [OF less.prems(1,2) n(3,4,1)])
    have smaller: "nat (sz - int ?n) < nat sz" using n(1,2) by simp
    have join: "(acc @ take ?n (drop m ?c)) @ take k (drop (m + ?n) ?c) = acc @ take (?n + k) (drop m ?c)"
      "k \<le> nat (sz - int ?n) \<Longrightarrow> ?n + k \<le> nat sz" "?n + nat (sz - int ?n) = nat sz" for k
      using n(2) by (simp_all add: take_add add.commute [of m])
    show ?thesis
    proof (cases "m mod 512 = 0 \<and> ?n = 512")
      case True
      have "length (disk s (byte_to_sector i (int m))) = 512"
        using data_sector_disk(2) [OF less.prems(2) sector_number(2) [OF less.prems(2) lt]] less.prems(1)
        by (simp add: disk_ok_def BLOCK_SECTOR_SIZE_def sector_number(1) [OF less.prems(2) lt])
      then have "read_loop i sz (int m) acc b s = read_loop i (sz - int ?n) (int (m + ?n)) (acc @ take ?n (drop m ?c)) b s"
        using True chunk data(1) read_loop_full [OF _ _ _ read [OF less.prems(2)]] wrap bytes by simp
      moreover obtain k b' s' where "read_loop i (sz - int ?n) (int (m + ?n)) (acc @ take ?n (drop m ?c)) b s =
          Some ((acc @ take ?n (drop m ?c)) @ take k (drop (m + ?n) ?c), b', s')" "k \<le> nat (sz - int ?n)"
          "(b', s') \<in> {(b, s), get_bounce b s}" "fst (get_bounce b s) \<noteq> NULL \<longrightarrow> k = nat (sz - int ?n)"
        using less.hyps [OF smaller less.prems(1,2) next_ofs, of "acc @ take ?n (drop m ?c)" b] by blast
      ultimately show ?thesis using join by - (rule exI [of _ "?n + k"], rule exI [of _ b'], rule exI [of _ s'], simp)
    next
      case False
      obtain b1 s1 where b1: "get_bounce b s = (b1, s1)" by (cases "get_bounce b s")
      note same = get_bounce_sels [OF b1]
      have read1: "fs_read_sector (byte_to_sector i (int m)) s1 = Some (disk s (byte_to_sector i (int m)))"
        using read [OF less.prems(2)] same by (simp add: fs_read_sector_def fs_check_sector_def)
      show ?thesis
      proof (cases "b1 = NULL")
        case True
        then have "read_loop i sz (int m) acc b s = Some (acc @ take 0 (drop m ?c), NULL, s1)"
          using read_loop_part [OF data(1) chunk(1) n(1) chunk(2) False b1 read1] by simp
        moreover have "0 \<le> nat sz \<and> (NULL, s1) \<in> {(b, s), get_bounce b s} \<and> (fst (get_bounce b s) \<noteq> NULL \<longrightarrow> 0 = nat sz)"
          unfolding b1 True by simp
        ultimately show ?thesis by - (rule exI [of _ 0], rule exI [of _ NULL], rule exI [of _ s1], rule conjI)
      next
        case ok: False
        have prems: "disk_ok s1" "inode_ok i s1" "content i s1 = ?c" "get_bounce b1 s1 = (b1, s1)"
          using less.prems(1,2) content_cong [OF same(1)] disk_ok_cong [OF same(1,2)] inode_ok_cong [OF same(2)]
            get_bounce_get [OF b1 ok] by simp_all
        have "read_loop i sz (int m) acc b s = read_loop i (sz - int ?n) (int (m + ?n)) (acc @ take ?n (drop m ?c)) b1 s1"
          using read_loop_part [OF data(1) chunk(1) n(1) chunk(2) False b1 read1] wrap bytes ok by simp
        moreover obtain k b' s' where "read_loop i (sz - int ?n) (int (m + ?n)) (acc @ take ?n (drop m ?c)) b1 s1 =
            Some ((acc @ take ?n (drop m ?c)) @ take k (drop (m + ?n) ?c), b', s')" "k \<le> nat (sz - int ?n)"
            "(b', s') \<in> {(b1, s1), get_bounce b1 s1}" "fst (get_bounce b1 s1) \<noteq> NULL \<longrightarrow> k = nat (sz - int ?n)"
          using less.hyps [OF smaller prems(1,2) next_ofs, of "acc @ take ?n (drop m ?c)" b1] prems(3) by auto
        ultimately show ?thesis using join prems(4) b1 ok by - (rule exI [of _ "?n + k"], rule exI [of _ b'], rule exI [of _ s'], simp)
      qed
    qed
  qed
qed

section \<open>Writing\<close>

lemma length_patch [simp]: "ofs + length bs \<le> length old \<Longrightarrow> length (patch old ofs bs) = length old"
  by (simp add: patch_def)

lemma nth_patch:
  "ofs + length bs \<le> length old \<Longrightarrow> x < length old \<Longrightarrow>
    patch old ofs bs ! x = (if ofs \<le> x \<and> x < ofs + length bs then bs ! (x - ofs) else old ! x)"
  by (auto simp: patch_def nth_append min_def)

lemma patch_Nil [simp]: "patch old ofs [] = old"
  by (simp add: patch_def)

lemma patch_patch:
  "ofs + length as \<le> length old \<Longrightarrow> patch (patch old ofs as) (ofs + length as) bs = patch old ofs (as @ bs)"
  by (simp add: patch_def add.commute add.left_commute)

lemma patch_whole: "length bs = length old \<Longrightarrow> patch old 0 bs = bs"
  by (simp add: patch_def)

lemma content_nth:
  assumes "disk_ok s" "inode_ok i s" and "x < nat (inode_length i)"
  shows "content i s ! x = disk s (data_sector i (x div 512)) ! (x mod 512)"
proof -
  have lt: "int x < inode_length i" using assms(3) by linarith
  note k = sector_number [OF assms(2) lt]
  have m: "x mod 512 < 512" by simp
  have len: "length (disk s (data_sector i (x div 512))) = 512"
    using data_sector_disk(2) [OF assms(2) k(2)] assms(1) by (simp add: disk_ok_def BLOCK_SECTOR_SIZE_def)
  have "take 1 (drop x (content i s)) = take 1 (drop (x mod 512) (disk s (data_sector i (x div 512))))"
    using content_at [OF assms(1,2), of x 1] assms(3) m k(1) by simp
  then show ?thesis using len m length_content [OF assms(1,2)] assms(3) by (simp add: take_Suc_conv_app_nth hd_drop_conv_nth take_Suc)
qed

text \<open>Patching the bytes of one sector patches the content.\<close>

lemma same_sector:
  fixes m n x :: nat
  assumes "m mod 512 + n \<le> 512"
  shows "m \<le> x \<and> x < m + n \<longleftrightarrow> x div 512 = m div 512 \<and> m mod 512 \<le> x mod 512 \<and> x mod 512 < m mod 512 + n" (is "?L = ?R")
    and "x div 512 = m div 512 \<Longrightarrow> x - m = x mod 512 - m mod 512"
proof -
  define a b c d where "a = m div 512" and "b = m mod 512" and "c = x div 512" and "d = x mod 512"
  then have eq: "m = a * 512 + b" "x = c * 512 + d" and lt: "b < 512" "d < 512" by simp_all
  have "?L = (c = a \<and> b \<le> d \<and> d < b + n)"
  proof
    assume ?L
    then have L: "m \<le> x" "x < m + n" by simp_all
    have "b + n \<le> 512" using assms \<open>b = m mod 512\<close> by simp
    then have "c < a + 1" "a < c + 1" using L lt unfolding eq by simp_all
    then show "c = a \<and> b \<le> d \<and> d < b + n" using L eq by simp
  qed (use eq in auto)
  then show "?L = ?R" by (simp only: a_def b_def c_def d_def)
  show "x - m = x mod 512 - m mod 512" if "x div 512 = m div 512"
    using that eq unfolding a_def [symmetric] b_def [symmetric] c_def [symmetric] d_def [symmetric] by simp
qed

lemma disk_ok_write:
  assumes "disk_ok s" and "length bs = 512"
  shows "disk_ok (s\<lparr>disk := (disk s)(n := bs)\<rparr>)"
  using assms by (simp add: disk_ok_def BLOCK_SECTOR_SIZE_def)

lemma content_patch:
  assumes ok: "disk_ok s" "inode_ok i s" and n: "m + length bs \<le> nat (inode_length i)" "m mod 512 + length bs \<le> 512" "0 < length bs"
    and q: "q = byte_to_sector i (int m)"
  defines "s' \<equiv> s\<lparr>disk := (disk s)(q := patch (disk s q) (m mod 512) bs)\<rparr>"
  shows "content i s' = patch (content i s) m bs" "disk_ok s'" "q \<in> data_sectors i" "q < disk_size s"
proof -
  have lt: "int m < inode_length i" using n(1,3) by linarith
  note k = sector_number [OF ok(2) lt]
  have q': "q = data_sector i (m div 512)" using q k(1) by simp
  show "q < disk_size s" "q \<in> data_sectors i" using data_sector_disk(2) [OF ok(2) k(2)] k(2) by (auto simp: q' data_sectors_def)
  then have len: "length (disk s q) = 512" using ok(1) by (simp add: disk_ok_def BLOCK_SECTOR_SIZE_def)
  show ok': "disk_ok s'" unfolding s'_def by (rule disk_ok_write [OF ok(1)]) (use len n(2) in simp)
  have oki: "inode_ok i s'" using ok(2) by (simp add: s'_def inode_ok_def)
  show "content i s' = patch (content i s) m bs"
  proof (rule nth_equalityI)
    show l: "length (content i s') = length (patch (content i s) m bs)"
      using length_content [OF ok] length_content [OF ok' oki] n(1) by simp
    fix x assume "x < length (content i s')"
    then have x: "x < nat (inode_length i)" using length_content [OF ok' oki] by simp
    have lx: "int x < inode_length i" using x by linarith
    note kx = sector_number(2) [OF ok(2) lx]
    have "data_sector i (x div 512) = q \<longleftrightarrow> x div 512 = m div 512" unfolding q' by (rule data_sector_inj [OF ok(2) kx k(2)])
    then have "content i s' ! x = (if x div 512 = m div 512 then patch (disk s q) (m mod 512) bs ! (x mod 512)
        else disk s (data_sector i (x div 512)) ! (x mod 512))"
      using content_nth [OF ok' oki x] by (auto simp: s'_def)
    also have "\<dots> = patch (content i s) m bs ! x"
      using content_nth [OF ok x] same_sector [OF n(2), of x] n(1,2) x length_content [OF ok] len
      by (auto simp: nth_patch q')
    finally show "content i s' ! x = patch (content i s) m bs ! x" .
  qed
qed

lemma write_loop_full:
  assumes "0 < sz" and "chunk_size i sz ofs = 512" and "sector_ofs ofs = 0" and "w + 512 \<le> length buf"
    and "fs_write_sector (byte_to_sector i ofs) (take 512 (drop w buf)) s = Some s'"
  shows "write_loop i buf sz ofs w b s = write_loop i buf (sz - 512) (int32 (ofs + 512)) (w + 512) b s'"
  using assms by (subst write_loop.simps) (simp add: BLOCK_SECTOR_SIZE_def Let_def)

lemma write_loop_part:
  assumes "0 < sz" and "chunk_size i sz ofs = int n" "0 < n" and "sector_ofs ofs = int j" and "\<not> (j = 0 \<and> n = 512)"
    and "j + n \<le> 512" and "w + n \<le> length buf" and "get_bounce b s = (b1, s1)" and "fs_read_sector (byte_to_sector i ofs) s1 = Some old"
    and "fs_write_sector (byte_to_sector i ofs) (patch old j (take n (drop w buf))) s1 = Some s2"
  shows "write_loop i buf sz ofs w b s = (if b1 = NULL then Some (w, NULL, s1)
    else write_loop i buf (sz - int n) (int32 (ofs + int n)) (w + n) b1 s2)"
proof -
  have "\<not> (sector_ofs ofs = 0 \<and> chunk_size i sz ofs = int BLOCK_SECTOR_SIZE)"
    using assms(2,4,5) by (auto simp: BLOCK_SECTOR_SIZE_def)
  moreover have "sector_ofs ofs > 0 \<or> chunk_size i sz ofs < int BLOCK_SECTOR_SIZE - sector_ofs ofs"
    using assms(2,4,5,6) by (auto simp: BLOCK_SECTOR_SIZE_def)
  ultimately show ?thesis using assms by (subst write_loop.simps) (auto simp: Let_def)
qed

text \<open>What a write leaves alone: everything but the data sectors of the inode, and the heap but for the bounce buffer.\<close>

definition wrote :: "inode \<Rightarrow> 'a fs_scheme \<Rightarrow> 'a fs_scheme \<Rightarrow> bool" where
  "wrote i s s' \<longleftrightarrow> (\<exists>d. s' = s\<lparr>disk := d\<rparr> \<and> (\<forall>n. n \<notin> data_sectors i \<longrightarrow> d n = disk s n))"

lemma wrote_refl: "wrote i s s"
  unfolding wrote_def by (rule exI [of _ "disk s"]) simp

lemma wrote_trans: "wrote i s s' \<Longrightarrow> wrote i s' s'' \<Longrightarrow> wrote i s s''"
  unfolding wrote_def by force

lemma wrote_sels:
  assumes "wrote i s s'"
  shows "disk_size s' = disk_size s" "inodes s' = inodes s" "open_inodes s' = open_inodes s" "answers s' = answers s"
    "in_use s' = in_use s" "n \<notin> data_sectors i \<Longrightarrow> disk s' n = disk s n" "fs.more s' = fs.more s"
  using assms by (auto simp: wrote_def)

lemma wrote_sector: "q \<in> data_sectors i \<Longrightarrow> wrote i s (s\<lparr>disk := (disk s)(q := bs)\<rparr>)"
  unfolding wrote_def by (rule exI [of _ "(disk s)(q := bs)"]) auto

lemma write_sector_data: "q < disk_size s \<Longrightarrow> fs_write_sector q bs s = Some (s\<lparr>disk := (disk s)(q := bs)\<rparr>)"
  by (simp add: fs_write_sector_def fs_check_sector_def)

lemma get_bounce_disk: "get_bounce b (s\<lparr>disk := d\<rparr>) = (fst (get_bounce b s), snd (get_bounce b s)\<lparr>disk := d\<rparr>)"
  by (auto simp: get_bounce_def fs_malloc_def split: list.split)

definition write_result ::
    "inode \<Rightarrow> byte list \<Rightarrow> int \<Rightarrow> nat \<Rightarrow> nat \<Rightarrow> addr \<Rightarrow> 'a fs_scheme \<Rightarrow> nat \<Rightarrow> addr \<Rightarrow> 'a fs_scheme \<Rightarrow> bool" where
  "write_result i buf sz m w b s k b' s' \<longleftrightarrow>
     write_loop i buf sz (int m) w b s = Some (w + k, b', s') \<and>
     k \<le> min (nat sz) (nat (inode_length i) - m) \<and> (fst (get_bounce b s) \<noteq> NULL \<longrightarrow> k = min (nat sz) (nat (inode_length i) - m)) \<and>
     content i s' = patch (content i s) m (take k (drop w buf)) \<and> disk_ok s' \<and>
     (\<exists>t. (b', t) \<in> {(b, s), get_bounce b s} \<and> wrote i t s')"

lemma bounce_wrote:
  assumes "wrote i s s2"
  shows "fst (get_bounce b s2) = fst (get_bounce b s)"
    "(b', t) \<in> {(b, s2), get_bounce b s2} \<Longrightarrow> \<exists>t0. (b', t0) \<in> {(b, s), get_bounce b s} \<and> wrote i t0 t"
proof -
  obtain d where d: "s2 = s\<lparr>disk := d\<rparr>" "\<And>n. n \<notin> data_sectors i \<Longrightarrow> d n = disk s n" using assms by (auto simp: wrote_def)
  obtain b1 s1 where b1: "get_bounce b s = (b1, s1)" by (cases "get_bounce b s")
  note g = get_bounce_disk [of b d s, folded d(1), unfolded b1]
  show "fst (get_bounce b s2) = fst (get_bounce b s)" by (simp add: g b1)
  have w: "wrote i s1 (s1\<lparr>disk := d\<rparr>)"
    unfolding wrote_def by (rule exI [of _ d]) (use d(2) get_bounce_sels(1) [OF b1] in simp)
  assume "(b', t) \<in> {(b, s2), get_bounce b s2}"
  then consider "b' = b" "t = s2" | "b' = b1" "t = s1\<lparr>disk := d\<rparr>" unfolding g by auto
  then show "\<exists>t0. (b', t0) \<in> {(b, s), get_bounce b s} \<and> wrote i t0 t"
  proof cases
    case 1
    then show ?thesis using assms by (intro exI [of _ s] conjI) simp_all
  next
    case 2
    then show ?thesis using w b1 by (intro exI [of _ s1] conjI) simp_all
  qed
qed

lemma write_result_zero:
  assumes "disk_ok s" and "write_loop i buf sz (int m) w b s = Some (w, b', s')" and "(b', s') \<in> {(b, s), get_bounce b s}"
    and "fst (get_bounce b s) \<noteq> NULL \<Longrightarrow> min (nat sz) (nat (inode_length i) - m) = 0"
  shows "write_result i buf sz m w b s 0 b' s'"
proof -
  have same: "disk s' = disk s" "disk_size s' = disk_size s"
    using assms(3) get_bounce_sels [of b s b' s'] by auto
  show ?thesis unfolding write_result_def
  proof (intro conjI)
    show "\<exists>t. (b', t) \<in> {(b, s), get_bounce b s} \<and> wrote i t s'"
      by (rule exI [of _ s']) (use assms(3) wrote_refl in simp)
    show "disk_ok s'" "content i s' = patch (content i s) m (take 0 (drop w buf))"
      using assms(1) disk_ok_cong [OF same] content_cong [OF same(1)] by simp_all
  qed (use assms(2,4) in auto)
qed

text \<open>One iteration followed by the rest of the loop.\<close>

lemma write_result_step:
  assumes n: "0 < sz" "m < nat (inode_length i)" "n = step_size i sz m" "w + n \<le> length buf" and ok: "disk_ok s" "inode_ok i s"
    and loop: "write_loop i buf sz (int m) w b s = write_loop i buf (sz - int n) (int (m + n)) (w + n) b1 s2"
    and b1: "get_bounce b1 s1 = get_bounce b s" "(b1, s1) \<in> {(b, s), get_bounce b s}"
    and s2: "content i s2 = patch (content i s) m (take n (drop w buf))" "wrote i s1 s2"
    and rest: "write_result i buf (sz - int n) (m + n) (w + n) b1 s2 k b' s'"
  shows "write_result i buf sz m w b s (n + k) b' s'"
proof -
  note r = rest [unfolded write_result_def]
  note nn = step_sizeD [OF n(1,2), folded n(3)]
  have size: "n + min (nat (sz - int n)) (nat (inode_length i) - (m + n)) = min (nat sz) (nat (inode_length i) - m)"
    using nn(1,2) by linarith
  have bnc: "fst (get_bounce b1 s2) = fst (get_bounce b s)" using bounce_wrote(1) [OF s2(2), of b1] b1(1) by simp
  show ?thesis unfolding write_result_def
  proof (intro conjI)
    show "write_loop i buf sz (int m) w b s = Some (w + (n + k), b', s')" using r loop by (simp add: add.assoc)
    show "n + k \<le> min (nat sz) (nat (inode_length i) - m)" using r size by linarith
    show "fst (get_bounce b s) \<noteq> NULL \<longrightarrow> n + k = min (nat sz) (nat (inode_length i) - m)" using r size bnc by auto
    have "content i s' = patch (patch (content i s) m (take n (drop w buf))) (m + n) (take k (drop (w + n) buf))"
      using r s2(1) by simp
    also have "\<dots> = patch (content i s) m (take n (drop w buf) @ take k (drop (w + n) buf))"
      using patch_patch [of m "take n (drop w buf)" "content i s"] n(4) nn(2) length_content [OF ok] by simp
    also have "take n (drop w buf) @ take k (drop (w + n) buf) = take (n + k) (drop w buf)" by (simp add: take_add add.commute [of w])
    finally show "content i s' = patch (content i s) m (take (n + k) (drop w buf))" .
    show "disk_ok s'" using r by blast
    obtain t where t: "(b', t) \<in> {(b1, s2), get_bounce b1 s2}" "wrote i t s'" using r by blast
    from bounce_wrote(2) [OF s2(2) t(1)] obtain t0 where "(b', t0) \<in> {(b1, s1), get_bounce b1 s1}" "wrote i t0 t" by blast
    then show "\<exists>t. (b', t) \<in> {(b, s), get_bounce b s} \<and> wrote i t s'"
      by (intro exI [of _ t0] conjI) (use b1 wrote_trans [OF _ t(2)] in auto)
  qed
qed

lemma write_iteration:
  assumes data: "0 < sz" "m < nat (inode_length i)" and n: "n = step_size i sz m" "w + n \<le> length buf"
    and ok: "disk_ok s" "inode_ok i s" and m: "int m < 2 ^ 31"
  shows "get_bounce b s = (NULL, snd (get_bounce b s)) \<and> write_loop i buf sz (int m) w b s = Some (w, NULL, snd (get_bounce b s)) \<or>
    (\<exists>b1 s1 s2. write_loop i buf sz (int m) w b s = write_loop i buf (sz - int n) (int (m + n)) (w + n) b1 s2 \<and>
      get_bounce b1 s1 = get_bounce b s \<and> (b1, s1) \<in> {(b, s), get_bounce b s} \<and>
      content i s2 = patch (content i s) m (take n (drop w buf)) \<and> wrote i s1 s2 \<and> disk_ok s2)"
proof -
  note nn = step_size_pos [OF data, folded n(1)] step_sizeD [OF data, folded n(1)]
  have lt: "int m < inode_length i" using data(2) by linarith
  have chunk: "chunk_size i sz (int m) = int n" "sector_ofs (int m) = int (m mod 512)"
    using chunk_step [OF ok(2) m data(1)] data(2) n(1) by auto
  have "int (m + n) < 2 ^ 31" using nn(3) ok(2) unfolding inode_ok_def by linarith
  then have wrap: "int32 (int m + int n) = int (m + n)" by (subst int32_small) simp_all
  let ?q = "byte_to_sector i (int m)" and ?bs = "take n (drop w buf)"
  have len: "length ?bs = n" using n(2) by simp
  define f where "f t = t\<lparr>disk := (disk t)(?q := patch (disk t ?q) (m mod 512) ?bs)\<rparr>" for t :: "'a fs_scheme"
  have step: "content i (f t) = patch (content i s) m ?bs" "disk_ok (f t)" "wrote i t (f t)"
      "fs_read_sector ?q t = Some (disk t ?q)" "fs_write_sector ?q (patch (disk t ?q) (m mod 512) ?bs) t = Some (f t)"
    if same: "disk t = disk s" "disk_size t = disk_size s" for t :: "'a fs_scheme"
  proof -
    have okt: "disk_ok t" "inode_ok i t" using ok disk_ok_cong [OF same] inode_ok_cong [OF same(2)] by simp_all
    note c = content_patch [OF okt, of m ?bs ?q, unfolded len, OF nn(3,4,1) refl]
    show "content i (f t) = patch (content i s) m ?bs" "disk_ok (f t)" "wrote i t (f t)"
      "fs_write_sector ?q (patch (disk t ?q) (m mod 512) ?bs) t = Some (f t)"
      using c(1,2) content_cong [OF same(1)] wrote_sector [OF c(3)] write_sector_data [OF c(4)] by (simp_all add: f_def)
    show "fs_read_sector ?q t = Some (disk t ?q)" by (rule read_sector_data [OF okt(2) lt])
  qed
  show ?thesis
  proof (cases "m mod 512 = 0 \<and> n = 512")
    case True
    have "length (disk s ?q) = 512" using ok(1) data_sector_disk(2) [OF ok(2) sector_number(2) [OF ok(2) lt]]
      by (simp add: disk_ok_def BLOCK_SECTOR_SIZE_def sector_number(1) [OF ok(2) lt])
    then have "patch (disk s ?q) (m mod 512) ?bs = ?bs" using True len by (simp add: patch_whole)
    then have "write_loop i buf sz (int m) w b s = write_loop i buf (sz - int n) (int (m + n)) (w + n) b (f s)"
      using True chunk data(1) write_loop_full [of sz i "int m" w buf s "f s" b] wrap step(5) [OF refl refl] n(2) by simp
    then show ?thesis using step(1,2,3) [OF refl refl] by (intro disjI2 exI [of _ b] exI [of _ s] exI [of _ "f s"]) simp
  next
    case False
    obtain b1 s1 where b1: "get_bounce b s = (b1, s1)" by (cases "get_bounce b s")
    note st = step [OF get_bounce_sels(1,2) [OF b1]]
    note part = write_loop_part [OF data(1) chunk(1) nn(1) chunk(2) False nn(4) n(2) b1 st(4,5)]
    show ?thesis
    proof (cases "b1 = NULL")
      case True
      then show ?thesis using part b1 by simp
    next
      case b: False
      then show ?thesis using part wrap b1 st(1,2,3) get_bounce_get [OF b1 b]
        by (intro disjI2 exI [of _ b1] exI [of _ s1] exI [of _ "f s1"]) simp
    qed
  qed
qed

lemma write_loop_ok:
  assumes "disk_ok s" "inode_ok i s" and "int m < 2 ^ 31" and "w + nat sz \<le> length buf"
  shows "\<exists>k b' s'. write_result i buf sz m w b s k b' s'"
  using assms
proof (induction "nat sz" arbitrary: sz m w b s rule: less_induct)
  case less
  let ?n = "step_size i sz m"
  consider (stop) "sz \<le> 0" | (eof) "0 < sz" "nat (inode_length i) \<le> m" | (data) "0 < sz" "m < nat (inode_length i)"
    by linarith
  then show ?case
  proof cases
    case stop
    then have "write_loop i buf sz (int m) w b s = Some (w, b, s)" by (subst write_loop.simps) simp
    from write_result_zero [OF less.prems(1) this] stop show ?thesis by auto
  next
    case eof
    have "chunk_size i sz (int m) \<le> 0" using chunk_step(1) [OF less.prems(2,3) eof(1)] eof(2) less.prems(2) by (simp add: inode_ok_def)
    then have "write_loop i buf sz (int m) w b s = Some (w, b, s)" using eof(1) by (subst write_loop.simps) simp
    from write_result_zero [OF less.prems(1) this] eof show ?thesis by auto
  next
    case data
    note n = step_size_pos [OF data] step_sizeD [OF data]
    have fits: "w + ?n \<le> length buf" using n(2) less.prems(4) by linarith
    from write_iteration [OF data refl fits less.prems(1-3), of b] show ?thesis
    proof (elim disjE exE conjE)
      assume "get_bounce b s = (NULL, snd (get_bounce b s))" "write_loop i buf sz (int m) w b s = Some (w, NULL, snd (get_bounce b s))"
      from write_result_zero [OF less.prems(1) this(2)] this(1) show ?thesis by (metis fst_conv insert_iff)
    next
      fix b1 s1 s2
      assume loop: "write_loop i buf sz (int m) w b s = write_loop i buf (sz - int ?n) (int (m + ?n)) (w + ?n) b1 s2"
        and b1: "get_bounce b1 s1 = get_bounce b s" "(b1, s1) \<in> {(b, s), get_bounce b s}"
        and s2: "content i s2 = patch (content i s) m (take ?n (drop w buf))" "wrote i s1 s2" "disk_ok s2"
      have "disk_size s2 = disk_size s" using wrote_sels(1) [OF s2(2)] b1(2) get_bounce_sels(2) [of b s b1 s1] by auto
      then have ok: "inode_ok i s2" using less.prems(2) inode_ok_cong by blast
      have smaller: "nat (sz - int ?n) < nat sz" "int (m + ?n) < 2 ^ 31" "w + ?n + nat (sz - int ?n) \<le> length buf"
        using n(1,2,3) less.prems(2,4) unfolding inode_ok_def by linarith+
      from less.hyps [OF smaller(1) s2(3) ok smaller(2,3), of b1] obtain k b' s'
        where "write_result i buf (sz - int ?n) (m + ?n) (w + ?n) b1 s2 k b' s'" by blast
      from write_result_step [OF data refl fits less.prems(1,2) loop b1 s2(1,2) this] show ?thesis by blast
    qed
  qed
qed

section \<open>Whole reads and writes\<close>

text \<open>\<open>memory s\<close>: the next call of \<^verbatim>\<open>malloc\<close> succeeds.\<close>

definition memory :: "'a fs_scheme \<Rightarrow> bool" where
  "memory s \<longleftrightarrow> fst (fs_malloc s) \<noteq> NULL"

lemma memory_bounce: "fst (get_bounce NULL s) \<noteq> NULL \<longleftrightarrow> memory s"
  by (simp add: memory_def get_bounce_def)

lemma memory_iff: "memory s \<longleftrightarrow> (case answers s of [] \<Rightarrow> False | p # _ \<Rightarrow> p \<noteq> NULL \<and> p \<notin> set (in_use s))"
  by (auto simp: memory_def fs_malloc_def split: list.split)

text \<open>A call that uses the heap for a while and gives back what it got has asked at most once.\<close>

definition spent :: "addr list \<Rightarrow> addr list \<Rightarrow> bool" where
  "spent as as' \<longleftrightarrow> as' = as \<or> as' = tl as"

lemma free_bounce:
  assumes "(b, t) \<in> {(NULL, s), get_bounce NULL s}"
  shows "\<exists>as. fs_free b t = Some (s\<lparr>answers := as\<rparr>) \<and> spent (answers s) as"
proof (cases "(b, t) = (NULL, s)")
  case True
  then show ?thesis by (intro exI [of _ "answers s"]) (simp add: fs_free_def spent_def)
next
  case False
  then have "(b, t) = fs_malloc s" using assms by (auto simp: get_bounce_def)
  then show ?thesis
    by (intro exI [of _ "tl (answers s)"]) (cases "answers s"; auto simp: fs_malloc_def fs_free_def ASSERT_def spent_def split: if_splits)
qed

lemma free_disk: "fs_free b (t\<lparr>disk := d\<rparr>) = map_option (\<lambda>t. t\<lparr>disk := d\<rparr>) (fs_free b t)"
  by (simp add: fs_free_def ASSERT_def)

lemma inode_read_at_ok:
  assumes "disk_ok s" "inode_ok (inodes s p) s" and p: "p \<noteq> NULL" "p \<in> set (in_use s)" and ofs: "int ofs < 2 ^ 31"
  shows "\<exists>k as. inode_read_at p sz (int ofs) s = Some (take k (drop ofs (content (inodes s p) s)), s\<lparr>answers := as\<rparr>) \<and>
    k \<le> nat sz \<and> (memory s \<longrightarrow> k = nat sz) \<and> spent (answers s) as"
proof -
  obtain k b t where r: "read_loop (inodes s p) sz (int ofs) [] NULL s = Some (take k (drop ofs (content (inodes s p) s)), b, t)"
    "k \<le> nat sz" "(b, t) \<in> {(NULL, s), get_bounce NULL s}" "memory s \<longrightarrow> k = nat sz"
    using read_loop_ok [OF assms(1,2) ofs, of sz "[]" NULL] memory_bounce [of s] by auto
  from free_bounce [OF r(3)] obtain as where "fs_free b t = Some (s\<lparr>answers := as\<rparr>)" "spent (answers s) as" by blast
  then show ?thesis using r(1,2,4) p
    by - (rule exI [of _ k], rule exI [of _ as], simp add: inode_read_at_def deref_def ASSERT_def)
qed

lemma inode_write_at_ok:
  fixes s :: "'a fs_scheme" and p :: addr
  defines "i \<equiv> inodes s p"
  assumes "disk_ok s" "inode_ok i s" and p: "p \<noteq> NULL" "p \<in> set (in_use s)" and ofs: "int ofs < 2 ^ 31"
    and buf: "nat sz \<le> length buf" and allowed: "deny_write_cnt i = 0"
  shows "\<exists>k d as. inode_write_at p buf sz (int ofs) s = Some (k, s\<lparr>disk := d, answers := as\<rparr>) \<and>
    k \<le> min (nat sz) (nat (inode_length i) - ofs) \<and> (memory s \<longrightarrow> k = min (nat sz) (nat (inode_length i) - ofs)) \<and>
    content i (s\<lparr>disk := d\<rparr>) = patch (content i s) ofs (take k buf) \<and> disk_ok (s\<lparr>disk := d\<rparr>) \<and>
    (\<forall>n. n \<notin> data_sectors i \<longrightarrow> d n = disk s n) \<and> spent (answers s) as"
proof -
  have fits: "0 + nat sz \<le> length buf" using buf by simp
  obtain k b s1 where w: "write_result i buf sz ofs 0 NULL s k b s1" using write_loop_ok [OF assms(2,3) ofs fits] by blast
  note r = w [unfolded write_result_def]
  obtain t where t: "(b, t) \<in> {(NULL, s), get_bounce NULL s}" "wrote i t s1" using r by blast
  obtain d where d: "s1 = t\<lparr>disk := d\<rparr>" "\<And>n. n \<notin> data_sectors i \<Longrightarrow> d n = disk t n" using t(2) by (auto simp: wrote_def)
  have same: "disk t = disk s" "disk_size t = disk_size s" using t(1) get_bounce_sels [of NULL s b t] by auto
  from free_bounce [OF t(1)] obtain as where as: "fs_free b t = Some (s\<lparr>answers := as\<rparr>)" "spent (answers s) as" by blast
  have "inode_write_at p buf sz (int ofs) s = Some (k, s\<lparr>disk := d, answers := as\<rparr>)"
    using r p allowed as(1) d(1) by (simp add: inode_write_at_def i_def deref_def ASSERT_def free_disk)
  moreover have "content i (s\<lparr>disk := d\<rparr>) = content i s1" "disk_ok (s\<lparr>disk := d\<rparr>) = disk_ok s1"
    using same by (simp_all add: d(1) content_def sector_bytes_def disk_ok_def)
  ultimately show ?thesis using r d(2) same as(2) memory_bounce [of s]
    by - (rule exI [of _ k], rule exI [of _ d], rule exI [of _ as], simp)
qed

lemma inode_write_at_denied:
  "p \<noteq> NULL \<Longrightarrow> p \<in> set (in_use s) \<Longrightarrow> deny_write_cnt (inodes s p) \<noteq> 0 \<Longrightarrow> inode_write_at p buf sz ofs s = Some (0, s)"
  by (simp add: inode_write_at_def deref_def ASSERT_def)

section \<open>Reading and writing refine a byte sequence\<close>

definition live :: "addr \<Rightarrow> 'a fs_scheme \<Rightarrow> bool" where
  "live p s \<longleftrightarrow> p \<noteq> NULL \<and> p \<in> set (in_use s) \<and> disk_ok s \<and> inode_ok (inodes s p) s"

definition disjoint_data :: "inode \<Rightarrow> inode \<Rightarrow> bool" where
  "disjoint_data i j \<longleftrightarrow> data_sectors i \<inter> data_sectors j = {}"

text \<open>
  C10. \<^verbatim>\<open>inode_read_at\<close> on an inode whose sectors lie on the device never fails: it returns a segment of the
  inode's byte sequence that starts at the offset asked for, cut at the end of the file, and the whole segment asked for when memory
  for the bounce buffer is available.  Nothing changes but the heap's future: the bounce buffer is freed again.
\<close>

theorem inode_read_at_segment:
  assumes "live p s" and "0 \<le> ofs" "ofs < 2 ^ 31"
  shows "\<exists>k as. inode_read_at p sz ofs s = Some (take k (drop (nat ofs) (content (inodes s p) s)), s\<lparr>answers := as\<rparr>) \<and>
    k \<le> nat sz \<and> (memory s \<longrightarrow> k = nat sz)"
  using inode_read_at_ok [of s p "nat ofs" sz] assms by (auto simp: live_def)

lemma content_disjoint:
  assumes "disjoint_data i j" and "\<And>n. n \<notin> data_sectors i \<Longrightarrow> d n = disk s n"
  shows "content j (s\<lparr>disk := d\<rparr>) = content j s"
proof -
  have "d (data_sector j k) = disk s (data_sector j k)" if "k < bytes_to_sectors (inode_length j)" for k
  proof (rule assms(2))
    have "data_sector j k \<in> data_sectors j" using that by (simp add: data_sectors_def)
    then show "data_sector j k \<notin> data_sectors i" using assms(1) by (auto simp: disjoint_data_def)
  qed
  then have eq: "map (\<lambda>k. d (data_sector j k)) [0..<bytes_to_sectors (inode_length j)] =
      map (\<lambda>k. disk s (data_sector j k)) [0..<bytes_to_sectors (inode_length j)]"
    by simp
  show ?thesis by (simp add: content_def sector_bytes_def eq)
qed

text \<open>
  C9. A write of \<open>bs\<close> into the range of an inode that allows writes, with memory available, writes all of it; reading any range of
  the inode afterwards gives the old byte sequence with \<open>bs\<close> in its place, so reading the written range gives \<open>bs\<close> back; and
  the byte sequence of every inode with other sectors is unchanged.
\<close>

theorem inode_write_read:
  assumes "live p s" "memory s" and "deny_write_cnt (inodes s p) = 0"
    and ofs: "0 \<le> ofs" "nat ofs + length bs \<le> nat (inode_length (inodes s p))"
  shows "\<exists>s'. inode_write_at p bs (int (length bs)) ofs s = Some (length bs, s') \<and> inodes s' = inodes s \<and> live p s' \<and>
    (memory s' \<longrightarrow> (\<forall>sz pos. 0 \<le> pos \<and> pos < 2 ^ 31 \<longrightarrow> map_option fst (inode_read_at p sz pos s') =
      Some (take (nat sz) (drop (nat pos) (patch (content (inodes s p) s) (nat ofs) bs))))) \<and>
    (memory s' \<longrightarrow> map_option fst (inode_read_at p (int (length bs)) ofs s') = Some bs) \<and>
    (\<forall>j. disjoint_data (inodes s p) j \<longrightarrow> content j s' = content j s)"
proof -
  let ?i = "inodes s p"
  note ok = assms(1) [unfolded live_def]
  have small: "ofs < 2 ^ 31" using ofs ok unfolding inode_ok_def by linarith
  then have small': "int (nat ofs) < 2 ^ 31" using ofs(1) by simp
  from inode_write_at_ok [of s p "nat ofs" "int (length bs)" bs] ok small' assms(2,3) ofs obtain d as
    where w: "inode_write_at p bs (int (length bs)) ofs s = Some (length bs, s\<lparr>disk := d, answers := as\<rparr>)"
      and c: "content ?i (s\<lparr>disk := d\<rparr>) = patch (content ?i s) (nat ofs) bs" "disk_ok (s\<lparr>disk := d\<rparr>)"
      and d: "\<And>n. n \<notin> data_sectors ?i \<Longrightarrow> d n = disk s n"
    by auto
  define s' where "s' = s\<lparr>disk := d, answers := as\<rparr>"
  have same: "inodes s' = inodes s" "content j s' = content j (s\<lparr>disk := d\<rparr>)" for j
    by (simp_all add: s'_def content_def sector_bytes_def)
  have live': "live p s'" using ok c(2) by (simp add: live_def s'_def inode_ok_def disk_ok_def)
  have read: "map_option fst (inode_read_at p sz pos s') = Some (take (nat sz) (drop (nat pos) (patch (content ?i s) (nat ofs) bs)))"
    if "memory s'" "0 \<le> pos \<and> pos < 2 ^ 31" for sz pos
    using inode_read_at_ok [of s' p "nat pos" sz] live' that same c(1) by (auto simp: live_def)
  have "length (content ?i s) = nat (inode_length ?i)" using length_content ok by blast
  then have same_bs: "take (length bs) (drop (nat ofs) (patch (content ?i s) (nat ofs) bs)) = bs" using ofs(2) by (simp add: patch_def)
  have other: "content j s' = content j s" if "disjoint_data ?i j" for j
    using content_disjoint [OF that, of d s] d same(2) by simp
  have again: "map_option fst (inode_read_at p (int (length bs)) ofs s') = Some bs" if "memory s'"
    using read [OF that, of ofs "int (length bs)"] same_bs small ofs(1) by simp
  show ?thesis using w live' same(1) read again other by (intro exI [of _ s'] conjI) (simp_all add: s'_def [symmetric])
qed

definition demo_inode :: inode where
  "demo_inode = \<lparr>sector = 2, open_cnt = 1, removed = False, deny_write_cnt = 0,
     data = \<lparr>start = 3, length_of = 600, magic = INODE_MAGIC, unused = []\<rparr>\<rparr>"

definition demo_fs :: fs where
  "demo_fs = \<lparr>disk = (\<lambda>_. replicate 512 0), disk_size = 8, inodes = (\<lambda>_. demo_inode), open_inodes = [0x1000],
     answers = [0x2000, 0x3000], in_use = [0x1000]\<rparr>"

lemma demo_live: "live 0x1000 demo_fs" "memory demo_fs" "deny_write_cnt (inodes demo_fs 0x1000) = 0" "inode_length (inodes demo_fs 0x1000) = 600"
  using sectors_of_nat [of 600]
  by (simp_all add: demo_fs_def demo_inode_def live_def disk_ok_def BLOCK_SECTOR_SIZE_def inode_ok_def inode_length_def memory_def fs_malloc_def)

theorem inode_read_at_segment_witness:
  "\<exists>k as. inode_read_at 0x1000 20 500 demo_fs =
      Some (take k (drop (nat 500) (content (inodes demo_fs 0x1000) demo_fs)), demo_fs\<lparr>answers := as\<rparr>) \<and>
    k \<le> nat 20 \<and> (memory demo_fs \<longrightarrow> k = nat 20)"
  using inode_read_at_segment [OF demo_live(1), of 500 20] by simp

theorem inode_write_read_witness:
  "\<exists>s'. inode_write_at 0x1000 [1, 2, 3] 3 510 demo_fs = Some (3, s') \<and>
    (memory s' \<longrightarrow> map_option fst (inode_read_at 0x1000 3 510 s') = Some [1, 2, 3])"
  using inode_write_read [OF demo_live(1-3), of 510 "[1, 2, 3]"] demo_live(4) by auto

end
