(* ===== verification/Fs_File.thy ===== *)
theory Fs_File
  imports Fs_Inode Kernel_Bitmap
begin

text \<open>
  Open files, \<^verbatim>\<open>filesys/file.c\<close>, the free map, \<^verbatim>\<open>filesys/free-map.c\<close>, with the transfer of a bitmap to and from
  its file, \<^verbatim>\<open>lib/kernel/bitmap.c\<close>, and the life cycle of inodes, the rest of \<^verbatim>\<open>filesys/inode.c\<close>.

  The C files call one another in a circle: releasing the sectors of an inode updates the free map, which is stored in a file, which
  has an inode.  The routines themselves do not, and they are defined here in the order of their calls.

  \<open>fsys\<close> extends the state of \<open>Fs_Inode\<close> with the open files and directories by address, the free map and
  the address of its file.  \<^verbatim>\<open>calloc\<close> allocates like \<^verbatim>\<open>malloc\<close>.
\<close>

section \<open>State\<close>

record open_file =
  file_inode :: addr
  file_pos :: int
  file_denied :: bool

record dir =
  dir_inode :: addr
  dir_pos :: int

record fsys = fs +
  files :: "addr \<Rightarrow> open_file"
  dirs :: "addr \<Rightarrow> dir"
  free_map :: "bitmap option"
  free_map_file :: addr

definition FREE_MAP_SECTOR :: u32 where
  "FREE_MAP_SECTOR = 0"

definition ROOT_DIR_SECTOR :: u32 where
  "ROOT_DIR_SECTOR = 1"

section \<open>Inodes in memory\<close>

text \<open>An update of the inode at \<open>p\<close>.\<close>

definition upd_inode :: "addr \<Rightarrow> (inode \<Rightarrow> inode) \<Rightarrow> 'a fs_scheme \<Rightarrow> 'a fs_scheme option" where
  "upd_inode p f s = do { deref p s; Some (s\<lparr>inodes := (inodes s)(p := f (inodes s p))\<rparr>) }"

definition inode_init :: "'a fs_scheme \<Rightarrow> 'a fs_scheme" where
  "inode_init s = s\<lparr>open_inodes := []\<rparr>"

definition inode_reopen :: "addr \<Rightarrow> 'a fs_scheme \<Rightarrow> (addr \<times> 'a fs_scheme) option" where
  "inode_reopen p s =
     (if p \<noteq> NULL then do {
        s \<leftarrow> upd_inode p (\<lambda>i. i\<lparr>open_cnt := int32 (open_cnt i + 1)\<rparr>) s;
        Some (p, s)
      }
      else Some (p, s))"

definition inode_get_inumber :: "addr \<Rightarrow> 'a fs_scheme \<Rightarrow> u32 option" where
  "inode_get_inumber p s = do { deref p s; Some (sector (inodes s p)) }"

definition inode_remove :: "addr \<Rightarrow> 'a fs_scheme \<Rightarrow> 'a fs_scheme option" where
  "inode_remove p s = do { ASSERT (p \<noteq> NULL); upd_inode p (\<lambda>i. i\<lparr>removed := True\<rparr>) s }"

definition inode_deny_write :: "addr \<Rightarrow> 'a fs_scheme \<Rightarrow> 'a fs_scheme option" where
  "inode_deny_write p s = do {
     s \<leftarrow> upd_inode p (\<lambda>i. i\<lparr>deny_write_cnt := int32 (deny_write_cnt i + 1)\<rparr>) s;
     ASSERT (deny_write_cnt (inodes s p) \<le> open_cnt (inodes s p));
     Some s
   }"

definition inode_allow_write :: "addr \<Rightarrow> 'a fs_scheme \<Rightarrow> 'a fs_scheme option" where
  "inode_allow_write p s = do {
     deref p s;
     ASSERT (deny_write_cnt (inodes s p) > 0);
     ASSERT (deny_write_cnt (inodes s p) \<le> open_cnt (inodes s p));
     upd_inode p (\<lambda>i. i\<lparr>deny_write_cnt := int32 (deny_write_cnt i - 1)\<rparr>) s
   }"

text \<open>The search of \<^verbatim>\<open>inode_open\<close> through the list of open inodes.\<close>

primrec find_open :: "u32 \<Rightarrow> addr list \<Rightarrow> 'a fs_scheme \<Rightarrow> addr option option" where
  "find_open n [] s = Some None"
| "find_open n (p # ps) s = do {
     deref p s;
     if sector (inodes s p) = n then Some (Some p) else find_open n ps s
   }"

text \<open>The on-disk inode fills one sector.\<close>

definition encode_inode :: "inode_disk \<Rightarrow> byte list" where
  "encode_inode d = le32 (start d) @ le32 (word_of_int (length_of d)) @ le32 (magic d) @ unused d"

definition decode_inode :: "byte list \<Rightarrow> inode_disk" where
  "decode_inode bs =
     \<lparr>start = of_le32 (take 4 bs), length_of = sint (of_le32 (take 4 (drop 4 bs))),
      magic = of_le32 (take 4 (drop 8 bs)), unused = drop 12 bs\<rparr>"

definition inode_open :: "u32 \<Rightarrow> 'a fs_scheme \<Rightarrow> (addr \<times> 'a fs_scheme) option" where
  "inode_open n s = do {
     r \<leftarrow> find_open n (open_inodes s) s;
     case r of
       Some p \<Rightarrow> do { (_, s) \<leftarrow> inode_reopen p s; Some (p, s) }
     | None \<Rightarrow>
         (let (p, s) = fs_malloc s in
          if p = NULL then Some (NULL, s)
          else do {
            let s = s\<lparr>open_inodes := p # open_inodes s\<rparr>;
            bs \<leftarrow> fs_read_sector n s;
            upd_inode p (\<lambda>i. \<lparr>sector = n, open_cnt = 1, removed = False, deny_write_cnt = 0, data = decode_inode bs\<rparr>) s
              \<bind> (\<lambda>s. Some (p, s))
          })
   }"

section \<open>Files\<close>

definition upd_file :: "addr \<Rightarrow> (open_file \<Rightarrow> open_file) \<Rightarrow> 'a fsys_scheme \<Rightarrow> 'a fsys_scheme option" where
  "upd_file f g s = do { deref f s; Some (s\<lparr>files := (files s)(f := g (files s f))\<rparr>) }"

definition file_get_inode :: "addr \<Rightarrow> 'a fsys_scheme \<Rightarrow> addr option" where
  "file_get_inode f s = do { deref f s; Some (file_inode (files s f)) }"

definition file_read :: "addr \<Rightarrow> int \<Rightarrow> 'a fsys_scheme \<Rightarrow> (byte list \<times> 'a fsys_scheme) option" where
  "file_read f sz s = do {
     deref f s;
     (bs, s) \<leftarrow> inode_read_at (file_inode (files s f)) sz (file_pos (files s f)) s;
     s \<leftarrow> upd_file f (\<lambda>x. x\<lparr>file_pos := int32 (file_pos x + int (length bs))\<rparr>) s;
     Some (bs, s)
   }"

definition file_read_at :: "addr \<Rightarrow> int \<Rightarrow> int \<Rightarrow> 'a fsys_scheme \<Rightarrow> (byte list \<times> 'a fsys_scheme) option" where
  "file_read_at f sz file_ofs s = do { deref f s; inode_read_at (file_inode (files s f)) sz file_ofs s }"

definition file_write :: "addr \<Rightarrow> byte list \<Rightarrow> int \<Rightarrow> 'a fsys_scheme \<Rightarrow> (nat \<times> 'a fsys_scheme) option" where
  "file_write f buf sz s = do {
     deref f s;
     (n, s) \<leftarrow> inode_write_at (file_inode (files s f)) buf sz (file_pos (files s f)) s;
     s \<leftarrow> upd_file f (\<lambda>x. x\<lparr>file_pos := int32 (file_pos x + int n)\<rparr>) s;
     Some (n, s)
   }"

definition file_write_at :: "addr \<Rightarrow> byte list \<Rightarrow> int \<Rightarrow> int \<Rightarrow> 'a fsys_scheme \<Rightarrow> (nat \<times> 'a fsys_scheme) option" where
  "file_write_at f buf sz file_ofs s = do { deref f s; inode_write_at (file_inode (files s f)) buf sz file_ofs s }"

definition file_deny_write :: "addr \<Rightarrow> 'a fsys_scheme \<Rightarrow> 'a fsys_scheme option" where
  "file_deny_write f s = do {
     ASSERT (f \<noteq> NULL);
     deref f s;
     if \<not> file_denied (files s f) then do {
       s \<leftarrow> upd_file f (\<lambda>x. x\<lparr>file_denied := True\<rparr>) s;
       inode_deny_write (file_inode (files s f)) s
     }
     else Some s
   }"

definition file_allow_write :: "addr \<Rightarrow> 'a fsys_scheme \<Rightarrow> 'a fsys_scheme option" where
  "file_allow_write f s = do {
     ASSERT (f \<noteq> NULL);
     deref f s;
     if file_denied (files s f) then do {
       s \<leftarrow> upd_file f (\<lambda>x. x\<lparr>file_denied := False\<rparr>) s;
       inode_allow_write (file_inode (files s f)) s
     }
     else Some s
   }"

definition file_length :: "addr \<Rightarrow> 'a fsys_scheme \<Rightarrow> int option" where
  "file_length f s = do {
     ASSERT (f \<noteq> NULL);
     deref f s;
     deref (file_inode (files s f)) s;
     Some (inode_length (inodes s (file_inode (files s f))))
   }"

definition file_seek :: "addr \<Rightarrow> int \<Rightarrow> 'a fsys_scheme \<Rightarrow> 'a fsys_scheme option" where
  "file_seek f new_pos s = do {
     ASSERT (f \<noteq> NULL);
     ASSERT (new_pos \<ge> 0);
     upd_file f (\<lambda>x. x\<lparr>file_pos := new_pos\<rparr>) s
   }"

definition file_tell :: "addr \<Rightarrow> 'a fsys_scheme \<Rightarrow> int option" where
  "file_tell f s = do { ASSERT (f \<noteq> NULL); deref f s; Some (file_pos (files s f)) }"

section \<open>A bitmap and its file\<close>

text \<open>The element array of a bitmap as bytes.\<close>

definition words_bytes :: "u32 list \<Rightarrow> byte list" where
  "words_bytes ws = concat (map le32 ws)"

definition bytes_words :: "nat \<Rightarrow> byte list \<Rightarrow> u32 list" where
  "bytes_words n bs = map (\<lambda>k. of_le32 (take 4 (drop (4 * k) bs))) [0..<n]"

definition bitmap_file_size :: "bitmap \<Rightarrow> nat" where
  "bitmap_file_size b = byte_cnt (bit_cnt b)"

text \<open>\<^verbatim>\<open>off_t size = byte_cnt (b->bit_cnt)\<close> converts to a signed type.\<close>

definition bitmap_read :: "bitmap \<Rightarrow> addr \<Rightarrow> 'a fsys_scheme \<Rightarrow> (bool \<times> bitmap \<times> 'a fsys_scheme) option" where
  "bitmap_read b f s =
     (if bit_cnt b > 0 then do {
        let sz = int32 (int (byte_cnt (bit_cnt b)));
        (bs, s) \<leftarrow> file_read_at f sz 0 s;
        ASSERT (length bs \<le> 4 * length (bits b));
        let b = b\<lparr>bits := bytes_words (length (bits b)) (patch (words_bytes (bits b)) 0 bs)\<rparr>;
        b \<leftarrow> update_elem b (elem_cnt (bit_cnt b) - 1) (\<lambda>e. e AND last_mask b);
        Some (int (length bs) = sz, b, s)
      }
      else Some (True, b, s))"

definition bitmap_write :: "bitmap \<Rightarrow> addr \<Rightarrow> 'a fsys_scheme \<Rightarrow> (bool \<times> 'a fsys_scheme) option" where
  "bitmap_write b f s = do {
     let sz = int32 (int (byte_cnt (bit_cnt b)));
     (n, s) \<leftarrow> file_write_at f (words_bytes (bits b)) sz 0 s;
     Some (int n = sz, s)
   }"

section \<open>The free map\<close>

text \<open>
  \<open>ws\<close> are the words that the block allocated for the element array happens to hold.  A free map that cannot be created is a
  kernel panic.
\<close>

definition free_map_init :: "u32 list \<Rightarrow> 'a fsys_scheme \<Rightarrow> 'a fsys_scheme option" where
  "free_map_init ws s = do {
     let (hdr, s) = fs_malloc s;
     let (blk, s) = (if hdr = NULL then (NULL, s) else fs_malloc s);
     r \<leftarrow> bitmap_create (hdr \<noteq> NULL) (if blk = NULL then None else Some ws) (unat (disk_size s));
     case r of
       None \<Rightarrow> None
     | Some b \<Rightarrow> do {
         b \<leftarrow> bitmap_mark b (unat FREE_MAP_SECTOR);
         b \<leftarrow> bitmap_mark b (unat ROOT_DIR_SECTOR);
         Some (s\<lparr>free_map := Some b\<rparr>)
       }
   }"

text \<open>The result is the value stored in \<^verbatim>\<open>*sectorp\<close>, or \<open>None\<close> when the function returns false.\<close>

definition free_map_allocate :: "nat \<Rightarrow> 'a fsys_scheme \<Rightarrow> (u32 option \<times> 'a fsys_scheme) option" where
  "free_map_allocate cnt s = do {
     fm \<leftarrow> free_map s;
     (n, fm) \<leftarrow> bitmap_scan_and_flip fm 0 cnt False;
     let s = s\<lparr>free_map := Some fm\<rparr>;
     (n, s) \<leftarrow>
       (if n \<noteq> BITMAP_ERROR \<and> free_map_file s \<noteq> NULL then do {
          (ok, s) \<leftarrow> bitmap_write fm (free_map_file s) s;
          if \<not> ok then do {
            fm \<leftarrow> bitmap_set_multiple fm n cnt False;
            Some (BITMAP_ERROR, s\<lparr>free_map := Some fm\<rparr>)
          }
          else Some (n, s)
        }
        else Some (n, s));
     Some (if n \<noteq> BITMAP_ERROR then Some (of_nat n) else None, s)
   }"

definition free_map_release :: "u32 \<Rightarrow> nat \<Rightarrow> 'a fsys_scheme \<Rightarrow> 'a fsys_scheme option" where
  "free_map_release n cnt s = do {
     fm \<leftarrow> free_map s;
     all \<leftarrow> bitmap_all fm (unat n) cnt;
     ASSERT all;
     fm \<leftarrow> bitmap_set_multiple fm (unat n) cnt False;
     let s = s\<lparr>free_map := Some fm\<rparr>;
     (_, s) \<leftarrow> bitmap_write fm (free_map_file s) s;
     Some s
   }"

section \<open>Creating and closing inodes\<close>

definition inode_create :: "u32 \<Rightarrow> int \<Rightarrow> 'a fsys_scheme \<Rightarrow> (bool \<times> 'a fsys_scheme) option" where
  "inode_create n len s = do {
     ASSERT (len \<ge> 0);
     let (disk_inode, s) = fs_malloc s;
     if disk_inode \<noteq> NULL then do {
       let sectors = bytes_to_sectors len;
       (r, s) \<leftarrow> free_map_allocate sectors s;
       (success, s) \<leftarrow>
         (case r of
            Some st \<Rightarrow> do {
              s \<leftarrow> fs_write_sector n
                (encode_inode \<lparr>start = st, length_of = len, magic = INODE_MAGIC, unused = replicate 500 0\<rparr>) s;
              s \<leftarrow> for_upto 0 sectors (\<lambda>k s. fs_write_sector (st + of_nat k) (replicate BLOCK_SECTOR_SIZE 0) s) s;
              Some (True, s)
            }
          | None \<Rightarrow> Some (False, s));
       s \<leftarrow> fs_free disk_inode s;
       Some (success, s)
     }
     else Some (False, s)
   }"

definition inode_close :: "addr \<Rightarrow> 'a fsys_scheme \<Rightarrow> 'a fsys_scheme option" where
  "inode_close p s =
     (if p = NULL then Some s
      else do {
        s \<leftarrow> upd_inode p (\<lambda>i. i\<lparr>open_cnt := int32 (open_cnt i - 1)\<rparr>) s;
        let i = inodes s p;
        if open_cnt i = 0 then do {
          let s = s\<lparr>open_inodes := remove1 p (open_inodes s)\<rparr>;
          s \<leftarrow> (if removed i then do {
                  s \<leftarrow> free_map_release (sector i) 1 s;
                  free_map_release (start (data i)) (bytes_to_sectors (length_of (data i))) s
                }
                else Some s);
          fs_free p s
        }
        else Some s
      })"

section \<open>Opening and closing files\<close>

definition file_open :: "addr \<Rightarrow> 'a fsys_scheme \<Rightarrow> (addr \<times> 'a fsys_scheme) option" where
  "file_open p s = do {
     let (f, s) = fs_malloc s;
     if p \<noteq> NULL \<and> f \<noteq> NULL then do {
       s \<leftarrow> upd_file f (\<lambda>_. \<lparr>file_inode = p, file_pos = 0, file_denied = False\<rparr>) s;
       Some (f, s)
     }
     else do {
       s \<leftarrow> inode_close p s;
       s \<leftarrow> fs_free f s;
       Some (NULL, s)
     }
   }"

definition file_reopen :: "addr \<Rightarrow> 'a fsys_scheme \<Rightarrow> (addr \<times> 'a fsys_scheme) option" where
  "file_reopen f s = do {
     deref f s;
     (p, s) \<leftarrow> inode_reopen (file_inode (files s f)) s;
     file_open p s
   }"

definition file_close :: "addr \<Rightarrow> 'a fsys_scheme \<Rightarrow> 'a fsys_scheme option" where
  "file_close f s =
     (if f \<noteq> NULL then do {
        s \<leftarrow> file_allow_write f s;
        s \<leftarrow> inode_close (file_inode (files s f)) s;
        fs_free f s
      }
      else Some s)"

section \<open>The free map file\<close>

definition free_map_open :: "'a fsys_scheme \<Rightarrow> 'a fsys_scheme option" where
  "free_map_open s = do {
     (p, s) \<leftarrow> inode_open FREE_MAP_SECTOR s;
     (f, s) \<leftarrow> file_open p s;
     let s = s\<lparr>free_map_file := f\<rparr>;
     ASSERT (f \<noteq> NULL);
     fm \<leftarrow> free_map s;
     (ok, fm, s) \<leftarrow> bitmap_read fm f s;
     let s = s\<lparr>free_map := Some fm\<rparr>;
     ASSERT ok;
     Some s
   }"

text \<open>\<^verbatim>\<open>free_map_file\<close> keeps the address of the closed file.\<close>

definition free_map_close :: "'a fsys_scheme \<Rightarrow> 'a fsys_scheme option" where
  "free_map_close s = file_close (free_map_file s) s"

definition free_map_create :: "'a fsys_scheme \<Rightarrow> 'a fsys_scheme option" where
  "free_map_create s = do {
     fm \<leftarrow> free_map s;
     (ok, s) \<leftarrow> inode_create FREE_MAP_SECTOR (int32 (int (bitmap_file_size fm))) s;
     ASSERT ok;
     (p, s) \<leftarrow> inode_open FREE_MAP_SECTOR s;
     (f, s) \<leftarrow> file_open p s;
     let s = s\<lparr>free_map_file := f\<rparr>;
     ASSERT (f \<noteq> NULL);
     fm \<leftarrow> free_map s;
     (ok, s) \<leftarrow> bitmap_write fm f s;
     ASSERT ok;
     Some s
   }"

section \<open>Encodings\<close>

lemma length_words_bytes [simp]: "length (words_bytes ws) = 4 * length ws"
  by (induction ws) (simp_all add: words_bytes_def)

lemma words_bytes_drop: "k < length ws \<Longrightarrow> take 4 (drop (4 * k) (words_bytes ws)) = le32 (ws ! k)"
proof (induction ws arbitrary: k)
  case (Cons w ws)
  show ?case
  proof (cases k)
    case (Suc j)
    then show ?thesis using Cons by (simp add: words_bytes_def)
  qed (simp add: words_bytes_def)
qed simp

lemma bytes_words_bytes: "bytes_words (length ws) (words_bytes ws) = ws"
  by (rule nth_equalityI) (simp_all add: bytes_words_def words_bytes_drop)

lemma length_encode_inode [simp]: "length (encode_inode d) = 12 + length (unused d)"
  by (simp add: encode_inode_def)

lemma decode_encode_inode:
  assumes "- (2 ^ 31) \<le> length_of d" "length_of d < 2 ^ 31"
  shows "decode_inode (encode_inode d) = d"
  using int32_small [OF assms] by (simp add: int32_def encode_inode_def decode_inode_def)

section \<open>The free map and its file\<close>

definition fm_inode :: "'a fsys_scheme \<Rightarrow> inode" where
  "fm_inode s = inodes s (file_inode (files s (free_map_file s)))"

text \<open>
  \<open>fm_ok s fm\<close>: the free map is \<open>fm\<close> and covers the device, its file is open for writing and large enough, and the sectors of that file are
  marked as used.
\<close>

definition fm_ok :: "'a fsys_scheme \<Rightarrow> bitmap \<Rightarrow> bool" where
  "fm_ok s fm \<longleftrightarrow> free_map s = Some fm \<and> bitmap_ok fm \<and> bit_cnt fm = unat (disk_size s) \<and>
     free_map_file s \<noteq> NULL \<and> free_map_file s \<in> set (in_use s) \<and> live (file_inode (files s (free_map_file s))) s \<and>
     deny_write_cnt (fm_inode s) = 0 \<and> inode_length (fm_inode s) = int (byte_cnt (bit_cnt fm)) \<and>
     unat ` data_sectors (fm_inode s) \<subseteq> bitmap_used fm"

text \<open>The file holds the free map.\<close>

definition fm_synced :: "'a fsys_scheme \<Rightarrow> bitmap \<Rightarrow> bool" where
  "fm_synced s fm \<longleftrightarrow> content (fm_inode s) s = words_bytes (bits fm)"

lemma bitmap_bytes:
  assumes "bitmap_ok b"
  shows "length (words_bytes (bits b)) = byte_cnt (bit_cnt b)" "int32 (int (byte_cnt (bit_cnt b))) = int (byte_cnt (bit_cnt b))"
proof -
  have "elem_cnt (bit_cnt b) * 32 < 2 ^ 32"
    using DIV_ROUND_UP_bounds [of 32 "bit_cnt b"] assms unfolding elem_cnt_def bitmap_ok_def ELEM_BITS_def by linarith
  then show "int32 (int (byte_cnt (bit_cnt b))) = int (byte_cnt (bit_cnt b))" unfolding byte_cnt_def by (intro int32_small) simp_all
  show "length (words_bytes (bits b)) = byte_cnt (bit_cnt b)" using assms by (simp add: bitmap_ok_def byte_cnt_def)
qed

lemma fm_inode_disk [simp]:
  "fm_inode (s\<lparr>disk := d\<rparr>) = fm_inode s" "fm_inode (s\<lparr>answers := as\<rparr>) = fm_inode s" "fm_inode (s\<lparr>free_map := m\<rparr>) = fm_inode s"
  "fm_inode (s\<lparr>in_use := us\<rparr>) = fm_inode s"
  by (simp_all add: fm_inode_def)

lemma fs_upd_content [simp]:
  "content i (s\<lparr>answers := as\<rparr>) = content i s" "content i (t\<lparr>free_map := m\<rparr>) = content i t" "content i (s\<lparr>in_use := us\<rparr>) = content i s"
  "content i (s\<lparr>inodes := im\<rparr>) = content i s" "content i (s\<lparr>open_inodes := ps\<rparr>) = content i s" "content i (t\<lparr>files := fm\<rparr>) = content i t"
  "content i (t\<lparr>dirs := ds\<rparr>) = content i t"
  by (simp_all add: content_def sector_bytes_def)

lemma fs_upd_disk_ok [simp]:
  "disk_ok (s\<lparr>answers := as\<rparr>) = disk_ok s" "disk_ok (t\<lparr>free_map := m\<rparr>) = disk_ok t" "disk_ok (s\<lparr>in_use := us\<rparr>) = disk_ok s"
  "disk_ok (s\<lparr>inodes := im\<rparr>) = disk_ok s" "disk_ok (s\<lparr>open_inodes := ps\<rparr>) = disk_ok s" "disk_ok (t\<lparr>files := fm\<rparr>) = disk_ok t"
  "disk_ok (t\<lparr>dirs := ds\<rparr>) = disk_ok t"
  by (simp_all add: disk_ok_def)

lemma fs_upd_inode_ok [simp]:
  "inode_ok i (s\<lparr>answers := as\<rparr>) = inode_ok i s" "inode_ok i (t\<lparr>free_map := m\<rparr>) = inode_ok i t" "inode_ok i (s\<lparr>in_use := us\<rparr>) = inode_ok i s"
  "inode_ok i (s\<lparr>inodes := im\<rparr>) = inode_ok i s" "inode_ok i (s\<lparr>open_inodes := ps\<rparr>) = inode_ok i s" "inode_ok i (s\<lparr>disk := d\<rparr>) = inode_ok i s"
  "inode_ok i (t\<lparr>files := fm\<rparr>) = inode_ok i t" "inode_ok i (t\<lparr>dirs := ds\<rparr>) = inode_ok i t"
  by (simp_all add: inode_ok_def)

lemma bitmap_write_ok:
  assumes fm: "fm_ok s fm" and b: "bitmap_ok b" "bit_cnt b = bit_cnt fm"
  shows "\<exists>ok d as. bitmap_write b (free_map_file s) s = Some (ok, s\<lparr>disk := d, answers := as\<rparr>) \<and> (memory s \<longrightarrow> ok) \<and>
    (ok \<longrightarrow> content (fm_inode s) (s\<lparr>disk := d\<rparr>) = words_bytes (bits b)) \<and> disk_ok (s\<lparr>disk := d\<rparr>) \<and>
    (\<forall>n. n \<notin> data_sectors (fm_inode s) \<longrightarrow> d n = disk s n) \<and> spent (answers s) as"
proof -
  let ?f = "free_map_file s" and ?p = "file_inode (files s (free_map_file s))" and ?i = "fm_inode s"
  let ?n = "byte_cnt (bit_cnt b)" and ?bs = "words_bytes (bits b)"
  note f = fm [unfolded fm_ok_def live_def, folded fm_inode_def]
  note bb = bitmap_bytes [OF b(1)]
  obtain k d as where w: "inode_write_at ?p ?bs (int ?n) (int 0) s = Some (k, s\<lparr>disk := d, answers := as\<rparr>)"
      "k \<le> min (nat (int ?n)) (nat (inode_length ?i) - 0)" "memory s \<longrightarrow> k = min (nat (int ?n)) (nat (inode_length ?i) - 0)"
      "content ?i (s\<lparr>disk := d\<rparr>) = patch (content ?i s) 0 (take k ?bs)" "disk_ok (s\<lparr>disk := d\<rparr>)"
      "\<forall>n. n \<notin> data_sectors ?i \<longrightarrow> d n = disk s n" "spent (answers s) as"
    using inode_write_at_ok [of s ?p 0 "int ?n" ?bs, folded fm_inode_def] f bb(1) by auto
  have len: "length (content ?i s) = ?n" using length_content [of s ?i] f b(2) by simp
  have "bitmap_write b ?f s = Some (k = ?n, s\<lparr>disk := d, answers := as\<rparr>)"
    using w(1) f bb(2) by (simp add: bitmap_write_def file_write_at_def deref_def)
  moreover have "memory s \<longrightarrow> k = ?n" using w(3) f b(2) by simp
  moreover have "k = ?n \<longrightarrow> content ?i (s\<lparr>disk := d\<rparr>) = ?bs" using w(4) len bb(1) by (simp add: patch_whole)
  ultimately show ?thesis using w(5-7) by - (rule exI [of _ "k = ?n"], rule exI [of _ d], rule exI [of _ as], simp)
qed

lemma bitmap_used_less: "i \<in> bitmap_used b \<Longrightarrow> i < bit_cnt b"
  by (simp add: bitmap_used_def)

lemma fm_ok_update:
  assumes fm: "fm_ok s fm" and b: "bitmap_ok b" "bit_cnt b = bit_cnt fm" "unat ` data_sectors (fm_inode s) \<subseteq> bitmap_used b"
    and d: "disk_ok (s\<lparr>disk := d\<rparr>)"
  shows "fm_ok (s\<lparr>disk := d, answers := as, free_map := Some b\<rparr>) b"
  using fm b d unfolding fm_ok_def fm_inode_def live_def by (simp add: disk_ok_def)

lemma fm_ok_set:
  assumes "fm_ok s fm" and "bitmap_ok b" "bit_cnt b = bit_cnt fm" "unat ` data_sectors (fm_inode s) \<subseteq> bitmap_used b"
  shows "fm_ok (s\<lparr>free_map := Some b\<rparr>) b"
  using assms unfolding fm_ok_def fm_inode_def live_def by simp

lemma scan_free_cases:
  assumes "bitmap_ok b"
  obtains "bitmap_scan_and_flip b 0 n False = Some (BITMAP_ERROR, b)" "\<And>i. i + n \<le> bit_cnt b \<Longrightarrow> {i..<i + n} \<inter> bitmap_used b \<noteq> {}"
  | i b' where "bitmap_scan_and_flip b 0 n False = Some (i, b')" "i \<noteq> BITMAP_ERROR" "bitmap_ok b'" "bit_cnt b' = bit_cnt b"
    "i + n \<le> bit_cnt b" "{i..<i + n} \<inter> bitmap_used b = {}" "bitmap_used b' = bitmap_used b \<union> {i..<i + n}"
proof (rule bitmap_alloc_cases [OF assms, of n])
  assume "bitmap_alloc b n = Some (None, b)" and none: "\<And>i. i + n \<le> bit_cnt b \<Longrightarrow> {i..<i + n} \<inter> bitmap_used b \<noteq> {}"
  then have "bitmap_scan_and_flip b 0 n False = Some (BITMAP_ERROR, b)"
    by (cases "bitmap_scan_and_flip b 0 n False"; auto simp: bitmap_alloc_def split: if_splits)+
  then show thesis using none by (rule that(1))
next
  fix i b' assume "bitmap_alloc b n = Some (Some i, b')" and b': "bitmap_ok b'" "bit_cnt b' = bit_cnt b"
    "i + n \<le> bit_cnt b" "{i..<i + n} \<inter> bitmap_used b = {}" "bitmap_used b' = bitmap_used b \<union> {i..<i + n}"
  then have "bitmap_scan_and_flip b 0 n False = Some (i, b')" "i \<noteq> BITMAP_ERROR"
    by (cases "bitmap_scan_and_flip b 0 n False"; auto simp: bitmap_alloc_def split: if_splits)+
  then show thesis using b' by (rule that(2))
qed

text \<open>A run of sectors.\<close>

abbreviation run :: "u32 \<Rightarrow> nat \<Rightarrow> nat set" where
  "run n cnt \<equiv> {unat n..<unat n + cnt}"

lemma free_map_allocate_cases:
  assumes fm: "fm_ok s fm" and mem: "memory s"
  obtains (full) "free_map_allocate cnt s = Some (None, s)" "\<And>i. i + cnt \<le> bit_cnt fm \<Longrightarrow> {i..<i + cnt} \<inter> bitmap_used fm \<noteq> {}"
  | (found) n fm' d as s' where "free_map_allocate cnt s = Some (Some n, s')" "s' = s\<lparr>disk := d, answers := as, free_map := Some fm'\<rparr>"
    "fm_ok s' fm'" "fm_synced s' fm'" "bit_cnt fm' = bit_cnt fm" "unat n + cnt \<le> bit_cnt fm" "run n cnt \<inter> bitmap_used fm = {}"
    "bitmap_used fm' = bitmap_used fm \<union> run n cnt" "\<And>k. k \<notin> data_sectors (fm_inode s) \<Longrightarrow> d k = disk s k"
    "spent (answers s) as"
proof -
  note f = fm [unfolded fm_ok_def]
  have ok: "bitmap_ok fm" and map: "free_map s = Some fm" using f by blast+
  have "s\<lparr>free_map := free_map s\<rparr> = s" by simp
  then have same: "s\<lparr>free_map := Some fm\<rparr> = s" unfolding map .
  show thesis
  proof (rule scan_free_cases [OF ok, of cnt])
    assume "bitmap_scan_and_flip fm 0 cnt False = Some (BITMAP_ERROR, fm)" and "\<And>i. i + cnt \<le> bit_cnt fm \<Longrightarrow> {i..<i + cnt} \<inter> bitmap_used fm \<noteq> {}"
    then show thesis using full map same by (simp add: free_map_allocate_def)
  next
    fix i b assume scan: "bitmap_scan_and_flip fm 0 cnt False = Some (i, b)" "i \<noteq> BITMAP_ERROR"
      and b: "bitmap_ok b" "bit_cnt b = bit_cnt fm" "i + cnt \<le> bit_cnt fm" "{i..<i + cnt} \<inter> bitmap_used fm = {}"
        "bitmap_used b = bitmap_used fm \<union> {i..<i + cnt}"
    let ?s = "s\<lparr>free_map := Some b\<rparr>"
    have sub: "unat ` data_sectors (fm_inode s) \<subseteq> bitmap_used b" using f b(5) by auto
    have fm1: "fm_ok ?s b" by (rule fm_ok_set [OF fm b(1,2) sub])
    have "memory ?s" using mem by (simp add: memory_iff split: list.splits)
    with bitmap_write_ok [OF fm1 b(1) refl] obtain d as where
      w: "bitmap_write b (free_map_file s) ?s = Some (True, ?s\<lparr>disk := d, answers := as\<rparr>)"
        "content (fm_inode s) (s\<lparr>disk := d\<rparr>) = words_bytes (bits b)" "disk_ok (s\<lparr>disk := d\<rparr>)"
        "\<forall>n. n \<notin> data_sectors (fm_inode s) \<longrightarrow> d n = disk s n" "spent (answers s) as"
      by (auto simp: content_def sector_bytes_def disk_ok_def)
    let ?s' = "s\<lparr>disk := d, answers := as, free_map := Some b\<rparr>"
    have "i < 2 ^ 32" using b(3) f unat_less_exp32 [of "disk_size s"] by linarith
    then have n: "unat (of_nat i :: u32) = i" by (intro unat_of_nat_small) simp
    have "free_map_allocate cnt s = Some (Some (of_nat i), ?s')"
      using scan map w(1) f by (simp add: free_map_allocate_def)
    then show thesis
    proof (rule found [OF _ refl])
      show "fm_ok ?s' b" by (rule fm_ok_update [OF fm b(1,2) sub w(3)])
      show "fm_synced ?s' b" using w(2) by (simp add: fm_synced_def)
    qed (use b n w(4,5) in simp_all)
  qed
qed

lemma bitmap_all_used:
  assumes "bitmap_ok b" and "i + cnt \<le> bit_cnt b"
  shows "bitmap_all b i cnt = Some ({i..<i + cnt} \<subseteq> bitmap_used b)"
proof -
  have "has_run (bitmap_bits b) i cnt True \<longleftrightarrow> {i..<i + cnt} \<subseteq> bitmap_used b" (is "?L = ?R")
  proof
    assume ?L
    then have "bitmap_bits b ! (i + k)" if "k < cnt" for k using that assms(2) by (simp add: has_run_iff_nth)
    then have "bitmap_bits b ! j" if "j \<in> {i..<i + cnt}" for j using that by (metis add_less_cancel_left atLeastLessThan_iff le_iff_add)
    then show ?R using assms(2) by (auto simp: bitmap_used_def)
  next
    assume ?R
    then have "i + k \<in> bitmap_used b" if "k < cnt" for k using that by auto
    then show ?L using assms(2) by (simp add: has_run_iff_nth bitmap_used_def)
  qed
  then show ?thesis using bitmap_contains_refine [OF assms, of False] by (simp add: bitmap_all_def)
qed

lemma free_map_release_ok:
  assumes fm: "fm_ok s fm" and mem: "memory s" and run: "unat n + cnt \<le> bit_cnt fm" "run n cnt \<subseteq> bitmap_used fm"
    "run n cnt \<inter> unat ` data_sectors (fm_inode s) = {}"
  obtains fm' d as s' where "free_map_release n cnt s = Some s'" "s' = s\<lparr>disk := d, answers := as, free_map := Some fm'\<rparr>"
    "fm_ok s' fm'" "fm_synced s' fm'" "bit_cnt fm' = bit_cnt fm" "bitmap_used fm' = bitmap_used fm - run n cnt"
    "\<And>k. k \<notin> data_sectors (fm_inode s) \<Longrightarrow> d k = disk s k" "spent (answers s) as"
proof -
  note f = fm [unfolded fm_ok_def]
  have ok: "bitmap_ok fm" and map: "free_map s = Some fm" using f by blast+
  from bitmap_runs.release_law [OF ok run(1)] run(2) obtain b where b: "bitmap_set_multiple fm (unat n) cnt False = Some b"
    "bitmap_ok b" "bit_cnt b = bit_cnt fm" "bitmap_used b = bitmap_used fm - run n cnt"
    by (auto simp: bitmap_release_def)
  let ?s = "s\<lparr>free_map := Some b\<rparr>"
  have sub: "unat ` data_sectors (fm_inode s) \<subseteq> bitmap_used b" using f b(4) run(3) by auto
  have fm1: "fm_ok ?s b" by (rule fm_ok_set [OF fm b(2,3) sub])
  have "memory ?s" using mem by (simp add: memory_iff split: list.splits)
  with bitmap_write_ok [OF fm1 b(2) refl] obtain d as where
    w: "bitmap_write b (free_map_file s) ?s = Some (True, ?s\<lparr>disk := d, answers := as\<rparr>)"
      "content (fm_inode s) (s\<lparr>disk := d\<rparr>) = words_bytes (bits b)" "disk_ok (s\<lparr>disk := d\<rparr>)"
      "\<forall>n. n \<notin> data_sectors (fm_inode s) \<longrightarrow> d n = disk s n" "spent (answers s) as"
    by (auto simp: content_def sector_bytes_def disk_ok_def)
  let ?s' = "s\<lparr>disk := d, answers := as, free_map := Some b\<rparr>"
  have "free_map_release n cnt s = Some ?s'"
    using map bitmap_all_used [OF ok run(1)] run(2) b(1) w(1) by (simp add: free_map_release_def)
  then show thesis
  proof (rule that [OF _ refl])
    show "fm_ok ?s' b" by (rule fm_ok_update [OF fm b(2,3) sub w(3)])
    show "fm_synced ?s' b" using w(2) by (simp add: fm_synced_def)
  qed (use b w(4,5) in simp_all)
qed

section \<open>Reading the free map back\<close>

lemma bit_last_mask: "k < 32 \<Longrightarrow> bit (last_mask b) k \<longleftrightarrow> bit_cnt b mod 32 = 0 \<or> k < bit_cnt b mod 32"
proof -
  assume "k < 32"
  have "push_bit m 1 - 1 = (mask m :: u32)" for m by (simp add: mask_eq_exp_minus_1 push_bit_eq_mult)
  then show ?thesis using \<open>k < 32\<close> by (auto simp: last_mask_def Let_def ELEM_BITS_def bit_mask_iff)
qed

lemma elem_cnt_bounds:
  assumes "bitmap_ok b" and "0 < bit_cnt b"
  shows "0 < elem_cnt (bit_cnt b)" "bit_cnt b \<le> 32 * elem_cnt (bit_cnt b)" "32 * (elem_cnt (bit_cnt b) - 1) < bit_cnt b"
  using DIV_ROUND_UP_bounds [of 32 "bit_cnt b"] assms unfolding elem_cnt_def bitmap_ok_def ELEM_BITS_def
  by (cases "DIV_ROUND_UP (bit_cnt b) 32", auto)+

text \<open>Clearing the spare bits of the last element leaves the bits of the bitmap alone.\<close>

lemma bitmap_bits_last_mask:
  assumes "bitmap_ok b" and "0 < bit_cnt b"
  obtains b' where "update_elem b (elem_cnt (bit_cnt b) - 1) (\<lambda>e. e AND last_mask b) = Some b'" "bitmap_ok b'"
    "bit_cnt b' = bit_cnt b" "bitmap_bits b' = bitmap_bits b"
proof -
  let ?e = "elem_cnt (bit_cnt b) - 1"
  note e = elem_cnt_bounds [OF assms]
  have len: "?e < length (bits b)" using e(1) assms(1) by (simp add: bitmap_ok_def)
  let ?b = "b\<lparr>bits := (bits b)[?e := bits b ! ?e AND last_mask b]\<rparr>"
  have "bit (bits ?b ! (i div 32)) (i mod 32) = bit (bits b ! (i div 32)) (i mod 32)" if i: "i < bit_cnt b" for i
  proof (cases "i div 32 = ?e")
    case True
    have "bit_cnt b mod 32 = 0 \<or> i mod 32 < bit_cnt b mod 32"
    proof (cases "bit_cnt b mod 32 = 0")
      case False
      define E q r where "E = elem_cnt (bit_cnt b)" and "q = bit_cnt b div 32" and "r = bit_cnt b mod 32"
      have n: "bit_cnt b = 32 * q + r" "r < 32" "0 < r" using False by (simp_all add: q_def r_def)
      have "E - 1 = q" using e(1,2,3) n unfolding E_def [symmetric] by linarith
      moreover have "i = 32 * (E - 1) + i mod 32" using mult_div_mod_eq [of 32 i] unfolding True E_def by simp
      ultimately show ?thesis using i n(1) unfolding r_def [symmetric] by linarith
    qed simp
    then show ?thesis using True len by (simp add: bit_and_iff bit_last_mask)
  qed simp
  then have "bitmap_bits ?b = bitmap_bits b" by (simp add: bitmap_bits_def)
  then show thesis using that [of ?b] len assms(1) by (simp add: update_elem_def bitmap_ok_def)
qed

lemma bitmap_read_ok:
  assumes fm: "fm_ok s fm" and mem: "memory s" and synced: "content (fm_inode s) s = words_bytes (bits b)"
    and b: "bitmap_ok b" "bitmap_ok b0" "bit_cnt b = bit_cnt fm" "bit_cnt b0 = bit_cnt fm"
  shows "\<exists>b' as. bitmap_read b0 (free_map_file s) s = Some (True, b', s\<lparr>answers := as\<rparr>) \<and> bitmap_ok b' \<and>
    bit_cnt b' = bit_cnt b \<and> bitmap_bits b' = bitmap_bits b \<and> spent (answers s) as"
proof (cases "bit_cnt b = 0")
  case True
  have "s = s\<lparr>answers := answers s\<rparr>" by simp
  then show ?thesis using True b by (intro exI [of _ b0] exI [of _ "answers s"]) (simp add: bitmap_read_def bitmap_bits_def spent_def)
next
  case False
  let ?f = "free_map_file s" and ?p = "file_inode (files s (free_map_file s))" and ?n = "byte_cnt (bit_cnt b)"
  note f = fm [unfolded fm_ok_def live_def, folded fm_inode_def]
  note bb = bitmap_bytes [OF b(1)]
  have len: "length (bits b0) = length (bits b)" using b by (simp add: bitmap_ok_def)
  obtain as where as: "inode_read_at ?p (int ?n) (int 0) s = Some (words_bytes (bits b), s\<lparr>answers := as\<rparr>)" "spent (answers s) as"
    using inode_read_at_ok [of s ?p 0 "int ?n", folded fm_inode_def] f bb(1) synced mem by auto
  let ?b = "b0\<lparr>bits := bits b\<rparr>"
  have ok: "bitmap_ok ?b" "0 < bit_cnt ?b" "bitmap_bits ?b = bitmap_bits b"
    using b len False by (simp_all add: bitmap_ok_def bitmap_bits_def)
  obtain b' where b': "update_elem ?b (elem_cnt (bit_cnt ?b) - 1) (\<lambda>e. e AND last_mask ?b) = Some b'" "bitmap_ok b'"
      "bit_cnt b' = bit_cnt ?b" "bitmap_bits b' = bitmap_bits ?b"
    using bitmap_bits_last_mask [OF ok(1,2)] by blast
  have "patch (words_bytes (bits b0)) 0 (words_bytes (bits b)) = words_bytes (bits b)" using len by (simp add: patch_whole)
  then have "bitmap_read b0 ?f s = Some (True, b', s\<lparr>answers := as\<rparr>)"
    using as(1) f bb b(3,4) len b'(1) False bytes_words_bytes [of "bits b"]
    by (simp add: bitmap_read_def file_read_at_def deref_def Let_def)
  then show ?thesis using b'(2-4) ok(3) b(3,4) as(2) by (intro exI [of _ b'] exI [of _ as]) simp
qed

section \<open>Creating an inode\<close>

text \<open>\<open>ample k s\<close>: the next \<open>k\<close> calls of \<^verbatim>\<open>malloc\<close> succeed.\<close>

definition ample :: "nat \<Rightarrow> 'a fs_scheme \<Rightarrow> bool" where
  "ample k s \<longleftrightarrow> k \<le> length (answers s) \<and> distinct (answers s) \<and> NULL \<notin> set (answers s) \<and> set (answers s) \<inter> set (in_use s) = {}"

lemma ample_memory: "ample (Suc k) s \<Longrightarrow> memory s"
  by (auto simp: ample_def memory_iff split: list.split)

lemma ample_mono: "ample k s \<Longrightarrow> j \<le> k \<Longrightarrow> ample j s"
  by (simp add: ample_def)

lemma ample_spent: "ample (Suc k) s \<Longrightarrow> spent (answers s) as \<Longrightarrow> answers s' = as \<Longrightarrow> in_use s' = in_use s \<Longrightarrow> ample k s'"
  by (cases "answers s") (auto simp: ample_def spent_def)

lemma ample_malloc:
  assumes "ample (Suc k) s"
  obtains a as where "answers s = a # as" "fs_malloc s = (a, s\<lparr>answers := as, in_use := a # in_use s\<rparr>)" "a \<noteq> NULL" "a \<notin> set (in_use s)"
    "ample k (s\<lparr>answers := as, in_use := a # in_use s\<rparr>)"
  using assms that by (cases "answers s") (auto simp: ample_def fs_malloc_def)

lemma zero_loop:
  assumes "unat st + cnt \<le> unat (disk_size s)"
  shows "for_upto 0 cnt (\<lambda>k s. fs_write_sector (st + of_nat k) z s) s = Some (s\<lparr>disk := (\<lambda>k. if unat k \<in> run st cnt then z else disk s k)\<rparr>)"
proof -
  let ?d = "\<lambda>j k. if unat k \<in> run st j then z else disk s k"
  have "\<exists>s'. for_upto 0 cnt (\<lambda>k s. fs_write_sector (st + of_nat k) z s) s = Some s' \<and> s' = s\<lparr>disk := ?d cnt\<rparr>"
  proof (rule for_upto_rule)
    fix j s' assume j: "j < cnt" and s': "s' = s\<lparr>disk := ?d j\<rparr>"
    have "j < 2 ^ 32" using j assms unat_less_exp32 [of "disk_size s"] by linarith
    then have "unat (of_nat j :: u32) = j" by (intro unat_of_nat_small) simp
    then have n: "unat (st + of_nat j) = unat st + j"
      using unat_add_no_wrap [of st "of_nat j"] j assms unat_less_exp32 [of "disk_size s"] by simp
    have "st + of_nat j < disk_size s" using n j assms by (simp add: word_less_nat_alt)
    moreover have "(?d j)(st + of_nat j := z) = ?d (Suc j)"
      using n by (auto simp: fun_eq_iff less_Suc_eq word_unat_eq_iff)
    ultimately show "\<exists>s''. fs_write_sector (st + of_nat j) z s' = Some s'' \<and> s'' = s\<lparr>disk := ?d (Suc j)\<rparr>"
      using s' by (simp add: write_sector_data)
  qed simp_all
  then show ?thesis by blast
qed

definition new_inode :: "u32 \<Rightarrow> int \<Rightarrow> inode_disk" where
  "new_inode st len = \<lparr>start = st, length_of = len, magic = INODE_MAGIC, unused = replicate 500 0\<rparr>"

text \<open>The device after \<^verbatim>\<open>inode_create\<close> has written the inode and cleared its data.\<close>

definition created :: "u32 \<Rightarrow> u32 \<Rightarrow> int \<Rightarrow> (u32 \<Rightarrow> byte list) \<Rightarrow> u32 \<Rightarrow> byte list" where
  "created n st len d k = (if unat k \<in> run st (bytes_to_sectors len) then replicate BLOCK_SECTOR_SIZE 0
     else if k = n then encode_inode (new_inode st len) else d k)"

lemma fm_ok_heap: "fm_ok s fm \<Longrightarrow> fm_ok (s\<lparr>answers := as, in_use := a # in_use s\<rparr>) fm"
  unfolding fm_ok_def fm_inode_def live_def by simp

lemma inode_create_cases:
  assumes fm: "fm_ok s fm" and mem: "ample (k + 2) s" and len: "0 \<le> len"
    and n: "unat n \<in> bitmap_used fm" "n \<notin> data_sectors (fm_inode s)"
  obtains (full) as where "inode_create n len s = Some (False, s\<lparr>answers := as\<rparr>)" "ample k (s\<lparr>answers := as\<rparr>)"
    "\<And>i. i + bytes_to_sectors len \<le> bit_cnt fm \<Longrightarrow> {i..<i + bytes_to_sectors len} \<inter> bitmap_used fm \<noteq> {}"
  | (made) st fm' d as s' where "inode_create n len s = Some (True, s')" "s' = s\<lparr>disk := created n st len d, answers := as, free_map := Some fm'\<rparr>"
    "fm_ok s' fm'" "fm_synced s' fm'" "bit_cnt fm' = bit_cnt fm" "unat st + bytes_to_sectors len \<le> bit_cnt fm"
    "run st (bytes_to_sectors len) \<inter> bitmap_used fm = {}" "bitmap_used fm' = bitmap_used fm \<union> run st (bytes_to_sectors len)"
    "\<And>k. k \<notin> data_sectors (fm_inode s) \<Longrightarrow> d k = disk s k" "ample k s'"
proof -
  have mem': "ample (Suc (Suc k)) s" using mem by simp
  obtain a as1 where a: "answers s = a # as1" "fs_malloc s = (a, s\<lparr>answers := as1, in_use := a # in_use s\<rparr>)" "a \<noteq> NULL" "a \<notin> set (in_use s)"
    "ample (Suc k) (s\<lparr>answers := as1, in_use := a # in_use s\<rparr>)"
    using ample_malloc [OF mem'] by blast
  let ?s1 = "s\<lparr>answers := as1, in_use := a # in_use s\<rparr>"
  have f1: "fm_ok ?s1 fm" by (rule fm_ok_heap [OF fm])
  have freed: "fs_free a ?s1 = Some (s\<lparr>answers := as1\<rparr>)" using a(3) by (simp add: fs_free_def)
  have amp1: "ample k (s\<lparr>answers := as1\<rparr>)" using a(5) by (auto simp: ample_def)
  from f1 ample_memory [OF a(5)] show thesis
  proof (cases rule: free_map_allocate_cases [where cnt = "bytes_to_sectors len"])
    case full: full
    then show thesis using that(1) [OF _ amp1] a(2,3) freed len by (simp add: inode_create_def)
  next
    case (found st fm' d as s2)
    have nd: "n < disk_size s" using bitmap_used_less [OF n(1)] fm by (simp add: fm_ok_def word_less_nat_alt)
    let ?s3 = "s2\<lparr>disk := d(n := encode_inode (new_inode st len))\<rparr>"
    have w: "fs_write_sector n (encode_inode (new_inode st len)) s2 = Some ?s3" using nd found(2) by (simp add: write_sector_data)
    have "unat st + bytes_to_sectors len \<le> unat (disk_size ?s3)" using found(2,6) fm by (simp add: fm_ok_def)
    note z = zero_loop [OF this, of "replicate BLOCK_SECTOR_SIZE 0"]
    have disk3: "(\<lambda>k. if unat k \<in> run st (bytes_to_sectors len) then replicate BLOCK_SECTOR_SIZE 0 else disk ?s3 k) = created n st len d"
      by (auto simp: created_def fun_eq_iff)
    let ?s' = "s\<lparr>disk := created n st len d, answers := as, free_map := Some fm'\<rparr>"
    have free: "fs_free a (s2\<lparr>disk := created n st len d\<rparr>) = Some ?s'"
      using a(3) by (simp add: found(2) fs_free_def)
    have "inode_create n len s = Some (True, ?s')"
      using a(2,3) len found(1) w z [unfolded disk3] free by (simp add: inode_create_def new_inode_def [symmetric])
    then show thesis
    proof (rule that(2) [OF _ refl])
      have "disk_ok s2" using found(3) by (simp add: fm_ok_def live_def)
      then have "disk_ok (s\<lparr>disk := created n st len d\<rparr>)"
        by (auto simp: disk_ok_def found(2) created_def BLOCK_SECTOR_SIZE_def new_inode_def)
      moreover have "unat ` data_sectors (fm_inode s) \<subseteq> bitmap_used fm'" using found(8) fm by (auto simp: fm_ok_def)
      moreover have "bitmap_ok fm'" using found(3) by (simp add: fm_ok_def)
      ultimately show "fm_ok ?s' fm'" using fm_ok_update [OF fm _ found(5)] by simp
      have "created n st len d j = d j" if "j \<in> data_sectors (fm_inode s)" for j
      proof -
        have "unat j \<in> bitmap_used fm" using that fm by (auto simp: fm_ok_def)
        then show ?thesis using that n(2) found(7) by (auto simp: created_def)
      qed
      then have "content (fm_inode s) (s\<lparr>disk := created n st len d\<rparr>) = content (fm_inode s) (s\<lparr>disk := d\<rparr>)"
        by (auto simp: content_def sector_bytes_def data_sectors_def intro!: arg_cong [of _ _ "\<lambda>x. take _ (concat x)"])
      then show "fm_synced ?s' fm'" using found(4) by (simp add: fm_synced_def found(2) content_def sector_bytes_def)
      have "ample k (s\<lparr>answers := as, in_use := a # in_use s\<rparr>)" by (rule ample_spent [OF a(5) found(10)]) simp_all
      then show "ample k ?s'" by (auto simp: ample_def)
    qed (use found(5-9) in simp_all)
  qed
qed

end
