(* ===== verification/Fs_Dir.thy ===== *)
theory Fs_Dir
  imports Fs_File Cstring
begin

text \<open>
  Directories, \<^verbatim>\<open>filesys/directory.c\<close>, and their refinement of finite maps from names to inode sectors.

  A name is the list of its bytes, without the terminating null byte and without null bytes.  A directory entry is read and written as
  the 20 bytes of \<^verbatim>\<open>struct dir_entry\<close>; the bytes of an uninitialised local variable are an argument of the routine
  that has it.
\<close>

section \<open>Directory entries\<close>

definition NAME_MAX :: nat where
  "NAME_MAX = 14"

definition ENTRY_SIZE :: nat where
  "ENTRY_SIZE = 20"

record dir_entry =
  inode_sector :: u32
  entry_name :: "byte list"
  entry_in_use :: bool

definition encode_entry :: "dir_entry \<Rightarrow> byte list" where
  "encode_entry e = le32 (inode_sector e) @ entry_name e @ [if entry_in_use e then 1 else 0]"

definition decode_entry :: "byte list \<Rightarrow> dir_entry" where
  "decode_entry bs =
     \<lparr>inode_sector = of_le32 (take 4 bs), entry_name = take (NAME_MAX + 1) (drop 4 bs), entry_in_use = bs ! 19 \<noteq> 0\<rparr>"

text \<open>
  \<^verbatim>\<open>!strcmp (name, e.name)\<close>, where the second string is the array in a directory entry: a comparison that runs off the end of
  the array is undefined.
\<close>

fun name_eq :: "byte list \<Rightarrow> byte list \<Rightarrow> bool option" where
  "name_eq cs [] = None"
| "name_eq [] (b # bs) = Some (b = 0)"
| "name_eq (c # cs) (b # bs) = (if c = b then name_eq cs bs else Some False)"

text \<open>\<^verbatim>\<open>strlcpy (dst, name, NAME_MAX + 1)\<close>.\<close>

definition name_copy :: "byte list \<Rightarrow> byte list \<Rightarrow> byte list" where
  "name_copy dst name = patch dst 0 (take NAME_MAX name @ [0])"

section \<open>Operations on directories\<close>

definition dir_create :: "u32 \<Rightarrow> nat \<Rightarrow> 'a fsys_scheme \<Rightarrow> (bool \<times> 'a fsys_scheme) option" where
  "dir_create n entry_cnt s = inode_create n (int32 (int (entry_cnt * ENTRY_SIZE))) s"

definition upd_dir :: "addr \<Rightarrow> (dir \<Rightarrow> dir) \<Rightarrow> 'a fsys_scheme \<Rightarrow> 'a fsys_scheme option" where
  "upd_dir d g s = do { deref d s; Some (s\<lparr>dirs := (dirs s)(d := g (dirs s d))\<rparr>) }"

definition dir_open :: "addr \<Rightarrow> 'a fsys_scheme \<Rightarrow> (addr \<times> 'a fsys_scheme) option" where
  "dir_open p s = do {
     let (d, s) = fs_malloc s;
     if p \<noteq> NULL \<and> d \<noteq> NULL then do {
       s \<leftarrow> upd_dir d (\<lambda>_. \<lparr>dir_inode = p, dir_pos = 0\<rparr>) s;
       Some (d, s)
     }
     else do {
       s \<leftarrow> inode_close p s;
       s \<leftarrow> fs_free d s;
       Some (NULL, s)
     }
   }"

definition dir_open_root :: "'a fsys_scheme \<Rightarrow> (addr \<times> 'a fsys_scheme) option" where
  "dir_open_root s = do { (p, s) \<leftarrow> inode_open ROOT_DIR_SECTOR s; dir_open p s }"

definition dir_reopen :: "addr \<Rightarrow> 'a fsys_scheme \<Rightarrow> (addr \<times> 'a fsys_scheme) option" where
  "dir_reopen d s = do {
     deref d s;
     (p, s) \<leftarrow> inode_reopen (dir_inode (dirs s d)) s;
     dir_open p s
   }"

definition dir_close :: "addr \<Rightarrow> 'a fsys_scheme \<Rightarrow> 'a fsys_scheme option" where
  "dir_close d s =
     (if d \<noteq> NULL then do {
        deref d s;
        s \<leftarrow> inode_close (dir_inode (dirs s d)) s;
        fs_free d s
      }
      else Some s)"

definition dir_get_inode :: "addr \<Rightarrow> 'a fsys_scheme \<Rightarrow> addr option" where
  "dir_get_inode d s = do { deref d s; Some (dir_inode (dirs s d)) }"

text \<open>
  The loop of \<^verbatim>\<open>lookup\<close>: \<open>ofs\<close> is a \<^verbatim>\<open>size_t\<close>, which \<^verbatim>\<open>inode_read_at\<close> receives as a signed integer.  The result is the
  entry and its offset.
\<close>

partial_function (option) lookup_loop ::
    "addr \<Rightarrow> byte list \<Rightarrow> nat \<Rightarrow> 'a fsys_scheme \<Rightarrow> ((dir_entry \<times> nat) option \<times> 'a fsys_scheme) option" where
  "lookup_loop p name ofs s = do {
     (bs, s) \<leftarrow> inode_read_at p (int ENTRY_SIZE) (int32 (int ofs)) s;
     if length bs = ENTRY_SIZE then do {
       let e = decode_entry bs;
       found \<leftarrow> (if entry_in_use e then name_eq name (entry_name e) else Some False);
       if found then Some (Some (e, ofs), s)
       else lookup_loop p name ((ofs + ENTRY_SIZE) mod 2 ^ 32) s
     }
     else Some (None, s)
   }"

definition lookup :: "addr \<Rightarrow> byte list \<Rightarrow> 'a fsys_scheme \<Rightarrow> ((dir_entry \<times> nat) option \<times> 'a fsys_scheme) option" where
  "lookup d name s = do {
     ASSERT (d \<noteq> NULL);
     deref d s;
     lookup_loop (dir_inode (dirs s d)) name 0 s
   }"

text \<open>The result is the value stored in \<^verbatim>\<open>*inode\<close>; the function returns whether it is non-null.\<close>

definition dir_lookup :: "addr \<Rightarrow> byte list \<Rightarrow> 'a fsys_scheme \<Rightarrow> (addr \<times> 'a fsys_scheme) option" where
  "dir_lookup d name s = do {
     ASSERT (d \<noteq> NULL);
     (r, s) \<leftarrow> lookup d name s;
     case r of
       Some (e, _) \<Rightarrow> inode_open (inode_sector e) s
     | None \<Rightarrow> Some (NULL, s)
   }"

text \<open>
  The loop of \<^verbatim>\<open>dir_add\<close> that looks for a free slot; \<open>e\<close> is the content of the local variable, which every read overwrites
  from the start.
\<close>

partial_function (option) slot_loop ::
    "addr \<Rightarrow> byte list \<Rightarrow> int \<Rightarrow> 'a fsys_scheme \<Rightarrow> (int \<times> byte list \<times> 'a fsys_scheme) option" where
  "slot_loop p e ofs s = do {
     (bs, s) \<leftarrow> inode_read_at p (int ENTRY_SIZE) ofs s;
     let e = patch e 0 bs;
     if length bs = ENTRY_SIZE \<and> entry_in_use (decode_entry e) then slot_loop p e (int32 (ofs + int ENTRY_SIZE)) s
     else Some (ofs, e, s)
   }"

definition dir_add :: "byte list \<Rightarrow> addr \<Rightarrow> byte list \<Rightarrow> u32 \<Rightarrow> 'a fsys_scheme \<Rightarrow> (bool \<times> 'a fsys_scheme) option" where
  "dir_add e0 d name isector s = do {
     ASSERT (d \<noteq> NULL);
     if name = [] \<or> length name > NAME_MAX then Some (False, s)
     else do {
       (r, s) \<leftarrow> lookup d name s;
       if r \<noteq> None then Some (False, s)
       else do {
         (ofs, e, s) \<leftarrow> slot_loop (dir_inode (dirs s d)) e0 0 s;
         let e = (decode_entry e)\<lparr>entry_in_use := True\<rparr>;
         let e = e\<lparr>entry_name := name_copy (entry_name e) name, inode_sector := isector\<rparr>;
         (n, s) \<leftarrow> inode_write_at (dir_inode (dirs s d)) (encode_entry e) (int ENTRY_SIZE) ofs s;
         Some (n = ENTRY_SIZE, s)
       }
     }
   }"

definition dir_remove :: "addr \<Rightarrow> byte list \<Rightarrow> 'a fsys_scheme \<Rightarrow> (bool \<times> 'a fsys_scheme) option" where
  "dir_remove d name s = do {
     ASSERT (d \<noteq> NULL);
     (r, s) \<leftarrow> lookup d name s;
     (success, p, s) \<leftarrow>
       (case r of
          None \<Rightarrow> Some (False, NULL, s)
        | Some (e, ofs) \<Rightarrow> do {
            (p, s) \<leftarrow> inode_open (inode_sector e) s;
            if p = NULL then Some (False, NULL, s)
            else do {
              let e = e\<lparr>entry_in_use := False\<rparr>;
              (n, s) \<leftarrow> inode_write_at (dir_inode (dirs s d)) (encode_entry e) (int ENTRY_SIZE) (int32 (int ofs)) s;
              if n \<noteq> ENTRY_SIZE then Some (False, p, s)
              else do {
                s \<leftarrow> inode_remove p s;
                Some (True, p, s)
              }
            }
          });
     s \<leftarrow> inode_close p s;
     Some (success, s)
   }"

text \<open>The result is the name stored in the caller's array, or \<open>None\<close> at the end of the directory.\<close>

partial_function (option) dir_readdir :: "addr \<Rightarrow> 'a fsys_scheme \<Rightarrow> (byte list option \<times> 'a fsys_scheme) option" where
  "dir_readdir d s = do {
     deref d s;
     (bs, s) \<leftarrow> inode_read_at (dir_inode (dirs s d)) (int ENTRY_SIZE) (dir_pos (dirs s d)) s;
     if length bs = ENTRY_SIZE then do {
       s \<leftarrow> upd_dir d (\<lambda>x. x\<lparr>dir_pos := int32 (dir_pos x + int ENTRY_SIZE)\<rparr>) s;
       let e = decode_entry bs;
       if entry_in_use e then do {
         ASSERT (0 \<in> set (entry_name e));
         Some (Some (take NAME_MAX (takeWhile (\<lambda>b. b \<noteq> 0) (entry_name e))), s)
       }
       else dir_readdir d s
     }
     else Some (None, s)
   }"

section \<open>A directory as a finite map\<close>

text \<open>
  The content \<open>c\<close> of a directory is an array of slots.  \<open>dir_map c\<close> maps the name of an entry that is in use to the
  sector of its inode.
\<close>

definition slot :: "byte list \<Rightarrow> nat \<Rightarrow> dir_entry" where
  "slot c k = decode_entry (take 20 (drop (20 * k) c))"

definition slot_name :: "byte list \<Rightarrow> nat \<Rightarrow> byte list" where
  "slot_name c k = takeWhile (\<lambda>b. b \<noteq> 0) (entry_name (slot c k))"

abbreviation slot_cnt :: "byte list \<Rightarrow> nat" where
  "slot_cnt c \<equiv> length c div 20"

definition names :: "byte list \<Rightarrow> byte list \<Rightarrow> nat \<Rightarrow> bool" where
  "names c name k \<longleftrightarrow> entry_in_use (slot c k) \<and> slot_name c k = name"

definition dir_map :: "byte list \<Rightarrow> byte list \<Rightarrow> u32 option" where
  "dir_map c name = map_option (\<lambda>k. inode_sector (slot c k)) (find (names c name) [0..<slot_cnt c])"

text \<open>A well-formed directory: whole slots, terminated names, and no name twice.\<close>

definition dir_wf :: "byte list \<Rightarrow> bool" where
  "dir_wf c \<longleftrightarrow> 20 dvd length c \<and>
     (\<forall>k < slot_cnt c. entry_in_use (slot c k) \<longrightarrow> 0 \<in> set (entry_name (slot c k))) \<and>
     (\<forall>j < slot_cnt c. \<forall>k < slot_cnt c. entry_in_use (slot c j) \<and> entry_in_use (slot c k) \<and> slot_name c j = slot_name c k \<longrightarrow> j = k)"

definition valid_name :: "byte list \<Rightarrow> bool" where
  "valid_name name \<longleftrightarrow> name \<noteq> [] \<and> length name \<le> NAME_MAX \<and> 0 \<notin> set name"

lemma name_eq_terminated:
  "0 \<in> set bs \<Longrightarrow> 0 \<notin> set cs \<Longrightarrow> name_eq cs bs = Some (takeWhile (\<lambda>b. b \<noteq> 0) bs = cs)"
  by (induction cs bs rule: name_eq.induct) auto

text \<open>\<open>name_eq\<close> is what \<^verbatim>\<open>strcmp\<close> of \<^verbatim>\<open>lib/string.c\<close> computes on the entry's array in memory.\<close>

lemma name_eq_strcmp:
  assumes "str_at m a name" and "0 \<notin> set name" and "b \<noteq> 0" and "name_eq name (block m b 15) = Some r"
  shows "\<exists>v. strcmp a b m = Some v \<and> (v = 0 \<longleftrightarrow> r)"
proof -
  have loop: "\<exists>x y. strcmp_loop a b m = Some (x, y) \<and> (m x = m y \<longleftrightarrow> r)"
    if "str_at m a name" "0 \<notin> set name" "name_eq name (block m b n) = Some r" for a b n
    using that
  proof (induction name arbitrary: a b n)
    case Nil
    then show ?case by (cases n) (auto simp: block_Suc block_def [of _ _ 0] strcmp_loop.simps [of a])
  next
    case (Cons c cs)
    then obtain n' where n: "n = Suc n'" by (cases n) (auto simp: block_def)
    show ?case
    proof (cases "c = m b")
      case True
      then have "\<exists>x y. strcmp_loop (a + 1) (b + 1) m = Some (x, y) \<and> (m x = m y \<longleftrightarrow> r)"
        using Cons.IH [of "a + 1" "b + 1" n'] Cons.prems n by (auto simp: block_Suc)
      then show ?thesis using True Cons.prems by (subst strcmp_loop.simps) auto
    next
      case False
      then show ?thesis using Cons.prems n by (subst strcmp_loop.simps) (auto simp: block_Suc)
    qed
  qed
  have "a \<noteq> 0" using assms(1) by (rule str_at_nonnull)
  then show ?thesis using loop [OF assms(1,2,4)] assms(3) by (auto simp: strcmp_def)
qed

section \<open>Searching a directory\<close>

lemma slot_read:
  assumes "20 dvd length c"
  shows "length (take 20 (drop (20 * k) c)) = 20 \<longleftrightarrow> k < slot_cnt c" "\<not> k < slot_cnt c \<Longrightarrow> take 20 (drop (20 * k) c) = []"
proof -
  obtain m where m: "length c = 20 * m" using assms by blast
  show "length (take 20 (drop (20 * k) c)) = 20 \<longleftrightarrow> k < slot_cnt c" by (simp add: m) linarith
  show "\<not> k < slot_cnt c \<Longrightarrow> take 20 (drop (20 * k) c) = []" by (simp add: m)
qed

lemma live_length:
  assumes "live p s"
  shows "length (content (inodes s p) s) = nat (inode_length (inodes s p))" "length (content (inodes s p) s) + 512 \<le> 2 ^ 31"
proof -
  have ok: "disk_ok s" "inode_ok (inodes s p) s" using assms by (simp_all add: live_def)
  show len: "length (content (inodes s p) s) = nat (inode_length (inodes s p))" by (rule length_content [OF ok])
  have "0 \<le> inode_length (inodes s p)" "inode_length (inodes s p) + 512 \<le> 2 ^ 31" using ok(2) by (simp_all add: inode_ok_def)
  then show "length (content (inodes s p) s) + 512 \<le> 2 ^ 31" unfolding len by simp
qed

lemma read_slot:
  assumes p: "live p s" and c: "content (inodes s p) s = c" and k: "k \<le> slot_cnt c" and mem: "ample (Suc j) s"
  obtains as where "inode_read_at p 20 (int (20 * k)) s = Some (take 20 (drop (20 * k) c), s\<lparr>answers := as\<rparr>)"
    "ample j (s\<lparr>answers := as\<rparr>)" "int32 (int (20 * k)) = int (20 * k)"
proof -
  have lt: "int (20 * k) < 2 ^ 31" using k live_length(2) [OF p, unfolded c] by simp
  obtain as where "inode_read_at p 20 (int (20 * k)) s = Some (take 20 (drop (20 * k) c), s\<lparr>answers := as\<rparr>)" "spent (answers s) as"
    using inode_read_at_ok [of s p "20 * k" 20] p lt c ample_memory [OF mem] by (auto simp: live_def)
  then show thesis using that [of as] ample_spent [OF mem, of as "s\<lparr>answers := as\<rparr>"] lt by (simp add: int32_small)
qed

lemma live_answers [simp]: "live p (s\<lparr>answers := as\<rparr>) = live p s"
  by (simp add: live_def)

lemma lookup_loop_ok:
  assumes "live p s" and c: "content (inodes s p) s = c" "dir_wf c" and name: "0 \<notin> set name"
    and "k \<le> slot_cnt c" and "ample (j + Suc (slot_cnt c - k)) s"
  shows "\<exists>as. lookup_loop p name (20 * k) s =
    Some (map_option (\<lambda>k. (slot c k, 20 * k)) (find (names c name) [k..<slot_cnt c]), s\<lparr>answers := as\<rparr>) \<and> ample j (s\<lparr>answers := as\<rparr>)"
  using assms(1) c(1) assms(5,6)
proof (induction "slot_cnt c - k" arbitrary: k s)
  case 0
  have mem: "ample (Suc j) s" using 0 by (auto elim: ample_mono)
  obtain as where r: "inode_read_at p 20 (int (20 * k)) s = Some (take 20 (drop (20 * k) c), s\<lparr>answers := as\<rparr>)"
      "ample j (s\<lparr>answers := as\<rparr>)" "int32 (int (20 * k)) = int (20 * k)"
    using read_slot [OF 0(2,3,4) mem] by blast
  have "take 20 (drop (20 * k) c) = []" using slot_read(2) [of c k] c(2) 0(1) by (simp add: dir_wf_def)
  then show ?case using r 0(1,4) by (intro exI [of _ as], subst lookup_loop.simps) (simp add: ENTRY_SIZE_def)
next
  case (Suc n)
  have k: "k < slot_cnt c" "n = slot_cnt c - Suc k" "slot_cnt c - k = Suc (slot_cnt c - Suc k)" using Suc(2) by linarith+
  have mem: "ample (Suc (j + Suc (slot_cnt c - Suc k))) s" using Suc.prems(4) k(3) by simp
  obtain as where r: "inode_read_at p 20 (int (20 * k)) s = Some (take 20 (drop (20 * k) c), s\<lparr>answers := as\<rparr>)"
      "ample (j + Suc (slot_cnt c - Suc k)) (s\<lparr>answers := as\<rparr>)" "int32 (int (20 * k)) = int (20 * k)"
    using read_slot [OF Suc(3,4,5) mem] by blast
  have len: "length (take 20 (drop (20 * k) c)) = 20" using slot_read(1) [of c k] c(2) k(1) by (simp add: dir_wf_def)
  have eq: "(if entry_in_use (slot c k) then name_eq name (entry_name (slot c k)) else Some False) = Some (names c name k)"
    using c(2) k(1) name name_eq_terminated by (auto simp: dir_wf_def names_def slot_name_def)
  have upt: "[k..<slot_cnt c] = k # [Suc k..<slot_cnt c]" using k(1) by (rule upt_conv_Cons)
  have "20 * k + 20 < 2 ^ 32" using k(1) live_length(2) [OF Suc.prems(1), unfolded Suc.prems(2)] by simp
  then have small: "(20 * k + 20) mod 2 ^ 32 = 20 * Suc k" by simp
  show ?case
  proof (cases "names c name k")
    case True
    then show ?thesis using r len eq upt Suc.prems ample_mono [OF r(2), of j]
      by (intro exI [of _ as], subst lookup_loop.simps) (simp add: ENTRY_SIZE_def slot_def [symmetric])
  next
    case False
    have "lookup_loop p name (20 * k) s = lookup_loop p name (20 * Suc k) (s\<lparr>answers := as\<rparr>)"
      using False r len eq small by (subst lookup_loop.simps) (simp add: ENTRY_SIZE_def slot_def [symmetric])
    then show ?thesis using Suc(1) [OF k(2), of "s\<lparr>answers := as\<rparr>"] Suc.prems k(1) r(2) False upt by simp
  qed
qed

section \<open>Adding and erasing entries\<close>

lemma length_encode_entry: "length (entry_name e) = 15 \<Longrightarrow> length (encode_entry e) = 20"
  by (simp add: encode_entry_def)

lemma decode_encode_entry: "length (entry_name e) = 15 \<Longrightarrow> decode_entry (encode_entry e) = e"
  by (simp add: encode_entry_def decode_entry_def NAME_MAX_def nth_append)

lemma length_slot_name: "k < slot_cnt c \<Longrightarrow> length (entry_name (slot c k)) = 15"
  by (simp add: slot_def decode_entry_def NAME_MAX_def)

lemma slot_patch:
  assumes "k < slot_cnt c" "j < slot_cnt c" and "length (entry_name e) = 15"
  shows "slot (patch c (20 * k) (encode_entry e)) j = (if j = k then e else slot c j)"
proof -
  have fits: "20 * k + length (encode_entry e) \<le> length c" using assms(1) length_encode_entry [OF assms(3)] by simp
  note len = length_encode_entry [OF assms(3)]
  have "take 20 (drop (20 * j) (patch c (20 * k) (encode_entry e))) = (if j = k then encode_entry e else take 20 (drop (20 * j) c))"
  proof (rule nth_equalityI)
    show "length (take 20 (drop (20 * j) (patch c (20 * k) (encode_entry e)))) =
        length (if j = k then encode_entry e else take 20 (drop (20 * j) c))"
      using assms(1,2) fits len by simp
    fix x assume "x < length (take 20 (drop (20 * j) (patch c (20 * k) (encode_entry e))))"
    then have x: "x < 20" "20 * j + x < length c" using fits by auto
    then show "take 20 (drop (20 * j) (patch c (20 * k) (encode_entry e))) ! x =
        (if j = k then encode_entry e else take 20 (drop (20 * j) c)) ! x"
      using fits len nth_patch [OF fits x(2)] by auto
  qed
  then show ?thesis by (simp add: slot_def decode_encode_entry [OF assms(3)])
qed

lemma slot_cnt_patch: "k < slot_cnt c \<Longrightarrow> length (entry_name e) = 15 \<Longrightarrow> length (patch c (20 * k) (encode_entry e)) = length c"
  by (rule length_patch) (simp add: length_encode_entry)

lemma name_copy_ok:
  assumes "valid_name name" and "length dst = 15"
  shows "length (name_copy dst name) = 15" "takeWhile (\<lambda>b. b \<noteq> 0) (name_copy dst name) = name" "0 \<in> set (name_copy dst name)"
proof -
  have name: "length name \<le> 14" "\<forall>b \<in> set name. b \<noteq> 0" using assms(1) by (auto simp: valid_name_def NAME_MAX_def)
  then have eq: "name_copy dst name = name @ 0 # drop (Suc (length name)) dst" by (simp add: name_copy_def patch_def NAME_MAX_def)
  show "length (name_copy dst name) = 15" "0 \<in> set (name_copy dst name)" using name(1) assms(2) by (simp_all add: eq)
  show "takeWhile (\<lambda>b. b \<noteq> 0) (name_copy dst name) = name" unfolding eq using name(2) by (induction name) simp_all
qed

lemma find_names_iff:
  assumes "dir_wf c"
  shows "find (names c name) [0..<slot_cnt c] = Some k \<longleftrightarrow> k < slot_cnt c \<and> names c name k"
proof
  assume "find (names c name) [0..<slot_cnt c] = Some k"
  then show "k < slot_cnt c \<and> names c name k" by (auto simp: find_Some_iff)
next
  assume k: "k < slot_cnt c \<and> names c name k"
  then obtain j where j: "find (names c name) [0..<slot_cnt c] = Some j" by (cases "find (names c name) [0..<slot_cnt c]") (auto simp: find_None_iff)
  then have "j < slot_cnt c \<and> names c name j" by (auto simp: find_Some_iff)
  with k assms have "j = k" by (auto simp: dir_wf_def names_def)
  with j show "find (names c name) [0..<slot_cnt c] = Some k" by simp
qed

lemma dir_map_Some_iff:
  assumes "dir_wf c"
  shows "dir_map c name = Some n \<longleftrightarrow> (\<exists>k < slot_cnt c. names c name k \<and> inode_sector (slot c k) = n)"
  using find_names_iff [OF assms] by (auto simp: dir_map_def)

lemma dir_map_None_iff: "dir_map c name = None \<longleftrightarrow> (\<forall>k < slot_cnt c. \<not> names c name k)"
  by (auto simp: dir_map_def find_None_iff)

lemma dir_wfI:
  assumes "20 dvd length c" and "\<And>k. k < slot_cnt c \<Longrightarrow> entry_in_use (slot c k) \<Longrightarrow> 0 \<in> set (entry_name (slot c k))"
    and "\<And>nm j k. j < slot_cnt c \<Longrightarrow> k < slot_cnt c \<Longrightarrow> names c nm j \<Longrightarrow> names c nm k \<Longrightarrow> j = k"
  shows "dir_wf c"
  unfolding dir_wf_def using assms(1,2) assms(3) [unfolded names_def] by blast

lemma dir_wfD:
  assumes "dir_wf c"
  shows "20 dvd length c" "k < slot_cnt c \<Longrightarrow> entry_in_use (slot c k) \<Longrightarrow> 0 \<in> set (entry_name (slot c k))"
    "j < slot_cnt c \<Longrightarrow> k < slot_cnt c \<Longrightarrow> names c nm j \<Longrightarrow> names c nm k \<Longrightarrow> j = k"
  using assms unfolding dir_wf_def names_def by blast+

lemma dir_map_cong:
  assumes "length c' = length c" and "\<And>j. j < slot_cnt c \<Longrightarrow> names c' nm j \<longleftrightarrow> names c nm j"
    and "\<And>j. j < slot_cnt c \<Longrightarrow> names c nm j \<Longrightarrow> inode_sector (slot c' j) = inode_sector (slot c j)"
  shows "dir_map c' nm = dir_map c nm"
proof -
  have eq: "find (names c' nm) [0..<slot_cnt c] = find (names c nm) [0..<slot_cnt c]"
    by (rule find_cong) (use assms(2) in simp_all)
  show ?thesis
  proof (cases "find (names c nm) [0..<slot_cnt c]")
    case (Some j)
    then have "j < slot_cnt c" "names c nm j" by (auto simp: find_Some_iff)
    then show ?thesis using Some eq assms(3) by (simp add: dir_map_def assms(1))
  qed (simp add: dir_map_def assms(1) eq)
qed

text \<open>Writing an entry into a slot changes the map at the names involved only.\<close>

lemma dir_add_map:
  assumes wf: "dir_wf c" and k: "k < slot_cnt c" "\<not> entry_in_use (slot c k)" and free: "dir_map c name = None"
    and e: "entry_in_use e" "length (entry_name e) = 15" "takeWhile (\<lambda>b. b \<noteq> 0) (entry_name e) = name" "0 \<in> set (entry_name e)"
  defines "c' \<equiv> patch c (20 * k) (encode_entry e)"
  shows "dir_wf c'" "dir_map c' = (dir_map c)(name \<mapsto> inode_sector e)"
proof -
  have len: "length c' = length c" unfolding c'_def by (rule slot_cnt_patch [OF k(1) e(2)])
  have slot: "slot c' j = (if j = k then e else slot c j)" if "j < slot_cnt c" for j unfolding c'_def by (rule slot_patch [OF k(1) that e(2)])
  have names: "names c' nm j = (if j = k then nm = name else names c nm j)" if "j < slot_cnt c" for j nm
    using slot [OF that] e(1,3) by (auto simp: names_def slot_name_def)
  have new: "\<not> names c name j" if "j < slot_cnt c" for j using free that by (simp add: dir_map_None_iff)
  show wf': "dir_wf c'"
  proof (rule dir_wfI, unfold len)
    show "20 dvd length c" by (rule dir_wfD(1) [OF wf])
    show "0 \<in> set (entry_name (slot c' j))" if "j < slot_cnt c" "entry_in_use (slot c' j)" for j
      using slot [OF that(1)] e(4) that dir_wfD(2) [OF wf that(1)] by (cases "j = k") simp_all
    show "i = j" if "i < slot_cnt c" "j < slot_cnt c" "names c' nm i" "names c' nm j" for nm i j
      using names [OF that(1), of nm] names [OF that(2), of nm] that new [of i] new [of j] dir_wfD(3) [OF wf that(1,2), of nm]
      by (cases "i = k"; cases "j = k") simp_all
  qed
  show "dir_map c' = (dir_map c)(name \<mapsto> inode_sector e)"
  proof
    fix nm
    show "dir_map c' nm = ((dir_map c)(name \<mapsto> inode_sector e)) nm"
    proof (cases "nm = name")
      case True
      have "names c' name k" "inode_sector (slot c' k) = inode_sector e" using names [OF k(1)] slot [OF k(1)] by simp_all
      then have "dir_map c' name = Some (inode_sector e)" using dir_map_Some_iff [OF wf'] k(1) len by auto
      then show ?thesis using True by simp
    next
      case False
      have "\<not> names c nm k" using k(2) by (simp add: names_def)
      then have "dir_map c' nm = dir_map c nm" using names slot False by (intro dir_map_cong [OF len]) (auto split: if_splits)
      then show ?thesis using False by simp
    qed
  qed
qed

lemma dir_erase_map:
  assumes wf: "dir_wf c" and k: "k < slot_cnt c" "names c name k"
  defines "c' \<equiv> patch c (20 * k) (encode_entry ((slot c k)\<lparr>entry_in_use := False\<rparr>))"
  shows "dir_wf c'" "dir_map c' = (dir_map c)(name := None)"
proof -
  let ?e = "(slot c k)\<lparr>entry_in_use := False\<rparr>"
  have e: "length (entry_name ?e) = 15" using length_slot_name [OF k(1)] by simp
  have len: "length c' = length c" unfolding c'_def by (rule slot_cnt_patch [OF k(1) e])
  have slot: "slot c' j = (if j = k then ?e else slot c j)" if "j < slot_cnt c" for j unfolding c'_def by (rule slot_patch [OF k(1) that e])
  have names: "names c' nm j = (j \<noteq> k \<and> names c nm j)" if "j < slot_cnt c" for j nm
    using slot [OF that] by (auto simp: names_def slot_name_def)
  have only: "\<not> names c' name j" if "j < slot_cnt c" for j using names [OF that, of name] dir_wfD(3) [OF wf that k(1), of name] k(2) by blast
  show "dir_wf c'"
  proof (rule dir_wfI, unfold len)
    show "20 dvd length c" by (rule dir_wfD(1) [OF wf])
    show "0 \<in> set (entry_name (slot c' j))" if "j < slot_cnt c" "entry_in_use (slot c' j)" for j
      using slot [OF that(1)] that dir_wfD(2) [OF wf that(1)] by (cases "j = k") simp_all
    show "i = j" if "i < slot_cnt c" "j < slot_cnt c" "names c' nm i" "names c' nm j" for nm i j
      using names [OF that(1), of nm] names [OF that(2), of nm] that dir_wfD(3) [OF wf that(1,2), of nm] by blast
  qed
  show "dir_map c' = (dir_map c)(name := None)"
  proof
    fix nm
    show "dir_map c' nm = ((dir_map c)(name := None)) nm"
    proof (cases "nm = name")
      case True
      have "dir_map c' name = None" using only by (simp add: dir_map_None_iff len)
      then show ?thesis using True by simp
    next
      case False
      have "\<not> names c nm k" using k(2) False by (auto simp: names_def)
      then have "dir_map c' nm = dir_map c nm" using names slot by (intro dir_map_cong [OF len]) auto
      then show ?thesis using False by simp
    qed
  qed
qed

section \<open>The operations on a directory\<close>

definition free_slot :: "byte list \<Rightarrow> nat \<Rightarrow> nat" where
  "free_slot c k = (case find (\<lambda>k. \<not> entry_in_use (slot c k)) [k..<slot_cnt c] of None \<Rightarrow> slot_cnt c | Some k' \<Rightarrow> k')"

lemma slot_loop_ok:
  assumes "live p s" and c: "content (inodes s p) s = c" "20 dvd length c" and "length e = 20"
    and "k \<le> slot_cnt c" and "ample (j + Suc (slot_cnt c - k)) s"
  shows "\<exists>e' as. slot_loop p e (int (20 * k)) s = Some (int (20 * free_slot c k), e', s\<lparr>answers := as\<rparr>) \<and>
    length e' = 20 \<and> ample j (s\<lparr>answers := as\<rparr>)"
  using assms(1) c(1) assms(4-6)
proof (induction "slot_cnt c - k" arbitrary: k e s)
  case 0
  have mem: "ample (Suc j) s" using 0 by (auto elim: ample_mono)
  obtain as where r: "inode_read_at p 20 (int (20 * k)) s = Some (take 20 (drop (20 * k) c), s\<lparr>answers := as\<rparr>)"
      "ample j (s\<lparr>answers := as\<rparr>)"
    using read_slot [OF 0(2,3,5) mem] by blast
  have "take 20 (drop (20 * k) c) = []" "k = slot_cnt c" using slot_read(2) [OF c(2), of k] 0(1,5) by simp_all
  then show ?case using r 0(4) by (intro exI [of _ e] exI [of _ as], subst slot_loop.simps) (simp add: ENTRY_SIZE_def free_slot_def)
next
  case (Suc n)
  have k: "k < slot_cnt c" "n = slot_cnt c - Suc k" "slot_cnt c - k = Suc (slot_cnt c - Suc k)" using Suc(2) by linarith+
  have mem: "ample (Suc (j + Suc (slot_cnt c - Suc k))) s" using Suc.prems(5) k(3) by simp
  let ?bs = "take 20 (drop (20 * k) c)"
  obtain as where r: "inode_read_at p 20 (int (20 * k)) s = Some (?bs, s\<lparr>answers := as\<rparr>)"
      "ample (j + Suc (slot_cnt c - Suc k)) (s\<lparr>answers := as\<rparr>)"
    using read_slot [OF Suc(3,4,6) mem] by blast
  have len: "length ?bs = 20" using slot_read(1) [OF c(2), of k] k(1) by simp
  then have buf: "patch e 0 ?bs = ?bs" using Suc.prems(3) by (intro patch_whole) simp
  have upt: "[k..<slot_cnt c] = k # [Suc k..<slot_cnt c]" using k(1) by (rule upt_conv_Cons)
  have "int (20 * k) + 20 < 2 ^ 31" using k(1) live_length(2) [OF Suc.prems(1), unfolded Suc.prems(2)] by simp
  then have wrap: "int32 (int (20 * k) + 20) = int (20 * Suc k)" by (subst int32_small) simp_all
  show ?case
  proof (cases "entry_in_use (slot c k)")
    case True
    have "slot_loop p e (int (20 * k)) s = slot_loop p ?bs (int (20 * Suc k)) (s\<lparr>answers := as\<rparr>)"
      using True r(1) len buf wrap by (subst slot_loop.simps) (simp add: ENTRY_SIZE_def slot_def [symmetric])
    then show ?thesis using Suc(1) [OF k(2), of "s\<lparr>answers := as\<rparr>" ?bs] Suc.prems k(1) r(2) True upt len by (simp add: free_slot_def)
  next
    case False
    then show ?thesis using r len buf upt ample_mono [OF r(2), of j]
      by (intro exI [of _ ?bs] exI [of _ as], subst slot_loop.simps) (simp add: ENTRY_SIZE_def slot_def [symmetric] free_slot_def)
  qed
qed

lemma free_slot_cases:
  obtains "free_slot c 0 < slot_cnt c" "\<not> entry_in_use (slot c (free_slot c 0))"
  | "free_slot c 0 = slot_cnt c" "\<And>k. k < slot_cnt c \<Longrightarrow> entry_in_use (slot c k)"
proof (cases "find (\<lambda>k. \<not> entry_in_use (slot c k)) [0..<slot_cnt c]")
  case None
  then have "free_slot c 0 = slot_cnt c" by (simp add: free_slot_def)
  then show thesis using that(2) None by (auto simp: find_None_iff)
next
  case (Some k)
  then have "free_slot c 0 = k" by (simp add: free_slot_def)
  then show thesis using that(1) Some by (auto simp: find_Some_iff)
qed

text \<open>The open directory at \<open>d\<close>, and what is needed to work on it.\<close>

definition dir_live :: "addr \<Rightarrow> 'a fsys_scheme \<Rightarrow> bool" where
  "dir_live d s \<longleftrightarrow> d \<noteq> NULL \<and> d \<in> set (in_use s) \<and> live (dir_inode (dirs s d)) s"

definition dir_bytes :: "addr \<Rightarrow> 'a fsys_scheme \<Rightarrow> byte list" where
  "dir_bytes d s = content (inodes s (dir_inode (dirs s d))) s"

lemma lookup_ok:
  assumes "dir_live d s" "dir_wf (dir_bytes d s)" "0 \<notin> set name" "ample (j + Suc (slot_cnt (dir_bytes d s))) s"
  obtains as where "lookup d name s =
    Some (map_option (\<lambda>k. (slot (dir_bytes d s) k, 20 * k)) (find (names (dir_bytes d s) name) [0..<slot_cnt (dir_bytes d s)]), s\<lparr>answers := as\<rparr>)"
    "ample j (s\<lparr>answers := as\<rparr>)"
  using lookup_loop_ok [of "dir_inode (dirs s d)" s "dir_bytes d s" name 0 j] assms
  by (auto simp: dir_live_def dir_bytes_def lookup_def deref_def)

lemma inode_write_at_end:
  assumes "live p s" and "int ofs = inode_length (inodes s p)"
  shows "inode_write_at p buf sz (int ofs) s = Some (0, s)"
proof -
  have ok: "inode_ok (inodes s p) s" "disk_ok s" "p \<noteq> NULL" "p \<in> set (in_use s)" using assms(1) by (simp_all add: live_def)
  have lt: "int ofs < 2 ^ 31" using ok(1) assms(2) by (simp add: inode_ok_def)
  have "write_loop (inodes s p) buf sz (int ofs) 0 NULL s = Some (0, NULL, s)"
  proof (cases "sz > 0")
    case True
    have "chunk_size (inodes s p) sz (int ofs) \<le> 0" using chunk_step(1) [OF ok(1) lt True, folded assms(2)] by simp
    then show ?thesis by (subst write_loop.simps) simp
  qed (subst write_loop.simps, simp)
  then show ?thesis using ok(3,4) by (simp add: inode_write_at_def deref_def fs_free_def)
qed

lemma dir_add_cases:
  fixes s :: "'a fsys_scheme" and d :: addr
  defines "c \<equiv> dir_bytes d s" and "i \<equiv> inodes s (dir_inode (dirs s d))"
  assumes d: "dir_live d s" "dir_wf c" and name: "valid_name name" and e0: "length e0 = 20"
    and mem: "ample (j + (2 * slot_cnt c + 3)) s" and allowed: "deny_write_cnt i = 0"
  obtains (refused) as where "dir_add e0 d name n s = Some (False, s\<lparr>answers := as\<rparr>)" "ample j (s\<lparr>answers := as\<rparr>)"
    "dir_map c name \<noteq> None \<or> (\<forall>k < slot_cnt c. entry_in_use (slot c k))"
  | (added) d' as where "dir_add e0 d name n s = Some (True, s\<lparr>disk := d', answers := as\<rparr>)" "ample j (s\<lparr>disk := d', answers := as\<rparr>)"
    "\<exists>k < slot_cnt c. \<not> entry_in_use (slot c k)" "dir_map c name = None" "dir_wf (content i (s\<lparr>disk := d'\<rparr>))" "dir_map (content i (s\<lparr>disk := d'\<rparr>)) = (dir_map c)(name \<mapsto> n)"
    "disk_ok (s\<lparr>disk := d'\<rparr>)" "\<And>k. k \<notin> data_sectors i \<Longrightarrow> d' k = disk s k"
proof -
  let ?p = "dir_inode (dirs s d)"
  have live: "live ?p s" and deref: "d \<noteq> NULL" using d(1) by (simp_all add: dir_live_def)
  have nm: "name \<noteq> []" "\<not> NAME_MAX < length name" "0 \<notin> set name" using name by (auto simp: valid_name_def)
  have "ample (j + (slot_cnt c + 2) + Suc (slot_cnt c)) s" using mem by (auto elim: ample_mono)
  from lookup_ok [OF d(1) d(2) [unfolded c_def] nm(3) this [unfolded c_def]] obtain as1 where
    look: "lookup d name s = Some (map_option (\<lambda>k. (slot c k, 20 * k)) (find (names c name) [0..<slot_cnt c]), s\<lparr>answers := as1\<rparr>)"
    and mem1: "ample (j + (slot_cnt c + 2)) (s\<lparr>answers := as1\<rparr>)"
    unfolding c_def by blast
  show thesis
  proof (cases "find (names c name) [0..<slot_cnt c]")
    case (Some k)
    then have "dir_add e0 d name n s = Some (False, s\<lparr>answers := as1\<rparr>)" using look nm deref by (simp add: dir_add_def)
    then show thesis using refused [of as1] ample_mono [OF mem1, of j] Some by (simp add: dir_map_def)
  next
    case None
    then have none: "dir_map c name = None" by (simp add: dir_map_def)
    let ?s1 = "s\<lparr>answers := as1\<rparr>" and ?k = "free_slot c 0"
    have "ample (Suc j + Suc (slot_cnt c - 0)) ?s1" using mem1 by simp
    moreover have "content (inodes ?s1 ?p) ?s1 = c" by (simp add: c_def dir_bytes_def)
    ultimately obtain e as2 where sl: "slot_loop ?p e0 0 ?s1 = Some (int (20 * ?k), e, s\<lparr>answers := as2\<rparr>)"
      "length e = 20" "ample (Suc j) (s\<lparr>answers := as2\<rparr>)"
      using slot_loop_ok [of ?p ?s1 c e0 0 "Suc j"] live d(2) e0 by (auto simp: dir_wfD(1))
    let ?s2 = "s\<lparr>answers := as2\<rparr>"
    let ?e = "(decode_entry e)\<lparr>entry_in_use := True, entry_name := name_copy (entry_name (decode_entry e)) name, inode_sector := n\<rparr>"
    have "length (entry_name (decode_entry e)) = 15" using sl(2) by (simp add: decode_entry_def NAME_MAX_def)
    note cp = name_copy_ok [OF name this]
    have e: "entry_in_use ?e" "length (entry_name ?e) = 15" "takeWhile (\<lambda>b. b \<noteq> 0) (entry_name ?e) = name"
      "0 \<in> set (entry_name ?e)" "inode_sector ?e = n"
      using cp by simp_all
    have add: "dir_add e0 d name n s = do { (m, s) \<leftarrow> inode_write_at ?p (encode_entry ?e) 20 (int (20 * ?k)) ?s2; Some (m = 20, s) }"
      using look None nm deref sl(1) by (simp add: dir_add_def ENTRY_SIZE_def)
    show thesis
    proof (rule free_slot_cases [of c])
      assume "?k = slot_cnt c" and full: "\<And>k. k < slot_cnt c \<Longrightarrow> entry_in_use (slot c k)"
      then have "20 * ?k = length c" using dir_wfD(1) [OF d(2)] by simp
      moreover have "length c = nat (inode_length i)" using live_length(1) [OF live] by (simp add: c_def i_def dir_bytes_def)
      moreover have "0 \<le> inode_length i" using live by (simp add: live_def inode_ok_def i_def)
      ultimately have "int (20 * ?k) = inode_length (inodes ?s2 ?p)" by (simp add: i_def)
      from inode_write_at_end [OF _ this, of "encode_entry ?e" 20] have "dir_add e0 d name n s = Some (False, ?s2)"
        using add live by simp
      then show thesis using refused [of as2] ample_mono [OF sl(3), of j] full by simp
    next
      assume k: "?k < slot_cnt c" "\<not> entry_in_use (slot c ?k)"
      have c2: "content i ?s2 = c" by (simp add: c_def i_def dir_bytes_def)
      have len: "length c = nat (inode_length i)" using live_length(1) [OF live] by (simp add: c_def i_def dir_bytes_def)
      have fits: "20 * ?k + 20 \<le> nat (inode_length i)" using k(1) len by simp
      have lt: "int (20 * ?k) < 2 ^ 31" using k(1) live_length(2) [OF live, folded dir_bytes_def, folded c_def] by simp
      obtain d' as3 where w: "inode_write_at ?p (encode_entry ?e) 20 (int (20 * ?k)) ?s2 = Some (20, s\<lparr>disk := d', answers := as3\<rparr>)"
        "content i (s\<lparr>disk := d'\<rparr>) = patch c (20 * ?k) (encode_entry ?e)" "disk_ok (s\<lparr>disk := d'\<rparr>)"
        "\<forall>n. n \<notin> data_sectors i \<longrightarrow> d' n = disk s n" "spent as2 as3"
        using inode_write_at_ok [of ?s2 ?p "20 * ?k" 20 "encode_entry ?e"] live lt length_encode_entry [OF e(2)] allowed fits
          ample_memory [OF sl(3)] c2
        by (auto simp: live_def i_def content_def sector_bytes_def disk_ok_def)
      note m = dir_add_map [OF d(2) k none e(1-4), unfolded e(5), folded w(2)]
      show thesis
      proof (rule added [OF _ _ _ none m w(3)])
        show "\<exists>k < slot_cnt c. \<not> entry_in_use (slot c k)" using k by blast
        show "dir_add e0 d name n s = Some (True, s\<lparr>disk := d', answers := as3\<rparr>)" using add w(1) by simp
        show "ample j (s\<lparr>disk := d', answers := as3\<rparr>)" by (rule ample_spent [OF sl(3)]) (use w(5) in simp_all)
      qed (use w(4) in simp)
    qed
  qed
qed

section \<open>Reading a directory\<close>

text \<open>The state in which the directory at \<open>d\<close> is at position \<open>n\<close>.\<close>

definition at_pos :: "addr \<Rightarrow> addr list \<Rightarrow> nat \<Rightarrow> 'a fsys_scheme \<Rightarrow> 'a fsys_scheme" where
  "at_pos d as n s = s\<lparr>answers := as, dirs := (dirs s)(d := (dirs s d)\<lparr>dir_pos := int n\<rparr>)\<rparr>"

lemma at_pos_simps [simp]:
  "dir_bytes d (at_pos d as n s) = dir_bytes d s" "dir_live d (at_pos d as n s) = dir_live d s" "dir_pos (dirs (at_pos d as n s) d) = int n"
  "at_pos d as' n' (at_pos d as n s) = at_pos d as' n' s" "ample k (at_pos d as n s) = ample k (s\<lparr>answers := as\<rparr>)"
  "ample k ((at_pos d as n s)\<lparr>answers := as'\<rparr>) = ample k (s\<lparr>answers := as'\<rparr>)"
  by (simp_all add: at_pos_def dir_bytes_def dir_live_def live_def ample_def)

lemma at_pos_here: "dir_pos (dirs s d) = int n \<Longrightarrow> s\<lparr>answers := as\<rparr> = at_pos d as n s"
proof -
  assume n: "dir_pos (dirs s d) = int n"
  have "(dirs s d)\<lparr>dir_pos := dir_pos (dirs s d)\<rparr> = dirs s d" by simp
  then have "(dirs s d)\<lparr>dir_pos := int n\<rparr> = dirs s d" unfolding n .
  then show ?thesis by (simp add: at_pos_def)
qed

lemma dir_readdir_step:
  fixes s :: "'a fsys_scheme" and d :: addr
  defines "c \<equiv> dir_bytes d s"
  assumes d: "dir_live d s" "dir_wf c" and pos: "dir_pos (dirs s d) = int (20 * k)" "k \<le> slot_cnt c" and mem: "ample (Suc j) s"
  obtains (stop) as where "k = slot_cnt c" "dir_readdir d s = Some (None, at_pos d as (20 * k) s)" "ample j (s\<lparr>answers := as\<rparr>)"
  | (next_slot) as where "k < slot_cnt c" "ample j (s\<lparr>answers := as\<rparr>)"
    "dir_readdir d s = (if entry_in_use (slot c k) then Some (Some (take NAME_MAX (slot_name c k)), at_pos d as (20 * Suc k) s)
       else dir_readdir d (at_pos d as (20 * Suc k) s))"
proof -
  have live: "live (dir_inode (dirs s d)) s" and c: "content (inodes s (dir_inode (dirs s d))) s = c"
    using d(1) by (simp_all add: dir_live_def c_def dir_bytes_def)
  have deref: "d \<noteq> NULL" "d \<in> set (in_use s)" using d(1) by (simp_all add: dir_live_def)
  obtain as where r: "inode_read_at (dir_inode (dirs s d)) 20 (int (20 * k)) s = Some (take 20 (drop (20 * k) c), s\<lparr>answers := as\<rparr>)"
      "ample j (s\<lparr>answers := as\<rparr>)"
    by (rule read_slot [OF live c pos(2) mem]) (rule that)
  note len = slot_read [OF dir_wfD(1) [OF d(2)], of k]
  show thesis
  proof (cases "k < slot_cnt c")
    case False
    then have "dir_readdir d s = Some (None, s\<lparr>answers := as\<rparr>)"
      using len r(1) pos(1) deref by (subst dir_readdir.simps) (simp add: deref_def ENTRY_SIZE_def)
    then show thesis unfolding at_pos_here [OF pos(1), of as] by (rule stop [rotated]) (use False pos(2) r(2) in simp_all)
  next
    case True
    have "int (20 * k) + 20 < 2 ^ 31" using True live_length(2) [OF live, unfolded c] by simp
    then have wrap: "int32 (int (20 * k) + 20) = int (20 * Suc k)" by (subst int32_small) simp_all
    have upd: "upd_dir d (\<lambda>x. x\<lparr>dir_pos := int32 (dir_pos x + 20)\<rparr>) (s\<lparr>answers := as\<rparr>) = Some (at_pos d as (20 * Suc k) s)"
      using deref pos(1) wrap by (simp add: upd_dir_def deref_def at_pos_def)
    have "entry_in_use (slot c k) \<Longrightarrow> 0 \<in> set (entry_name (slot c k))" using dir_wfD(2) [OF d(2) True] .
    then have "dir_readdir d s = (if entry_in_use (slot c k) then Some (Some (take NAME_MAX (slot_name c k)), at_pos d as (20 * Suc k) s)
       else dir_readdir d (at_pos d as (20 * Suc k) s))"
      using len True r(1) pos(1) deref upd
      by (subst dir_readdir.simps) (simp add: deref_def ENTRY_SIZE_def slot_def [symmetric] slot_name_def)
    then show thesis by (rule next_slot [OF True r(2)])
  qed
qed

lemma length_takeWhile_less: "0 \<in> set xs \<Longrightarrow> length (takeWhile (\<lambda>b. b \<noteq> (0 :: byte)) xs) < length xs"
  by (induction xs) auto

lemma slot_name_short: "k < slot_cnt c \<Longrightarrow> 0 \<in> set (entry_name (slot c k)) \<Longrightarrow> take NAME_MAX (slot_name c k) = slot_name c k"
  using length_slot_name [of k c] length_takeWhile_less [of "entry_name (slot c k)"] by (simp add: slot_name_def NAME_MAX_def)

text \<open>One call: the next entry in use at or after the current position.\<close>

definition next_entry :: "byte list \<Rightarrow> nat \<Rightarrow> nat option" where
  "next_entry c k = find (\<lambda>k. entry_in_use (slot c k)) [k..<slot_cnt c]"

definition next_pos :: "byte list \<Rightarrow> nat \<Rightarrow> nat" where
  "next_pos c k = (case next_entry c k of None \<Rightarrow> slot_cnt c | Some i \<Rightarrow> Suc i)"

lemma next_entry_rec: "k < slot_cnt c \<Longrightarrow> next_entry c k = (if entry_in_use (slot c k) then Some k else next_entry c (Suc k))"
  by (simp add: next_entry_def upt_conv_Cons)

lemma dir_readdir_ok:
  assumes "dir_live d s" "dir_bytes d s = c" "dir_wf c" and "dir_pos (dirs s d) = int (20 * k)" "k \<le> slot_cnt c" and "ample (j + Suc (slot_cnt c - k)) s"
  shows "\<exists>as. dir_readdir d s = Some (map_option (slot_name c) (next_entry c k), at_pos d as (20 * next_pos c k) s) \<and>
    ample (j + (slot_cnt c - next_pos c k)) (s\<lparr>answers := as\<rparr>)"
  using assms
proof (induction "slot_cnt c - k" arbitrary: k s)
  case 0
  have k: "k = slot_cnt c" "next_entry c k = None" using 0 by (simp_all add: next_entry_def)
  have mem: "ample (Suc j) s" using 0 by (auto elim: ample_mono)
  show ?case
    by (rule dir_readdir_step [OF 0(2) _ 0(5) _ mem, unfolded 0(3), OF 0(4,6)]) (use k in \<open>auto simp: next_pos_def\<close>)
next
  case (Suc n)
  have k: "k < slot_cnt c" "n = slot_cnt c - Suc k" "slot_cnt c - k = Suc (slot_cnt c - Suc k)" using Suc(2) by linarith+
  have mem: "ample (Suc (j + Suc (slot_cnt c - Suc k))) s" using Suc.prems(6) k(3) by simp
  show ?case
  proof (rule dir_readdir_step [OF Suc(3) _ Suc(6) _ mem, unfolded Suc(4), OF Suc(5,7)])
    fix as assume a: "ample (j + Suc (slot_cnt c - Suc k)) (s\<lparr>answers := as\<rparr>)"
      and r: "dir_readdir d s = (if entry_in_use (slot c k) then Some (Some (take NAME_MAX (slot_name c k)), at_pos d as (20 * Suc k) s)
        else dir_readdir d (at_pos d as (20 * Suc k) s))"
    show ?thesis
    proof (cases "entry_in_use (slot c k)")
      case True
      then show ?thesis
        using r ample_mono [OF a, of "j + (slot_cnt c - Suc k)"] slot_name_short [OF k(1) dir_wfD(2) [OF Suc(5) k(1) True]]
        by (intro exI [of _ as]) (simp add: next_entry_rec [OF k(1)] next_pos_def)
    next
      case False
      then have e: "next_entry c k = next_entry c (Suc k)" "next_pos c k = next_pos c (Suc k)" by (simp_all add: next_entry_rec [OF k(1)] next_pos_def)
      show ?thesis unfolding e
        using Suc(1) [of "Suc k" "at_pos d as (20 * Suc k) s"] k(1,2) Suc.prems a r False by simp
    qed
  qed (use k in simp)
qed

text \<open>Calling \<^verbatim>\<open>dir_readdir\<close> until it returns false.\<close>

fun readdir_all :: "nat \<Rightarrow> addr \<Rightarrow> 'a fsys_scheme \<Rightarrow> (byte list list \<times> 'a fsys_scheme) option" where
  "readdir_all 0 d s = Some ([], s)"
| "readdir_all (Suc n) d s = do {
     (r, s) \<leftarrow> dir_readdir d s;
     case r of
       None \<Rightarrow> Some ([], s)
     | Some nm \<Rightarrow> do { (nms, s) \<leftarrow> readdir_all n d s; Some (nm # nms, s) }
   }"

definition entries_from :: "byte list \<Rightarrow> nat \<Rightarrow> nat list" where
  "entries_from c k = filter (\<lambda>k. entry_in_use (slot c k)) [k..<slot_cnt c]"

lemma entries_from_next: "entries_from c k = (case next_entry c k of None \<Rightarrow> [] | Some i \<Rightarrow> i # entries_from c (Suc i))"
proof (induction "slot_cnt c - k" arbitrary: k)
  case (Suc n)
  have k: "k < slot_cnt c" "n = slot_cnt c - Suc k" using Suc(2) by linarith+
  have "entries_from c k = (if entry_in_use (slot c k) then k # entries_from c (Suc k) else entries_from c (Suc k))"
    using k(1) by (simp add: entries_from_def upt_conv_Cons)
  then show ?case using Suc(1) [OF k(2)] by (simp add: next_entry_rec [OF k(1)])
qed (simp add: entries_from_def next_entry_def)

lemma next_entry_less: "next_entry c k = Some i \<Longrightarrow> k \<le> i \<and> i < slot_cnt c"
  by (auto simp: next_entry_def find_Some_iff)

lemma readdir_all_ok:
  assumes "dir_live d s" "dir_bytes d s = c" "dir_wf c" and "dir_pos (dirs s d) = int (20 * k)" "k \<le> slot_cnt c"
    and "ample (Suc (2 * (slot_cnt c - k))) s" and "slot_cnt c - k < n"
  shows "\<exists>s'. readdir_all n d s = Some (map (slot_name c) (entries_from c k), s')"
  using assms
proof (induction n arbitrary: k s)
  case (Suc n)
  have "ample ((slot_cnt c - k) + Suc (slot_cnt c - k)) s" using Suc.prems(6) by (auto elim: ample_mono)
  from dir_readdir_ok [OF Suc.prems(1-5) this] obtain as where
    r: "dir_readdir d s = Some (map_option (slot_name c) (next_entry c k), at_pos d as (20 * next_pos c k) s)"
      "ample (slot_cnt c - k + (slot_cnt c - next_pos c k)) (s\<lparr>answers := as\<rparr>)" by blast
  show ?case
  proof (cases "next_entry c k")
    case None
    then show ?thesis using r by (simp add: entries_from_next [of c k])
  next
    case (Some i)
    have i: "k \<le> i" "i < slot_cnt c" using next_entry_less [OF Some] by auto
    have "ample (Suc (2 * (slot_cnt c - Suc i))) (s\<lparr>answers := as\<rparr>)"
      by (rule ample_mono [OF r(2)]) (use i Some in \<open>simp add: next_pos_def\<close>)
    then have "\<exists>s'. readdir_all n d (at_pos d as (20 * Suc i) s) = Some (map (slot_name c) (entries_from c (Suc i)), s')"
      using Suc.IH [of "at_pos d as (20 * Suc i) s" "Suc i"] Suc.prems i by auto
    then show ?thesis using r(1) Some by (auto simp: entries_from_next [of c k] next_pos_def)
  qed
qed simp

lemma entries_names:
  assumes "dir_wf c"
  shows "distinct (map (slot_name c) (entries_from c 0))" "set (map (slot_name c) (entries_from c 0)) = dom (dir_map c)"
proof -
  have mem: "k \<in> set (entries_from c 0) \<longleftrightarrow> k < slot_cnt c \<and> names c (slot_name c k) k" for k by (auto simp: entries_from_def names_def)
  have "inj_on (slot_name c) (set (entries_from c 0))"
    by (rule inj_onI) (use mem dir_wfD(3) [OF assms] in metis)
  then show "distinct (map (slot_name c) (entries_from c 0))" by (simp add: distinct_map entries_from_def)
  show "set (map (slot_name c) (entries_from c 0)) = dom (dir_map c)"
  proof (intro equalityI subsetI)
    fix nm assume "nm \<in> set (map (slot_name c) (entries_from c 0))"
    then obtain k where "k < slot_cnt c" "names c nm k" using mem by auto
    then show "nm \<in> dom (dir_map c)" using dir_map_None_iff [of c nm] by auto
  next
    fix nm assume "nm \<in> dom (dir_map c)"
    then obtain k where k: "k < slot_cnt c" "names c nm k" using dir_map_None_iff [of c nm] by auto
    then have "slot_name c k = nm" by (simp add: names_def)
    then show "nm \<in> set (map (slot_name c) (entries_from c 0))" using mem [of k] k by auto
  qed
qed

section \<open>Properties\<close>

lemma empty_slots: "\<not> entry_in_use (slot (replicate (20 * m) 0) k)" if "k < m"
  using that by (simp add: slot_def decode_entry_def)

lemma empty_dir: "dir_wf (replicate (20 * m) 0)"
  using empty_slots [of _ m] by (intro dir_wfI) (auto simp: names_def)

text \<open>A directory of 16 slots whose first slot is in use, for the witnesses.\<close>

definition demo_entry :: dir_entry where
  "demo_entry = \<lparr>inode_sector = 7, entry_name = 97 # replicate 14 0, entry_in_use = True\<rparr>"

definition demo_dir_bytes :: "byte list" where
  "demo_dir_bytes = patch (replicate (20 * 16) 0) (20 * 0) (encode_entry demo_entry)"

definition demo_dir :: fsys where
  "demo_dir = \<lparr>disk = (\<lambda>n. if n = 3 then demo_dir_bytes @ replicate 192 0 else replicate 512 0), disk_size = 8,
     inodes = (\<lambda>_. \<lparr>sector = 1, open_cnt = 1, removed = False, deny_write_cnt = 0,
       data = \<lparr>start = 3, length_of = 320, magic = INODE_MAGIC, unused = replicate 500 0\<rparr>\<rparr>), open_inodes = [0x1000],
     answers = map of_nat [0x10000..<0x10040], in_use = [0x1000, 0x2000],
     files = (\<lambda>_. \<lparr>file_inode = 0, file_pos = 0, file_denied = False\<rparr>), dirs = (\<lambda>_. \<lparr>dir_inode = 0x1000, dir_pos = 0\<rparr>),
     free_map = None, free_map_file = 0\<rparr>"

lemma demo_dir_map: "dir_wf demo_dir_bytes" "dir_map demo_dir_bytes = [[97] \<mapsto> 7]" "slot_cnt demo_dir_bytes = 16" "length demo_dir_bytes = 320"
  "slot demo_dir_bytes 0 = demo_entry"
proof -
  have none: "dir_map (replicate (20 * 16) 0) nm = None" for nm using empty_slots [of _ 16] by (simp add: dir_map_None_iff names_def)
  have e: "entry_in_use demo_entry" "length (entry_name demo_entry) = 15" "takeWhile (\<lambda>b. b \<noteq> 0) (entry_name demo_entry) = [97]"
      "0 \<in> set (entry_name demo_entry)" "inode_sector demo_entry = 7"
    by (simp_all add: demo_entry_def)
  have k: "0 < slot_cnt (replicate (20 * 16) (0 :: byte))" by simp
  have free: "\<not> entry_in_use (slot (replicate (20 * 16) 0) 0)" by (rule empty_slots) simp
  note m = dir_add_map [OF empty_dir k free none e(1-4), folded demo_dir_bytes_def]
  show "dir_wf demo_dir_bytes" by (rule m(1))
  have "dir_map (replicate (20 * 16) 0) = Map.empty" using none by blast
  then show "dir_map demo_dir_bytes = [[97] \<mapsto> 7]" using m(2) e(5) by simp
  show len: "length demo_dir_bytes = 320" using slot_cnt_patch [OF k e(2)] by (simp add: demo_dir_bytes_def)
  then show "slot_cnt demo_dir_bytes = 16" by simp
  show "slot demo_dir_bytes 0 = demo_entry" using slot_patch [OF k k e(2)] by (simp add: demo_dir_bytes_def)
qed

lemma demo_dir_live: "dir_live 0x2000 demo_dir" "dir_bytes 0x2000 demo_dir = demo_dir_bytes" "ample 40 demo_dir"
proof -
  have sec: "bytes_to_sectors 320 = 1" using sectors_of_nat [of 320] by simp
  show "dir_live 0x2000 demo_dir"
    by (simp add: dir_live_def live_def demo_dir_def disk_ok_def inode_ok_def inode_length_def sec demo_dir_map(4) BLOCK_SECTOR_SIZE_def)
  show "dir_bytes 0x2000 demo_dir = demo_dir_bytes"
    by (simp add: dir_bytes_def demo_dir_def content_def sector_bytes_def inode_length_def sec data_sector_def demo_dir_map(4))
  show "ample 40 demo_dir" by (simp add: ample_def demo_dir_def)
qed

text \<open>
  C17. The search \<^verbatim>\<open>lookup\<close> of a well-formed directory, with memory available, always terminates, and the inode sector of the entry it finds is what
  the directory, read as a finite map from names to sectors, gives for the name.
\<close>

theorem dir_search_refines_map:
  assumes "dir_live d s" "dir_wf (dir_bytes d s)" and "0 \<notin> set name" and "ample (Suc (slot_cnt (dir_bytes d s))) s"
  shows "\<exists>r as. lookup d name s = Some (r, s\<lparr>answers := as\<rparr>) \<and> map_option (\<lambda>(e, _). inode_sector e) r = dir_map (dir_bytes d s) name"
proof -
  obtain as where "lookup d name s =
      Some (map_option (\<lambda>k. (slot (dir_bytes d s) k, 20 * k)) (find (names (dir_bytes d s) name) [0..<slot_cnt (dir_bytes d s)]), s\<lparr>answers := as\<rparr>)"
    by (rule lookup_ok [OF assms(1-3), of 0]) (use assms(4) in simp_all)
  then show ?thesis by (intro exI conjI, assumption) (simp add: dir_map_def option.map_comp comp_def)
qed

theorem dir_search_refines_map_witness:
  "\<exists>r as. lookup 0x2000 [97] demo_dir = Some (r, demo_dir\<lparr>answers := as\<rparr>) \<and> map_option (\<lambda>(e, _). inode_sector e) r = Some 7"
  using dir_search_refines_map [OF demo_dir_live(1), of "[97]"] demo_dir_map ample_mono [OF demo_dir_live(3), of 17] by (simp add: demo_dir_live(2))



text \<open>
  C20. Repeated calls of \<^verbatim>\<open>dir_readdir\<close> on a directory that has just been opened come to an end, after as many names as there are entries, and
  list every name of the directory exactly once.
\<close>

theorem dir_readdir_enumerates:
  assumes "dir_live d s" "dir_wf (dir_bytes d s)" and "dir_pos (dirs s d) = 0" and "ample (2 * slot_cnt (dir_bytes d s) + 1) s"
  shows "\<exists>nms s'. readdir_all (slot_cnt (dir_bytes d s) + 1) d s = Some (nms, s') \<and> distinct nms \<and> set nms = dom (dir_map (dir_bytes d s))"
  using readdir_all_ok [OF assms(1) refl assms(2), of 0 "slot_cnt (dir_bytes d s) + 1"] entries_names [OF assms(2)] assms(3,4) by auto

theorem dir_readdir_enumerates_witness:
  "\<exists>nms s'. readdir_all 17 0x2000 demo_dir = Some (nms, s') \<and> distinct nms \<and> set nms = {[97]}"
  using dir_readdir_enumerates [OF demo_dir_live(1)] demo_dir_map ample_mono [OF demo_dir_live(3), of 33]
  by (simp add: demo_dir_live(2)) (simp add: demo_dir_def)

text \<open>A read of less than a sector that gets no memory for its bounce buffer reads nothing.\<close>

lemma inode_read_at_no_memory:
  assumes live: "live p s" and len: "0 < inode_length (inodes s p)" and mem: "answers s = NULL # as"
  shows "inode_read_at p 20 0 s = Some ([], s\<lparr>answers := as\<rparr>)"
proof -
  let ?i = "inodes s p" and ?n = "step_size (inodes s p) 20 0"
  have ok: "inode_ok ?i s" "p \<noteq> NULL" "p \<in> set (in_use s)" using live by (simp_all add: live_def)
  have lt: "0 < nat (inode_length ?i)" "int 0 < inode_length ?i" using len by simp_all
  have chunk: "chunk_size ?i 20 (int 0) = int ?n" "sector_ofs (int 0) = int 0" using chunk_step [OF ok(1), of 0 20] lt by auto
  have n: "0 < ?n" "\<not> (0 = (0 :: nat) \<and> ?n = 512)" using step_size_pos [of 20 0 ?i] step_sizeD(1) [of 20 0 ?i] lt by auto
  have b: "get_bounce NULL s = (NULL, s\<lparr>answers := as\<rparr>)" using mem by (simp add: get_bounce_def fs_malloc_def)
  have "fs_read_sector (byte_to_sector ?i (int 0)) (s\<lparr>answers := as\<rparr>) = Some (disk s (byte_to_sector ?i (int 0)))"
    using read_sector_data [of ?i "s\<lparr>answers := as\<rparr>" 0] ok(1) lt by simp
  from read_loop_part [OF _ chunk(1) n(1) chunk(2) n(2) b this, of "[]"]
  show ?thesis using ok(2,3) by (simp add: inode_read_at_def deref_def fs_free_def)
qed

text \<open>
  C21. The comment in \<^verbatim>\<open>dir_add\<close> relies on \<^verbatim>\<open>inode_read_at\<close> returning a short read at the end of the file only.  It also returns one when
  \<^verbatim>\<open>malloc\<close> fails: when the two searches of \<^verbatim>\<open>dir_add\<close> get no memory and the final write does, \<^verbatim>\<open>dir_add\<close> takes the directory for empty,
  reports success and overwrites its first slot, whatever that slot holds.
\<close>

theorem dir_add_low_memory:
  fixes s :: "'a fsys_scheme" and d :: addr
  defines "c \<equiv> dir_bytes d s"
  assumes d: "dir_live d s" "20 \<le> length c" and allowed: "deny_write_cnt (inodes s (dir_inode (dirs s d))) = 0"
    and name: "valid_name name" "length e0 = 20" and mem: "answers s = NULL # NULL # a # as" "a \<noteq> NULL" "a \<notin> set (in_use s)"
  shows "\<exists>e s'. dir_add e0 d name n s = Some (True, s') \<and> dir_bytes d s' = patch c 0 (encode_entry e) \<and>
    entry_in_use e \<and> inode_sector e = n \<and> takeWhile (\<lambda>b. b \<noteq> 0) (entry_name e) = name"
proof -
  let ?p = "dir_inode (dirs s d)" and ?i = "inodes s (dir_inode (dirs s d))"
  let ?s1 = "s\<lparr>answers := NULL # a # as\<rparr>" and ?s2 = "s\<lparr>answers := a # as\<rparr>"
  have live: "live ?p s" and dn: "d \<noteq> NULL" "d \<in> set (in_use s)" using d(1) by (simp_all add: dir_live_def)
  have len: "length c = nat (inode_length ?i)" using live_length(1) [OF live] by (simp add: c_def dir_bytes_def)
  then have pos: "0 < inode_length ?i" using d(2) by simp
  have r1: "inode_read_at ?p 20 0 s = Some ([], ?s1)" by (rule inode_read_at_no_memory [OF live pos mem(1)])
  have "live ?p ?s1" "0 < inode_length (inodes ?s1 ?p)" "answers ?s1 = NULL # a # as" using live pos by simp_all
  from inode_read_at_no_memory [OF this] have r2: "inode_read_at ?p 20 0 ?s1 = Some ([], ?s2)" by simp
  have "int32 0 = 0" by (simp add: int32_small)
  then have look: "lookup d name s = Some (None, ?s1)"
    using r1 dn by (simp add: lookup_def deref_def lookup_loop.simps [of ?p name 0 s] ENTRY_SIZE_def)
  have sl: "slot_loop ?p e0 0 ?s1 = Some (0, e0, ?s2)" using r2 by (simp add: slot_loop.simps [of ?p e0 0 ?s1] ENTRY_SIZE_def)
  let ?e = "(decode_entry e0)\<lparr>entry_in_use := True, entry_name := name_copy (entry_name (decode_entry e0)) name, inode_sector := n\<rparr>"
  have "length (entry_name (decode_entry e0)) = 15" using name(2) by (simp add: decode_entry_def NAME_MAX_def)
  note cp = name_copy_ok [OF name(1) this]
  have e: "length (encode_entry ?e) = 20" using cp by (intro length_encode_entry) simp
  have add: "dir_add e0 d name n s = do { (m, s) \<leftarrow> inode_write_at ?p (encode_entry ?e) 20 0 ?s2; Some (m = 20, s) }"
    using look sl name dn by (simp add: dir_add_def ENTRY_SIZE_def valid_name_def)
  have ok2: "disk_ok ?s2" "inode_ok (inodes ?s2 ?p) ?s2" "?p \<noteq> NULL" "?p \<in> set (in_use ?s2)" using live by (simp_all add: live_def)
  have "memory ?s2" using mem(2,3) by (simp add: memory_iff)
  then obtain d' as' where "inode_write_at ?p (encode_entry ?e) 20 (int 0) ?s2 = Some (20, ?s2\<lparr>disk := d', answers := as'\<rparr>)"
      "content ?i (?s2\<lparr>disk := d'\<rparr>) = patch (content ?i ?s2) 0 (encode_entry ?e)"
    using inode_write_at_ok [OF ok2, of 0 20 "encode_entry ?e"] e allowed len d(2) by auto
  then show ?thesis using add cp
    by (intro exI [of _ ?e] exI [of _ "?s2\<lparr>disk := d', answers := as'\<rparr>"])
      (simp add: dir_bytes_def c_def content_def sector_bytes_def)
qed

theorem dir_add_low_memory_witness:
  "\<exists>e s'. dir_add (replicate 20 0) 0x2000 [98] 9 (demo_dir\<lparr>answers := [NULL, NULL, 0x3000]\<rparr>) = Some (True, s') \<and>
    dir_bytes 0x2000 s' = patch demo_dir_bytes 0 (encode_entry e) \<and> entry_in_use e \<and> inode_sector e = 9 \<and> takeWhile (\<lambda>b. b \<noteq> 0) (entry_name e) = [98]"
proof -
  let ?s = "demo_dir\<lparr>answers := [NULL, NULL, 0x3000]\<rparr>"
  have "dir_live 0x2000 ?s" "dir_bytes 0x2000 ?s = demo_dir_bytes" using demo_dir_live by (simp_all add: dir_live_def dir_bytes_def)
  moreover have "deny_write_cnt (inodes ?s (dir_inode (dirs ?s 0x2000))) = 0" "answers ?s = [NULL, NULL, 0x3000]" "0x3000 \<notin> set (in_use ?s)"
    by (simp_all add: demo_dir_def)
  ultimately show ?thesis
    using dir_add_low_memory [where d = "0x2000" and s = ?s and name = "[98]" and ?e0.0 = "replicate 20 0" and a = "0x3000" and as = "[]" and n = 9] demo_dir_map(4) by (simp add: valid_name_def NAME_MAX_def)
qed

end
