(* ===== verification/Filesys.thy ===== *)
theory Filesys
  imports Fs_Dir
begin

text \<open>
  The life cycle of inodes in memory and the file system interface, \<^verbatim>\<open>filesys/filesys.c\<close>.

  The invariant \<open>fsys_ok\<close> ties together the free map and its file, the table of open inodes, and the root directory on the device.  The
  main result is what \<^verbatim>\<open>filesys_create\<close> does to the root directory seen as a finite map, to the device and to the free map, on every one
  of its branches.
\<close>

section \<open>The file system\<close>

text \<open>
  The conjunction that \<^verbatim>\<open>filesys_create\<close> evaluates into \<^verbatim>\<open>success\<close>, with the value of \<^verbatim>\<open>inode_sector\<close> after it.
\<close>

definition create_steps :: "byte list \<Rightarrow> byte list \<Rightarrow> int \<Rightarrow> addr \<Rightarrow> 'a fsys_scheme \<Rightarrow> (bool \<times> u32 \<times> 'a fsys_scheme) option" where
  "create_steps e0 name initial_size d s =
     (if d = NULL then Some (False, 0, s)
      else do {
        (r, s) \<leftarrow> free_map_allocate 1 s;
        case r of
          None \<Rightarrow> Some (False, 0, s)
        | Some n \<Rightarrow> do {
            (ok, s) \<leftarrow> inode_create n initial_size s;
            if \<not> ok then Some (False, n, s)
            else do {
              (ok, s) \<leftarrow> dir_add e0 d name n s;
              Some (ok, n, s)
            }
          }
      })"

definition filesys_create :: "byte list \<Rightarrow> byte list \<Rightarrow> int \<Rightarrow> 'a fsys_scheme \<Rightarrow> (bool \<times> 'a fsys_scheme) option" where
  "filesys_create e0 name initial_size s = do {
     (d, s) \<leftarrow> dir_open_root s;
     (success, isector, s) \<leftarrow> create_steps e0 name initial_size d s;
     s \<leftarrow> (if \<not> success \<and> isector \<noteq> 0 then free_map_release isector 1 s else Some s);
     s \<leftarrow> dir_close d s;
     Some (success, s)
   }"

definition filesys_open :: "byte list \<Rightarrow> 'a fsys_scheme \<Rightarrow> (addr \<times> 'a fsys_scheme) option" where
  "filesys_open name s = do {
     (d, s) \<leftarrow> dir_open_root s;
     (p, s) \<leftarrow> (if d \<noteq> NULL then dir_lookup d name s else Some (NULL, s));
     s \<leftarrow> dir_close d s;
     file_open p s
   }"

definition filesys_remove :: "byte list \<Rightarrow> 'a fsys_scheme \<Rightarrow> (bool \<times> 'a fsys_scheme) option" where
  "filesys_remove name s = do {
     (d, s) \<leftarrow> dir_open_root s;
     (success, s) \<leftarrow> (if d \<noteq> NULL then dir_remove d name s else Some (False, s));
     s \<leftarrow> dir_close d s;
     Some (success, s)
   }"

definition do_format :: "'a fsys_scheme \<Rightarrow> 'a fsys_scheme option" where
  "do_format s = do {
     s \<leftarrow> free_map_create s;
     (ok, s) \<leftarrow> dir_create ROOT_DIR_SECTOR 16 s;
     ASSERT ok;
     free_map_close s
   }"

text \<open>\<open>found\<close> says whether a block device has the role \<^verbatim>\<open>BLOCK_FILESYS\<close>; without one the kernel panics.\<close>

definition filesys_init :: "bool \<Rightarrow> u32 list \<Rightarrow> bool \<Rightarrow> 'a fsys_scheme \<Rightarrow> 'a fsys_scheme option" where
  "filesys_init found ws format s = do {
     ASSERT found;
     let s = inode_init s;
     s \<leftarrow> free_map_init ws s;
     s \<leftarrow> (if format then do_format s else Some s);
     free_map_open s
   }"

definition filesys_done :: "'a fsys_scheme \<Rightarrow> 'a fsys_scheme option" where
  "filesys_done s = free_map_close s"

section \<open>The table of open inodes\<close>

text \<open>An inode is in memory at most once, with its openers counted.\<close>

definition table_ok :: "'a fs_scheme \<Rightarrow> bool" where
  "table_ok s \<longleftrightarrow> distinct (open_inodes s) \<and> NULL \<notin> set (open_inodes s) \<and> set (open_inodes s) \<subseteq> set (in_use s) \<and>
     inj_on (\<lambda>p. sector (inodes s p)) (set (open_inodes s)) \<and>
     (\<forall>p \<in> set (open_inodes s). 1 \<le> open_cnt (inodes s p) \<and> open_cnt (inodes s p) < 2 ^ 31 - 1)"

lemma find_open_eq:
  "set ps \<subseteq> set (in_use s) \<Longrightarrow> NULL \<notin> set ps \<Longrightarrow> find_open n ps s = Some (find (\<lambda>p. sector (inodes s p) = n) ps)"
  by (induction ps) (auto simp: deref_def)

lemma inode_open_cases:
  assumes t: "table_ok s" and n: "n < disk_size s"
  obtains (again) p where "inode_open n s = Some (p, s\<lparr>inodes := (inodes s)(p := (inodes s p)\<lparr>open_cnt := open_cnt (inodes s p) + 1\<rparr>)\<rparr>)"
    "p \<in> set (open_inodes s)" "sector (inodes s p) = n"
  | (first) a as where "inode_open n s = Some (a, s\<lparr>answers := as, in_use := a # in_use s, open_inodes := a # open_inodes s,
      inodes := (inodes s)(a := \<lparr>sector = n, open_cnt = 1, removed = False, deny_write_cnt = 0, data = decode_inode (disk s n)\<rparr>)\<rparr>)"
    "answers s = a # as" "a \<noteq> NULL" "a \<notin> set (in_use s)" "\<And>p. p \<in> set (open_inodes s) \<Longrightarrow> sector (inodes s p) \<noteq> n"
  | (no_memory) as where "inode_open n s = Some (NULL, s\<lparr>answers := as\<rparr>)" "\<not> memory s" "\<And>p. p \<in> set (open_inodes s) \<Longrightarrow> sector (inodes s p) \<noteq> n"
proof (cases "find (\<lambda>p. sector (inodes s p) = n) (open_inodes s)")
  case (Some p)
  then have p: "p \<in> set (open_inodes s)" "sector (inodes s p) = n" by (auto simp: find_Some_iff)
  have "p \<noteq> NULL" "p \<in> set (in_use s)" "int32 (open_cnt (inodes s p) + 1) = open_cnt (inodes s p) + 1"
    using p(1) t by (auto simp: table_ok_def intro!: int32_small)
  then show thesis using again [OF _ p] Some find_open_eq [of "open_inodes s" s n] t
    by (simp add: inode_open_def inode_reopen_def upd_inode_def deref_def table_ok_def)
next
  case None
  have f: "find_open n (open_inodes s) s = Some None" using None find_open_eq [of "open_inodes s" s n] t by (simp add: table_ok_def)
  have new: "sector (inodes s p) \<noteq> n" if "p \<in> set (open_inodes s)" for p using None that by (auto simp: find_None_iff)
  show thesis
  proof (cases "memory s")
    case True
    then obtain a as where a: "answers s = a # as" "a \<noteq> NULL" "a \<notin> set (in_use s)" by (auto simp: memory_iff split: list.splits)
    then have "inode_open n s = Some (a, s\<lparr>answers := as, in_use := a # in_use s, open_inodes := a # open_inodes s,
      inodes := (inodes s)(a := \<lparr>sector = n, open_cnt = 1, removed = False, deny_write_cnt = 0, data = decode_inode (disk s n)\<rparr>)\<rparr>)"
      using f n by (simp add: inode_open_def fs_malloc_def fs_read_sector_def fs_check_sector_def upd_inode_def deref_def)
    then show thesis using first [OF _ a new] by blast
  next
    case False
    then have "\<exists>as. fs_malloc s = (NULL, s\<lparr>answers := as\<rparr>)"
      by (cases "answers s") (auto simp: memory_iff fs_malloc_def intro: exI [of _ "[]"])
    then show thesis using no_memory [OF _ False new] f by (auto simp: inode_open_def)
  qed
qed

section \<open>Creating a file in an open directory\<close>

lemma content_data: "data i = data j \<Longrightarrow> content i s = content j s"
  by (simp add: content_def sector_bytes_def data_sector_def inode_length_def)

lemma data_sectors_data: "data i = data j \<Longrightarrow> data_sectors i = data_sectors j"
  by (simp add: data_sectors_def data_sector_def [abs_def] inode_length_def)

lemma inode_ok_data: "data i = data j \<Longrightarrow> inode_ok i s = inode_ok j s"
  by (simp add: inode_ok_def inode_length_def)

lemma content_same:
  assumes "\<And>n. n \<in> data_sectors i \<Longrightarrow> disk s' n = disk s n"
  shows "content i s' = content i s"
proof -
  have "map (\<lambda>k. disk s' (data_sector i k)) [0..<bytes_to_sectors (inode_length i)] =
      map (\<lambda>k. disk s (data_sector i k)) [0..<bytes_to_sectors (inode_length i)]"
    using assms by (simp add: data_sectors_def)
  then show ?thesis unfolding content_def sector_bytes_def by (simp only:)
qed

lemma fm_ok_disk:
  assumes "fm_ok s fm" and "disk_ok (s\<lparr>disk := d\<rparr>)"
  shows "fm_ok (s\<lparr>disk := d, answers := as\<rparr>) fm"
  using assms unfolding fm_ok_def fm_inode_def live_def by (simp add: disk_ok_def)

text \<open>
  What creating a file may leave behind: only free sectors, the free map, the sectors \<open>X\<close> and, if it succeeds, the directory \<open>i\<close> are
  written.
\<close>

definition create_frame :: "u32 set \<Rightarrow> inode \<Rightarrow> 'a fsys_scheme \<Rightarrow> bitmap \<Rightarrow> 'a fsys_scheme \<Rightarrow> bitmap \<Rightarrow> bool" where
  "create_frame X i s fm s' fm' \<longleftrightarrow> (\<exists>d as. s' = s\<lparr>disk := d, answers := as, free_map := Some fm'\<rparr>) \<and> fm_ok s' fm' \<and> fm_synced s' fm' \<and>
     bit_cnt fm' = bit_cnt fm \<and> bitmap_used fm \<subseteq> bitmap_used fm' \<and>
     (\<forall>m. unat m \<in> bitmap_used fm \<and> m \<notin> data_sectors (fm_inode s) \<and> m \<notin> data_sectors i \<and> m \<notin> X \<longrightarrow> disk s' m = disk s m)"

lemma create_frameI:
  assumes "s' = s\<lparr>disk := d, answers := as, free_map := Some fm'\<rparr>" and "fm_ok s' fm'" "fm_synced s' fm'" "bit_cnt fm' = bit_cnt fm"
    and "bitmap_used fm \<subseteq> bitmap_used fm'"
    and "\<And>m. unat m \<in> bitmap_used fm \<Longrightarrow> m \<notin> data_sectors (fm_inode s) \<Longrightarrow> m \<notin> data_sectors i \<Longrightarrow> m \<notin> X \<Longrightarrow> d m = disk s m"
  shows "create_frame X i s fm s' fm'"
  unfolding create_frame_def using assms by auto

lemma create_frame_write:
  assumes frame: "create_frame X i s fm s4 fm4" and disk: "disk_ok (s4\<lparr>disk := d5\<rparr>)" "\<And>m. m \<notin> data_sectors i \<Longrightarrow> d5 m = disk s4 m"
    and i: "data_sectors i \<inter> data_sectors (fm_inode s) = {}"
  shows "create_frame X i s fm (s4\<lparr>disk := d5, answers := as5\<rparr>) fm4"
proof -
  note f = frame [unfolded create_frame_def]
  obtain d as where s4: "s4 = s\<lparr>disk := d, answers := as, free_map := Some fm4\<rparr>" using f by blast
  let ?s' = "s4\<lparr>disk := d5, answers := as5\<rparr>"
  show ?thesis
  proof (rule create_frameI)
    show "?s' = s\<lparr>disk := d5, answers := as5, free_map := Some fm4\<rparr>" by (simp add: s4)
    show "fm_ok ?s' fm4" using f fm_ok_disk [OF _ disk(1)] by blast
    have "content (fm_inode s) ?s' = content (fm_inode s) s4" by (rule content_same) (use disk(2) i in auto)
    moreover have "fm_inode ?s' = fm_inode s" "fm_inode s4 = fm_inode s" by (simp_all add: s4)
    moreover have "fm_synced s4 fm4" using f by blast
    ultimately show "fm_synced ?s' fm4" by (simp add: fm_synced_def)
  qed (use f disk(2) in auto)
qed

text \<open>
  The inode in sector \<open>n\<close> of a new file and the run of zeroed data sectors it points to: all were free, and exactly they are marked as used in addition.
\<close>

definition new_file :: "u32 \<Rightarrow> int \<Rightarrow> 'a fsys_scheme \<Rightarrow> bitmap \<Rightarrow> 'a fsys_scheme \<Rightarrow> bitmap \<Rightarrow> bool" where
  "new_file n len s fm s' fm' \<longleftrightarrow> (\<exists>st. disk s' n = encode_inode (new_inode st len) \<and>
     unat st + bytes_to_sectors len \<le> unat (disk_size s) \<and>
     bitmap_used fm' = insert (unat n) (bitmap_used fm \<union> run st (bytes_to_sectors len)) \<and>
     (\<forall>m. unat m \<in> run st (bytes_to_sectors len) \<longrightarrow> m \<noteq> n \<and> unat m \<notin> bitmap_used fm \<and> disk s' m = replicate BLOCK_SECTOR_SIZE 0))"

text \<open>The reasons for a failure: the name is taken, the directory is full, or there is no run of free sectors for the data.\<close>

definition no_run :: "nat set \<Rightarrow> nat \<Rightarrow> nat \<Rightarrow> bool" where
  "no_run used cnt n \<longleftrightarrow> (\<forall>i. i + n \<le> cnt \<longrightarrow> {i..<i + n} \<inter> used \<noteq> {})"

definition refuses :: "byte list \<Rightarrow> byte list \<Rightarrow> bool" where
  "refuses c name \<longleftrightarrow> dir_map c name \<noteq> None \<or> (\<forall>k < slot_cnt c. entry_in_use (slot c k))"

lemma create_at_sector:
  fixes s :: "'a fsys_scheme" and d :: addr and e0 name :: "byte list" and len :: int and n :: u32
  defines "c \<equiv> dir_bytes d s" and "i \<equiv> inodes s (dir_inode (dirs s d))"
  defines "steps \<equiv> do { (ok, s) \<leftarrow> inode_create n len s; if \<not> ok then Some (False, n, s) else do { (ok, s) \<leftarrow> dir_add e0 d name n s; Some (ok, n, s) } }"
  assumes d: "dir_live d s" "dir_wf c" "deny_write_cnt i = 0" and name: "valid_name name" and e0: "length e0 = 20" and len: "0 \<le> len"
    and mem: "ample (k + (2 * slot_cnt c + 5)) s" and fm: "fm_ok s fm" "fm_synced s fm"
    and i: "unat ` data_sectors i \<subseteq> bitmap_used fm" "data_sectors i \<inter> data_sectors (fm_inode s) = {}"
    and n: "unat n \<in> bitmap_used fm" "n \<notin> data_sectors (fm_inode s)" "n \<notin> data_sectors i"
  obtains (failed) s' fm' where "steps = Some (False, n, s')" "create_frame {n} i s fm s' fm'" "ample k s'" "content i s' = c"
    "no_run (bitmap_used fm) (bit_cnt fm) (bytes_to_sectors len) \<or> refuses c name"
  | (succeeded) s' fm' where "steps = Some (True, n, s')" "create_frame {n} i s fm s' fm'" "ample k s'"
    "dir_map c name = None" "dir_wf (content i s')" "dir_map (content i s') = (dir_map c)(name \<mapsto> n)" "new_file n len s fm s' fm'"
proof -
  let ?U = "bitmap_used fm" and ?F = "data_sectors (fm_inode s)" and ?R = "data_sectors i" and ?m = "bytes_to_sectors len"
  have c0: "content i s = c" by (simp add: c_def i_def dir_bytes_def)
  have mem2: "ample (k + (2 * slot_cnt c + 3) + 2) s" by (rule ample_mono [OF mem]) simp
  from fm(1) mem2 len n(1,2) show thesis
  proof (cases rule: inode_create_cases)
    case (full as)
    let ?s = "s\<lparr>answers := as\<rparr>"
    have "free_map s = Some fm" using fm(1) by (simp add: fm_ok_def)
    then have eq: "?s = s\<lparr>disk := disk s, answers := as, free_map := Some fm\<rparr>" by simp
    have "disk_ok (s\<lparr>disk := disk s\<rparr>)" using fm(1) by (simp add: fm_ok_def live_def)
    then have "fm_ok ?s fm" using fm_ok_disk [OF fm(1), of "disk s" as] by simp
    then have "create_frame {n} i s fm ?s fm" by (rule create_frameI [OF eq]) (use fm(2) in \<open>simp_all add: fm_synced_def\<close>)
    moreover have "ample k ?s" by (rule ample_mono [OF full(2)]) simp
    ultimately show thesis using failed [of ?s fm] full(1,3) c0 by (simp add: steps_def no_run_def)
  next
    case (made st fm4 d4 as s4)
    have out: "created n st len d4 m = d4 m" if "unat m \<in> ?U" "m \<noteq> n" for m using that made(7) by (auto simp: created_def)
    have R: "created n st len d4 m = disk s m" if "m \<in> ?R" for m
    proof -
      have "unat m \<in> ?U" "m \<noteq> n" "m \<notin> ?F" using that i n(3) by auto
      then show ?thesis using out made(9) by simp
    qed
    have c4: "content i s4 = c" unfolding c0 [symmetric] by (rule content_same) (use made(2) R in simp)
    have frame: "create_frame {n} i s fm s4 fm4"
      by (rule create_frameI [OF made(2-5)]) (use made(8,9) out in auto)
    have fresh: "new_file n len s fm s4 fm4" unfolding new_file_def
    proof (intro exI [of _ st] conjI allI impI)
      fix m :: u32 assume m: "unat m \<in> run st ?m"
      then show "unat m \<notin> ?U" using made(7) by blast
      then show "m \<noteq> n" using n(1) by blast
      show "disk s4 m = replicate BLOCK_SECTOR_SIZE 0" using m by (simp add: made(2) created_def)
    next
      show "disk s4 n = encode_inode (new_inode st len)" using made(7) n(1) by (auto simp: made(2) created_def)
    qed (use made(6,8) fm(1) n(1) in \<open>auto simp: fm_ok_def\<close>)
    have same4: "in_use s4 = in_use s" "dirs s4 = dirs s" "inodes s4 = inodes s" "disk_size s4 = disk_size s" by (simp_all add: made(2))
    have d4: "dir_live d s4" using d(1) made(3) by (simp add: dir_live_def live_def same4 fm_ok_def inode_ok_def)
    have b4: "dir_bytes d s4 = c" "inodes s4 (dir_inode (dirs s4 d)) = i" using c4 by (simp_all add: dir_bytes_def same4 i_def)
    note add = dir_add_cases [of d s4 name e0 k n, unfolded b4, OF d4 d(2) name e0 made(10) d(3)]
    show thesis
    proof (rule add)
      fix as5 assume add5: "dir_add e0 d name n s4 = Some (False, s4\<lparr>answers := as5\<rparr>)" "ample k (s4\<lparr>answers := as5\<rparr>)"
        "dir_map c name \<noteq> None \<or> (\<forall>k < slot_cnt c. entry_in_use (slot c k))"
      have "disk_ok (s4\<lparr>disk := disk s4\<rparr>)" using made(3) by (simp add: fm_ok_def live_def)
      from create_frame_write [OF frame this _ i(2), of as5] have "create_frame {n} i s fm (s4\<lparr>answers := as5\<rparr>) fm4" by simp
      then show thesis using failed [of "s4\<lparr>answers := as5\<rparr>" fm4] add5 made(1) c4 by (simp add: steps_def refuses_def)
    next
      fix d5 as5 assume add5: "dir_add e0 d name n s4 = Some (True, s4\<lparr>disk := d5, answers := as5\<rparr>)" "ample k (s4\<lparr>disk := d5, answers := as5\<rparr>)"
        "dir_map c name = None" "dir_wf (content i (s4\<lparr>disk := d5\<rparr>))" "dir_map (content i (s4\<lparr>disk := d5\<rparr>)) = (dir_map c)(name \<mapsto> n)"
        "disk_ok (s4\<lparr>disk := d5\<rparr>)" and out5: "\<And>m. m \<notin> ?R \<Longrightarrow> d5 m = disk s4 m"
      let ?s' = "s4\<lparr>disk := d5, answers := as5\<rparr>"
      have "create_frame {n} i s fm ?s' fm4" by (rule create_frame_write [OF frame add5(6) out5 i(2)])
      moreover have "d5 m = disk s4 m" if "unat m \<notin> ?U" for m using out5 i(1) that by blast
      then have "new_file n len s fm ?s' fm4" using fresh n(3) out5 unfolding new_file_def by (elim exE) (rule exI, auto)
      ultimately show thesis using succeeded [of ?s' fm4] add5(1-5) made(1) by (simp add: steps_def)
    qed
  qed
qed

lemma create_steps_cases:
  fixes s :: "'a fsys_scheme" and d :: addr
  defines "c \<equiv> dir_bytes d s" and "i \<equiv> inodes s (dir_inode (dirs s d))"
  assumes d: "dir_live d s" "dir_wf c" "deny_write_cnt i = 0" and name: "valid_name name" and e0: "length e0 = 20" and len: "0 \<le> len"
    and mem: "ample (k + (2 * slot_cnt c + 6)) s" and fm: "fm_ok s fm" "fm_synced s fm"
    and i: "unat ` data_sectors i \<subseteq> bitmap_used fm" "data_sectors i \<inter> data_sectors (fm_inode s) = {}"
  obtains (failed) n s' fm' where "create_steps e0 name len d s = Some (False, n, s')" "create_frame {} i s fm s' fm'" "ample k s'"
    "content i s' = c" "n = 0 \<or> unat n \<in> bitmap_used fm' \<and> unat n \<notin> bitmap_used fm"
    "no_run (bitmap_used fm) (bit_cnt fm) 1 \<or> (\<exists>x. no_run (insert x (bitmap_used fm)) (bit_cnt fm) (bytes_to_sectors len)) \<or> refuses c name"
  | (succeeded) n s' fm' where "create_steps e0 name len d s = Some (True, n, s')" "create_frame {} i s fm s' fm'" "ample k s'"
    "dir_map c name = None" "dir_wf (content i s')" "dir_map (content i s') = (dir_map c)(name \<mapsto> n)" "unat n \<notin> bitmap_used fm"
    "new_file n len s fm s' fm'"
proof -
  have mem1: "ample (Suc (k + (2 * slot_cnt c + 5))) s" by (rule ample_mono [OF mem]) simp
  have dn: "d \<noteq> NULL" using d(1) by (simp add: dir_live_def)
  let ?U = "bitmap_used fm" and ?F = "data_sectors (fm_inode s)" and ?R = "data_sectors i"
  have c0: "content i s = c" by (simp add: c_def i_def dir_bytes_def)
  from fm(1) ample_memory [OF mem1] show thesis
  proof (cases rule: free_map_allocate_cases [where cnt = 1])
    case full
    have "free_map s = Some fm" using fm(1) by (simp add: fm_ok_def)
    then have "s = s\<lparr>disk := disk s, answers := answers s, free_map := Some fm\<rparr>" by simp
    then have "create_frame {} i s fm s fm" by (rule create_frameI) (use fm in simp_all)
    moreover have "ample k s" by (rule ample_mono [OF mem]) simp
    moreover have "create_steps e0 name len d s = Some (False, 0, s)" using full(1) dn by (simp add: create_steps_def)
    ultimately show thesis using failed [of 0 s fm] full(2) c0 by (simp add: no_run_def)
  next
    case (found n fm3 d3 as3 s3)
    have n: "unat n \<notin> ?U" "bitmap_used fm3 = insert (unat n) ?U" using found(7,8) by auto
    then have nFR: "n \<notin> ?F" "n \<notin> ?R" using i(1) fm(1) by (auto simp: fm_ok_def)
    have same: "in_use s3 = in_use s" "dirs s3 = dirs s" "inodes s3 = inodes s" "disk_size s3 = disk_size s" "fm_inode s3 = fm_inode s"
      by (simp_all add: found(2))
    have c3: "content i s3 = c" unfolding c0 [symmetric] by (rule content_same) (use found(2,9) i(2) in auto)
    have b3: "dir_bytes d s3 = c" "inodes s3 (dir_inode (dirs s3 d)) = i" using c3 by (simp_all add: dir_bytes_def same i_def)
    have d3: "dir_live d s3" using d(1) found(3) by (simp add: dir_live_def live_def same fm_ok_def inode_ok_def)
    have mem3: "ample (k + (2 * slot_cnt c + 5)) s3" by (rule ample_spent [OF mem1 found(10)]) (simp_all add: found(2))
    have i3: "unat ` ?R \<subseteq> bitmap_used fm3" "?R \<inter> data_sectors (fm_inode s3) = {}" "unat n \<in> bitmap_used fm3" "n \<notin> data_sectors (fm_inode s3)"
      using i n nFR by (auto simp: same)
    note at = create_at_sector [of d s3 name e0 len k fm3 n, unfolded b3, OF d3 d(2,3) name e0 len mem3 found(3,4) i3 nFR(2)]
    have frame: "create_frame {} i s fm s' fm'" if s': "create_frame {n} i s3 fm3 s' fm'" for s' fm'
    proof -
      note f = s' [unfolded create_frame_def]
      obtain d' as' where "s' = s3\<lparr>disk := d', answers := as', free_map := Some fm'\<rparr>" using f by blast
      then have eq: "s' = s\<lparr>disk := d', answers := as', free_map := Some fm'\<rparr>" by (simp add: found(2))
      show ?thesis
      proof (rule create_frameI [OF eq])
        fix m assume m: "unat m \<in> ?U" "m \<notin> ?F" "m \<notin> ?R"
        then have "disk s' m = disk s3 m" using f n by (auto simp: same)
        then show "d' m = disk s m" using m(2) found(9) eq by (simp add: found(2))
      qed (use f n found(5) in auto)
    qed
    have steps: "create_steps e0 name len d s = do { (ok, s) \<leftarrow> inode_create n len s3; if \<not> ok then Some (False, n, s)
        else do { (ok, s) \<leftarrow> dir_add e0 d name n s; Some (ok, n, s) } }"
      using found(1) dn by (simp add: create_steps_def)
    show thesis
    proof (rule at)
      fix s' fm' assume r: "do { (ok, s) \<leftarrow> inode_create n len s3; if \<not> ok then Some (False, n, s)
          else do { (ok, s) \<leftarrow> dir_add e0 d name n s; Some (ok, n, s) } } = Some (False, n, s')"
        "create_frame {n} i s3 fm3 s' fm'" "ample k s'" "content i s' = c"
        "no_run (bitmap_used fm3) (bit_cnt fm3) (bytes_to_sectors len) \<or> refuses c name"
      from r(2) have "unat n \<in> bitmap_used fm'" using n(2) by (auto simp: create_frame_def)
      moreover have "(\<exists>x. no_run (insert x ?U) (bit_cnt fm) (bytes_to_sectors len)) \<or> refuses c name"
        using r(5) unfolding n(2) found(5) by blast
      ultimately show thesis using failed [OF _ frame [OF r(2)] r(3,4)] steps r(1) n(1) by auto
    next
      fix s' fm' assume r: "do { (ok, s) \<leftarrow> inode_create n len s3; if \<not> ok then Some (False, n, s)
          else do { (ok, s) \<leftarrow> dir_add e0 d name n s; Some (ok, n, s) } } = Some (True, n, s')"
        "create_frame {n} i s3 fm3 s' fm'" "ample k s'" "dir_map c name = None" "dir_wf (content i s')"
        "dir_map (content i s') = (dir_map c)(name \<mapsto> n)" "new_file n len s3 fm3 s' fm'"
      from r(7) have "new_file n len s fm s' fm'" unfolding new_file_def n(2) same by (elim exE) (rule exI, auto)
      then show thesis using succeeded [OF _ frame [OF r(2)] r(3-6) n(1)] steps r(1) by auto
    qed
  qed
qed

lemma create_failed:
  assumes frame: "create_frame {} i s fm s' fm'" and mem: "ample (Suc k) s'" and c: "content i s' = c"
    and n: "n = 0 \<or> unat n \<in> bitmap_used fm' \<and> unat n \<notin> bitmap_used fm"
    and fm: "fm_ok s fm" and i: "data_sectors i \<inter> data_sectors (fm_inode s) = {}"
  shows "\<exists>s'' fm''. (if n \<noteq> 0 then free_map_release n 1 s' else Some s') = Some s'' \<and> create_frame {} i s fm s'' fm'' \<and> content i s'' = c"
proof (cases "n = 0")
  case True
  then show ?thesis using frame c by auto
next
  case False
  note f = frame [unfolded create_frame_def]
  obtain d as where s': "s' = s\<lparr>disk := d, answers := as, free_map := Some fm'\<rparr>" using f by blast
  have inode: "fm_inode s' = fm_inode s" by (simp add: s')
  have fm': "fm_ok s' fm'" "unat n + 1 \<le> bit_cnt fm'" "run n 1 \<subseteq> bitmap_used fm'" "run n 1 \<inter> unat ` data_sectors (fm_inode s') = {}"
    using f n False bitmap_used_less [of "unat n" fm'] fm by (auto simp: inode fm_ok_def)
  obtain fm'' d'' as'' s'' where
    r: "free_map_release n 1 s' = Some s''" "s'' = s'\<lparr>disk := d'', answers := as'', free_map := Some fm''\<rparr>" "fm_ok s'' fm''"
      "fm_synced s'' fm''" "bit_cnt fm'' = bit_cnt fm'" "bitmap_used fm'' = bitmap_used fm' - run n 1"
      "\<And>k. k \<notin> data_sectors (fm_inode s) \<Longrightarrow> d'' k = disk s' k"
    by (rule free_map_release_ok [OF fm'(1) ample_memory [OF mem] fm'(2-4), unfolded inode]) (rule that)
  have "s'' = s\<lparr>disk := d'', answers := as'', free_map := Some fm''\<rparr>" by (simp add: r(2) s')
  then have "create_frame {} i s fm s'' fm''"
  proof (rule create_frameI)
    show "bit_cnt fm'' = bit_cnt fm" "bitmap_used fm \<subseteq> bitmap_used fm''" using f r(5,6) n False by auto
    show "d'' m = disk s m" if "unat m \<in> bitmap_used fm" "m \<notin> data_sectors (fm_inode s)" "m \<notin> data_sectors i" for m
      using f that r(7) by simp
  qed (rule r(3), rule r(4))
  moreover have "content i s'' = c" unfolding c [symmetric] by (rule content_same) (use r(2,7) i in auto)
  ultimately show ?thesis using r(1) False by auto
qed

section \<open>The file system invariant\<close>

definition disk_inode :: "'a fs_scheme \<Rightarrow> u32 \<Rightarrow> inode" where
  "disk_inode s n = \<lparr>sector = n, open_cnt = 0, removed = False, deny_write_cnt = 0, data = decode_inode (disk s n)\<rparr>"

abbreviation root :: "'a fs_scheme \<Rightarrow> inode" where
  "root s \<equiv> disk_inode s ROOT_DIR_SECTOR"

definition root_bytes :: "'a fs_scheme \<Rightarrow> byte list" where
  "root_bytes s = content (root s) s"

text \<open>
  The free map marks its own sectors and those of the root directory as used and is the same in memory and on the device; the root directory is
  well formed; and an inode in memory that is the root directory agrees with the device.
\<close>

definition fsys_ok :: "'a fsys_scheme \<Rightarrow> bitmap \<Rightarrow> bool" where
  "fsys_ok s fm \<longleftrightarrow> fm_ok s fm \<and> fm_synced s fm \<and> table_ok s \<and> {0, 1} \<subseteq> bitmap_used fm \<and> ROOT_DIR_SECTOR \<notin> data_sectors (fm_inode s) \<and>
     inode_ok (root s) s \<and> dir_wf (root_bytes s) \<and> ROOT_DIR_SECTOR \<notin> data_sectors (root s) \<and>
     unat ` data_sectors (root s) \<subseteq> bitmap_used fm \<and> data_sectors (root s) \<inter> data_sectors (fm_inode s) = {} \<and>
     (\<forall>p \<in> set (open_inodes s). sector (inodes s p) = ROOT_DIR_SECTOR \<longrightarrow> data (inodes s p) = data (root s) \<and>
        deny_write_cnt (inodes s p) = 0 \<and> \<not> removed (inodes s p) \<and> p \<noteq> file_inode (files s (free_map_file s)))"

lemma fm_ok_upd_inode:
  assumes "fm_ok s fm" and "im (file_inode (files s (free_map_file s))) = inodes s (file_inode (files s (free_map_file s)))"
    and "set (in_use s) \<subseteq> set us"
  shows "fm_ok (s\<lparr>answers := as, in_use := us, open_inodes := ps, inodes := im, dirs := ds\<rparr>) fm"
    "fm_inode (s\<lparr>answers := as, in_use := us, open_inodes := ps, inodes := im, dirs := ds\<rparr>) = fm_inode s"
proof -
  have "free_map_file s \<in> set us" "file_inode (files s (free_map_file s)) \<in> set us"
    using assms(1,3) by (auto simp: fm_ok_def live_def)
  then show "fm_ok (s\<lparr>answers := as, in_use := us, open_inodes := ps, inodes := im, dirs := ds\<rparr>) fm"
    using assms(1,2) unfolding fm_ok_def fm_inode_def live_def by simp
  show "fm_inode (s\<lparr>answers := as, in_use := us, open_inodes := ps, inodes := im, dirs := ds\<rparr>) = fm_inode s"
    using assms(2) by (simp add: fm_inode_def)
qed

text \<open>Closing a directory gives up the reference that opening it took.\<close>

lemma dir_close_shared:
  assumes "d \<noteq> NULL" "d \<in> set (in_use s)" and "dir_inode (dirs s d) = p" "p \<noteq> NULL" "p \<in> set (in_use s)"
    and "1 < open_cnt (inodes s p)" "open_cnt (inodes s p) < 2 ^ 31"
  shows "dir_close d s = Some (s\<lparr>inodes := (inodes s)(p := (inodes s p)\<lparr>open_cnt := open_cnt (inodes s p) - 1\<rparr>), in_use := remove1 d (in_use s)\<rparr>)"
  using assms int32_small [of "open_cnt (inodes s p) - 1"]
  by (simp add: dir_close_def inode_close_def upd_inode_def deref_def fs_free_def)

lemma dir_close_last:
  assumes "d \<noteq> NULL" "d \<in> set (in_use s)" and "dir_inode (dirs s d) = p" "p \<noteq> NULL" "p \<in> set (in_use s)" "p \<noteq> d"
    and "open_cnt (inodes s p) = 1" "\<not> removed (inodes s p)"
  shows "dir_close d s = Some (s\<lparr>inodes := (inodes s)(p := (inodes s p)\<lparr>open_cnt := 0\<rparr>), open_inodes := remove1 p (open_inodes s),
    in_use := remove1 d (remove1 p (in_use s))\<rparr>)"
  using assms int32_small [of 0]
  by (simp add: dir_close_def inode_close_def upd_inode_def deref_def fs_free_def)

lemma dir_open_root_ok:
  assumes ok: "fsys_ok s fm" and mem: "ample (Suc (Suc k)) s"
  obtains d p as us ps im where "dir_open_root s = Some (d, s\<lparr>answers := as, in_use := us, open_inodes := ps, inodes := im,
      dirs := (dirs s)(d := \<lparr>dir_inode = p, dir_pos = 0\<rparr>)\<rparr>)"
    "d \<noteq> NULL" "d \<in> set us" "p \<noteq> NULL" "p \<in> set us" "set (in_use s) \<subseteq> set us" "data (im p) = data (root s)" "deny_write_cnt (im p) = 0"
    "im (file_inode (files s (free_map_file s))) = inodes s (file_inode (files s (free_map_file s)))"
    "ample k (s\<lparr>answers := as, in_use := us\<rparr>)"
    "\<And>D A F. \<exists>im'. dir_close d (s\<lparr>answers := A, in_use := us, open_inodes := ps, inodes := im,
        dirs := (dirs s)(d := \<lparr>dir_inode = p, dir_pos = 0\<rparr>), disk := D, free_map := F\<rparr>) =
      Some (s\<lparr>answers := A, inodes := im', dirs := (dirs s)(d := \<lparr>dir_inode = p, dir_pos = 0\<rparr>), disk := D, free_map := F\<rparr>) \<and>
      (\<forall>q \<in> set (in_use s). im' q = inodes s q)"
proof -
  have t: "table_ok s" using ok by (simp add: fsys_ok_def)
  have "1 \<in> bitmap_used fm" "fm_ok s fm" using ok by (simp_all add: fsys_ok_def)
  then have n: "ROOT_DIR_SECTOR < disk_size s" using bitmap_used_less [of 1 fm] by (simp add: fm_ok_def word_less_nat_alt ROOT_DIR_SECTOR_def)
  from t n show thesis
  proof (cases rule: inode_open_cases)
    case (again p)
    obtain d as where d: "answers s = d # as" "d \<noteq> NULL" "d \<notin> set (in_use s)" "ample (Suc k) (s\<lparr>answers := as, in_use := d # in_use s\<rparr>)"
      using ample_malloc [OF mem] by blast
    have p: "p \<noteq> NULL" "p \<in> set (in_use s)" "1 \<le> open_cnt (inodes s p)" "open_cnt (inodes s p) < 2 ^ 31 - 1"
      using again(2) t by (auto simp: table_ok_def)
    have r: "data (inodes s p) = data (root s)" "deny_write_cnt (inodes s p) = 0" "p \<noteq> file_inode (files s (free_map_file s))"
      using again(2,3) ok by (auto simp: fsys_ok_def)
    let ?im = "(inodes s)(p := (inodes s p)\<lparr>open_cnt := open_cnt (inodes s p) + 1\<rparr>)" and ?us = "d # in_use s" and ?ps = "open_inodes s"
    let ?ds = "(dirs s)(d := \<lparr>dir_inode = p, dir_pos = 0\<rparr>)"
    show thesis
    proof (rule that [where d = d and p = p and as = as and us = ?us and ps = ?ps and im = ?im])
      show "dir_open_root s = Some (d, s\<lparr>answers := as, in_use := ?us, open_inodes := ?ps, inodes := ?im, dirs := ?ds\<rparr>)"
        using again(1) d p(1) by (simp add: dir_open_root_def dir_open_def fs_malloc_def upd_dir_def deref_def)
      show "ample k (s\<lparr>answers := as, in_use := ?us\<rparr>)" by (rule ample_mono [OF d(4)]) simp
      fix D A F
      let ?s3 = "s\<lparr>answers := A, in_use := ?us, open_inodes := ?ps, inodes := ?im, dirs := ?ds, disk := D, free_map := F\<rparr>"
      have "dir_close d ?s3 = Some (?s3\<lparr>inodes := (inodes ?s3)(p := (inodes ?s3 p)\<lparr>open_cnt := open_cnt (inodes ?s3 p) - 1\<rparr>),
          in_use := remove1 d (in_use ?s3)\<rparr>)"
        by (rule dir_close_shared) (use d p in simp_all)
      then have "dir_close d ?s3 = Some (s\<lparr>answers := A, inodes := inodes s, dirs := ?ds, disk := D, free_map := F\<rparr>)" by simp
      then show "\<exists>im'. dir_close d ?s3 = Some (s\<lparr>answers := A, inodes := im', dirs := ?ds, disk := D, free_map := F\<rparr>) \<and>
          (\<forall>q \<in> set (in_use s). im' q = inodes s q)" by blast
    qed (use d p r in auto)
  next
    case (first p as1)
    let ?im = "(inodes s)(p := \<lparr>sector = ROOT_DIR_SECTOR, open_cnt = 1, removed = False, deny_write_cnt = 0,
      data = decode_inode (disk s ROOT_DIR_SECTOR)\<rparr>)"
    have mem1: "ample (Suc k) (s\<lparr>answers := as1, in_use := p # in_use s\<rparr>)" using mem first(2) by (auto simp: ample_def)
    let ?s1 = "s\<lparr>answers := as1, in_use := p # in_use s\<rparr>"
    obtain d as where a: "answers ?s1 = d # as" "d \<noteq> NULL" "d \<notin> set (in_use ?s1)" "ample k (?s1\<lparr>answers := as, in_use := d # in_use ?s1\<rparr>)"
      using ample_malloc [OF mem1] by blast
    have d: "as1 = d # as" "d \<noteq> NULL" "d \<notin> set (p # in_use s)" "ample k (s\<lparr>answers := as, in_use := d # p # in_use s\<rparr>)"
      using a by simp_all
    let ?us = "d # p # in_use s" and ?ps = "p # open_inodes s" and ?ds = "(dirs s)(d := \<lparr>dir_inode = p, dir_pos = 0\<rparr>)"
    show thesis
    proof (rule that [where d = d and p = p and as = as and us = ?us and ps = ?ps and im = ?im])
      show "dir_open_root s = Some (d, s\<lparr>answers := as, in_use := ?us, open_inodes := ?ps, inodes := ?im, dirs := ?ds\<rparr>)"
        using first(1,3) d by (simp add: dir_open_root_def dir_open_def fs_malloc_def upd_dir_def deref_def)
      show "ample k (s\<lparr>answers := as, in_use := ?us\<rparr>)" by (rule d(4))
      show "?im (file_inode (files s (free_map_file s))) = inodes s (file_inode (files s (free_map_file s)))"
        using first(4) ok by (auto simp: fsys_ok_def fm_ok_def live_def)
      fix D A F
      let ?s3 = "s\<lparr>answers := A, in_use := ?us, open_inodes := ?ps, inodes := ?im, dirs := ?ds, disk := D, free_map := F\<rparr>"
      have "dir_close d ?s3 = Some (?s3\<lparr>inodes := (inodes ?s3)(p := (inodes ?s3 p)\<lparr>open_cnt := 0\<rparr>), open_inodes := remove1 p (open_inodes ?s3),
          in_use := remove1 d (remove1 p (in_use ?s3))\<rparr>)"
        by (rule dir_close_last) (use d first(3) in auto)
      then have closed: "dir_close d ?s3 = Some (s\<lparr>answers := A, inodes := ?im(p := (?im p)\<lparr>open_cnt := 0\<rparr>), dirs := ?ds, disk := D, free_map := F\<rparr>)"
        using d(3) by simp
      show "\<exists>im'. dir_close d ?s3 = Some (s\<lparr>answers := A, inodes := im', dirs := ?ds, disk := D, free_map := F\<rparr>) \<and>
          (\<forall>q \<in> set (in_use s). im' q = inodes s q)"
        by (rule exI, rule conjI, rule closed) (use first(4) in auto)
    qed (use d first(3) in \<open>auto simp: disk_inode_def\<close>)
  next
    case no_memory
    then show thesis using ample_memory [OF mem] by blast
  qed
qed

section \<open>Creating a file\<close>

text \<open>The sectors in use that neither the free map nor the root directory keeps its data in are unchanged.\<close>

definition others_kept :: "'a fsys_scheme \<Rightarrow> bitmap \<Rightarrow> 'a fsys_scheme \<Rightarrow> bool" where
  "others_kept s fm s' \<longleftrightarrow> (\<forall>m. unat m \<in> bitmap_used fm \<and> m \<notin> data_sectors (fm_inode s) \<and> m \<notin> data_sectors (root s) \<longrightarrow> disk s' m = disk s m)"

lemma create_closed:
  assumes ok: "fsys_ok s fm" and i: "data i = data (root s)"
    and frame: "create_frame {} i s2 fm s4 fm4" "fm_inode s2 = fm_inode s" "disk s2 = disk s" "disk_size s2 = disk_size s"
    and s': "s' = s\<lparr>answers := A, inodes := im, dirs := ds, disk := disk s4, free_map := Some fm4\<rparr>"
    and im: "\<forall>q \<in> set (in_use s). im q = inodes s q" and wf: "dir_wf (content i s4)"
  shows "fsys_ok s' fm4" "root_bytes s' = content i s4" "others_kept s fm s'"
proof -
  note f = frame(1) [unfolded create_frame_def] and o = ok [unfolded fsys_ok_def]
  have R: "data_sectors i = data_sectors (root s)" by (rule data_sectors_data [OF i])
  let ?f = "free_map_file s" and ?p = "file_inode (files s (free_map_file s))"
  have fmi: "fm_inode s' = fm_inode s" "inodes s' ?p = inodes s ?p" using o im by (simp_all add: s' fm_inode_def fm_ok_def live_def)
  show kept: "others_kept s fm s'" using f R unfolding others_kept_def by (simp add: frame(2,3) s')
  have "unat ROOT_DIR_SECTOR \<in> bitmap_used fm" using o by (simp add: ROOT_DIR_SECTOR_def)
  then have root: "root s' = root s" using kept o by (simp add: others_kept_def disk_inode_def)
  have same: "content (fm_inode s) s' = content (fm_inode s) s4" "content (root s) s' = content i s4"
    using content_cong [of s' s4] content_data [OF i, of s4] by (simp_all add: s')
  show bytes: "root_bytes s' = content i s4" unfolding root_bytes_def root same(2) ..
  have fm4: "fm_ok s4 fm4" "fm_synced s4 fm4" "bit_cnt fm4 = bit_cnt fm" "bitmap_used fm \<subseteq> bitmap_used fm4"
    "fm_inode s4 = fm_inode s" "disk_size s4 = disk_size s" using f frame(2,4) by auto
  have "fm_ok s' fm4"
  proof -
    have "disk_ok s'" using fm4(1,6) disk_ok_cong [of s' s4] by (simp add: s' fm_ok_def live_def)
    moreover have "unat ` data_sectors (fm_inode s) \<subseteq> bitmap_used fm4" using o fm4(4) by (auto simp: fm_ok_def)
    ultimately show ?thesis using o fm4(1,3) fmi by (simp add: fm_ok_def fm_inode_def live_def s')
  qed
  moreover have "fm_synced s' fm4" using fm4(2,5) same(1) fmi(1) by (simp add: fm_synced_def)
  moreover have open_same: "inodes s' q = inodes s q" if "q \<in> set (open_inodes s)" for q using o im that by (auto simp: s' table_ok_def)
  moreover have "table_ok s'"
    using o open_same inj_on_cong [of "set (open_inodes s)" "\<lambda>q. sector (inodes s' q)" "\<lambda>q. sector (inodes s q)"]
    by (simp add: table_ok_def s')
  ultimately show "fsys_ok s' fm4"
    using o fm4(4) wf bytes unfolding fsys_ok_def root fmi(1) by (auto simp: s')
qed

lemma concat_replicate_const: "(\<And>x. x \<in> set xs \<Longrightarrow> f x = replicate n z) \<Longrightarrow> concat (map f xs) = replicate (length xs * n) z"
  by (induction xs) (simp_all add: replicate_add)

lemma new_file_content:
  assumes "new_file n len s fm s' fm'" and len: "0 \<le> len" "len + 512 \<le> 2 ^ 31"
  shows "content (disk_inode s' n) s' = replicate (nat len) 0" "inode_length (disk_inode s' n) = len"
proof -
  obtain st where st: "disk s' n = encode_inode (new_inode st len)" "unat st + bytes_to_sectors len \<le> unat (disk_size s)"
    and z: "\<And>m. unat m \<in> run st (bytes_to_sectors len) \<Longrightarrow> disk s' m = replicate BLOCK_SECTOR_SIZE 0"
    using assms(1) by (auto simp: new_file_def)
  have data: "data (disk_inode s' n) = new_inode st len"
    using decode_encode_inode [of "new_inode st len"] len by (simp add: disk_inode_def st(1) new_inode_def)
  then show l: "inode_length (disk_inode s' n) = len" by (simp add: inode_length_def new_inode_def)
  have sec: "disk s' (data_sector (disk_inode s' n) k) = replicate 512 0" if "k \<in> set [0..<bytes_to_sectors len]" for k
  proof -
    have k: "k < bytes_to_sectors len" "k < 2 ^ 32" using that st(2) unat_less_exp32 [of "disk_size s"] by auto
    then have "unat (of_nat k :: u32) = k" by (intro unat_of_nat_small) simp
    then have "unat (st + of_nat k) = unat st + k"
      using unat_add_no_wrap [of st "of_nat k"] k(1) st(2) unat_less_exp32 [of "disk_size s"] by simp
    then show ?thesis using z [of "st + of_nat k"] k(1) by (simp add: data_sector_def data new_inode_def BLOCK_SECTOR_SIZE_def)
  qed
  have "nat len \<le> bytes_to_sectors len * 512" using sectors_of_nat [of "nat len"] len by simp
  then show "content (disk_inode s' n) s' = replicate (nat len) 0"
    using concat_replicate_const [of "[0..<bytes_to_sectors len]" _ 512 0, OF sec] unfolding content_def sector_bytes_def l by simp
qed

abbreviation root_map :: "'a fs_scheme \<Rightarrow> byte list \<Rightarrow> u32 option" where
  "root_map s \<equiv> dir_map (root_bytes s)"

text \<open>
  C1. \<^verbatim>\<open>filesys_create\<close> on a consistent file system, for a valid name and size and with memory available, always returns and keeps the file
  system consistent; no sector in use is written but those of the free map and the root directory.  If it returns true, the name was not in use
  before, and the root directory maps it, and otherwise the names it did, to a sector that was free and now holds the inode of a file of the requested
  size that reads as zeros.  The data of the file is a run of sectors of the device, other than that of the inode, that were free and are filled with
  zeros, and the free map marks exactly the inode sector and this run as used in addition.  If it returns false, the root directory is as before, and the name was in use, the directory was full, or the device had no
  room: no free sector for the inode or, next to some sector taken for it, no run of free sectors for the data.
\<close>

theorem filesys_create_correct:
  assumes ok: "fsys_ok s fm" and mem: "ample (2 * slot_cnt (root_bytes s) + 9) s" and name: "valid_name name" "length e0 = 20"
    and len: "0 \<le> len" "len + 512 \<le> 2 ^ 31"
  shows "\<exists>success s' fm'. filesys_create e0 name len s = Some (success, s') \<and> fsys_ok s' fm' \<and> others_kept s fm s' \<and>
    (if success then root_map s name = None \<and> (\<exists>n. root_map s' = (root_map s)(name \<mapsto> n) \<and> unat n \<notin> bitmap_used fm \<and>
        new_file n len s fm s' fm' \<and> content (disk_inode s' n) s' = replicate (nat len) 0)
     else root_bytes s' = root_bytes s \<and>
       (refuses (root_bytes s) name \<or> no_run (bitmap_used fm) (bit_cnt fm) 1 \<or>
        (\<exists>x. no_run (insert x (bitmap_used fm)) (bit_cnt fm) (bytes_to_sectors len))))"
proof -
  have mem': "ample (Suc (Suc (Suc 0 + (2 * slot_cnt (root_bytes s) + 6)))) s" by (rule ample_mono [OF mem]) simp
  obtain d p as us ps im where op: "dir_open_root s = Some (d, s\<lparr>answers := as, in_use := us, open_inodes := ps, inodes := im,
      dirs := (dirs s)(d := \<lparr>dir_inode = p, dir_pos = 0\<rparr>)\<rparr>)"
    and d: "d \<noteq> NULL" "d \<in> set us" "p \<noteq> NULL" "p \<in> set us" "set (in_use s) \<subseteq> set us" "data (im p) = data (root s)" "deny_write_cnt (im p) = 0"
    and pf: "im (file_inode (files s (free_map_file s))) = inodes s (file_inode (files s (free_map_file s)))"
    and mem2: "ample (Suc 0 + (2 * slot_cnt (root_bytes s) + 6)) (s\<lparr>answers := as, in_use := us\<rparr>)"
    and close: "\<And>D A F. \<exists>im'. dir_close d (s\<lparr>answers := A, in_use := us, open_inodes := ps, inodes := im,
        dirs := (dirs s)(d := \<lparr>dir_inode = p, dir_pos = 0\<rparr>), disk := D, free_map := F\<rparr>) =
      Some (s\<lparr>answers := A, inodes := im', dirs := (dirs s)(d := \<lparr>dir_inode = p, dir_pos = 0\<rparr>), disk := D, free_map := F\<rparr>) \<and>
      (\<forall>q \<in> set (in_use s). im' q = inodes s q)"
    by (rule dir_open_root_ok [OF ok mem']) (rule that)
  let ?ds = "(dirs s)(d := \<lparr>dir_inode = p, dir_pos = 0\<rparr>)"
  define s2 where "s2 = s\<lparr>answers := as, in_use := us, open_inodes := ps, inodes := im, dirs := ?ds\<rparr>"
  note o = ok [unfolded fsys_ok_def]
  have fm2: "fm_ok s2 fm" "fm_inode s2 = fm_inode s" using fm_ok_upd_inode [of s fm im us] pf d(5) o by (simp_all add: s2_def)
  have b2: "dir_bytes d s2 = root_bytes s" "inodes s2 (dir_inode (dirs s2 d)) = im p"
    using content_data [OF d(6), of s] by (simp_all add: s2_def dir_bytes_def root_bytes_def)
  have dl: "dir_live d s2"
    using d(1-4) o inode_ok_data [OF d(6), of s] by (simp add: s2_def dir_live_def live_def fm_ok_def)
  have R: "data_sectors (im p) = data_sectors (root s)" by (rule data_sectors_data [OF d(6)])
  have wf: "dir_wf (root_bytes s)" "fm_synced s2 fm" "unat ` data_sectors (im p) \<subseteq> bitmap_used fm"
      "data_sectors (im p) \<inter> data_sectors (fm_inode s2) = {}"
    using o fm2(2) by (simp_all add: fm_synced_def R s2_def)
  have mem3: "ample (Suc 0 + (2 * slot_cnt (root_bytes s) + 6)) s2" using mem2 by (simp add: ample_def s2_def)
  have fin: "\<exists>s'. dir_close d s4 = Some s' \<and> fsys_ok s' fm4 \<and> root_bytes s' = content (im p) s4 \<and> others_kept s fm s' \<and> disk s' = disk s4"
    if fr: "create_frame {} (im p) s2 fm s4 fm4" "dir_wf (content (im p) s4)" for s4 fm4
  proof -
    obtain D A where s4: "s4 = s2\<lparr>disk := D, answers := A, free_map := Some fm4\<rparr>" using fr(1) by (auto simp: create_frame_def)
    have eq: "s4 = s\<lparr>answers := A, in_use := us, open_inodes := ps, inodes := im, dirs := ?ds, disk := D, free_map := Some fm4\<rparr>"
      by (simp add: s4 s2_def)
    obtain im' where c: "dir_close d s4 = Some (s\<lparr>answers := A, inodes := im', dirs := ?ds, disk := disk s4, free_map := Some fm4\<rparr>)"
      "\<forall>q \<in> set (in_use s). im' q = inodes s q"
      using close [where A = A and D = D and F = "Some fm4", folded eq] by (auto simp: s4)
    show ?thesis using c(1) create_closed [OF ok d(6) fr(1) fm2(2) _ _ refl c(2) fr(2)] by (simp add: s2_def)
  qed
  show ?thesis
  proof (rule create_steps_cases [of d s2 name e0 len "Suc 0" fm, unfolded b2, OF dl wf(1) d(7) name len(1) mem3 fm2(1) wf(2-4)])
    fix n s3 fm3 assume r: "create_steps e0 name len d s2 = Some (False, n, s3)" "create_frame {} (im p) s2 fm s3 fm3" "ample (Suc 0) s3"
      "content (im p) s3 = root_bytes s" "n = 0 \<or> unat n \<in> bitmap_used fm3 \<and> unat n \<notin> bitmap_used fm"
      "no_run (bitmap_used fm) (bit_cnt fm) 1 \<or> (\<exists>x. no_run (insert x (bitmap_used fm)) (bit_cnt fm) (bytes_to_sectors len)) \<or>
        refuses (root_bytes s) name"
    from create_failed [OF r(2-5) fm2(1) wf(4)] obtain s4 fm4 where s4: "(if n \<noteq> 0 then free_map_release n 1 s3 else Some s3) = Some s4"
      "create_frame {} (im p) s2 fm s4 fm4" "content (im p) s4 = root_bytes s"
      by blast
    from fin [OF s4(2)] s4(3) wf(1) obtain s' where "dir_close d s4 = Some s'" "fsys_ok s' fm4" "root_bytes s' = root_bytes s" "others_kept s fm s'"
      by auto
    then show ?thesis using op r(1) s4(1) r(6)
      by (intro exI [of _ False] exI [of _ s'] exI [of _ fm4]) (simp add: filesys_create_def s2_def [symmetric], blast)
  next
    fix n s3 fm3 assume r: "create_steps e0 name len d s2 = Some (True, n, s3)" "create_frame {} (im p) s2 fm s3 fm3"
      "dir_map (root_bytes s) name = None" "dir_wf (content (im p) s3)" "dir_map (content (im p) s3) = (dir_map (root_bytes s))(name \<mapsto> n)"
      "unat n \<notin> bitmap_used fm" "new_file n len s2 fm s3 fm3"
    from fin [OF r(2,4)] obtain s' where s': "dir_close d s3 = Some s'" "fsys_ok s' fm3" "root_bytes s' = content (im p) s3" "others_kept s fm s'"
      "disk s' = disk s3" by blast
    have "new_file n len s2 fm s' fm3" using r(7) s'(5) by (simp add: new_file_def)
    note nf = new_file_content [OF this len]
    have "new_file n len s fm s' fm3" using r(7) s'(5) by (simp add: new_file_def s2_def)
    then show ?thesis using op r(1,3,5,6) s'(1-4) nf(1)
      by (intro exI [of _ True] exI [of _ s'] exI [of _ fm3]) (simp add: filesys_create_def s2_def [symmetric], blast)
  qed
qed

text \<open>A freshly formatted device of 32 sectors, with the free map open, for the witnesses.\<close>

definition demo_disk :: "u32 \<Rightarrow> byte list" where
  "demo_disk n = (if n = 0 then encode_inode (new_inode 2 4) else if n = 1 then encode_inode (new_inode 3 320)
     else if n = 2 then le32 15 @ replicate 508 0 else replicate 512 0)"

definition demo_map :: bitmap where
  "demo_map = \<lparr>bit_cnt = 32, bits = [15]\<rparr>"

definition demo_fm_inode :: inode where
  "demo_fm_inode = \<lparr>sector = 0, open_cnt = 1, removed = False, deny_write_cnt = 0, data = new_inode 2 4\<rparr>"

definition demo_fsys :: fsys where
  "demo_fsys = \<lparr>disk = demo_disk, disk_size = 32, inodes = (\<lambda>_. demo_fm_inode), open_inodes = [0x1000],
     answers = map of_nat [0x10000..<0x10040], in_use = [0x1000, 0x2000],
     files = (\<lambda>_. \<lparr>file_inode = 0x1000, file_pos = 0, file_denied = False\<rparr>), dirs = (\<lambda>_. \<lparr>dir_inode = 0, dir_pos = 0\<rparr>),
     free_map = Some demo_map, free_map_file = 0x2000\<rparr>"

lemma demo_root: "root demo_fsys = \<lparr>sector = 1, open_cnt = 0, removed = False, deny_write_cnt = 0, data = new_inode 3 320\<rparr>"
  using decode_encode_inode [of "new_inode 3 320"]
  by (simp add: disk_inode_def demo_fsys_def demo_disk_def ROOT_DIR_SECTOR_def new_inode_def)

lemma demo_sectors: "bytes_to_sectors 4 = 1" "bytes_to_sectors 320 = 1"
  using sectors_of_nat [of 4] sectors_of_nat [of 320] by simp_all

lemma demo_disk_ok: "disk_ok demo_fsys"
  by (simp add: disk_ok_def demo_fsys_def demo_disk_def BLOCK_SECTOR_SIZE_def new_inode_def)

lemma demo_used: "bitmap_used demo_map = {..<4}"
proof -
  have m: "15 = (mask 4 :: u32)" by (simp add: mask_eq_exp_minus_1)
  have "bit (15 :: u32) k \<longleftrightarrow> k < 4" for k unfolding m by (subst bit_mask_iff) auto
  then have "bitmap_bits demo_map ! k \<longleftrightarrow> k < 4" if "k < 32" for k using that by (simp add: demo_map_def bitmap_bits_def del: bit_numeral_word_iff)
  then show ?thesis by (auto simp: bitmap_used_def demo_map_def [THEN arg_cong, of bit_cnt])
qed

lemma demo_root_bytes: "root_bytes demo_fsys = replicate (20 * 16) 0"
  unfolding root_bytes_def content_def sector_bytes_def demo_root
  by (simp add: inode_length_def new_inode_def demo_sectors data_sector_def demo_fsys_def demo_disk_def)

lemma demo_fm: "fm_ok demo_fsys demo_map" "fm_synced demo_fsys demo_map" "fm_inode demo_fsys = demo_fm_inode" "data_sectors demo_fm_inode = {2}"
proof -
  show i: "fm_inode demo_fsys = demo_fm_inode" by (simp add: fm_inode_def demo_fsys_def)
  have l: "inode_length demo_fm_inode = 4" by (simp add: demo_fm_inode_def inode_length_def new_inode_def)
  show d: "data_sectors demo_fm_inode = {2}"
    by (simp add: data_sectors_def l demo_sectors data_sector_def lessThan_Suc) (simp add: demo_fm_inode_def new_inode_def)
  have "live 0x1000 demo_fsys" using demo_disk_ok
    by (simp add: live_def inode_ok_def) (simp add: demo_fsys_def l demo_sectors, simp add: demo_fm_inode_def new_inode_def)
  moreover have "bitmap_ok demo_map" "byte_cnt 32 = 4"
    by (simp_all add: bitmap_ok_def demo_map_def elem_cnt_def byte_cnt_def ELEM_BITS_def DIV_ROUND_UP_def)
  ultimately show "fm_ok demo_fsys demo_map"
    unfolding fm_ok_def i d l demo_used by (simp add: demo_fsys_def) (simp add: demo_map_def demo_fm_inode_def)
  have "content demo_fm_inode demo_fsys = le32 15"
    unfolding content_def sector_bytes_def l demo_sectors
    by (simp add: data_sector_def) (simp add: demo_fm_inode_def new_inode_def demo_fsys_def demo_disk_def)
  then show "fm_synced demo_fsys demo_map" by (simp add: fm_synced_def i demo_map_def words_bytes_def)
qed

lemma demo_fsys_ok: "fsys_ok demo_fsys demo_map"
proof -
  have "data_sectors (root demo_fsys) = {3}"
    unfolding demo_root by (simp add: data_sectors_def inode_length_def new_inode_def demo_sectors data_sector_def lessThan_Suc)
  moreover have "inode_ok (root demo_fsys) demo_fsys"
    unfolding demo_root by (simp add: inode_ok_def inode_length_def new_inode_def demo_sectors) (simp add: demo_fsys_def)
  moreover have "table_ok demo_fsys" by (simp add: table_ok_def demo_fsys_def demo_fm_inode_def)
  moreover have "dir_wf (root_bytes demo_fsys)" unfolding demo_root_bytes by (rule empty_dir)
  moreover have "set (open_inodes demo_fsys) = {0x1000}" "sector (inodes demo_fsys 0x1000) = 0" by (simp_all add: demo_fsys_def demo_fm_inode_def)
  ultimately show ?thesis using demo_fm by (simp add: fsys_ok_def demo_used ROOT_DIR_SECTOR_def)
qed

lemma demo_ample: "ample (2 * slot_cnt (root_bytes demo_fsys) + 9) demo_fsys"
  unfolding demo_root_bytes by (simp add: ample_def demo_fsys_def)

lemma not_no_run: "i + n \<le> cnt \<Longrightarrow> {i..<i + n} \<inter> used = {} \<Longrightarrow> \<not> no_run used cnt n"
  unfolding no_run_def by blast

lemma demo_room: "\<not> no_run (bitmap_used demo_map) (bit_cnt demo_map) 1" "\<not> no_run (insert x (bitmap_used demo_map)) (bit_cnt demo_map) 2"
proof -
  have cnt: "bit_cnt demo_map = 32" by (simp add: demo_map_def)
  show "\<not> no_run (bitmap_used demo_map) (bit_cnt demo_map) 1"
    by (rule not_no_run [of 10]) (auto simp: demo_used cnt)
  show "\<not> no_run (insert x (bitmap_used demo_map)) (bit_cnt demo_map) 2"
  proof (cases "x \<in> {10..<12}")
    case True
    then show ?thesis by (intro not_no_run [of 20]) (auto simp: demo_used cnt)
  next
    case False
    then show ?thesis by (intro not_no_run [of 10]) (auto simp: demo_used cnt)
  qed
qed

lemma demo_accepts: "\<not> refuses (root_bytes demo_fsys) name"
proof -
  have "\<not> entry_in_use (slot (root_bytes demo_fsys) k)" if "k < 16" for k
    using that empty_slots [of k 16] by (simp add: demo_root_bytes)
  moreover have "slot_cnt (root_bytes demo_fsys) = 16" by (simp add: demo_root_bytes)
  ultimately show ?thesis by (auto simp: refuses_def dir_map_def find_Some_iff names_def intro: exI [of _ 0])
qed

theorem filesys_create_correct_witness:
  "\<exists>s' fm'. filesys_create (replicate 20 0) [97] 1000 demo_fsys = Some (True, s') \<and> fsys_ok s' fm' \<and> others_kept demo_fsys demo_map s' \<and>
    (\<exists>n. root_map s' = (root_map demo_fsys)([97] \<mapsto> n) \<and> new_file n 1000 demo_fsys demo_map s' fm' \<and>
       content (disk_inode s' n) s' = replicate 1000 0)"
proof -
  have "bytes_to_sectors 1000 = 2" using sectors_of_nat [of 1000] by simp
  then show ?thesis
    using filesys_create_correct [OF demo_fsys_ok demo_ample, of "[97]" "replicate 20 0" 1000] demo_room demo_accepts
    by (auto simp: valid_name_def NAME_MAX_def split: if_splits)
qed

section \<open>The free map\<close>

text \<open>
  C12. With memory for the write to its file, \<^verbatim>\<open>free_map_allocate\<close> hands out a run of \<open>cnt\<close> sectors of the device none of which was in use, marks
  exactly these as used in addition, and the map on the device is then the map in memory; only the sectors of the free map's own file are written.  It
  fails only when there is no such run, and then changes nothing.
\<close>

theorem free_map_allocate_safe:
  assumes "fm_ok s fm" and "memory s"
  shows "\<exists>r s'. free_map_allocate cnt s = Some (r, s') \<and>
    (case r of
       None \<Rightarrow> s' = s \<and> no_run (bitmap_used fm) (bit_cnt fm) cnt
     | Some n \<Rightarrow> \<exists>fm'. fm_ok s' fm' \<and> fm_synced s' fm' \<and> unat n + cnt \<le> unat (disk_size s) \<and> run n cnt \<inter> bitmap_used fm = {} \<and>
         bitmap_used fm' = bitmap_used fm \<union> run n cnt \<and> (\<forall>k. k \<notin> data_sectors (fm_inode s) \<longrightarrow> disk s' k = disk s k))"
proof (rule free_map_allocate_cases [OF assms, of cnt])
  assume "free_map_allocate cnt s = Some (None, s)" "\<And>i. i + cnt \<le> bit_cnt fm \<Longrightarrow> {i..<i + cnt} \<inter> bitmap_used fm \<noteq> {}"
  then show ?thesis by (intro exI [of _ None] exI [of _ s]) (simp add: no_run_def)
next
  fix n fm' d as s' assume r: "free_map_allocate cnt s = Some (Some n, s')" "s' = s\<lparr>disk := d, answers := as, free_map := Some fm'\<rparr>"
    "fm_ok s' fm'" "fm_synced s' fm'" "unat n + cnt \<le> bit_cnt fm" "run n cnt \<inter> bitmap_used fm = {}"
    "bitmap_used fm' = bitmap_used fm \<union> run n cnt" "\<And>k. k \<notin> data_sectors (fm_inode s) \<Longrightarrow> d k = disk s k"
  have "bit_cnt fm = unat (disk_size s)" using assms(1) by (simp add: fm_ok_def)
  moreover have "disk s' = d" by (simp add: r(2))
  ultimately show ?thesis using r(1,3-8) by (intro exI [of _ "Some n"] exI [of _ s'] conjI) auto
qed

lemma demo_memory: "memory demo_fsys"
  by (simp add: memory_iff demo_fsys_def)

theorem free_map_allocate_safe_witness:
  "\<exists>n s' fm'. free_map_allocate 1 demo_fsys = Some (Some n, s') \<and> fm_ok s' fm' \<and> fm_synced s' fm' \<and> 4 \<le> unat n \<and>
    bitmap_used fm' = insert (unat n) {..<4}"
proof -
  have "run n 1 \<inter> {..<4} = {} \<Longrightarrow> 4 \<le> unat n" "run n 1 = {unat n}" for n by auto
  then show ?thesis
    using free_map_allocate_safe [OF demo_fm(1) demo_memory, of 1] demo_room(1)
    by (auto simp: demo_used split: option.splits) blast
qed

text \<open>
  C19. A bitmap written to the free map file and read back, into a bitmap of the same size with any contents, gives the same bits: the spare bits that
  \<^verbatim>\<open>bitmap_read\<close> clears are not bits of the bitmap.
\<close>

theorem bitmap_write_read:
  assumes fm: "fm_ok s fm" "memory s" and b: "bitmap_ok b" "bit_cnt b = bit_cnt fm"
  shows "\<exists>s1. bitmap_write b (free_map_file s) s = Some (True, s1) \<and>
    (memory s1 \<longrightarrow> (\<forall>b0. bitmap_ok b0 \<and> bit_cnt b0 = bit_cnt b \<longrightarrow>
      (\<exists>b' s2. bitmap_read b0 (free_map_file s) s1 = Some (True, b', s2) \<and> bitmap_ok b' \<and> bitmap_bits b' = bitmap_bits b)))"
proof -
  obtain d as where w: "bitmap_write b (free_map_file s) s = Some (True, s\<lparr>disk := d, answers := as\<rparr>)"
      "content (fm_inode s) (s\<lparr>disk := d\<rparr>) = words_bytes (bits b)" "disk_ok (s\<lparr>disk := d\<rparr>)"
    using bitmap_write_ok [OF fm(1) b] fm(2) by auto
  let ?s1 = "s\<lparr>disk := d, answers := as\<rparr>"
  have f1: "fm_ok ?s1 fm" by (rule fm_ok_disk [OF fm(1) w(3)])
  have c1: "content (fm_inode ?s1) ?s1 = words_bytes (bits b)" using w(2) by simp
  show ?thesis
  proof (intro exI [of _ ?s1] conjI impI allI)
    fix b0 :: bitmap assume "memory ?s1" and b0: "bitmap_ok b0 \<and> bit_cnt b0 = bit_cnt b"
    then show "\<exists>b' s2. bitmap_read b0 (free_map_file s) ?s1 = Some (True, b', s2) \<and> bitmap_ok b' \<and> bitmap_bits b' = bitmap_bits b"
      using bitmap_read_ok [OF f1 _ c1 b(1) _ b(2), of b0] b(2) by auto
  qed (rule w(1))
qed

theorem bitmap_write_read_witness:
  "\<exists>s1. bitmap_write \<lparr>bit_cnt = 32, bits = [0x12345]\<rparr> 0x2000 demo_fsys = Some (True, s1) \<and>
    (memory s1 \<longrightarrow> (\<exists>b' s2. bitmap_read demo_map 0x2000 s1 = Some (True, b', s2) \<and> bitmap_bits b' = bitmap_bits \<lparr>bit_cnt = 32, bits = [0x12345]\<rparr>))"
proof -
  have ok: "bitmap_ok \<lparr>bit_cnt = 32, bits = [0x12345]\<rparr>" "bitmap_ok demo_map" "bit_cnt demo_map = 32" "free_map_file demo_fsys = 0x2000"
    by (simp_all add: bitmap_ok_def demo_map_def elem_cnt_def ELEM_BITS_def DIV_ROUND_UP_def demo_fsys_def)
  show ?thesis using bitmap_write_read [OF demo_fm(1) demo_memory ok(1)] ok(2-4) by auto
qed

section \<open>One inode in memory per sector\<close>

text \<open>
  C18. Opening an inode keeps the table of open inodes consistent: each inode is in memory once and its openers are counted.  The inode returned is the
  one of the requested sector, and opening the sector again returns the same inode, with one more opener.
\<close>

theorem inode_open_once:
  assumes t: "table_ok s" and n: "n < disk_size s" and cnt: "\<forall>p \<in> set (open_inodes s). open_cnt (inodes s p) < 2 ^ 31 - 2"
  shows "\<exists>p s'. inode_open n s = Some (p, s') \<and> (memory s \<longrightarrow> p \<noteq> NULL) \<and>
    (p \<noteq> NULL \<longrightarrow> p \<in> set (open_inodes s') \<and> sector (inodes s' p) = n \<and> table_ok s' \<and>
      (\<exists>s''. inode_open n s' = Some (p, s'') \<and> open_cnt (inodes s'' p) = open_cnt (inodes s' p) + 1 \<and> data (inodes s'' p) = data (inodes s' p)))"
proof -
  have reopen: "\<exists>s''. inode_open n s' = Some (p, s'') \<and> open_cnt (inodes s'' p) = open_cnt (inodes s' p) + 1 \<and> data (inodes s'' p) = data (inodes s' p)"
    if t': "table_ok s'" "disk_size s' = disk_size s" "p \<in> set (open_inodes s')" "sector (inodes s' p) = n" for s' :: "'a fs_scheme" and p
  proof (rule inode_open_cases [OF t'(1), of n])
    show "n < disk_size s'" using n t'(2) by simp
    fix q assume q: "inode_open n s' = Some (q, s'\<lparr>inodes := (inodes s')(q := (inodes s' q)\<lparr>open_cnt := open_cnt (inodes s' q) + 1\<rparr>)\<rparr>)"
      "q \<in> set (open_inodes s')" "sector (inodes s' q) = n"
    have "q = p" using t'(1,3,4) q(2,3) by (auto simp: table_ok_def inj_on_def)
    then show ?thesis using q(1) by auto
  next
    fix a as assume "\<And>p. p \<in> set (open_inodes s') \<Longrightarrow> sector (inodes s' p) \<noteq> n"
    then show ?thesis using t'(3,4) by blast
  next
    assume "\<And>p. p \<in> set (open_inodes s') \<Longrightarrow> sector (inodes s' p) \<noteq> n"
    then show ?thesis using t'(3,4) by blast
  qed
  from t n show ?thesis
  proof (cases rule: inode_open_cases)
    case (again p)
    let ?s' = "s\<lparr>inodes := (inodes s)(p := (inodes s p)\<lparr>open_cnt := open_cnt (inodes s p) + 1\<rparr>)\<rparr>"
    have "p \<noteq> NULL" using t again(2) by (auto simp: table_ok_def)
    moreover have "inj_on (\<lambda>q. sector (inodes ?s' q)) (set (open_inodes s))"
      using t inj_on_cong [of "set (open_inodes s)" "\<lambda>q. sector (inodes ?s' q)" "\<lambda>q. sector (inodes s q)"] by (simp add: table_ok_def)
    then have "table_ok ?s'" using t cnt again(2) by (auto simp: table_ok_def)
    ultimately show ?thesis using again reopen [of ?s' p] by (intro exI [of _ p] exI [of _ ?s']) simp
  next
    case (first a as)
    let ?s' = "s\<lparr>answers := as, in_use := a # in_use s, open_inodes := a # open_inodes s,
      inodes := (inodes s)(a := \<lparr>sector = n, open_cnt = 1, removed = False, deny_write_cnt = 0, data = decode_inode (disk s n)\<rparr>)\<rparr>"
    have new: "a \<notin> set (open_inodes s)" using t first(4) by (auto simp: table_ok_def)
    have same: "inodes ?s' q = inodes s q" if "q \<in> set (open_inodes s)" for q using new that by auto
    have "inj_on (\<lambda>q. sector (inodes ?s' q)) (set (open_inodes ?s'))"
    proof (rule inj_onI)
      fix p q assume pq: "p \<in> set (open_inodes ?s')" "q \<in> set (open_inodes ?s')" "sector (inodes ?s' p) = sector (inodes ?s' q)"
      have "sector (inodes s p) = sector (inodes s q) \<Longrightarrow> p \<in> set (open_inodes s) \<Longrightarrow> q \<in> set (open_inodes s) \<Longrightarrow> p = q"
        using t by (simp add: table_ok_def inj_on_def)
      then show "p = q" using pq same [of p] same [of q] first(5) [of p] first(5) [of q] by (cases "p = a"; cases "q = a") simp_all
    qed
    then have "table_ok ?s'" using t first(3) new same unfolding table_ok_def by simp blast
    then show ?thesis using first(1,3) reopen [of ?s' a] by (intro exI [of _ a] exI [of _ ?s']) simp
  next
    case no_memory
    then show ?thesis by auto
  qed
qed

theorem inode_open_once_witness:
  "\<exists>p s'. inode_open 1 demo_fsys = Some (p, s') \<and> p \<noteq> NULL \<and> sector (inodes s' p) = 1 \<and> table_ok s' \<and>
    (\<exists>s''. inode_open 1 s' = Some (p, s'') \<and> open_cnt (inodes s'' p) = open_cnt (inodes s' p) + 1)"
proof -
  have "table_ok demo_fsys" "1 < disk_size demo_fsys" "\<forall>p \<in> set (open_inodes demo_fsys). open_cnt (inodes demo_fsys p) < 2 ^ 31 - 2"
    using demo_fsys_ok by (simp_all add: fsys_ok_def demo_fsys_def demo_fm_inode_def)
  from inode_open_once [OF this] demo_memory show ?thesis by auto
qed

end
