(* ===== verification/Palloc.thy ===== *)
theory Palloc
  imports Vaddr Kernel_Bitmap
begin

text \<open>
  The page allocator, \<^verbatim>\<open>threads/palloc.c\<close>.  The state \<open>kmem\<close> holds the kernel's virtual memory and the two pools;
  the bitmap at the start of a pool's storage is kept as a value of type \<open>bitmap\<close>.  The calls of one thread are
  modelled one after the other: a pool's lock is only held inside a call, and taking a lock that is held
  gives \<open>None\<close>.  The message that \<^verbatim>\<open>init_pool\<close> prints is left out.

  The abstraction \<open>used_pages\<close> is the set of the addresses of the pages that are allocated.  The lemmas show that
  the allocator hands out only free pages, keeps the pools apart, fails only when there is no group of pages
  large enough, and that both pools implement the allocator contract \<open>run_allocator\<close>.
\<close>

unbundle bit_operations_syntax

section \<open>State\<close>

record pool =
  pool_lock :: bool
  used_map :: bitmap
  base :: nat

record kmem =
  ram :: mem
  kernel_pool :: pool
  user_pool :: pool
  init_ram_pages :: nat

definition PAL_ASSERT :: nat where "PAL_ASSERT = 1"
definition PAL_ZERO :: nat where "PAL_ZERO = 2"
definition PAL_USER :: nat where "PAL_USER = 4"

text \<open>The pool behind a pointer: \<open>True\<close> stands for \<^verbatim>\<open>&user_pool\<close>, \<open>False\<close> for \<^verbatim>\<open>&kernel_pool\<close>.\<close>

definition the_pool :: "bool \<Rightarrow> 'a kmem_scheme \<Rightarrow> pool" where
  "the_pool user s = (if user then user_pool s else kernel_pool s)"

definition set_pool :: "bool \<Rightarrow> pool \<Rightarrow> 'a kmem_scheme \<Rightarrow> 'a kmem_scheme" where
  "set_pool user p s = (if user then s\<lparr>user_pool := p\<rparr> else s\<lparr>kernel_pool := p\<rparr>)"

definition pool_acquire :: "pool \<Rightarrow> pool option" where
  "pool_acquire p = (if pool_lock p then None else Some (p\<lparr>pool_lock := True\<rparr>))"

definition pool_release :: "pool \<Rightarrow> pool option" where
  "pool_release p = do { ASSERT (pool_lock p); Some (p\<lparr>pool_lock := False\<rparr>) }"

section \<open>The routines\<close>

text \<open>The words of memory from \<open>a\<close> on.\<close>

definition words_at :: "mem \<Rightarrow> nat \<Rightarrow> nat \<Rightarrow> u32 list" where
  "words_at m a n = map (\<lambda>i. load32 m (a + 4 * i)) [0..<n]"

definition init_pool :: "bool \<Rightarrow> nat \<Rightarrow> nat \<Rightarrow> 'a kmem_scheme \<Rightarrow> 'a kmem_scheme option" where
  "init_pool user start page_cnt s = do {
     let bm_pages = DIV_ROUND_UP (bitmap_buf_size page_cnt) PGSIZE;
     if bm_pages > page_cnt then None
     else do {
       let page_cnt = page_cnt - bm_pages;
       b \<leftarrow> bitmap_create_in_buf page_cnt (words_at (ram s) start (bm_pages * PGSIZE div 4)) (bm_pages * PGSIZE);
       Some (set_pool user
         \<lparr>pool_lock = False, used_map = b, base = (start + bm_pages * PGSIZE) mod 2 ^ 32\<rparr> s)
     }
   }"

definition palloc_init :: "nat \<Rightarrow> 'a kmem_scheme \<Rightarrow> 'a kmem_scheme option" where
  "palloc_init user_page_limit s = do {
     free_start \<leftarrow> ptov (word (1024 * 1024));
     free_end \<leftarrow> ptov (word (init_ram_pages s * PGSIZE));
     let free_pages = nat (c_div (int32 (int free_end - int free_start)) (int PGSIZE) mod 2 ^ 32);
     let user_pages = free_pages div 2;
     let user_pages = (if user_pages > user_page_limit then user_page_limit else user_pages);
     let kernel_pages = free_pages - user_pages;
     s \<leftarrow> init_pool False free_start kernel_pages s;
     init_pool True ((free_start + kernel_pages * PGSIZE) mod 2 ^ 32) user_pages s
   }"

definition page_from_pool :: "pool \<Rightarrow> nat \<Rightarrow> bool" where
  "page_from_pool pool page =
     (let page_no = pg_no page; start_page = pg_no (base pool);
          end_page = (start_page + bitmap_size (used_map pool)) mod 2 ^ 32
      in page_no \<ge> start_page \<and> page_no < end_page)"

definition palloc_get_multiple :: "nat \<Rightarrow> nat \<Rightarrow> 'a kmem_scheme \<Rightarrow> (nat \<times> 'a kmem_scheme) option" where
  "palloc_get_multiple flags page_cnt s =
     (let user = (flags AND PAL_USER \<noteq> 0) in
      if page_cnt = 0 then Some (0, s)
      else do {
        pool \<leftarrow> pool_acquire (the_pool user s);
        (page_idx, b) \<leftarrow> bitmap_scan_and_flip (used_map pool) 0 page_cnt False;
        pool \<leftarrow> pool_release (pool\<lparr>used_map := b\<rparr>);
        let s = set_pool user pool s;
        let pages = (if page_idx \<noteq> BITMAP_ERROR then (base pool + PGSIZE * page_idx) mod 2 ^ 32 else 0);
        if pages \<noteq> 0 then
          if flags AND PAL_ZERO \<noteq> 0 then do {
            (_, m) \<leftarrow> memset pages 0 (PGSIZE * page_cnt mod 2 ^ 32) (ram s);
            Some (pages, s\<lparr>ram := m\<rparr>)
          }
          else Some (pages, s)
        else if flags AND PAL_ASSERT \<noteq> 0 then None
        else Some (pages, s)
      })"

definition palloc_get_page :: "nat \<Rightarrow> 'a kmem_scheme \<Rightarrow> (nat \<times> 'a kmem_scheme) option" where
  "palloc_get_page flags s = palloc_get_multiple flags 1 s"

definition palloc_free_multiple :: "nat \<Rightarrow> nat \<Rightarrow> 'a kmem_scheme \<Rightarrow> 'a kmem_scheme option" where
  "palloc_free_multiple pages page_cnt s = do {
     ASSERT (pg_ofs pages = 0);
     if pages = 0 \<or> page_cnt = 0 then Some s
     else do {
       user \<leftarrow> (if page_from_pool (kernel_pool s) pages then Some False
               else if page_from_pool (user_pool s) pages then Some True
               else None);
       let pool = the_pool user s;
       let page_idx = (pg_no pages - pg_no (base pool)) mod 2 ^ 32;
       (_, m) \<leftarrow> memset pages 0xcc (PGSIZE * page_cnt mod 2 ^ 32) (ram s);
       let s = s\<lparr>ram := m\<rparr>;
       a \<leftarrow> bitmap_all (used_map pool) page_idx page_cnt;
       ASSERT a;
       b \<leftarrow> bitmap_set_multiple (used_map pool) page_idx page_cnt False;
       Some (set_pool user (pool\<lparr>used_map := b\<rparr>) s)
     }
   }"

definition palloc_free_page :: "nat \<Rightarrow> 'a kmem_scheme \<Rightarrow> 'a kmem_scheme option" where
  "palloc_free_page page s = palloc_free_multiple page 1 s"

section \<open>Pages in use\<close>

definition pool_ok :: "pool \<Rightarrow> bool" where
  "pool_ok p \<longleftrightarrow> \<not> pool_lock p \<and> bitmap_ok (used_map p) \<and> kernel_page (base p) \<and>
     base p + 4096 * bit_cnt (used_map p) \<le> 2 ^ 32"

text \<open>The kernel pool lies below the user pool, and both lie in physical memory.\<close>

definition kmem_ok :: "'a kmem_scheme \<Rightarrow> bool" where
  "kmem_ok s \<longleftrightarrow> pool_ok (kernel_pool s) \<and> pool_ok (user_pool s) \<and>
     base (kernel_pool s) + 4096 * bit_cnt (used_map (kernel_pool s)) \<le> base (user_pool s) \<and>
     base (user_pool s) + 4096 * bit_cnt (used_map (user_pool s)) \<le> PHYS_BASE + 4096 * init_ram_pages s"

definition page_set :: "nat \<Rightarrow> nat set \<Rightarrow> nat set" where
  "page_set b I = (\<lambda>i. b + 4096 * i) ` I"

definition page_run :: "nat \<Rightarrow> nat \<Rightarrow> nat set" where
  "page_run p n = page_set p {..<n}"

definition pool_pages :: "bool \<Rightarrow> 'a kmem_scheme \<Rightarrow> nat set" where
  "pool_pages u s = page_run (base (the_pool u s)) (bit_cnt (used_map (the_pool u s)))"

definition used_pages :: "bool \<Rightarrow> 'a kmem_scheme \<Rightarrow> nat set" where
  "used_pages u s = page_set (base (the_pool u s)) (bitmap_used (used_map (the_pool u s)))"

text \<open>The bytes of a group of pages.\<close>

definition extent :: "nat \<Rightarrow> nat \<Rightarrow> nat set" where
  "extent p n = {p..<p + 4096 * n}"

lemma pool_selectors [simp]:
  "the_pool u (set_pool u p s) = p" "the_pool (\<not> u) (set_pool u p s) = the_pool (\<not> u) s"
  "ram (set_pool u p s) = ram s" "init_ram_pages (set_pool u p s) = init_ram_pages s"
  "kmem.more (set_pool u p s) = kmem.more s" "the_pool u (s\<lparr>ram := m\<rparr>) = the_pool u s"
  by (auto simp: the_pool_def set_pool_def)

lemma set_pool_same [simp]: "set_pool u (the_pool u s) s = s"
  by (simp add: the_pool_def set_pool_def)

lemma page_set_eq_iff [simp]: "b + 4096 * i \<in> page_set b I \<longleftrightarrow> i \<in> I"
  by (auto simp: page_set_def)

lemma page_set_int: "page_set b I \<inter> page_set b J = page_set b (I \<inter> J)"
  by (auto simp: page_set_def)

lemma page_set_un: "page_set b I \<union> page_set b J = page_set b (I \<union> J)"
  by (auto simp: page_set_def)

lemma page_set_diff: "page_set b I - page_set b J = page_set b (I - J)"
  by (auto simp: page_set_def)

lemma page_set_empty_iff [simp]: "page_set b I = {} \<longleftrightarrow> I = {}"
  by (simp add: page_set_def)

lemma page_run_shift: "page_run (b + 4096 * i) n = page_set b {i..<i + n}"
proof -
  have "{i..<i + n} = (\<lambda>k. i + k) ` {..<n}"
    by (metis add.commute add.right_neutral image_add_atLeastLessThan lessThan_atLeast0)
  then show ?thesis by (simp add: page_run_def page_set_def image_image algebra_simps)
qed

lemma extent_disjoint:
  assumes "page_run p n \<inter> page_run q k = {}" and "p mod 4096 = 0" and "q mod 4096 = 0"
  shows "extent p n \<inter> extent q k = {}"
proof -
  have run: "x div 4096 * 4096 \<in> page_run r i" if x: "x \<in> extent r i" and r: "r mod 4096 = 0" for x r i
  proof -
    obtain l where l: "r = l * 4096" using r by (auto simp: mult.commute)
    with x have "l * 4096 \<le> x" "x < (l + i) * 4096" by (simp_all add: extent_def)
    then have "l \<le> x div 4096" "x div 4096 < l + i"
      by (simp_all add: less_eq_div_iff_mult_less_eq div_less_iff_less_mult)
    then obtain j where "x div 4096 = l + j" "j < i" by (metis add_less_cancel_left le_iff_add)
    then show ?thesis by (simp add: l page_run_def page_set_def image_iff mult.commute)
  qed
  show ?thesis using run [OF _ assms(2)] run [OF _ assms(3)] assms(1) by (meson disjoint_iff)
qed

lemma kmem_okD:
  assumes "kmem_ok s"
  shows "pool_ok (the_pool u s)" "used_pages False s \<inter> used_pages True s = {}"
    "pool_pages False s \<inter> pool_pages True s = {}"
proof -
  show "pool_ok (the_pool u s)" using assms by (simp add: kmem_ok_def the_pool_def)
  have "x < y" if "x \<in> pool_pages False s" "y \<in> pool_pages True s" for x y
    using that assms by (auto simp: pool_pages_def page_run_def page_set_def kmem_ok_def the_pool_def)
  moreover have "used_pages u s \<subseteq> pool_pages u s" for u
    by (auto simp: used_pages_def pool_pages_def page_run_def page_set_def bitmap_used_def)
  ultimately show "used_pages False s \<inter> used_pages True s = {}" "pool_pages False s \<inter> pool_pages True s = {}"
    by blast+
qed

lemma the_pool_page:
  assumes "kmem_ok s" and "i < bit_cnt (used_map (the_pool u s))"
  shows "kernel_page (base (the_pool u s) + 4096 * i)"
  using kmem_okD(1) [OF assms(1), of u] assms(2) by (auto simp: pool_ok_def kernel_page_def)

lemma used_page:
  assumes "kmem_ok s" and "p \<in> used_pages u s"
  shows "kernel_page p" "p + 4096 \<le> 2 ^ 32"
  using assms the_pool_page [OF assms(1), of _ u] kmem_okD(1) [OF assms(1), of u]
  by (auto simp: used_pages_def page_set_def bitmap_used_def pool_ok_def)

text \<open>The state after an operation on one pool: a new bitmap there and new contents of memory.\<close>

definition repool :: "bool \<Rightarrow> bitmap \<Rightarrow> mem \<Rightarrow> 'a kmem_scheme \<Rightarrow> 'a kmem_scheme" where
  "repool u b m s = set_pool u ((the_pool u s)\<lparr>used_map := b\<rparr>) (s\<lparr>ram := m\<rparr>)"

lemma kmem_ok_repool:
  assumes "kmem_ok s" and "bitmap_ok b" and "bit_cnt b = bit_cnt (used_map (the_pool u s))"
  shows "kmem_ok (repool u b m s)"
  using assms by (auto simp: repool_def kmem_ok_def pool_ok_def set_pool_def the_pool_def split: if_splits)

lemma repool_selectors [simp]:
  "ram (repool u b m s) = m" "init_ram_pages (repool u b m s) = init_ram_pages s"
  "kmem.more (repool u b m s) = kmem.more s"
  "base (the_pool v (repool u b m s)) = base (the_pool v s)"
  "used_map (the_pool v (repool u b m s)) = (if v = u then b else used_map (the_pool v s))"
  by (auto simp: repool_def set_pool_def the_pool_def)

lemma repool_pages:
  "bit_cnt b = bit_cnt (used_map (the_pool u s)) \<Longrightarrow> pool_pages v (repool u b m s) = pool_pages v s"
  "used_pages u (repool u b m s) = page_set (base (the_pool u s)) (bitmap_used b)"
  "v \<noteq> u \<Longrightarrow> used_pages v (repool u b m s) = used_pages v s"
  by (auto simp: pool_pages_def used_pages_def)

section \<open>Allocation\<close>

lemma memset_bytes:
  "p \<noteq> 0 \<Longrightarrow> \<exists>m'. memset p v n m = Some (p, m') \<and> (\<forall>x. m' x = (if p \<le> x \<and> x < p + n then v else m x))"
  by (simp add: memset_def memset_loop_apply)

lemma page_set_subset [simp]: "page_set b I \<subseteq> page_set b J \<longleftrightarrow> I \<subseteq> J"
  by (auto simp: page_set_def)

lemma page_run_inside:
  assumes "page_run p n \<subseteq> page_run b N" and "0 < n"
  obtains i where "p = b + 4096 * i" "i + n \<le> N" "page_run p n = page_set b {i..<i + n}"
proof -
  have "p \<in> page_run p n" using assms(2) by (auto simp: page_run_def page_set_def intro: image_eqI [of _ _ 0])
  with assms(1) obtain i where i: "p = b + 4096 * i" by (auto simp: page_run_def page_set_def)
  then have "{i..<i + n} \<subseteq> {..<N}"
    using assms(1) by (simp add: page_run_shift page_run_def [of b])
  with assms(2) have "i + n \<le> N" by (simp add: atLeastLessThan_subset_iff lessThan_atLeast0)
  with i show thesis by (auto intro: that simp: page_run_shift)
qed

lemma unlocked [simp]: "\<not> pool_lock p \<Longrightarrow> p\<lparr>pool_lock := False\<rparr> = p"
  "\<not> pool_lock p \<Longrightarrow> p\<lparr>pool_lock := False, used_map := b\<rparr> = p\<lparr>used_map := b\<rparr>"
  "\<not> pool_lock p \<Longrightarrow> p\<lparr>used_map := b, pool_lock := False\<rparr> = p\<lparr>used_map := b\<rparr>"
  by (cases p; simp)+

lemma palloc_get_multiple_None:
  assumes "pool_ok (the_pool u s)" and "0 < n" and "u = (flags AND PAL_USER \<noteq> 0)"
    and "bitmap_alloc (used_map (the_pool u s)) n = Some (None, used_map (the_pool u s))"
  shows "palloc_get_multiple flags n s = (if flags AND PAL_ASSERT \<noteq> 0 then None else Some (0, s))"
  using assms
  by (cases "bitmap_scan_and_flip (used_map (the_pool u s)) 0 n False")
    (auto simp: palloc_get_multiple_def bitmap_alloc_def pool_acquire_def pool_release_def pool_ok_def split: if_splits)

lemma palloc_get_multiple_Some:
  assumes "pool_ok (the_pool u s)" and "0 < n" and "u = (flags AND PAL_USER \<noteq> 0)"
    and "bitmap_alloc (used_map (the_pool u s)) n = Some (Some i, b)"
    and "p = base (the_pool u s) + 4096 * i" and "0 < p" and "p < 2 ^ 32" and "4096 * n < 2 ^ 32"
  shows "palloc_get_multiple flags n s =
    Some (p, repool u b (\<lambda>x. if flags AND PAL_ZERO \<noteq> 0 \<and> x \<in> extent p n then 0 else ram s x) s)"
proof -
  have b: "bitmap_scan_and_flip (used_map (the_pool u s)) 0 n False = Some (i, b)" "i \<noteq> BITMAP_ERROR"
    using assms(4) by (auto simp: bitmap_alloc_def bind_eq_Some_conv split: if_splits)
  have clr: "memset_loop (4096 * n) p 0 (ram s) = (\<lambda>x. if x \<in> extent p n then 0 else ram s x)"
    by (auto simp: memset_loop_apply extent_def)
  show ?thesis
    using assms b clr unfolding palloc_get_multiple_def Let_def
    by (auto simp: pool_acquire_def pool_release_def pool_ok_def repool_def set_pool_def memset_def)
qed

text \<open>
  The outcome of a request for \<open>n > 0\<close> pages: either no group of \<open>n\<close> pages is free, or the first page of such
  a group is returned and exactly these pages become used.
\<close>

lemma palloc_get_multiple_cases:
  assumes ok: "kmem_ok s" and n: "0 < n" and u: "u = (flags AND PAL_USER \<noteq> 0)"
  obtains "palloc_get_multiple flags n s = (if flags AND PAL_ASSERT \<noteq> 0 then None else Some (0, s))"
      "\<And>p. page_run p n \<subseteq> pool_pages u s \<Longrightarrow> page_run p n \<inter> used_pages u s \<noteq> {}"
  | p b m where "palloc_get_multiple flags n s = Some (p, repool u b m s)" "kmem_ok (repool u b m s)"
      "bit_cnt b = bit_cnt (used_map (the_pool u s))" "kernel_page p" "p + 4096 * n \<le> 2 ^ 32" "page_run p n \<subseteq> pool_pages u s" "page_run p n \<inter> used_pages u s = {}"
      "used_pages u (repool u b m s) = used_pages u s \<union> page_run p n" "\<And>v. pool_pages v (repool u b m s) = pool_pages v s"
      "m = (\<lambda>x. if flags AND PAL_ZERO \<noteq> 0 \<and> x \<in> extent p n then 0 else ram s x)"
proof -
  define P where "P = the_pool u s"
  have P: "pool_ok P" "bitmap_ok (used_map P)" using kmem_okD(1) [OF ok] by (simp_all add: P_def pool_ok_def)
  show thesis
  proof (rule bitmap_alloc_cases [OF P(2), of n])
    assume none: "bitmap_alloc (used_map P) n = Some (None, used_map P)"
      and busy: "\<And>i. i + n \<le> bit_cnt (used_map P) \<Longrightarrow> {i..<i + n} \<inter> bitmap_used (used_map P) \<noteq> {}"
    have "page_run p n \<inter> used_pages u s \<noteq> {}" if run: "page_run p n \<subseteq> pool_pages u s" for p
      by (rule page_run_inside [OF run [unfolded pool_pages_def] n])
        (use busy in \<open>auto simp: used_pages_def page_set_int P_def\<close>)
    then show thesis
      using palloc_get_multiple_None [OF P(1) [unfolded P_def] n u] none that(1) by (simp add: P_def)
  next
    fix i b assume b: "bitmap_alloc (used_map P) n = Some (Some i, b)" "bitmap_ok b" "bit_cnt b = bit_cnt (used_map P)"
      and i: "i + n \<le> bit_cnt (used_map P)" "{i..<i + n} \<inter> bitmap_used (used_map P) = {}"
        "bitmap_used b = bitmap_used (used_map P) \<union> {i..<i + n}"
    define p where "p = base P + 4096 * i"
    have p: "kernel_page p" "p + 4096 * n \<le> 2 ^ 32" "p \<noteq> 0" "p mod 2 ^ 32 = p"
      using P(1) i(1) n by (auto simp: p_def pool_ok_def kernel_page_def PHYS_BASE_def)
    have "4096 * n < 2 ^ 32" using p by (simp add: kernel_page_def PHYS_BASE_def)
    with palloc_get_multiple_Some [OF P(1) [unfolded P_def] n u, of i b p] b(1) p
    have get: "palloc_get_multiple flags n s =
        Some (p, repool u b (\<lambda>x. if flags AND PAL_ZERO \<noteq> 0 \<and> x \<in> extent p n then 0 else ram s x) s)"
      by (simp add: P_def p_def kernel_page_def)
    show thesis
    proof (rule that(2) [OF get])
      show "bit_cnt b = bit_cnt (used_map (the_pool u s))" using b(3) by (simp add: P_def)
      show "kmem_ok (repool u b m s)" for m using kmem_ok_repool [OF ok b(2)] b(3) by (simp add: P_def)
      show "page_run p n \<subseteq> pool_pages u s" "page_run p n \<inter> used_pages u s = {}"
        using i unfolding p_def page_run_shift pool_pages_def used_pages_def P_def
        by (auto simp: page_run_def page_set_int)
      show "used_pages u (repool u b m s) = used_pages u s \<union> page_run p n" for m
        using i(3) by (simp add: repool_pages p_def page_run_shift used_pages_def page_set_un P_def)
      show "pool_pages v (repool u b m s) = pool_pages v s" for m v
        using b(3) by (simp add: repool_pages P_def)
    qed (use p in auto)
  qed
qed

lemma page_run_one [simp]: "page_run p (Suc 0) = {p}"
  by (auto simp: page_run_def page_set_def)

lemma palloc_get_page_cases:
  assumes "kmem_ok s" and "u = (flags AND PAL_USER \<noteq> 0)"
  obtains "palloc_get_page flags s = (if flags AND PAL_ASSERT \<noteq> 0 then None else Some (0, s))"
      "pool_pages u s \<subseteq> used_pages u s"
  | p b m where "palloc_get_page flags s = Some (p, repool u b m s)" "kmem_ok (repool u b m s)"
      "kernel_page p" "p \<in> pool_pages u s" "p \<notin> used_pages u s"
      "used_pages u (repool u b m s) = insert p (used_pages u s)" "\<And>v. pool_pages v (repool u b m s) = pool_pages v s"
      "m = (\<lambda>x. if flags AND PAL_ZERO \<noteq> 0 \<and> x \<in> extent p (Suc 0) then 0 else ram s x)"
proof (rule palloc_get_multiple_cases [OF assms(1) zero_less_Suc [of 0] assms(2)])
  assume "palloc_get_multiple flags (Suc 0) s = (if flags AND PAL_ASSERT \<noteq> 0 then None else Some (0, s))"
    and "\<And>p. page_run p (Suc 0) \<subseteq> pool_pages u s \<Longrightarrow> page_run p (Suc 0) \<inter> used_pages u s \<noteq> {}"
  then show thesis by (intro that(1)) (auto simp: palloc_get_page_def)
next
  fix p b m
  assume "palloc_get_multiple flags (Suc 0) s = Some (p, repool u b m s)" "kmem_ok (repool u b m s)"
    "kernel_page p" "page_run p (Suc 0) \<subseteq> pool_pages u s" "page_run p (Suc 0) \<inter> used_pages u s = {}"
    "used_pages u (repool u b m s) = used_pages u s \<union> page_run p (Suc 0)"
    "\<And>v. pool_pages v (repool u b m s) = pool_pages v s"
    "m = (\<lambda>x. if flags AND PAL_ZERO \<noteq> 0 \<and> x \<in> extent p (Suc 0) then 0 else ram s x)"
  then show thesis by (intro that(2) [of p b m]) (simp_all add: palloc_get_page_def)
qed

section \<open>Release\<close>

lemma page_from_pool_iff:
  assumes "pool_ok p" and "q mod 4096 = 0" and "q < 2 ^ 32"
  shows "page_from_pool p q \<longleftrightarrow> q \<in> page_run (base p) (bit_cnt (used_map p))"
proof -
  obtain k where k: "q = 4096 * k" using assms(2) by auto
  obtain l where l: "base p = 4096 * l" using assms(1) by (auto simp: pool_ok_def kernel_page_def)
  have "l + bit_cnt (used_map p) < 2 ^ 32" "base p < 2 ^ 32"
    using assms(1) by (auto simp: pool_ok_def kernel_page_def l)
  then have "page_from_pool p q \<longleftrightarrow> l \<le> k \<and> k < l + bit_cnt (used_map p)"
    using assms(3) by (simp add: page_from_pool_def pg_no_eq k l bitmap_size_def)
  also have "\<dots> \<longleftrightarrow> (\<exists>i < bit_cnt (used_map p). k = l + i)" by (metis add_less_cancel_left le_add1 le_iff_add)
  also have "\<dots> \<longleftrightarrow> q \<in> page_run (base p) (bit_cnt (used_map p))"
    by (auto simp: page_run_def page_set_def k l)
  finally show ?thesis .
qed

lemma bitmap_all_iff:
  assumes "bitmap_ok b" and "i + n \<le> bit_cnt b"
  shows "bitmap_all b i n = Some ({i..<i + n} \<subseteq> bitmap_used b)"
proof -
  have "has_run (bitmap_bits b) i n True \<longleftrightarrow> {i..<i + n} \<subseteq> bitmap_used b"
  proof -
    have "(\<forall>k < n. bitmap_bits b ! (i + k)) \<longleftrightarrow> (\<forall>k \<in> {i..<i + n}. bitmap_bits b ! k)"
      by (metis add_less_cancel_left atLeastLessThan_iff le_add1 le_iff_add)
    with assms(2) show ?thesis by (auto simp: has_run_iff_nth bitmap_used_def)
  qed
  with bitmap_contains_refine [OF assms, of False] show ?thesis by (simp add: bitmap_all_def)
qed

text \<open>What \<^verbatim>\<open>palloc_free_multiple\<close> does with pages of a pool.\<close>

lemma palloc_free_multiple_pool:
  assumes ok: "kmem_ok s" and n: "0 < n" and P: "P = the_pool u s"
    and i: "p = base P + 4096 * i" "i < bit_cnt (used_map P)" and fits: "p + 4096 * n \<le> 2 ^ 32"
  shows "palloc_free_multiple p n s = do {
    a \<leftarrow> bitmap_all (used_map P) i n;
    ASSERT a;
    b \<leftarrow> bitmap_set_multiple (used_map P) i n False;
    Some (repool u b (\<lambda>x. if x \<in> extent p n then 0xcc else ram s x) s)
  }"
proof -
  have p: "kernel_page p" using the_pool_page [OF ok, of i u] i P by simp
  have "p \<in> pool_pages u s" using i by (auto simp: pool_pages_def page_run_def P)
  then have which: "page_from_pool (the_pool v s) p \<longleftrightarrow> v = u" for v
    using page_from_pool_iff [OF kmem_okD(1) [OF ok], of p v] p kmem_okD(3) [OF ok]
    by (cases u; cases v) (auto simp: kernel_page_def pool_pages_def)
  from which [of False] which [of True]
  have user: "(if page_from_pool (kernel_pool s) p then Some False
      else if page_from_pool (user_pool s) p then Some True else None) = Some u"
    by (simp add: the_pool_def)
  obtain l where "base P = 4096 * l" using kmem_okD(1) [OF ok, of u] by (auto simp: pool_ok_def kernel_page_def P)
  then have idx: "(pg_no p - pg_no (base P)) mod 2 ^ 32 = i"
    using p i(1) by (simp add: kernel_page_def pg_no_eq)
  have "memset_loop (4096 * n) p 0xcc (ram s) = (\<lambda>x. if x \<in> extent p n then 0xcc else ram s x)"
    by (auto simp: memset_loop_apply extent_def)
  with p n user idx fits show ?thesis
    unfolding palloc_free_multiple_def
    by (auto simp: kernel_page_def pg_ofs_eq PHYS_BASE_def memset_def repool_def P Let_def)
qed

text \<open>Pages in use are given back; the memory of other pages is not touched.\<close>

lemma palloc_free_multiple_ok:
  assumes ok: "kmem_ok s" and n: "0 < n" and used: "page_run p n \<subseteq> used_pages u s"
  obtains b m where "palloc_free_multiple p n s = Some (repool u b m s)" "kmem_ok (repool u b m s)"
    "used_pages u (repool u b m s) = used_pages u s - page_run p n"
    "\<And>v. pool_pages v (repool u b m s) = pool_pages v s"
    "m = (\<lambda>x. if x \<in> extent p n then 0xcc else ram s x)"
proof -
  define P where "P = the_pool u s"
  have P: "pool_ok P" "bitmap_ok (used_map P)" using kmem_okD(1) [OF ok] by (simp_all add: P_def pool_ok_def)
  have "page_run p n \<subseteq> page_run (base P) (bit_cnt (used_map P))"
    using used by (auto simp: used_pages_def page_run_def page_set_def bitmap_used_def P_def)
  from page_run_inside [OF this n] obtain i where i: "p = base P + 4096 * i" "i + n \<le> bit_cnt (used_map P)"
      "page_run p n = page_set (base P) {i..<i + n}" by blast
  have "p + 4096 * n \<le> 2 ^ 32" using P(1) i n by (auto simp: pool_ok_def kernel_page_def)
  note pool = palloc_free_multiple_pool [OF ok n P_def i(1) _ this]
  have "bitmap_all (used_map P) i n = Some True"
    using bitmap_all_iff [OF P(2) i(2)] used i(3) by (simp add: used_pages_def P_def)
  moreover obtain b where b: "bitmap_set_multiple (used_map P) i n False = Some b" "bitmap_ok b"
      "bit_cnt b = bit_cnt (used_map P)" "bitmap_bits b = set_run (bitmap_bits (used_map P)) i n False"
    using bitmap_set_multiple_refine [OF P(2) i(2), of False] by blast
  ultimately have free: "palloc_free_multiple p n s =
      Some (repool u b (\<lambda>x. if x \<in> extent p n then 0xcc else ram s x) s)"
    using pool i(2) n by simp
  show thesis
  proof (rule that [OF free])
    show "kmem_ok (repool u b m s)" for m using kmem_ok_repool [OF ok b(2)] b(3) by (simp add: P_def)
    show "used_pages u (repool u b m s) = used_pages u s - page_run p n" for m
      using bitmap_used_set_run [OF i(2) b(3,4)]
      by (simp add: repool_pages i(3) used_pages_def page_set_diff P_def)
    show "pool_pages v (repool u b m s) = pool_pages v s" for m v
      using b(3) by (simp add: repool_pages P_def)
  qed simp
qed

lemma palloc_free_page_ok:
  assumes "kmem_ok s" and "p \<in> used_pages u s"
  obtains b m where "palloc_free_page p s = Some (repool u b m s)" "kmem_ok (repool u b m s)"
    "used_pages u (repool u b m s) = used_pages u s - {p}"
    "\<And>v. pool_pages v (repool u b m s) = pool_pages v s"
    "m = (\<lambda>x. if x \<in> extent p (Suc 0) then 0xcc else ram s x)"
proof (rule palloc_free_multiple_ok [OF assms(1) zero_less_Suc [of 0], of p u])
  show "page_run p (Suc 0) \<subseteq> used_pages u s" using assms(2) by simp
qed (rule that, simp_all add: palloc_free_page_def)

text \<open>A page that is not in use, for instance one that has been freed before, stops the kernel.\<close>

lemma palloc_free_page_unused:
  assumes ok: "kmem_ok s" and p: "p mod 4096 = 0" "p < 2 ^ 32" "p \<noteq> 0"
    and unused: "p \<notin> used_pages False s" "p \<notin> used_pages True s"
  shows "palloc_free_page p s = None"
proof (cases "\<exists>u. p \<in> pool_pages u s")
  case True
  then obtain u where u: "p \<in> pool_pages u s" ..
  define P where "P = the_pool u s"
  have P: "pool_ok P" "bitmap_ok (used_map P)" using kmem_okD(1) [OF ok] by (simp_all add: P_def pool_ok_def)
  from u obtain i where i: "p = base P + 4096 * i" "i + 1 \<le> bit_cnt (used_map P)"
    by (auto simp: pool_pages_def page_run_def page_set_def P_def)
  have "p + 4096 * 1 \<le> 2 ^ 32" using P(1) i by (auto simp: pool_ok_def)
  moreover have "bitmap_all (used_map P) i 1 = Some False"
    using bitmap_all_iff [OF P(2) i(2)] unused i by (cases u) (auto simp: used_pages_def P_def)
  ultimately show ?thesis
    using palloc_free_multiple_pool [OF ok zero_less_one P_def i(1)] i(2) by (simp add: palloc_free_page_def)
next
  case False
  then have "\<not> page_from_pool (the_pool u s) p" for u
    using page_from_pool_iff [OF kmem_okD(1) [OF ok] p(1,2)] by (simp add: pool_pages_def)
  from this [of False] this [of True] show ?thesis
    using p by (simp add: palloc_free_page_def palloc_free_multiple_def pg_ofs_eq the_pool_def)
qed

section \<open>Initialization\<close>

text \<open>The storage of the bitmap takes at least one page and never more than the pool has.\<close>

lemma bitmap_buf_size_eq: "n < 2 ^ 20 \<Longrightarrow> bitmap_buf_size n = 8 + 4 * ((n + 31) div 32)"
  by (simp add: bitmap_buf_size_def byte_cnt_def elem_cnt_def ELEM_BITS_def DIV_ROUND_UP_def)

lemma bm_pages_bounds:
  assumes "0 < n" and "n < 2 ^ 20" and "k = DIV_ROUND_UP (bitmap_buf_size n) 4096"
  shows "0 < k" "k \<le> n" "bitmap_buf_size (n - k) \<le> k * 4096"
proof -
  define z where "z = bitmap_buf_size n"
  have z: "8 \<le> z" "z + 4096 \<le> 2 ^ 32" "z \<le> n * 4096"
    using assms(1,2) by (auto simp: z_def bitmap_buf_size_eq)
  have "bitmap_buf_size (n - k) \<le> z"
    using assms(1,2) by (simp add: z_def bitmap_buf_size_eq div_le_mono)
  moreover have "z \<le> k * 4096" using DIV_ROUND_UP_bounds [of 4096 z] z by (simp add: assms(3) z_def)
  ultimately show "bitmap_buf_size (n - k) \<le> k * 4096" "0 < k" using z(1) by (auto intro: Nat.gr0I)
  show "k \<le> n" using DIV_ROUND_UP_least [of 4096 z n] z by (simp add: assms(3) z_def)
qed

lemma init_pool_ok:
  assumes n: "0 < n" "n < 2 ^ 18" and start: "kernel_page start" "start + 4096 * n < 2 ^ 32"
  obtains b k where "init_pool u start n s =
      Some (set_pool u \<lparr>pool_lock = False, used_map = b, base = start + 4096 * k\<rparr> s)"
    "0 < k" "bit_cnt b = n - k" "k \<le> n" "bitmap_used b = {}"
    "pool_ok \<lparr>pool_lock = False, used_map = b, base = start + 4096 * k\<rparr>"
proof -
  define k where "k = DIV_ROUND_UP (bitmap_buf_size n) 4096"
  have k: "0 < k" "k \<le> n" "bitmap_buf_size (n - k) \<le> k * 4096"
    using bm_pages_bounds [OF n(1) _ k_def] n(2) by auto
  have "n - k + 32 \<le> 2 ^ 32" "k * 4096 \<le> 4 * length (words_at (ram s) start (k * 4096 div 4))"
    using n(2) by (simp_all add: words_at_def)
  from bitmap_create_in_buf_refine [OF this(1) k(3) this(2)]
  obtain b where b: "bitmap_create_in_buf (n - k) (words_at (ram s) start (k * 4096 div 4)) (k * 4096) = Some b"
      "bitmap_ok b" "bit_cnt b = n - k" "bitmap_bits b = replicate (n - k) False"
    by blast
  have "start + k * 4096 < 2 ^ 32" using start(2) k(2) by simp
  then have "init_pool u start n s =
      Some (set_pool u \<lparr>pool_lock = False, used_map = b, base = start + 4096 * k\<rparr> s)"
    using b(1) k(2) by (simp add: init_pool_def k_def [symmetric] mult.commute)
  moreover have "bitmap_used b = {}" using b(3,4) by (simp add: bitmap_used_def)
  moreover have "pool_ok \<lparr>pool_lock = False, used_map = b, base = start + 4096 * k\<rparr>"
    using start b(2,3) k(2) \<open>start + k * 4096 < 2 ^ 32\<close> by (auto simp: pool_ok_def kernel_page_def)
  ultimately show thesis using that k(1,2) b(3) by blast
qed

lemma ptov_bytes:
  assumes "n < 2 ^ 30"
  shows "ptov (word n) = Some (PHYS_BASE + n)"
proof -
  have "unat (word n) = n" using assms by (intro unat_word) simp
  with assms show ?thesis by (subst ptov_eq) (simp_all add: PHYS_BASE_def)
qed

lemma free_page_count:
  assumes "N < 2 ^ 18"
  shows "nat (c_div (int32 (int (PHYS_BASE + (N + 256) * 4096) - int (PHYS_BASE + 1024 * 1024))) (int 4096) mod 2 ^ 32) = N"
proof -
  have "int (PHYS_BASE + (N + 256) * 4096) - int (PHYS_BASE + 1024 * 1024) = int N * 4096" by simp
  moreover have "int32 (int N * 4096) = int N * 4096"
    using assms unfolding int32_def by (intro sint_of_int_small) simp_all
  moreover have "c_div (int N * 4096) (int 4096) = int N" by (simp add: c_div_def sgn_if)
  ultimately show ?thesis using assms by simp
qed

lemma palloc_init_split:
  assumes "init_ram_pages s = N + 256" and "N + 256 < 2 ^ 18"
    and "U = min (N div 2) limit" and "K = N - U" and "start = PHYS_BASE + 1024 * 1024"
  shows "palloc_init limit s = do {
      s \<leftarrow> init_pool False start K s;
      init_pool True (start + 4096 * K) U s
    }"
proof -
  have "ptov (word (1024 * 1024)) = Some start" using ptov_bytes [of "1024 * 1024"] by (simp add: assms(5))
  moreover have "ptov (word (init_ram_pages s * 4096)) = Some (PHYS_BASE + (N + 256) * 4096)"
    using assms(2) unfolding assms(1) by (intro ptov_bytes) simp
  moreover have "nat (c_div (int32 (int (PHYS_BASE + (N + 256) * 4096) - int start)) (int 4096) mod 2 ^ 32) = N"
    unfolding assms(5) using assms(2) by (intro free_page_count) simp
  moreover have "start + K * 4096 < 2 ^ 32" "K * 4096 = 4096 * K"
    using assms by (auto simp: PHYS_BASE_def)
  ultimately show ?thesis
    unfolding palloc_init_def PGSIZE_eq by (simp only: bind.bind_lunit Let_def mod_less assms(3,4) min_def not_le)
      (auto simp: not_less mult.commute)
qed

text \<open>
  With at least 258 pages of physical memory (1 MB and two pages) and less than 1 GB, both pools are set up,
  empty, disjoint, and inside the free memory.
\<close>

lemma palloc_init_ok:
  assumes ram: "258 \<le> init_ram_pages s" "init_ram_pages s < 2 ^ 18" and limit: "0 < limit"
  obtains s' where "palloc_init limit s = Some s'" "kmem_ok s'" "\<And>u. used_pages u s' = {}"
    "bit_cnt (used_map (user_pool s')) < limit"
    "\<And>u. pool_pages u s' \<subseteq> page_run (PHYS_BASE + 1024 * 1024) (init_ram_pages s - 256)" "ram s' = ram s"
proof -
  define N U K start where defs: "N = init_ram_pages s - 256" "U = min (N div 2) limit" "K = N - U"
    "start = PHYS_BASE + 1024 * 1024"
  have N: "init_ram_pages s = N + 256" "2 \<le> N" "N + 256 < 2 ^ 18" using ram by (simp_all add: defs(1))
  have U: "0 < U" "U \<le> N div 2" "U \<le> limit" using N(2) limit by (simp_all add: defs(2))
  have sz: "U < 2 ^ 18" "0 < K" "K < 2 ^ 18" "K + U = N" using N U by (simp_all add: defs(3))
  have start: "start = 0xc0100000" by (simp add: defs(4) PHYS_BASE_def)
  have fit: "kernel_page start" "start + 4096 * K < 2 ^ 32" "kernel_page (start + 4096 * K)"
      "start + 4096 * K + 4096 * U < 2 ^ 32"
    using N(3) sz by (simp_all add: start kernel_page_def PHYS_BASE_def)
  obtain b k where b: "init_pool False start K s =
        Some (set_pool False \<lparr>pool_lock = False, used_map = b, base = start + 4096 * k\<rparr> s)"
      "0 < k" "bit_cnt b = K - k" "k \<le> K" "bitmap_used b = {}"
      "pool_ok \<lparr>pool_lock = False, used_map = b, base = start + 4096 * k\<rparr>"
    by (rule init_pool_ok [OF sz(2,3) fit(1,2)])
  define s1 where "s1 = set_pool False \<lparr>pool_lock = False, used_map = b, base = start + 4096 * k\<rparr> s"
  obtain c l where c: "init_pool True (start + 4096 * K) U s1 =
        Some (set_pool True \<lparr>pool_lock = False, used_map = c, base = start + 4096 * K + 4096 * l\<rparr> s1)"
      "0 < l" "bit_cnt c = U - l" "l \<le> U" "bitmap_used c = {}"
      "pool_ok \<lparr>pool_lock = False, used_map = c, base = start + 4096 * K + 4096 * l\<rparr>"
    by (rule init_pool_ok [OF U(1) sz(1) fit(3,4)])
  define s2 where "s2 = set_pool True \<lparr>pool_lock = False, used_map = c, base = start + 4096 * K + 4096 * l\<rparr> s1"
  have pools: "kernel_pool s2 = \<lparr>pool_lock = False, used_map = b, base = start + 4096 * k\<rparr>"
      "user_pool s2 = \<lparr>pool_lock = False, used_map = c, base = start + 4096 * K + 4096 * l\<rparr>"
      "ram s2 = ram s" "init_ram_pages s2 = init_ram_pages s"
    by (simp_all add: s1_def s2_def set_pool_def)
  have run: "page_run (start + 4096 * i) n \<subseteq> page_run start N" if "i + n \<le> N" for i n
    using that unfolding page_run_shift by (auto simp: page_run_def)
  show thesis
  proof (rule that [of s2])
    show "palloc_init limit s = Some s2"
      using palloc_init_split [OF N(1,3) defs(2,3,4)] b(1) c(1) by (simp add: s1_def [symmetric] s2_def)
    show "kmem_ok s2"
      unfolding kmem_ok_def pools N(1) using b(3,4,6) c(3,4,6) sz(4) by (simp add: start PHYS_BASE_def, arith)
    show "used_pages u s2 = {}" for u using b(5) c(5) by (simp add: used_pages_def the_pool_def pools)
    show "bit_cnt (used_map (user_pool s2)) < limit" using c(2,3,4) U(3) by (simp add: pools)
    show "pool_pages u s2 \<subseteq> page_run (PHYS_BASE + 1024 * 1024) (init_ram_pages s - 256)" for u
      using run [of k "K - k"] run [of "K + l" "U - l"] b(3,4) c(3,4) sz(4)
      by (simp add: pool_pages_def the_pool_def pools N(1) defs(4) [symmetric] distrib_left add.assoc
        del: mult_numeral_1 mult_Suc numeral_times_numeral)
  qed (simp add: pools)
qed

section \<open>The pools as allocators\<close>

text \<open>
  Each pool is an allocator of runs, the units being the pages counted from its base.  A request for no pages,
  which \<^verbatim>\<open>palloc_get_multiple\<close> answers with a null pointer, is the empty run.
\<close>

definition pool_alloc :: "bool \<Rightarrow> 'a kmem_scheme \<Rightarrow> nat \<Rightarrow> (nat option \<times> 'a kmem_scheme) option" where
  "pool_alloc u s n =
     (if n = 0 then Some (Some 0, s)
      else do {
        (p, s') \<leftarrow> palloc_get_multiple (if u then PAL_USER else 0) n s;
        Some (if p = 0 then None else Some ((p - base (the_pool u s)) div 4096), s')
      })"

definition pool_free :: "bool \<Rightarrow> 'a kmem_scheme \<Rightarrow> nat \<Rightarrow> nat \<Rightarrow> 'a kmem_scheme option" where
  "pool_free u s i n = palloc_free_multiple (base (the_pool u s) + 4096 * i) n s"

definition pool_used :: "bool \<Rightarrow> 'a kmem_scheme \<Rightarrow> nat set" where
  "pool_used u s = bitmap_used (used_map (the_pool u s))"

definition pool_size :: "bool \<Rightarrow> 'a kmem_scheme \<Rightarrow> nat" where
  "pool_size u s = bit_cnt (used_map (the_pool u s))"

lemma pool_flag: "u = ((if u then PAL_USER else 0) AND PAL_USER \<noteq> 0)"
  "(if u then PAL_USER else 0) AND PAL_ASSERT = 0"
  by (simp_all add: PAL_USER_def PAL_ASSERT_def)

lemma pool_alloc_cases:
  assumes "kmem_ok s" and "0 < n"
  obtains "pool_alloc u s n = Some (None, s)" "\<And>i. i + n \<le> pool_size u s \<Longrightarrow> {i..<i + n} \<inter> pool_used u s \<noteq> {}"
  | i b m where "pool_alloc u s n = Some (Some i, repool u b m s)" "kmem_ok (repool u b m s)"
    "i + n \<le> pool_size u s" "{i..<i + n} \<inter> pool_used u s = {}"
    "pool_used u (repool u b m s) = pool_used u s \<union> {i..<i + n}" "pool_size u (repool u b m s) = pool_size u s"
proof (rule palloc_get_multiple_cases [OF assms pool_flag(1) [of u]])
  assume get: "palloc_get_multiple (if u then PAL_USER else 0) n s =
      (if (if u then PAL_USER else 0) AND PAL_ASSERT \<noteq> 0 then None else Some (0, s))"
    and busy: "\<And>p. page_run p n \<subseteq> pool_pages u s \<Longrightarrow> page_run p n \<inter> used_pages u s \<noteq> {}"
  have "{i..<i + n} \<inter> pool_used u s \<noteq> {}" if "i + n \<le> pool_size u s" for i
  proof -
    have "{i..<i + n} \<subseteq> {..<pool_size u s}" using that by auto
    then show ?thesis
      using busy [of "base (the_pool u s) + 4096 * i"] unfolding page_run_shift pool_pages_def used_pages_def
      by (simp add: page_run_def page_set_int pool_used_def pool_size_def)
  qed
  with get show thesis using assms(2) by (intro that(1)) (simp_all add: pool_alloc_def pool_flag)
next
  fix p b m
  assume get: "palloc_get_multiple (if u then PAL_USER else 0) n s = Some (p, repool u b m s)"
      "kmem_ok (repool u b m s)" "kernel_page p" "page_run p n \<subseteq> pool_pages u s" "page_run p n \<inter> used_pages u s = {}"
      "used_pages u (repool u b m s) = used_pages u s \<union> page_run p n" "bit_cnt b = bit_cnt (used_map (the_pool u s))"
  from page_run_inside [OF get(4) [unfolded pool_pages_def] assms(2)] obtain i where
    i: "p = base (the_pool u s) + 4096 * i" "i + n \<le> pool_size u s"
      "page_run p n = page_set (base (the_pool u s)) {i..<i + n}"
    unfolding pool_size_def by blast
  have alloc: "pool_alloc u s n = Some (Some i, repool u b m s)"
    using get(1,3) assms(2) i(1) by (auto simp: pool_alloc_def kernel_page_def PHYS_BASE_def)
  have "page_set (base (the_pool u s)) (bitmap_used b) = page_set (base (the_pool u s)) (pool_used u s \<union> {i..<i + n})"
    using get(6) i(3) by (simp add: repool_pages used_pages_def page_set_un pool_used_def)
  then have "bitmap_used b = pool_used u s \<union> {i..<i + n}"
    by (metis page_set_subset subset_antisym subset_refl)
  then show thesis
    using get(2,5,7) i by (intro that(2) [OF alloc]) (simp_all add: pool_used_def pool_size_def used_pages_def page_set_int)
qed

lemma page_set_inject [simp]: "page_set b I = page_set b J \<longleftrightarrow> I = J"
  by (metis page_set_subset subset_antisym subset_refl)

lemma pool_free_ok:
  assumes ok: "kmem_ok s" and "i + n \<le> pool_size u s" and used: "{i..<i + n} \<subseteq> pool_used u s"
  shows "\<exists>s'. pool_free u s i n = Some s' \<and> kmem_ok s' \<and> pool_size u s' = pool_size u s \<and>
    pool_used u s' = pool_used u s - {i..<i + n}"
proof (cases "n = 0")
  case True
  have "base (the_pool u s) mod 4096 = 0" using kmem_okD(1) [OF ok, of u] by (simp add: pool_ok_def kernel_page_def)
  with True ok show ?thesis by (simp add: pool_free_def palloc_free_multiple_def pg_ofs_eq)
next
  case False
  let ?p = "base (the_pool u s) + 4096 * i"
  have run: "page_run ?p n \<subseteq> used_pages u s"
    unfolding page_run_shift used_pages_def using used by (simp add: pool_used_def)
  show ?thesis
  proof (rule palloc_free_multiple_ok [OF ok _ run])
    fix b m assume "palloc_free_multiple ?p n s = Some (repool u b m s)" "kmem_ok (repool u b m s)"
      "used_pages u (repool u b m s) = used_pages u s - page_run ?p n"
      and "\<And>v. pool_pages v (repool u b m s) = pool_pages v s"
    from this(1-3) this(4) [of u] show ?thesis
      unfolding page_run_shift by (auto simp: repool_pages used_pages_def page_set_diff pool_free_def pool_used_def
        pool_size_def pool_pages_def page_run_def)
  qed (use False in simp)
qed

interpretation pool_runs: run_allocator kmem_ok "pool_size u" "pool_used u" "pool_alloc u" "pool_free u" for u
proof unfold_locales
  fix s :: "'a kmem_scheme" and n i :: nat
  assume ok: "kmem_ok s"
  show "\<exists>r s'. pool_alloc u s n = Some (r, s')"
    by (cases "n = 0") (simp add: pool_alloc_def, rule pool_alloc_cases [OF ok, of n u], auto)
  show "kmem_ok s' \<and> pool_size u s' = pool_size u s" if "pool_alloc u s n = Some (r, s')" for r s'
    using that ok by (cases "n = 0") (simp add: pool_alloc_def, rule pool_alloc_cases [OF ok, of n u], auto)
  show "i + n \<le> pool_size u s \<and> {i..<i + n} \<inter> pool_used u s = {} \<and> pool_used u s' = pool_used u s \<union> {i..<i + n}"
    if "pool_alloc u s n = Some (Some i, s')" for s'
    using that by (cases "n = 0") (simp add: pool_alloc_def, rule pool_alloc_cases [OF ok, of n u], auto)
  show "s' = s \<and> (\<forall>i. i + n \<le> pool_size u s \<longrightarrow> {i..<i + n} \<inter> pool_used u s \<noteq> {})"
    if "pool_alloc u s n = Some (None, s')" for s'
    using that by (cases "n = 0") (simp add: pool_alloc_def, rule pool_alloc_cases [OF ok, of n u], auto)
  show "\<exists>s'. pool_free u s i n = Some s' \<and> kmem_ok s' \<and> pool_size u s' = pool_size u s \<and>
      pool_used u s' = pool_used u s - {i..<i + n}"
    if "i + n \<le> pool_size u s" "{i..<i + n} \<subseteq> pool_used u s"
    using pool_free_ok [OF ok that] by blast
qed

section \<open>Properties\<close>

text \<open>A small machine: two pages in the kernel pool, the first one used, and three free pages in the user pool.\<close>

definition demo_kmem :: kmem where
  "demo_kmem = \<lparr>ram = (\<lambda>_. 7), kernel_pool = \<lparr>pool_lock = False, used_map = \<lparr>bit_cnt = 2, bits = [1]\<rparr>, base = 0xc0101000\<rparr>,
     user_pool = \<lparr>pool_lock = False, used_map = \<lparr>bit_cnt = 3, bits = [0]\<rparr>, base = 0xc0104000\<rparr>, init_ram_pages = 1024\<rparr>"

lemma demo_kmem_ok: "kmem_ok demo_kmem"
  by (simp add: demo_kmem_def kmem_ok_def pool_ok_def bitmap_ok_def elem_cnt_def ELEM_BITS_def DIV_ROUND_UP_def
    kernel_page_def PHYS_BASE_def)

text \<open>
  C15. \<^verbatim>\<open>palloc_get_multiple\<close> hands out a group of contiguous pages of the right pool of which none was in use, and
  marks exactly these as used; they are zeroed if \<^verbatim>\<open>PAL_ZERO\<close> is set, and all other memory and the other pool are
  unchanged.  It fails (a null pointer, or a panic with \<^verbatim>\<open>PAL_ASSERT\<close>) only if no such group is free.  Giving the
  pages back with \<^verbatim>\<open>palloc_free_multiple\<close> restores the set of pages in use.
\<close>

theorem palloc_get_multiple_correct:
  assumes "kmem_ok s" and "0 < n" and "u = (flags AND PAL_USER \<noteq> 0)"
  shows "case palloc_get_multiple flags n s of
      None \<Rightarrow> flags AND PAL_ASSERT \<noteq> 0 \<and> \<not> (\<exists>p. page_run p n \<subseteq> pool_pages u s - used_pages u s)
    | Some (p, s') \<Rightarrow>
        if p = 0 then s' = s \<and> \<not> (\<exists>p. page_run p n \<subseteq> pool_pages u s - used_pages u s)
        else kmem_ok s' \<and> page_run p n \<subseteq> pool_pages u s - used_pages u s \<and>
          used_pages u s' = used_pages u s \<union> page_run p n \<and> the_pool (\<not> u) s' = the_pool (\<not> u) s \<and>
          (\<forall>x. ram s' x = (if flags AND PAL_ZERO \<noteq> 0 \<and> p \<le> x \<and> x < p + 4096 * n then 0 else ram s x)) \<and>
          (\<exists>s''. palloc_free_multiple p n s' = Some s'' \<and> used_pages u s'' = used_pages u s)"
proof (rule palloc_get_multiple_cases [OF assms])
  assume "palloc_get_multiple flags n s = (if flags AND PAL_ASSERT \<noteq> 0 then None else Some (0, s))"
    and busy: "\<And>p. page_run p n \<subseteq> pool_pages u s \<Longrightarrow> page_run p n \<inter> used_pages u s \<noteq> {}"
  moreover from busy have "\<not> (\<exists>p. page_run p n \<subseteq> pool_pages u s - used_pages u s)" by blast
  ultimately show ?thesis by simp
next
  fix p b m
  assume get: "palloc_get_multiple flags n s = Some (p, repool u b m s)" "kmem_ok (repool u b m s)" "kernel_page p"
      "page_run p n \<subseteq> pool_pages u s" "page_run p n \<inter> used_pages u s = {}"
      "used_pages u (repool u b m s) = used_pages u s \<union> page_run p n"
      "m = (\<lambda>x. if flags AND PAL_ZERO \<noteq> 0 \<and> x \<in> extent p n then 0 else ram s x)"
  have "page_run p n \<subseteq> used_pages u (repool u b m s)" using get(6) by simp
  from palloc_free_multiple_ok [OF get(2) assms(2) this] get(5,6)
  have "\<exists>s''. palloc_free_multiple p n (repool u b m s) = Some s'' \<and> used_pages u s'' = used_pages u s"
    by (metis Diff_cancel Diff_triv Int_commute Un_Diff sup_bot_right)
  moreover have "the_pool (\<not> u) (repool u b m s) = the_pool (\<not> u) s" by (simp add: repool_def)
  ultimately show ?thesis using get by (auto simp: extent_def kernel_page_def PHYS_BASE_def)
qed

theorem palloc_get_multiple_correct_witness:
  "case palloc_get_multiple (PAL_USER OR PAL_ZERO) 2 demo_kmem of
     None \<Rightarrow> False
   | Some (p, s') \<Rightarrow> used_pages True s' = used_pages True demo_kmem \<union> page_run p 2 \<and> p \<noteq> 0 \<and>
       (\<exists>s''. palloc_free_multiple p 2 s' = Some s'' \<and> used_pages True s'' = used_pages True demo_kmem)"
proof -
  have "page_run 0xc0104000 2 \<subseteq> page_run 0xc0104000 3" by (auto simp: page_run_def)
  moreover have "bitmap_used \<lparr>bit_cnt = 3, bits = [0]\<rparr> = {}" by (auto simp: bitmap_used_def bitmap_bits_def)
  ultimately have "\<exists>p. page_run p 2 \<subseteq> pool_pages True demo_kmem - used_pages True demo_kmem"
    by (auto simp: demo_kmem_def pool_pages_def used_pages_def the_pool_def page_set_def)
  then show ?thesis
    using palloc_get_multiple_correct [OF demo_kmem_ok, of 2 True "PAL_USER OR PAL_ZERO"]
    by (auto simp: PAL_USER_def PAL_ZERO_def split: option.splits if_splits)
qed

text \<open>
  C28. Any sequence of requests to a pool returns; the groups of pages it hands out are pairwise disjoint, were
  free before, and are the only pages that become used.
\<close>

theorem palloc_requests_disjoint:
  assumes "kmem_ok s" and "pages_of = (\<lambda>r. page_run (base (the_pool u s) + 4096 * fst r) (snd r))"
  shows "\<exists>rs s'. alloc_all (pool_alloc u) ns s = Some (rs, s') \<and> kmem_ok s' \<and>
    pool_used u s' = pool_used u s \<union> (\<Union>r \<in> set rs. run_set r) \<and>
    sorted_wrt (\<lambda>p q. pages_of p \<inter> pages_of q = {}) rs \<and>
    (\<forall>r \<in> set rs. pages_of r \<subseteq> pool_pages u s - used_pages u s)"
proof -
  obtain rs s' where rs: "alloc_all (pool_alloc u) ns s = Some (rs, s')" "kmem_ok s'"
      "pool_used u s' = pool_used u s \<union> (\<Union>r \<in> set rs. run_set r)"
      "sorted_wrt (\<lambda>p q. run_set p \<inter> run_set q = {}) rs"
      "\<forall>r \<in> set rs. fst r + snd r \<le> pool_size u s \<and> run_set r \<inter> pool_used u s = {}"
    using pool_runs.alloc_all_disjoint [OF assms(1)] by blast
  have pages_of: "pages_of r = page_set (base (the_pool u s)) (run_set r)" for r
    by (simp add: assms(2) page_run_shift run_set_def)
  have "pages_of r \<subseteq> pool_pages u s - used_pages u s" if "r \<in> set rs" for r
  proof -
    have "run_set r \<subseteq> {..<pool_size u s} - pool_used u s" using rs(5) that by (auto simp: run_set_def)
    then show ?thesis
      unfolding pages_of pool_pages_def page_run_def used_pages_def page_set_diff page_set_subset
      by (simp add: pool_size_def pool_used_def)
  qed
  with rs show ?thesis by (auto simp: pages_of page_set_int)
qed

theorem palloc_requests_disjoint_witness:
  "\<exists>rs s'. alloc_all (pool_alloc True) [2, 2, 1] demo_kmem = Some (rs, s') \<and> kmem_ok s' \<and>
    (\<forall>r \<in> set rs. page_run (0xc0104000 + 4096 * fst r) (snd r) \<subseteq> pool_pages True demo_kmem)"
proof -
  have "base (the_pool True demo_kmem) = 0xc0104000" by (simp add: demo_kmem_def the_pool_def)
  then obtain rs s' where rs: "alloc_all (pool_alloc True) [2, 2, 1] demo_kmem = Some (rs, s')" "kmem_ok s'"
      "\<forall>r \<in> set rs. page_run (0xc0104000 + 4096 * fst r) (snd r) \<subseteq> pool_pages True demo_kmem - used_pages True demo_kmem"
    using palloc_requests_disjoint [OF demo_kmem_ok refl, of True "[2, 2, 1]"] by force
  show ?thesis by (rule exI [of _ rs], rule exI [of _ s']) (use rs in blast)
qed

end
