(* ===== verification/Malloc.thy ===== *)
theory Malloc
  imports Palloc
begin

text \<open>
  The block allocator, \<^verbatim>\<open>threads/malloc.c\<close>.  The state \<open>heap\<close> extends the state of the page allocator with the
  descriptors and with the arena headers, a partial function from the addresses of arenas.  The free list of a
  descriptor is the sequence of block addresses that the kernel list represents.  The calls of one thread are
  modelled one after the other, as in the theory of the page allocator.

  The set \<open>live\<close> holds the blocks that have been handed out and not been freed.  The lemmas show that
  live blocks never overlap, that \<^verbatim>\<open>malloc\<close> returns a new block that is large enough (for every
  request whose size plus the size of a header does not wrap around), that \<^verbatim>\<open>free\<close> removes exactly its
  block, and that \<^verbatim>\<open>realloc\<close> preserves the contents.
\<close>

unbundle bit_operations_syntax

section \<open>State\<close>

record desc =
  block_size :: nat
  blocks_per_arena :: nat
  free_list :: "nat list"
  desc_lock :: bool

definition ARENA_MAGIC :: u32 where "ARENA_MAGIC = 0x9a548eed"

text \<open>The owning descriptor of an arena is given by its index in \<^verbatim>\<open>descs\<close>; \<open>None\<close> is the null pointer of a big block.\<close>

record arena =
  magic :: u32
  owner :: "nat option"
  free_cnt :: nat

definition ARENA_SIZE :: nat where "ARENA_SIZE = 12"

record heap = kmem +
  descs :: "desc list"
  arenas :: "nat \<Rightarrow> arena option"

definition upd_desc :: "nat \<Rightarrow> (desc \<Rightarrow> desc) \<Rightarrow> 'a heap_scheme \<Rightarrow> 'a heap_scheme" where
  "upd_desc d f s = s\<lparr>descs := (descs s)[d := f (descs s ! d)]\<rparr>"

definition desc_acquire :: "nat \<Rightarrow> 'a heap_scheme \<Rightarrow> 'a heap_scheme option" where
  "desc_acquire d s = (if desc_lock (descs s ! d) then None else Some (upd_desc d (desc_lock_update (\<lambda>_. True)) s))"

definition desc_release :: "nat \<Rightarrow> 'a heap_scheme \<Rightarrow> 'a heap_scheme option" where
  "desc_release d s = do {
     ASSERT (desc_lock (descs s ! d));
     Some (upd_desc d (desc_lock_update (\<lambda>_. False)) s)
   }"

section \<open>The routines\<close>

function init_descs :: "nat \<Rightarrow> 'a heap_scheme \<Rightarrow> 'a heap_scheme option" where
  "init_descs sz s =
     (if 0 < sz \<and> sz < PGSIZE div 2 then do {
        let s = s\<lparr>descs := descs s @ [\<lparr>block_size = sz, blocks_per_arena = (PGSIZE - ARENA_SIZE) div sz,
                                    free_list = [], desc_lock = False\<rparr>]\<rparr>;
        ASSERT (length (descs s) \<le> 10);
        init_descs (sz * 2) s
      }
      else Some s)"
  by pat_completeness auto
termination by (relation "measure (\<lambda>(sz, _). PGSIZE div 2 - sz)") auto

declare init_descs.simps [simp del]

definition malloc_init :: "'a heap_scheme \<Rightarrow> 'a heap_scheme option" where
  "malloc_init s = init_descs 16 s"

definition block_to_arena :: "nat \<Rightarrow> 'a heap_scheme \<Rightarrow> (nat \<times> arena) option" where
  "block_to_arena b s = do {
     let a = pg_round_down b;
     ASSERT (a \<noteq> 0);
     ar \<leftarrow> arenas s a;
     ASSERT (magic ar = ARENA_MAGIC);
     ASSERT (case owner ar of
         None \<Rightarrow> pg_ofs b = ARENA_SIZE
       | Some d \<Rightarrow> (pg_ofs b + 2 ^ 32 - ARENA_SIZE) mod 2 ^ 32 mod block_size (descs s ! d) = 0);
     Some (a, ar)
   }"

definition arena_to_block :: "nat \<Rightarrow> nat \<Rightarrow> 'a heap_scheme \<Rightarrow> nat option" where
  "arena_to_block a idx s = do {
     ASSERT (a \<noteq> 0);
     ar \<leftarrow> arenas s a;
     ASSERT (magic ar = ARENA_MAGIC);
     d \<leftarrow> owner ar;
     ASSERT (idx < blocks_per_arena (descs s ! d));
     Some ((a + ARENA_SIZE + idx * block_size (descs s ! d)) mod 2 ^ 32)
   }"

text \<open>
  The new arena of a descriptor whose free list is empty; the result says whether \<^verbatim>\<open>palloc_get_page\<close> had a page.
\<close>

definition new_arena :: "nat \<Rightarrow> 'a heap_scheme \<Rightarrow> (bool \<times> 'a heap_scheme) option" where
  "new_arena d s = do {
     (a, s) \<leftarrow> palloc_get_page 0 s;
     if a = 0 then Some (False, s)
     else do {
       let s = s\<lparr>arenas := (arenas s)(a \<mapsto>
         \<lparr>magic = ARENA_MAGIC, owner = Some d, free_cnt = blocks_per_arena (descs s ! d)\<rparr>)\<rparr>;
       s \<leftarrow> for_upto 0 (blocks_per_arena (descs s ! d))
         (\<lambda>i s. do {
            b \<leftarrow> arena_to_block a i s;
            Some (upd_desc d (\<lambda>e. e\<lparr>free_list := free_list e @ [b]\<rparr>) s)
          }) s;
       Some (True, s)
     }
   }"

text \<open>Takes the first block of the free list of descriptor \<open>d\<close>, whose lock is held.\<close>

definition take_block :: "nat \<Rightarrow> 'a heap_scheme \<Rightarrow> (nat \<times> 'a heap_scheme) option" where
  "take_block d s =
     (case free_list (descs s ! d) of
        [] \<Rightarrow> None
      | b # bs \<Rightarrow> do {
          let s = upd_desc d (\<lambda>e. e\<lparr>free_list := bs\<rparr>) s;
          (a, ar) \<leftarrow> block_to_arena b s;
          let s = s\<lparr>arenas := (arenas s)(a \<mapsto> ar\<lparr>free_cnt := (free_cnt ar + 2 ^ 32 - 1) mod 2 ^ 32\<rparr>)\<rparr>;
          s \<leftarrow> desc_release d s;
          Some (b, s)
        })"

definition malloc_big :: "nat \<Rightarrow> 'a heap_scheme \<Rightarrow> (nat \<times> 'a heap_scheme) option" where
  "malloc_big sz s = do {
     let page_cnt = DIV_ROUND_UP ((sz + ARENA_SIZE) mod 2 ^ 32) PGSIZE;
     (a, s) \<leftarrow> palloc_get_multiple 0 page_cnt s;
     if a = 0 then Some (0, s)
     else Some (a + ARENA_SIZE,
       s\<lparr>arenas := (arenas s)(a \<mapsto> \<lparr>magic = ARENA_MAGIC, owner = None, free_cnt = page_cnt\<rparr>)\<rparr>)
   }"

definition malloc :: "nat \<Rightarrow> 'a heap_scheme \<Rightarrow> (nat \<times> 'a heap_scheme) option" where
  "malloc sz s =
     (if sz = 0 then Some (0, s)
      else do {
        r \<leftarrow> find_upto 0 (length (descs s)) (\<lambda>d. Some (block_size (descs s ! d) \<ge> sz));
        case r of
          None \<Rightarrow> malloc_big sz s
        | Some d \<Rightarrow> do {
            s \<leftarrow> desc_acquire d s;
            if free_list (descs s ! d) = [] then do {
              (ok, s) \<leftarrow> new_arena d s;
              if \<not> ok then do { s \<leftarrow> desc_release d s; Some (0, s) }
              else take_block d s
            }
            else take_block d s
          }
      })"

definition calloc :: "nat \<Rightarrow> nat \<Rightarrow> 'a heap_scheme \<Rightarrow> (nat \<times> 'a heap_scheme) option" where
  "calloc a b s = do {
     let sz = (a * b) mod 2 ^ 32;
     if sz < a \<or> sz < b then Some (0, s)
     else do {
       (p, s) \<leftarrow> malloc sz s;
       if p \<noteq> 0 then do {
         (_, m) \<leftarrow> memset p 0 sz (ram s);
         Some (p, s\<lparr>ram := m\<rparr>)
       }
       else Some (p, s)
     }
   }"

text \<open>\<^verbatim>\<open>block_size\<close>, the function.\<close>

definition block_size_of :: "nat \<Rightarrow> 'a heap_scheme \<Rightarrow> nat option" where
  "block_size_of b s = do {
     (_, ar) \<leftarrow> block_to_arena b s;
     Some (case owner ar of
         Some d \<Rightarrow> block_size (descs s ! d)
       | None \<Rightarrow> (PGSIZE * free_cnt ar + 2 ^ 32 - pg_ofs b) mod 2 ^ 32)
   }"

text \<open>\<^verbatim>\<open>list_remove\<close> of a block that has to be on the free list.\<close>

definition remove_block :: "nat \<Rightarrow> nat \<Rightarrow> 'a heap_scheme \<Rightarrow> 'a heap_scheme option" where
  "remove_block d b s = do {
     ASSERT (b \<in> set (free_list (descs s ! d)));
     Some (upd_desc d (\<lambda>e. e\<lparr>free_list := remove1 b (free_list e)\<rparr>) s)
   }"

text \<open>The page allocator overwrites the pages it takes back, and with them the header of the arena.\<close>

definition free_arena :: "nat \<Rightarrow> nat \<Rightarrow> 'a heap_scheme \<Rightarrow> 'a heap_scheme option" where
  "free_arena a page_cnt s = do {
     s \<leftarrow> palloc_free_multiple a page_cnt s;
     Some (s\<lparr>arenas := (arenas s)(a := None)\<rparr>)
   }"

definition free_block :: "nat \<Rightarrow> nat \<Rightarrow> nat \<Rightarrow> arena \<Rightarrow> 'a heap_scheme \<Rightarrow> 'a heap_scheme option" where
  "free_block b d a ar s = do {
     (_, m) \<leftarrow> memset b 0xcc (block_size (descs s ! d)) (ram s);
     s \<leftarrow> desc_acquire d (s\<lparr>ram := m\<rparr>);
     let s = upd_desc d (\<lambda>e. e\<lparr>free_list := b # free_list e\<rparr>) s;
     let n = (free_cnt ar + 1) mod 2 ^ 32;
     let s = s\<lparr>arenas := (arenas s)(a \<mapsto> ar\<lparr>free_cnt := n\<rparr>)\<rparr>;
     s \<leftarrow> (if n \<ge> blocks_per_arena (descs s ! d) then do {
             ASSERT (n = blocks_per_arena (descs s ! d));
             s \<leftarrow> for_upto 0 (blocks_per_arena (descs s ! d))
               (\<lambda>i s. do { b \<leftarrow> arena_to_block a i s; remove_block d b s }) s;
             free_arena a 1 s
           }
           else Some s);
     desc_release d s
   }"

definition free :: "nat \<Rightarrow> 'a heap_scheme \<Rightarrow> 'a heap_scheme option" where
  "free p s =
     (if p \<noteq> 0 then do {
        (a, ar) \<leftarrow> block_to_arena p s;
        case owner ar of
          Some d \<Rightarrow> free_block p d a ar s
        | None \<Rightarrow> free_arena a (free_cnt ar) s
      }
      else Some s)"

definition realloc :: "nat \<Rightarrow> nat \<Rightarrow> 'a heap_scheme \<Rightarrow> (nat \<times> 'a heap_scheme) option" where
  "realloc old_block new_size s =
     (if new_size = 0 then do {
        s \<leftarrow> free old_block s;
        Some (0, s)
      }
      else do {
        (new_block, s) \<leftarrow> malloc new_size s;
        if old_block \<noteq> 0 \<and> new_block \<noteq> 0 then do {
          old_size \<leftarrow> block_size_of old_block s;
          let min_size = (if new_size < old_size then new_size else old_size);
          (_, m) \<leftarrow> memcpy new_block old_block min_size (ram s);
          s \<leftarrow> free old_block (s\<lparr>ram := m\<rparr>);
          Some (new_block, s)
        }
        else Some (new_block, s)
      })"

section \<open>Well-formed heaps\<close>

text \<open>The block sizes that \<^verbatim>\<open>malloc_init\<close> sets up: 16, 32, ..., 1024.\<close>

definition bsize :: "nat \<Rightarrow> nat" where
  "bsize d = 16 * 2 ^ d"

definition bcount :: "nat \<Rightarrow> nat" where
  "bcount d = 4084 div bsize d"

definition arena_blocks :: "nat \<Rightarrow> nat \<Rightarrow> nat set" where
  "arena_blocks a d = (\<lambda>i. a + 12 + i * bsize d) ` {..<bcount d}"

definition arena_pages :: "arena \<Rightarrow> nat" where
  "arena_pages ar = (case owner ar of Some d \<Rightarrow> 1 | None \<Rightarrow> free_cnt ar)"

abbreviation frees :: "'a heap_scheme \<Rightarrow> nat \<Rightarrow> nat list" where
  "frees s d \<equiv> free_list (descs s ! d)"

definition descs_ok :: "'a heap_scheme \<Rightarrow> bool" where
  "descs_ok s \<longleftrightarrow> length (descs s) = 7 \<and>
     (\<forall>d < 7. block_size (descs s ! d) = bsize d \<and> blocks_per_arena (descs s ! d) = bcount d)"

text \<open>Every arena owns its pages alone, and its header counts the blocks on the free list.\<close>

definition arenas_ok :: "'a heap_scheme \<Rightarrow> bool" where
  "arenas_ok s \<longleftrightarrow>
     (\<forall>a ar. arenas s a = Some ar \<longrightarrow> magic ar = ARENA_MAGIC \<and> 0 < arena_pages ar \<and>
        page_run a (arena_pages ar) \<subseteq> used_pages False s \<and>
        (\<forall>d. owner ar = Some d \<longrightarrow> d < 7 \<and> free_cnt ar = card (arena_blocks a d \<inter> set (frees s d)))) \<and>
     (\<forall>a ar a' ar'. arenas s a = Some ar \<longrightarrow> arenas s a' = Some ar' \<longrightarrow> a \<noteq> a' \<longrightarrow>
        page_run a (arena_pages ar) \<inter> page_run a' (arena_pages ar') = {})"

definition frees_ok :: "'a heap_scheme \<Rightarrow> bool" where
  "frees_ok s \<longleftrightarrow> (\<forall>d < 7. distinct (frees s d) \<and>
     (\<forall>b \<in> set (frees s d). \<exists>a ar. arenas s a = Some ar \<and> owner ar = Some d \<and> b \<in> arena_blocks a d))"

definition heap_wf :: "'a heap_scheme \<Rightarrow> bool" where
  "heap_wf s \<longleftrightarrow> kmem_ok s \<and> descs_ok s \<and> arenas_ok s \<and> frees_ok s"

definition heap_ok :: "'a heap_scheme \<Rightarrow> bool" where
  "heap_ok s \<longleftrightarrow> heap_wf s \<and> (\<forall>d < 7. \<not> desc_lock (descs s ! d))"

text \<open>The blocks that are handed out, with the arena that holds them.\<close>

definition live_in :: "'a heap_scheme \<Rightarrow> nat \<Rightarrow> nat \<Rightarrow> arena \<Rightarrow> bool" where
  "live_in s b a ar \<longleftrightarrow> arenas s a = Some ar \<and>
     (case owner ar of Some d \<Rightarrow> b \<in> arena_blocks a d \<and> b \<notin> set (frees s d) | None \<Rightarrow> b = a + 12)"

definition live :: "'a heap_scheme \<Rightarrow> nat set" where
  "live s = {b. \<exists>a ar. live_in s b a ar}"

definition room :: "nat \<Rightarrow> 'a heap_scheme \<Rightarrow> nat" where
  "room b s = (case block_size_of b s of Some n \<Rightarrow> n | None \<Rightarrow> 0)"

definition span :: "nat \<Rightarrow> 'a heap_scheme \<Rightarrow> nat set" where
  "span b s = {b..<b + room b s}"

lemma bsize_bcount:
  assumes "d < 7"
  shows "16 \<le> bsize d" "bsize d \<le> 1024" "2 < bcount d" "bcount d \<le> 255" "bcount d * bsize d \<le> 4084"
proof -
  have "d \<in> {0, 1, 2, 3, 4, 5, 6}" using assms by auto
  then show "16 \<le> bsize d" "bsize d \<le> 1024" "2 < bcount d" "bcount d \<le> 255" "bcount d * bsize d \<le> 4084"
    by (auto simp: bsize_def bcount_def)
qed

lemma page_in_run [simp]: "0 < n \<Longrightarrow> p \<in> page_run p n"
  by (auto simp: page_run_def page_set_def intro: image_eqI [of _ _ 0])

lemma arena_page:
  assumes "heap_wf s" and "arenas s a = Some ar"
  shows "kernel_page a" "a \<noteq> 0" "magic ar = ARENA_MAGIC" "0 < arena_pages ar" "page_run a (arena_pages ar) \<subseteq> used_pages False s"
    "a + 4096 * arena_pages ar \<le> 2 ^ 32"
proof -
  show *: "magic ar = ARENA_MAGIC" "0 < arena_pages ar" "page_run a (arena_pages ar) \<subseteq> used_pages False s"
    using assms by (auto simp: heap_wf_def arenas_ok_def)
  have k: "kmem_ok s" using assms(1) by (simp add: heap_wf_def)
  have "a \<in> used_pages False s" using * by auto
  from used_page [OF k this] show "kernel_page a" "a \<noteq> 0" by (auto simp: kernel_page_def PHYS_BASE_def)
  have "a + 4096 * (arena_pages ar - 1) \<in> page_run a (arena_pages ar)" using *(2) by (auto simp: page_run_def)
  with *(3) have "a + 4096 * (arena_pages ar - 1) \<in> used_pages False s" by blast
  from used_page(2) [OF k this] *(2) show "a + 4096 * arena_pages ar \<le> 2 ^ 32" by (cases "arena_pages ar") auto
qed

text \<open>A block of an arena lies behind the header and inside the page.\<close>

lemma arena_block_bounds:
  assumes "b \<in> arena_blocks a d" and "d < 7"
  shows "a + 12 \<le> b" "b + bsize d \<le> a + 4096" "(b - a - 12) mod bsize d = 0"
proof -
  obtain i where i: "b = a + 12 + i * bsize d" "i < bcount d" using assms(1) by (auto simp: arena_blocks_def)
  have "(i + 1) * bsize d \<le> bcount d * bsize d" using i(2) by (intro mult_le_mono1) simp
  with bsize_bcount(5) [OF assms(2)] i(1) show "b + bsize d \<le> a + 4096" by simp
qed (use assms(1) in \<open>auto simp: arena_blocks_def\<close>)

lemma arena_block_page:
  assumes "kernel_page a" and "a + 12 \<le> b" and "b < a + 4096"
  shows "pg_round_down b = a" "pg_ofs b = b - a" "b < 2 ^ 32"
proof -
  obtain k where k: "a = 4096 * k" using assms(1) by (auto simp: kernel_page_def)
  define j where "j = b - a"
  have j: "b = 4096 * k + j" "j < 4096" using assms(2,3) k by (simp_all add: j_def)
  show "b < 2 ^ 32" using assms(1) j k by (simp add: kernel_page_def)
  then show "pg_round_down b = a" "pg_ofs b = b - a" using j k by (simp_all add: pg_round_down_eq pg_ofs_eq)
qed

lemma arena_owner:
  assumes "heap_wf s" and "arenas s a = Some ar" and "owner ar = Some d"
  shows "d < 7" "free_cnt ar = card (arena_blocks a d \<inter> set (frees s d))"
  using assms by (auto simp: heap_wf_def arenas_ok_def)

lemma block_to_arena_member:
  assumes "heap_wf s" and "arenas s a = Some ar" and "owner ar = Some d" and "b \<in> arena_blocks a d"
  shows "block_to_arena b s = Some (a, ar)"
proof -
  have d: "d < 7" using assms(1-3) by (auto simp: heap_wf_def arenas_ok_def)
  note ar = arena_page [OF assms(1,2)] and bl = arena_block_bounds [OF assms(4) d]
  have b: "pg_round_down b = a" "pg_ofs b = b - a"
    using arena_block_page [OF ar(1) bl(1)] bl(2) bsize_bcount(1) [OF d] by auto
  have "(pg_ofs b + 2 ^ 32 - 12) mod 2 ^ 32 = b - a - 12"
  proof -
    have "pg_ofs b + 2 ^ 32 - 12 = (b - a - 12) + 2 ^ 32" using bl(1) by (simp add: b(2))
    then show ?thesis using bl(2) by simp
  qed
  then show ?thesis
    using ar assms(1-3) d bl(3) b(1) by (simp add: block_to_arena_def ARENA_SIZE_def heap_wf_def descs_ok_def)
qed

lemma block_to_arena_big:
  assumes "heap_wf s" and "arenas s a = Some ar" and "owner ar = None"
  shows "block_to_arena (a + 12) s = Some (a, ar)"
proof -
  note ar = arena_page [OF assms(1,2)]
  have "pg_round_down (a + 12) = a" "pg_ofs (a + 12) = 12" using arena_block_page [OF ar(1), of "a + 12"] by simp_all
  then show ?thesis using ar(2,3) assms(2,3) by (simp add: block_to_arena_def ARENA_SIZE_def)
qed

lemma live_small:
  assumes "heap_wf s" and "live_in s b a ar" and "owner ar = Some d"
  shows "d < 7" "b \<in> arena_blocks a d" "b \<notin> set (frees s d)" "block_to_arena b s = Some (a, ar)" "room b s = bsize d"
proof -
  show "d < 7" "b \<in> arena_blocks a d" "b \<notin> set (frees s d)"
    using assms by (auto simp: live_in_def heap_wf_def arenas_ok_def)
  then show *: "block_to_arena b s = Some (a, ar)"
    using block_to_arena_member assms by (auto simp: live_in_def)
  show "room b s = bsize d"
    using * assms \<open>d < 7\<close> by (simp add: room_def block_size_of_def heap_wf_def descs_ok_def)
qed

lemma live_big:
  assumes "heap_wf s" and "live_in s b a ar" and "owner ar = None"
  shows "b = a + 12" "block_to_arena b s = Some (a, ar)" "room b s = 4096 * free_cnt ar - 12"
proof -
  have a: "arenas s a = Some ar" "b = a + 12" using assms(2,3) by (auto simp: live_in_def)
  note ar = arena_page [OF assms(1) a(1)]
  show "b = a + 12" by fact
  show *: "block_to_arena b s = Some (a, ar)" using block_to_arena_big [OF assms(1) a(1) assms(3)] a(2) by simp
  have "pg_ofs b = 12" using arena_block_page [OF ar(1), of b] a(2) by simp
  moreover have "4096 * free_cnt ar < 2 ^ 32" "0 < free_cnt ar"
    using ar(1,4,6) assms(3) by (auto simp: arena_pages_def kernel_page_def PHYS_BASE_def)
  then have "(4096 * free_cnt ar + 2 ^ 32 - 12) mod 2 ^ 32 = 4096 * free_cnt ar - 12"
  proof -
    have "4096 * free_cnt ar + 2 ^ 32 - 12 = (4096 * free_cnt ar - 12) + 2 ^ 32"
      using \<open>0 < free_cnt ar\<close> by simp
    with \<open>4096 * free_cnt ar < 2 ^ 32\<close> show ?thesis by (metis less_imp_diff_less mod_add_self2 mod_less)
  qed
  ultimately show "room b s = 4096 * free_cnt ar - 12"
    using * assms(3) by (simp add: room_def block_size_of_def)
qed

text \<open>A live block lies in the pages of its arena, behind the header.\<close>

lemma live_span:
  assumes "heap_wf s" and "live_in s b a ar"
  shows "block_to_arena b s = Some (a, ar)" "a + 12 \<le> b" "b + room b s \<le> a + 4096 * arena_pages ar" "0 < room b s"
    "span b s \<subseteq> extent a (arena_pages ar)"
proof -
  have a: "arenas s a = Some ar" using assms(2) by (simp add: live_in_def)
  have "0 < arena_pages ar" using arena_page [OF assms(1) a] by simp
  then have "block_to_arena b s = Some (a, ar) \<and> a + 12 \<le> b \<and> b + room b s \<le> a + 4096 * arena_pages ar \<and> 0 < room b s"
    using live_small [OF assms] live_big [OF assms] arena_block_bounds [of b a] bsize_bcount(1)
    by (cases "owner ar") (fastforce simp: arena_pages_def)+
  then show "block_to_arena b s = Some (a, ar)" "a + 12 \<le> b" "b + room b s \<le> a + 4096 * arena_pages ar" "0 < room b s"
    "span b s \<subseteq> extent a (arena_pages ar)"
    by (auto simp: span_def extent_def)
qed

lemma arena_runs_disjoint:
  assumes "heap_wf s" and "arenas s a = Some ar" and "arenas s a' = Some ar'" and "a \<noteq> a'"
  shows "page_run a (arena_pages ar) \<inter> page_run a' (arena_pages ar') = {}"
  using assms by (simp add: heap_wf_def arenas_ok_def)

lemma arena_extent_disjoint:
  assumes "heap_wf s" and "arenas s a = Some ar" and "arenas s a' = Some ar'" and "a \<noteq> a'"
  shows "extent a (arena_pages ar) \<inter> extent a' (arena_pages ar') = {}"
  by (rule extent_disjoint [OF arena_runs_disjoint [OF assms]])
    (use arena_page(1) [OF assms(1,2)] arena_page(1) [OF assms(1,3)] in \<open>simp_all add: kernel_page_def\<close>)

lemma same_arena_disjoint:
  assumes "b \<in> arena_blocks a d" and "c \<in> arena_blocks a d" and "b \<noteq> c"
  shows "{b..<b + bsize d} \<inter> {c..<c + bsize d} = {}"
proof -
  obtain i j where ij: "b = a + 12 + i * bsize d" "c = a + 12 + j * bsize d" "i \<noteq> j"
    using assms by (auto simp: arena_blocks_def)
  have "(k + 1) * bsize d \<le> l * bsize d" if "k < l" for k l using that by (intro mult_le_mono1) simp
  from this [of i j] this [of j i] ij show ?thesis by (cases "i < j") auto
qed

lemma live_disjoint:
  assumes "heap_wf s" and "b \<in> live s" and "c \<in> live s" and "b \<noteq> c"
  shows "span b s \<inter> span c s = {}"
proof -
  obtain a ar a' ar' where in_arena: "live_in s b a ar" "live_in s c a' ar'" using assms(2,3) by (auto simp: live_def)
  note sp = live_span [OF assms(1) in_arena(1)] live_span [OF assms(1) in_arena(2)]
  show ?thesis
  proof (cases "a = a'")
    case False
    then show ?thesis using arena_extent_disjoint [OF assms(1)] in_arena sp(5,10) by (fastforce simp: live_in_def)
  next
    case True
    then have same: "ar = ar'" using in_arena by (simp add: live_in_def)
    show ?thesis
    proof (cases "owner ar")
      case None
      then show ?thesis using True same in_arena assms(4) by (simp add: live_in_def)
    next
      case (Some d)
      then show ?thesis
        using live_small [OF assms(1) in_arena(1)] live_small [OF assms(1) in_arena(2)] True same assms(4)
          same_arena_disjoint [of b a d c] by (auto simp: span_def)
    qed
  qed
qed

section \<open>Changing a free list\<close>

lemma heap_selectors [simp]:
  "the_pool u (s\<lparr>descs := ds\<rparr>) = the_pool u s" "the_pool u (s\<lparr>arenas := f\<rparr>) = the_pool u s"
  "kmem_ok (s\<lparr>descs := ds\<rparr>) = kmem_ok s" "kmem_ok (s\<lparr>arenas := f\<rparr>) = kmem_ok s"
  "used_pages u (s\<lparr>descs := ds\<rparr>) = used_pages u s" "used_pages u (s\<lparr>arenas := f\<rparr>) = used_pages u s"
  "pool_pages u (s\<lparr>descs := ds\<rparr>) = pool_pages u s" "pool_pages u (s\<lparr>arenas := f\<rparr>) = pool_pages u s"
  by (simp_all add: kmem_ok_def the_pool_def used_pages_def pool_pages_def)

lemma arena_blocks_disjoint:
  assumes "heap_wf s" and "arenas s a = Some ar" and "arenas s a' = Some ar'" and "a \<noteq> a'"
    and "owner ar = Some d" and "owner ar' = Some d'"
  shows "arena_blocks a d \<inter> arena_blocks a' d' = {}"
proof -
  have d: "d < 7" "d' < 7" using assms by (auto simp: heap_wf_def arenas_ok_def)
  have "arena_blocks a0 e \<subseteq> extent a0 1" if "e < 7" for a0 e
    using arena_block_bounds [of _ a0 e] bsize_bcount(1) [of e] that by (fastforce simp: extent_def)
  then show ?thesis
    using arena_extent_disjoint [OF assms(1-4)] assms(5,6) d by (fastforce simp: arena_pages_def)
qed

text \<open>
  Putting a block of arena \<open>a\<close> on the free list, or taking it off, with the new count in the header of the arena.
\<close>

definition relist :: "nat \<Rightarrow> nat list \<Rightarrow> nat \<Rightarrow> nat \<Rightarrow> 'a heap_scheme \<Rightarrow> 'a heap_scheme" where
  "relist d bs a n s =
     s\<lparr>descs := (descs s)[d := (descs s ! d)\<lparr>free_list := bs\<rparr>],
       arenas := (arenas s)(a := map_option (\<lambda>ar. ar\<lparr>free_cnt := n\<rparr>) (arenas s a))\<rparr>"

lemma relist_selectors [simp]:
  "ram (relist d bs a n s) = ram s" "kmem_ok (relist d bs a n s) = kmem_ok s"
  "used_pages u (relist d bs a n s) = used_pages u s" "pool_pages u (relist d bs a n s) = pool_pages u s"
  "the_pool u (relist d bs a n s) = the_pool u s"
  "length (descs (relist d bs a n s)) = length (descs s)"
  by (simp_all add: relist_def)

lemma relist_desc:
  assumes "heap_wf s" and "d < 7" and "e < 7"
  shows "descs (relist d bs a n s) ! e = (if e = d then (descs s ! d)\<lparr>free_list := bs\<rparr> else descs s ! e)"
  using assms by (simp add: relist_def heap_wf_def descs_ok_def nth_list_update)

lemma relist_arena:
  "arenas (relist d bs a n s) x = (if x = a then map_option (\<lambda>ar. ar\<lparr>free_cnt := n\<rparr>) (arenas s a) else arenas s x)"
  by (simp add: relist_def)

lemma relist_arenaE:
  assumes "arenas (relist d bs a n s) x = Some ar'"
  obtains ar where "arenas s x = Some ar" "owner ar' = owner ar" "magic ar' = magic ar"
    "ar' = (if x = a then ar\<lparr>free_cnt := n\<rparr> else ar)"
  using assms by (cases "arenas s x") (auto simp: relist_arena split: if_splits)

lemma relist_arenaI:
  assumes "arenas s x = Some ar"
  shows "\<exists>ar'. arenas (relist d bs a n s) x = Some ar' \<and> owner ar' = owner ar"
  using assms by (auto simp: relist_arena)

lemma frees_ok_relist:
  assumes wf: "heap_wf s" and a: "arenas s a = Some ar" "owner ar = Some d"
    and bs: "distinct bs" "set bs - arena_blocks a d = set (frees s d) - arena_blocks a d"
  shows "frees_ok (relist d bs a n s)"
  unfolding frees_ok_def
proof (intro allI impI conjI ballI)
  have d: "d < 7" using wf a by (auto simp: heap_wf_def arenas_ok_def)
  note desc = relist_desc [OF wf d]
  fix e :: nat assume e: "e < 7"
  show "distinct (frees (relist d bs a n s) e)"
    using wf e bs(1) by (simp add: heap_wf_def frees_ok_def desc)
  fix b assume b: "b \<in> set (frees (relist d bs a n s) e)"
  have "\<exists>x arx. arenas s x = Some arx \<and> owner arx = Some e \<and> b \<in> arena_blocks x e"
  proof (cases "e = d \<and> b \<in> arena_blocks a d")
    case False
    then have "b \<in> set (frees s e)" using b bs(2) e by (auto simp: desc split: if_splits)
    then show ?thesis using wf e by (auto simp: heap_wf_def frees_ok_def)
  qed (use a in auto)
  then show "\<exists>x arx. arenas (relist d bs a n s) x = Some arx \<and> owner arx = Some e \<and> b \<in> arena_blocks x e"
    using relist_arenaI [of s] by metis
qed

lemma arenas_ok_relist:
  assumes wf: "heap_wf s" and a: "arenas s a = Some ar" "owner ar = Some d"
    and bs: "set bs - arena_blocks a d = set (frees s d) - arena_blocks a d"
    and n: "n = card (arena_blocks a d \<inter> set bs)"
  shows "arenas_ok (relist d bs a n s)"
proof -
  let ?s = "relist d bs a n s"
  have d: "d < 7" using wf a by (auto simp: heap_wf_def arenas_ok_def)
  note desc = relist_desc [OF wf d]
  have pages: "\<exists>arx. arenas s x = Some arx \<and> magic arx' = magic arx \<and> arena_pages arx' = arena_pages arx"
    if "arenas ?s x = Some arx'" for x arx'
    using that a by (elim relist_arenaE) (auto simp: arena_pages_def)
  have cnt: "free_cnt arx' = card (arena_blocks x e \<inter> set (frees ?s e))"
    if x: "arenas ?s x = Some arx'" and o: "owner arx' = Some e" for x arx' e
  proof -
    obtain arx where arx: "arenas s x = Some arx" "owner arx = Some e" "arx' = (if x = a then arx\<lparr>free_cnt := n\<rparr> else arx)"
      using x o by (elim relist_arenaE) auto
    have e: "e < 7" "free_cnt arx = card (arena_blocks x e \<inter> set (frees s e))"
      using wf arx(1,2) by (auto simp: heap_wf_def arenas_ok_def)
    show ?thesis
    proof (cases "x = a")
      case True
      then have "e = d" "arx' = arx\<lparr>free_cnt := n\<rparr>" using arx a by auto
      then show ?thesis using True n d by (simp add: desc)
    next
      case False
      have "arena_blocks x e \<inter> set (frees ?s e) = arena_blocks x e \<inter> set (frees s e)"
      proof (cases "e = d")
        case True
        then have "arena_blocks x d \<inter> arena_blocks a d = {}"
          using arena_blocks_disjoint [OF wf arx(1) a(1) False arx(2) a(2)] by simp
        with bs True d show ?thesis by (simp add: desc) blast
      qed (use e desc in simp)
      then show ?thesis using False arx(3) e(2) by simp
    qed
  qed
  have idx: "e < 7" if "arenas ?s x = Some arx'" "owner arx' = Some e" for x arx' e
    using that wf by (elim relist_arenaE) (auto simp: heap_wf_def arenas_ok_def)
  have "magic arx' = ARENA_MAGIC \<and> 0 < arena_pages arx' \<and> page_run x (arena_pages arx') \<subseteq> used_pages False ?s \<and>
      (\<forall>e. owner arx' = Some e \<longrightarrow> e < 7 \<and> free_cnt arx' = card (arena_blocks x e \<inter> set (frees ?s e)))"
    if x: "arenas ?s x = Some arx'" for x arx'
  proof -
    obtain arx where "arenas s x = Some arx" "magic arx' = magic arx" "arena_pages arx' = arena_pages arx"
      using pages [OF x] by blast
    with arena_page [OF wf this(1)] cnt [OF x] idx [OF x] show ?thesis by simp
  qed
  moreover have "page_run x (arena_pages arx) \<inter> page_run y (arena_pages ary) = {}"
    if "arenas ?s x = Some arx" "arenas ?s y = Some ary" "x \<noteq> y" for x y arx ary
    using pages [OF that(1)] pages [OF that(2)] arena_runs_disjoint [OF wf _ _ that(3)] by metis
  ultimately show ?thesis unfolding arenas_ok_def by blast
qed

lemma heap_wf_relist:
  assumes wf: "heap_wf s" and a: "arenas s a = Some ar" "owner ar = Some d"
    and bs: "distinct bs" "set bs - arena_blocks a d = set (frees s d) - arena_blocks a d"
    and n: "n = card (arena_blocks a d \<inter> set bs)"
  shows "heap_wf (relist d bs a n s)"
proof -
  have d: "d < 7" using wf a by (auto simp: heap_wf_def arenas_ok_def)
  then have "descs_ok (relist d bs a n s)" using wf by (simp add: heap_wf_def descs_ok_def relist_desc [OF wf d])
  then show ?thesis
    using wf frees_ok_relist [OF assms(1-5)] arenas_ok_relist [OF assms(1-3,5,6)] by (simp add: heap_wf_def)
qed

lemma live_in_unique:
  assumes "heap_wf s" and "arenas s a = Some ar" and "owner ar = Some d" and "b \<in> arena_blocks a d"
    and "live_in s b a' ar'"
  shows "a' = a \<and> ar' = ar"
  using block_to_arena_member [OF assms(1-4)] live_span(1) [OF assms(1,5)] by simp

lemma live_iff:
  assumes "heap_wf s" and "arenas s a = Some ar" and "owner ar = Some d" and "b \<in> arena_blocks a d"
  shows "b \<in> live s \<longleftrightarrow> b \<notin> set (frees s d)"
proof
  assume "b \<in> live s"
  then obtain a' ar' where in_arena: "live_in s b a' ar'" by (auto simp: live_def)
  with live_in_unique [OF assms this] assms(3) show "b \<notin> set (frees s d)" by (simp add: live_in_def)
next
  assume "b \<notin> set (frees s d)"
  then have "live_in s b a ar" using assms(2-4) by (simp add: live_in_def)
  then show "b \<in> live s" by (auto simp: live_def)
qed

lemma live_in_arena:
  assumes "heap_wf s" and "live_in s b a ar"
  shows "a = pg_round_down b"
  using live_span(1) [OF assms] by (simp add: block_to_arena_def Let_def bind_eq_Some_conv)

lemma live_relist:
  assumes wf: "heap_wf s" and a: "arenas s a = Some ar" "owner ar = Some d"
    and bs: "distinct bs" "set bs - arena_blocks a d = set (frees s d) - arena_blocks a d"
    and n: "n = card (arena_blocks a d \<inter> set bs)"
  shows "x \<in> live (relist d bs a n s) \<longleftrightarrow> (if x \<in> arena_blocks a d then x \<notin> set bs else x \<in> live s)"
proof -
  let ?s = "relist d bs a n s"
  have wf': "heap_wf ?s" by (rule heap_wf_relist [OF assms])
  have d: "d < 7" using wf a by (auto simp: heap_wf_def arenas_ok_def)
  note desc = relist_desc [OF wf d]
  show ?thesis
  proof (cases "x \<in> arena_blocks a d")
    case True
    have "arenas ?s a = Some (ar\<lparr>free_cnt := n\<rparr>)" using a(1) by (simp add: relist_arena)
    from live_iff [OF wf' this _ True] a(2) d True show ?thesis by (simp add: desc)
  next
    case False
    have "(\<exists>ar'. live_in ?s x a' ar') \<longleftrightarrow> (\<exists>ar'. live_in s x a' ar')" for a'
    proof (cases "a' = a")
      case True
      with a False show ?thesis by (auto simp: live_in_def relist_arena)
    next
      case other: False
      have "x \<in> set (frees ?s e) \<longleftrightarrow> x \<in> set (frees s e)" if "e < 7" for e
        using that bs(2) False by (auto simp: desc)
      moreover have "e < 7" if "arenas s a' = Some ar'" "owner ar' = Some e" for ar' e
        using wf that by (auto simp: heap_wf_def arenas_ok_def)
      ultimately show ?thesis using other by (auto simp: live_in_def relist_arena split: option.splits)
    qed
    with False show ?thesis by (simp add: live_def)
  qed
qed

text \<open>The room of a block depends on its arena only.\<close>

lemma room_eq:
  assumes "heap_wf s" and "heap_wf s'" and "live_in s b a ar" and "live_in s' b a ar'" and "owner ar' = owner ar"
    and "owner ar = None \<Longrightarrow> free_cnt ar' = free_cnt ar"
  shows "room b s' = room b s"
  using live_small(5) [OF assms(1,3)] live_small(5) [OF assms(2,4)] live_big(3) [OF assms(1,3)] live_big(3) [OF assms(2,4)]
    assms(5,6) by (cases "owner ar") auto

lemma room_relist:
  assumes wf: "heap_wf s" "heap_wf (relist d bs a n s)" and a: "arenas s a = Some ar" "owner ar = Some d"
    and b: "b \<in> live s" "b \<in> live (relist d bs a n s)"
  shows "room b (relist d bs a n s) = room b s"
proof -
  obtain a1 ar1 where 1: "live_in s b a1 ar1" using b(1) by (auto simp: live_def)
  obtain a2 ar2 where 2: "live_in (relist d bs a n s) b a2 ar2" using b(2) by (auto simp: live_def)
  have same: "a2 = a1" using live_in_arena [OF wf(1) 1] live_in_arena [OF wf(2) 2] by simp
  have "owner ar2 = owner ar1" "owner ar1 = None \<Longrightarrow> free_cnt ar2 = free_cnt ar1"
    using 1 2 a same by (auto simp: live_in_def relist_arena split: if_splits)
  with room_eq [OF wf 1 2 [unfolded same]] show ?thesis by simp
qed

section \<open>Allocation of blocks\<close>

definition locked_only :: "nat \<Rightarrow> 'a heap_scheme \<Rightarrow> bool" where
  "locked_only d s \<longleftrightarrow> (\<forall>e < 7. desc_lock (descs s ! e) \<longleftrightarrow> e = d)"

text \<open>What a client may rely on when a call has handed out the block \<open>p\<close>.\<close>

definition handed_out :: "nat \<Rightarrow> nat \<Rightarrow> 'a heap_scheme \<Rightarrow> 'a heap_scheme \<Rightarrow> bool" where
  "handed_out p n s s' \<longleftrightarrow> heap_ok s' \<and> p \<notin> live s \<and> live s' = insert p (live s) \<and> n \<le> room p s' \<and>
     (\<forall>b \<in> live s. room b s' = room b s) \<and> ram s' = ram s"

text \<open>Taking and releasing the lock of a descriptor changes nothing else.\<close>

abbreviation with_lock :: "nat \<Rightarrow> bool \<Rightarrow> 'a heap_scheme \<Rightarrow> 'a heap_scheme" where
  "with_lock d v s \<equiv> upd_desc d (desc_lock_update (\<lambda>_. v)) s"

lemma with_lock_desc:
  "d < length (descs s) \<Longrightarrow> descs (with_lock d v s) ! e = (if e = d then (descs s ! d)\<lparr>desc_lock := v\<rparr> else descs s ! e)"
  by (simp add: upd_desc_def nth_list_update)

lemma with_lock_simps [simp]:
  "ram (with_lock d v s) = ram s" "arenas (with_lock d v s) = arenas s" "the_pool u (with_lock d v s) = the_pool u s"
  "kmem_ok (with_lock d v s) = kmem_ok s" "used_pages u (with_lock d v s) = used_pages u s"
  "pool_pages u (with_lock d v s) = pool_pages u s" "length (descs (with_lock d v s)) = length (descs s)"
  "d < length (descs s) \<Longrightarrow> frees (with_lock d v s) e = frees s e"
  "d < length (descs s) \<Longrightarrow> block_size (descs (with_lock d v s) ! e) = block_size (descs s ! e)"
  "d < length (descs s) \<Longrightarrow> blocks_per_arena (descs (with_lock d v s) ! e) = blocks_per_arena (descs s ! e)"
  by (simp_all add: upd_desc_def nth_list_update)

lemma with_lock_heap [simp]:
  assumes "d < length (descs s)"
  shows "heap_wf (with_lock d v s) = heap_wf s" "live (with_lock d v s) = live s" "room b (with_lock d v s) = room b s"
  using assms
  by (simp_all add: heap_wf_def descs_ok_def arenas_ok_def frees_ok_def live_def live_in_def room_def block_size_of_def
    block_to_arena_def cong: option.case_cong)

lemma heap_wf_length: "heap_wf s \<Longrightarrow> length (descs s) = 7"
  by (simp add: heap_wf_def descs_ok_def)

lemma desc_release_ok:
  assumes "heap_wf s" and "locked_only d s" and "d < 7"
  shows "desc_release d s = Some (with_lock d False s) \<and> heap_ok (with_lock d False s)"
  using assms heap_wf_length [OF assms(1)]
  by (auto simp: desc_release_def heap_ok_def locked_only_def with_lock_desc)

lemma desc_acquire_ok:
  assumes "heap_ok s" and "d < 7"
  shows "desc_acquire d s = Some (with_lock d True s) \<and> heap_wf (with_lock d True s) \<and> locked_only d (with_lock d True s)"
  using assms heap_wf_length [of s] by (auto simp: desc_acquire_def heap_ok_def locked_only_def with_lock_desc)

lemma free_block_arena:
  assumes "heap_wf s" and "d < 7" and "b \<in> set (frees s d)"
  obtains a ar where "arenas s a = Some ar" "owner ar = Some d" "b \<in> arena_blocks a d"
  using assms unfolding heap_wf_def frees_ok_def by blast

lemma finite_arena_blocks [simp]: "finite (arena_blocks a d)"
  by (simp add: arena_blocks_def)

lemma card_arena_blocks: "card (arena_blocks a d) = bcount d"
  unfolding arena_blocks_def by (subst card_image) (auto simp: inj_on_def bsize_def)

lemma card_free_le: "d < 7 \<Longrightarrow> card (arena_blocks a d \<inter> X) \<le> 255"
  using card_mono [of "arena_blocks a d" "arena_blocks a d \<inter> X"] bsize_bcount(4) [of d] card_arena_blocks [of a d]
  by simp

lemma block_to_arena_cong:
  assumes "arenas s' = arenas s" and "\<And>e. block_size (descs s' ! e) = block_size (descs s ! e)"
  shows "block_to_arena b s' = block_to_arena b s"
  by (simp add: block_to_arena_def assms cong: option.case_cong)

lemma upd_free_list:
  assumes "d < length (descs s)"
  shows "block_size (descs (upd_desc d (\<lambda>e. e\<lparr>free_list := f e\<rparr>) s) ! e) = block_size (descs s ! e)"
    "blocks_per_arena (descs (upd_desc d (\<lambda>e. e\<lparr>free_list := f e\<rparr>) s) ! e) = blocks_per_arena (descs s ! e)"
    "arenas (upd_desc d g s) = arenas s"
  using assms by (simp_all add: upd_desc_def nth_list_update)

lemma relist_eq:
  assumes "arenas s a = Some ar"
  shows "(upd_desc d (\<lambda>e. e\<lparr>free_list := bs\<rparr>) s)\<lparr>arenas := (arenas s)(a \<mapsto> ar\<lparr>free_cnt := n\<rparr>)\<rparr> = relist d bs a n s"
  using assms by (simp add: relist_def upd_desc_def)

lemma relist_locked: "heap_wf s \<Longrightarrow> d < 7 \<Longrightarrow> locked_only e (relist d bs a n s) = locked_only e s"
  by (auto simp: locked_only_def relist_desc)

lemma take_block_eq:
  assumes wf: "heap_wf s" and d: "d < 7" and bs: "frees s d = b # bs"
    and a: "arenas s a = Some ar" "owner ar = Some d" "b \<in> arena_blocks a d"
    and n: "n = card (arena_blocks a d \<inter> set bs)"
  shows "take_block d s = do { s \<leftarrow> desc_release d (relist d bs a n s); Some (b, s) }"
proof -
  have len: "d < length (descs s)" using heap_wf_length [OF wf] d by simp
  have "distinct (b # bs)" using wf d bs by (auto simp: heap_wf_def frees_ok_def)
  moreover have "free_cnt ar = card (arena_blocks a d \<inter> set (frees s d))"
    using wf a by (auto simp: heap_wf_def arenas_ok_def)
  ultimately have "free_cnt ar = Suc n" using a(3) by (simp add: bs n)
  moreover have "n \<le> 255" unfolding n by (rule card_free_le [OF d])
  ultimately have dec: "(4294967295 + free_cnt ar) mod 4294967296 = n" by simp
  have "block_to_arena b (upd_desc d (\<lambda>e. e\<lparr>free_list := bs\<rparr>) s) = Some (a, ar)"
    using block_to_arena_cong [of "upd_desc d (\<lambda>e. e\<lparr>free_list := bs\<rparr>) s" s b] block_to_arena_member [OF wf a]
    by (simp add: upd_free_list [OF len])
  then show ?thesis
    by (simp add: take_block_def bs dec upd_free_list(3) [OF len] relist_eq [OF a(1)])
qed

lemma take_block_ok:
  assumes wf: "heap_wf s" and lock: "locked_only d s" and d: "d < 7" and bs: "frees s d = b # bs"
  shows "\<exists>s'. take_block d s = Some (b, s') \<and> handed_out b (bsize d) s s' \<and> (\<forall>u. used_pages u s' = used_pages u s)"
proof -
  obtain a ar where a: "arenas s a = Some ar" "owner ar = Some d" "b \<in> arena_blocks a d"
    using free_block_arena [OF wf d, of b] bs by auto
  define n where "n = card (arena_blocks a d \<inter> set bs)"
  have dist: "distinct bs" "b \<notin> set bs" using wf d bs by (auto simp: heap_wf_def frees_ok_def)
  have rest: "set bs - arena_blocks a d = set (frees s d) - arena_blocks a d" using a(3) by (auto simp: bs)
  define s' where "s' = relist d bs a n s"
  have wf': "heap_wf s'" unfolding s'_def by (rule heap_wf_relist [OF wf a(1,2) dist(1) rest n_def])
  have live: "x \<in> live s' \<longleftrightarrow> x = b \<or> x \<in> live s" for x
    using live_relist [OF wf a(1,2) dist(1) rest n_def, of x] live_iff [OF wf a(1,2), of x] a(3) dist(2)
    by (auto simp: s'_def bs)
  have "b \<notin> live s" using live_iff [OF wf a] bs by simp
  moreover have "room b s' = bsize d"
  proof -
    have "live_in s' b a (ar\<lparr>free_cnt := n\<rparr>)"
      using a dist(2) relist_desc [OF wf d d] by (simp add: live_in_def s'_def relist_arena)
    from live_small(5) [OF wf' this] a(2) show ?thesis by simp
  qed
  moreover have "room x s' = room x s" if "x \<in> live s" for x
    using room_relist [OF wf wf' [unfolded s'_def] a(1,2)] that live by (simp add: s'_def)
  moreover have "desc_release d s' = Some (with_lock d False s') \<and> heap_ok (with_lock d False s')"
    using desc_release_ok [OF wf' _ d] lock relist_locked [OF wf d] by (simp add: s'_def)
  ultimately show ?thesis
    using take_block_eq [OF wf d bs a n_def] live heap_wf_length [OF wf'] d
    by (auto simp: handed_out_def s'_def [symmetric]) (simp_all add: s'_def)
qed

text \<open>A new arena: its page was free, and all of its blocks go on the free list.\<close>

lemma arena_to_block_eq:
  assumes "descs_ok s" and "arenas s a = Some ar" and "magic ar = ARENA_MAGIC" and "owner ar = Some d" and "d < 7"
    and "kernel_page a" and "i < bcount d"
  shows "arena_to_block a i s = Some (a + 12 + i * bsize d)"
proof -
  have "a + 12 + i * bsize d \<in> arena_blocks a d" using assms(7) by (auto simp: arena_blocks_def)
  from arena_block_bounds [OF this assms(5)] bsize_bcount(1) [OF assms(5)]
  have "a + 12 + i * bsize d < 2 ^ 32" using arena_block_page(3) [OF assms(6), of "a + 12 + i * bsize d"] by simp
  then show ?thesis
    using assms by (auto simp: arena_to_block_def ARENA_SIZE_def descs_ok_def kernel_page_def PHYS_BASE_def)
qed

definition block_list :: "nat \<Rightarrow> nat \<Rightarrow> nat \<Rightarrow> nat list" where
  "block_list a d n = map (\<lambda>i. a + 12 + i * bsize d) [0..<n]"

lemma block_list:
  "set (block_list a d (bcount d)) = arena_blocks a d" "distinct (block_list a d n)"
  "block_list a d (Suc n) = block_list a d n @ [a + 12 + n * bsize d]" "block_list a d 0 = []"
  by (auto simp: block_list_def arena_blocks_def distinct_map inj_on_def bsize_def)

definition add_arena :: "nat \<Rightarrow> nat \<Rightarrow> 'a heap_scheme \<Rightarrow> 'a heap_scheme" where
  "add_arena d a s =
     s\<lparr>descs := (descs s)[d := (descs s ! d)\<lparr>free_list := block_list a d (bcount d)\<rparr>],
       arenas := (arenas s)(a \<mapsto> \<lparr>magic = ARENA_MAGIC, owner = Some d, free_cnt = bcount d\<rparr>)\<rparr>"

lemma repool_heap [simp]: "descs (repool u b m s) = descs s" "arenas (repool u b m s) = arenas s"
  by (simp_all add: repool_def set_pool_def)

lemma arena_blocks_extent: "d < 7 \<Longrightarrow> arena_blocks a d \<subseteq> extent a 1"
  using arena_block_bounds [of _ a d] bsize_bcount(1) [of d] by (fastforce simp: extent_def)

text \<open>
  Adding an arena on pages that were free.  The blocks of a small arena all go on the free list of its descriptor;
  the single block of a big arena is handed out at once.
\<close>

definition added :: "nat \<Rightarrow> arena \<Rightarrow> 'a heap_scheme \<Rightarrow> 'a heap_scheme \<Rightarrow> bool" where
  "added p ar s s' \<longleftrightarrow> heap_wf s \<and> kernel_page p \<and> magic ar = ARENA_MAGIC \<and> 0 < arena_pages ar \<and>
     page_run p (arena_pages ar) \<inter> used_pages False s = {} \<and>
     kmem_ok s' \<and> used_pages False s' = used_pages False s \<union> page_run p (arena_pages ar) \<and>
     descs_ok s' \<and> arenas s' = (arenas s)(p \<mapsto> ar) \<and>
     (\<forall>e < 7. distinct (frees s' e) \<and>
        set (frees s' e) = set (frees s e) \<union> (if owner ar = Some e then arena_blocks p e else {})) \<and>
     (\<forall>d. owner ar = Some d \<longrightarrow> d < 7 \<and> free_cnt ar = bcount d)"

lemma added_apart:
  assumes "added p ar s s'" and "arenas s a = Some ar'"
  shows "a \<noteq> p" "page_run p (arena_pages ar) \<inter> page_run a (arena_pages ar') = {}"
    "extent p (arena_pages ar) \<inter> extent a (arena_pages ar') = {}"
proof -
  have wf: "heap_wf s" using assms(1) by (simp add: added_def)
  note a = arena_page [OF wf assms(2)]
  show run: "page_run p (arena_pages ar) \<inter> page_run a (arena_pages ar') = {}"
    using a(5) assms(1) unfolding added_def by blast
  have "p \<in> page_run p (arena_pages ar)" "a \<in> page_run a (arena_pages ar')"
    using a(4) assms(1) by (simp_all add: added_def)
  with run show "a \<noteq> p" by blast
  show "extent p (arena_pages ar) \<inter> extent a (arena_pages ar') = {}"
    by (rule extent_disjoint [OF run]) (use a(1) assms(1) in \<open>simp_all add: added_def kernel_page_def\<close>)
qed

lemma added_new: "added p ar s s' \<Longrightarrow> arenas s p = None"
  using added_apart(1) [of p ar s s' p] by (cases "arenas s p") auto

lemma added_frees:
  assumes add: "added p ar s s'" and a: "arenas s a = Some ar'" "owner ar' = Some e"
  shows "arena_blocks a e \<inter> set (frees s' e) = arena_blocks a e \<inter> set (frees s e)"
proof -
  have e: "e < 7" using arena_owner(1) [OF _ a] add by (simp add: added_def)
  have "arena_blocks a e \<inter> arena_blocks p e = {}" if "owner ar = Some e"
    using added_apart(3) [OF add a(1)] arena_blocks_extent [OF e] a(2) that by (fastforce simp: arena_pages_def)
  then show ?thesis using add e by (auto simp: added_def)
qed

lemma added_frees_ok:
  assumes add: "added p ar s s'"
  shows "frees_ok s'"
  unfolding frees_ok_def
proof (intro allI impI conjI ballI)
  have wf: "heap_wf s" and arena: "arenas s' = (arenas s)(p \<mapsto> ar)" using add by (simp_all add: added_def)
  fix e :: nat assume e: "e < 7"
  then show "distinct (frees s' e)" using add by (simp add: added_def)
  fix b assume b: "b \<in> set (frees s' e)"
  show "\<exists>a ar. arenas s' a = Some ar \<and> owner ar = Some e \<and> b \<in> arena_blocks a e"
  proof (cases "owner ar = Some e \<and> b \<in> arena_blocks p e")
    case True
    then show ?thesis by (intro exI [of _ p]) (simp add: arena)
  next
    case False
    then have "b \<in> set (frees s e)" using add b e by (auto simp: added_def split: if_splits)
    from free_block_arena [OF wf e this] obtain a ar' where
      a: "arenas s a = Some ar'" "owner ar' = Some e" "b \<in> arena_blocks a e" .
    then have "arenas s' a = Some ar'" using added_new [OF add] by (auto simp: arena)
    with a show ?thesis by blast
  qed
qed

lemma added_arenas_ok:
  assumes add: "added p ar s s'"
  shows "arenas_ok s'"
  unfolding arenas_ok_def
proof (intro conjI allI impI)
  have wf: "heap_wf s" and arena: "arenas s' = (arenas s)(p \<mapsto> ar)"
    and used: "used_pages False s' = used_pages False s \<union> page_run p (arena_pages ar)"
    using add by (simp_all add: added_def)
  {
    fix x arx assume x: "arenas s' x = Some arx"
    show "magic arx = ARENA_MAGIC" "0 < arena_pages arx" "page_run x (arena_pages arx) \<subseteq> used_pages False s'"
      using x arena_page(3-5) [OF wf, of x arx] add unfolding used added_def
      by (cases "x = p"; force simp: arena)+
    fix e assume o: "owner arx = Some e"
    have "e < 7 \<and> free_cnt arx = card (arena_blocks x e \<inter> set (frees s' e))"
    proof (cases "x = p")
      case True
      moreover have "arena_blocks p e \<inter> set (frees s' e) = arena_blocks p e" if "owner ar = Some e"
        using add that by (auto simp: added_def)
      ultimately show ?thesis using x o add card_arena_blocks [of p e] by (simp add: arena added_def)
    next
      case False
      then have "arenas s x = Some arx" using x by (simp add: arena)
      with added_frees [OF add this o] arena_owner [OF wf this o] show ?thesis by simp
    qed
    then show "e < 7" "free_cnt arx = card (arena_blocks x e \<inter> set (frees s' e))" by auto
  next
    fix x arx y ary assume "arenas s' x = Some arx" "arenas s' y = Some ary" "x \<noteq> y"
    then show "page_run x (arena_pages arx) \<inter> page_run y (arena_pages ary) = {}"
      using arena_runs_disjoint [OF wf, of x arx y ary] added_apart(2) [OF add, of x arx] added_apart(2) [OF add, of y ary]
      by (cases "x = p"; cases "y = p") (auto simp: arena)
  }
qed

lemma added_heap:
  assumes add: "added p ar s s'"
  shows "heap_wf s'" "live s' = (if owner ar = None then insert (p + 12) (live s) else live s)"
    "\<And>b. b \<in> live s \<Longrightarrow> room b s' = room b s"
proof -
  have wf: "heap_wf s" and arena: "arenas s' = (arenas s)(p \<mapsto> ar)" using add by (simp_all add: added_def)
  show wf': "heap_wf s'"
    using add added_frees_ok [OF add] added_arenas_ok [OF add] by (simp add: heap_wf_def added_def)
  have old: "live_in s' b a ar' \<longleftrightarrow> live_in s b a ar'" if "a \<noteq> p" for b a ar'
    using added_frees [OF add, of a ar'] that by (auto simp: live_in_def arena split: option.splits)
  have new: "\<not> live_in s b p ar'" for b ar' using added_new [OF add] by (simp add: live_in_def)
  have "live_in s' b p ar' \<longleftrightarrow> ar' = ar \<and> owner ar = None \<and> b = p + 12" for b ar'
    using add by (auto simp: live_in_def arena added_def split: option.splits)
  then have "b \<in> live s' \<longleftrightarrow> owner ar = None \<and> b = p + 12 \<or> b \<in> live s" for b
    using old new unfolding live_def mem_Collect_eq by metis
  then show "live s' = (if owner ar = None then insert (p + 12) (live s) else live s)" by auto
  show "room b s' = room b s" if b: "b \<in> live s" for b
  proof -
    from b obtain a ar' where a: "live_in s b a ar'" by (auto simp: live_def)
    with new have "a \<noteq> p" by auto
    with old room_eq [OF wf wf' a] a show ?thesis by simp
  qed
qed

lemma add_arena_added:
  assumes wf: "heap_wf s" and d: "d < 7" and none: "frees s d = []"
    and p: "kernel_page p" "p \<notin> used_pages False s"
    and k: "kmem_ok k" "used_pages False k = insert p (used_pages False s)" "descs k = descs s" "arenas k = arenas s"
  shows "added p \<lparr>magic = ARENA_MAGIC, owner = Some d, free_cnt = bcount d\<rparr> s (add_arena d p k)"
    "frees (add_arena d p k) d = block_list p d (bcount d)"
proof -
  have desc: "descs (add_arena d p k) ! e =
      (if e = d then (descs s ! d)\<lparr>free_list := block_list p d (bcount d)\<rparr> else descs s ! e)" if "e < 7" for e
    using that heap_wf_length [OF wf] by (simp add: add_arena_def k nth_list_update)
  then show "frees (add_arena d p k) d = block_list p d (bcount d)" using d by simp
  have "descs_ok (add_arena d p k)"
    using wf by (simp add: heap_wf_def descs_ok_def desc) (simp add: add_arena_def k)
  moreover have "distinct (frees s e)" if "e < 7" for e using wf that by (simp add: heap_wf_def frees_ok_def)
  ultimately show "added p \<lparr>magic = ARENA_MAGIC, owner = Some d, free_cnt = bcount d\<rparr> s (add_arena d p k)"
    using wf p k d none by (simp add: added_def desc block_list arena_pages_def) (simp add: add_arena_def)
qed

lemma new_arena_fill:
  assumes d: "d < 7" and s: "descs_ok s" "frees s d = []" and p: "kernel_page p"
  shows "for_upto 0 (bcount d)
    (\<lambda>i s. do {
       b \<leftarrow> arena_to_block p i s;
       Some (upd_desc d (\<lambda>e. e\<lparr>free_list := free_list e @ [b]\<rparr>) s)
     }) (s\<lparr>arenas := (arenas s)(p \<mapsto> \<lparr>magic = ARENA_MAGIC, owner = Some d, free_cnt = bcount d\<rparr>)\<rparr>) =
    Some (add_arena d p s)"
proof -
  let ?ar = "\<lparr>magic = ARENA_MAGIC, owner = Some d, free_cnt = bcount d\<rparr>"
  let ?t = "\<lambda>i. s\<lparr>descs := (descs s)[d := (descs s ! d)\<lparr>free_list := block_list p d i\<rparr>],
    arenas := (arenas s)(p \<mapsto> ?ar)\<rparr>"
  let ?body = "\<lambda>i s. do {
       b \<leftarrow> arena_to_block p i s;
       Some (upd_desc d (\<lambda>e. e\<lparr>free_list := free_list e @ [b]\<rparr>) s)
     }"
  have len: "d < length (descs s)" using s d by (simp add: descs_ok_def)
  have step: "?body i (?t i) = Some (?t (Suc i))" if i: "i < bcount d" for i
  proof -
    have "descs_ok (?t i)" using s(1) len by (auto simp: descs_ok_def nth_list_update)
    from arena_to_block_eq [OF this _ _ _ d p i, of ?ar]
    have "arena_to_block p i (?t i) = Some (p + 12 + i * bsize d)" by simp
    then show ?thesis using len by (simp add: upd_desc_def block_list(3))
  qed
  have "(descs s ! d)\<lparr>free_list := []\<rparr> = descs s ! d" using s(2) by (cases "descs s ! d") simp
  then have "?t 0 = s\<lparr>arenas := (arenas s)(p \<mapsto> ?ar)\<rparr>" by (simp add: block_list(4))
  with for_upto_states [of 0 "bcount d" ?body ?t] step show ?thesis by (simp add: add_arena_def)
qed

lemma new_arena_cases:
  assumes wf: "heap_wf s" and lock: "locked_only d s" and d: "d < 7" and none: "frees s d = []"
  obtains "new_arena d s = Some (False, s)" "pool_pages False s \<subseteq> used_pages False s"
  | s' where "new_arena d s = Some (True, s')" "heap_wf s'" "locked_only d s'" "frees s' d \<noteq> []"
    "live s' = live s" "\<And>b. b \<in> live s \<Longrightarrow> room b s' = room b s" "ram s' = ram s"
proof -
  have k: "kmem_ok s" using wf by (simp add: heap_wf_def)
  have bpa: "blocks_per_arena (descs s ! d) = bcount d" using wf d by (simp add: heap_wf_def descs_ok_def)
  show thesis
  proof (rule palloc_get_page_cases [OF k, of False 0])
    assume "palloc_get_page 0 s = (if 0 AND PAL_ASSERT \<noteq> 0 then None else Some (0, s))"
      and "pool_pages False s \<subseteq> used_pages False s"
    then show thesis by (intro that(1)) (simp_all add: new_arena_def)
  next
    fix p b m
    assume p: "palloc_get_page 0 s = Some (p, repool False b m s)" "kmem_ok (repool False b m s)" "kernel_page p"
      "p \<notin> used_pages False s" "used_pages False (repool False b m s) = insert p (used_pages False s)"
      and m: "m = (\<lambda>x. if 0 AND PAL_ZERO \<noteq> 0 \<and> x \<in> extent p (Suc 0) then 0 else ram s x)"
    let ?k = "repool False b m s"
    have "descs_ok ?k" using wf by (simp add: heap_wf_def descs_ok_def)
    from new_arena_fill [OF d this _ p(3)] none bpa p(1,3)
    have "new_arena d s = Some (True, add_arena d p ?k)"
      by (simp add: new_arena_def kernel_page_def PHYS_BASE_def)
    moreover have "ram (add_arena d p ?k) = ram s" by (simp add: add_arena_def m)
    moreover have "locked_only d (add_arena d p ?k)"
      using lock heap_wf_length [OF wf] by (auto simp: locked_only_def add_arena_def nth_list_update)
    moreover have "block_list p d (bcount d) \<noteq> []" using bsize_bcount(3) [OF d] by (simp add: block_list_def)
    ultimately show thesis
      using add_arena_added(2) [OF wf d none p(3,4,2,5)] added_heap [OF add_arena_added(1) [OF wf d none p(3,4,2,5)]]
      by (intro that(2) [of "add_arena d p ?k"]) simp_all
  qed simp
qed


lemma handed_out_trans:
  assumes "handed_out p n t s'" and "live t = live s" and "\<And>b. b \<in> live s \<Longrightarrow> room b t = room b s" and "ram t = ram s"
  shows "handed_out p n s s'"
  using assms by (simp add: handed_out_def)

text \<open>
  The outcome of a request for a block of at most 1024 bytes: descriptor \<open>d\<close> is the smallest one that fits.
\<close>

lemma find_desc:
  assumes "heap_wf s"
  obtains d where "n \<le> 1024" "find_upto 0 (length (descs s)) (\<lambda>d. Some (block_size (descs s ! d) \<ge> n)) = Some (Some d)"
      "d < 7" "n \<le> bsize d"
  | "1024 < n" "find_upto 0 (length (descs s)) (\<lambda>d. Some (block_size (descs s ! d) \<ge> n)) = Some None"
proof -
  have len: "length (descs s) = 7" by (rule heap_wf_length [OF assms])
  have test: "Some (block_size (descs s ! j) \<ge> n) = Some (n \<le> bsize j)" if "0 \<le> j" "j < length (descs s)" for j
    using assms that len by (simp add: heap_wf_def descs_ok_def)
  have top: "bsize 6 = 1024" by (simp add: bsize_def)
  show thesis
  proof (rule find_upto_cases [OF test])
    assume found: "find_upto 0 (length (descs s)) (\<lambda>d. Some (block_size (descs s ! d) \<ge> n)) = Some None"
      and none: "\<And>j. 0 \<le> j \<Longrightarrow> j < length (descs s) \<Longrightarrow> \<not> n \<le> bsize j"
    from none [of 6] top len have "1024 < n" by simp
    with found show thesis by (rule that(2) [rotated])
  next
    fix k assume "find_upto 0 (length (descs s)) (\<lambda>d. Some (block_size (descs s ! d) \<ge> n)) = Some (Some k)"
      "k < length (descs s)" "n \<le> bsize k"
    with bsize_bcount(2) [of k] len show thesis by (intro that(1)) auto
  qed
qed

lemma handed_out_nonnull: "handed_out p n s s' \<Longrightarrow> p \<noteq> 0"
proof -
  assume out: "handed_out p n s s'"
  then have "p \<in> live s'" "heap_wf s'" by (simp_all add: handed_out_def heap_ok_def)
  then show "p \<noteq> 0" using live_span(2) [of s' p] by (fastforce simp: live_def)
qed

lemma handed_out_le: "handed_out p n s s' \<Longrightarrow> k \<le> n \<Longrightarrow> handed_out p k s s'"
  by (auto simp: handed_out_def)

lemma with_lock_cycle:
  assumes "d < length (descs s)" and "\<not> desc_lock (descs s ! d)"
  shows "with_lock d False (with_lock d True s) = s"
proof -
  have "(descs s ! d)\<lparr>desc_lock := False\<rparr> = descs s ! d" using assms(2) by (cases "descs s ! d") simp
  with assms(1) show ?thesis by (simp add: upd_desc_def)
qed

lemma malloc_small:
  assumes ok: "heap_ok s" and n: "0 < n" "n \<le> 1024"
  obtains "malloc n s = Some (0, s)" "pool_pages False s \<subseteq> used_pages False s"
  | p s' where "malloc n s = Some (p, s')" "p \<noteq> 0" "handed_out p n s s'"
proof -
  note outcome = that
  have wf: "heap_wf s" using ok by (simp add: heap_ok_def)
  obtain d where d: "find_upto 0 (length (descs s)) (\<lambda>d. Some (block_size (descs s ! d) \<ge> n)) = Some (Some d)"
      "d < 7" "n \<le> bsize d"
    using n(2) by (cases rule: find_desc [OF wf, of n]) auto
  define t where "t = with_lock d True s"
  have len: "d < length (descs s)" using heap_wf_length [OF wf] d(2) by simp
  have acq: "desc_acquire d s = Some t" "heap_wf t" "locked_only d t"
    using desc_acquire_ok [OF ok d(2)] by (simp_all add: t_def)
  have t: "live t = live s" "\<And>b. room b t = room b s" "ram t = ram s" using len by (simp_all add: t_def)
  have step: "malloc n s = (if frees t d = [] then do {
        (ok, s) \<leftarrow> new_arena d t;
        if \<not> ok then do { s \<leftarrow> desc_release d s; Some (0, s) } else take_block d s
      } else take_block d t)"
    using n(1) d(1) acq(1) by (simp add: malloc_def)
  have taken: thesis if u: "heap_wf u" "locked_only d u" "frees u d \<noteq> []" "live u = live s" "ram u = ram s"
      "\<And>b. b \<in> live s \<Longrightarrow> room b u = room b s" "malloc n s = take_block d u" for u
  proof -
    obtain b bs where "frees u d = b # bs" using u(3) by (cases "frees u d") auto
    from take_block_ok [OF u(1,2) d(2) this] obtain s' where "take_block d u = Some (b, s')" "handed_out b (bsize d) u s'"
      by blast
    with handed_out_le [OF handed_out_trans [OF _ u(4) u(6) u(5)] d(3)] handed_out_nonnull u(7) show thesis
      by (intro outcome(2) [of b s']) auto
  qed
  show thesis
  proof (cases "frees t d = []")
    case True
    show thesis
    proof (rule new_arena_cases [OF acq(2,3) d(2) True])
      assume fail: "new_arena d t = Some (False, t)" and full: "pool_pages False t \<subseteq> used_pages False t"
      have "desc_release d t = Some s"
        using desc_release_ok [OF acq(2,3) d(2)] with_lock_cycle [OF len] ok d(2) by (simp add: t_def heap_ok_def)
      with fail full True step show thesis by (intro that(1)) (simp_all add: t_def)
    next
      fix u assume u: "new_arena d t = Some (True, u)" "heap_wf u" "locked_only d u" "frees u d \<noteq> []"
        "live u = live t" "\<And>b. b \<in> live t \<Longrightarrow> room b u = room b t" "ram u = ram t"
      show thesis by (rule taken [OF u(2-4)]) (use u t step True in auto)
    qed
  next
    case False
    show thesis by (rule taken [OF acq(2,3) False]) (use t step False in auto)
  qed
qed

text \<open>A request for a number of pages through the big-block path, with the pages that the code computes.\<close>

lemma malloc_big_cases:
  assumes ok: "heap_ok s" and k: "k = DIV_ROUND_UP ((n + 12) mod 2 ^ 32) 4096" "0 < k"
  obtains "malloc_big n s = Some (0, s)" "\<And>p. page_run p k \<subseteq> pool_pages False s \<Longrightarrow> page_run p k \<inter> used_pages False s \<noteq> {}"
  | p s' where "malloc_big n s = Some (p, s')" "p \<noteq> 0" "handed_out p (4096 * k - 12) s s'" "room p s' = 4096 * k - 12"
proof -
  have wf: "heap_wf s" using ok by (simp add: heap_ok_def)
  then have km: "kmem_ok s" by (simp add: heap_wf_def)
  show thesis
  proof (rule palloc_get_multiple_cases [OF km k(2), of False 0])
    assume "palloc_get_multiple 0 k s = (if 0 AND PAL_ASSERT \<noteq> 0 then None else Some (0, s))"
      and "\<And>p. page_run p k \<subseteq> pool_pages False s \<Longrightarrow> page_run p k \<inter> used_pages False s \<noteq> {}"
    then show thesis
      by (intro that(1)) (simp_all add: malloc_big_def ARENA_SIZE_def k(1) [symmetric, simplified])
  next
    fix a b m
    assume a: "palloc_get_multiple 0 k s = Some (a, repool False b m s)" "kmem_ok (repool False b m s)" "kernel_page a"
        "page_run a k \<inter> used_pages False s = {}"
        "used_pages False (repool False b m s) = used_pages False s \<union> page_run a k"
      and m: "m = (\<lambda>x. if 0 AND PAL_ZERO \<noteq> 0 \<and> x \<in> extent a k then 0 else ram s x)"
    define ar where "ar = \<lparr>magic = ARENA_MAGIC, owner = None, free_cnt = k\<rparr>"
    define s' where "s' = (repool False b m s)\<lparr>arenas := (arenas s)(a \<mapsto> ar)\<rparr>"
    have big: "malloc_big n s = Some (a + 12, s')"
      using a(1,3) by (simp add: malloc_big_def ARENA_SIZE_def k(1) [symmetric, simplified] s'_def ar_def kernel_page_def
        PHYS_BASE_def)
    have "distinct (frees s e)" if "e < 7" for e using wf that by (simp add: heap_wf_def frees_ok_def)
    then have add: "added a ar s s'"
      using wf a k(2) by (auto simp: added_def ar_def s'_def arena_pages_def heap_wf_def descs_ok_def)
    note new = added_heap [OF add]
    have live: "live s' = insert (a + 12) (live s)" using new(2) by (simp add: ar_def)
    have "live_in s' (a + 12) a ar" by (simp add: live_in_def s'_def ar_def)
    from live_big(3) [OF new(1) this] have room: "room (a + 12) s' = 4096 * k - 12" by (simp add: ar_def)
    have "pg_round_down (a + 12) = a" using arena_block_page(1) [OF a(3), of "a + 12"] by simp
    then have "\<not> live_in s (a + 12) a' ar'" for a' ar'
      using live_in_arena [OF wf, of "a + 12" a' ar'] added_new [OF add] by (auto simp: live_in_def)
    then have "a + 12 \<notin> live s" by (simp add: live_def)
    moreover have "heap_ok s'" using new(1) ok by (simp add: heap_ok_def s'_def)
    ultimately have "handed_out (a + 12) (4096 * k - 12) s s'"
      using live room new(3) by (simp add: handed_out_def) (simp add: s'_def m)
    with big room show thesis by (intro that(2) [of "a + 12" s']) simp_all
  qed simp
qed

lemma malloc_uses_big:
  assumes "heap_wf s" and "1024 < n"
  shows "malloc n s = malloc_big n s"
  using assms(2) by (cases rule: find_desc [OF assms(1), of n]) (simp_all add: malloc_def)

lemma malloc_large:
  assumes ok: "heap_ok s" and n: "1024 < n" "n + 12 + 4096 \<le> 2 ^ 32" and k: "k = DIV_ROUND_UP (n + 12) 4096"
  obtains "malloc n s = Some (0, s)" "\<And>p. page_run p k \<subseteq> pool_pages False s \<Longrightarrow> page_run p k \<inter> used_pages False s \<noteq> {}"
  | p s' where "malloc n s = Some (p, s')" "p \<noteq> 0" "handed_out p n s s'"
proof -
  have small: "(n + 12) mod 2 ^ 32 = n + 12" using n(2) by simp
  have bounds: "n + 12 \<le> k * 4096" using DIV_ROUND_UP_bounds [of 4096 "n + 12"] n(2) k by simp
  then have pos: "0 < k" using n(1) by (cases k) auto
  have big: "malloc n s = malloc_big n s" using malloc_uses_big [of s n] n(1) ok by (simp add: heap_ok_def)
  have le: "n \<le> 4096 * k - 12" using bounds by simp
  show thesis
  proof (rule malloc_big_cases [OF ok _ pos, of n])
    show "k = DIV_ROUND_UP ((n + 12) mod 2 ^ 32) 4096" by (simp only: small k)
  qed (use that big handed_out_le [OF _ le] in auto)
qed

section \<open>Freeing blocks\<close>

text \<open>
  After the call, \<open>p\<close> is no longer handed out and all other blocks are as before, with their contents.
\<close>

definition taken_back :: "nat \<Rightarrow> 'a heap_scheme \<Rightarrow> 'a heap_scheme \<Rightarrow> bool" where
  "taken_back p s s' \<longleftrightarrow> heap_ok s' \<and> live s' = live s - {p} \<and>
     (\<forall>b \<in> live s'. room b s' = room b s \<and> (\<forall>x \<in> span b s. ram s' x = ram s x))"

text \<open>Removing an arena and giving its pages back.\<close>

definition removed :: "nat \<Rightarrow> arena \<Rightarrow> 'a heap_scheme \<Rightarrow> 'a heap_scheme \<Rightarrow> bool" where
  "removed p ar s s' \<longleftrightarrow> heap_wf s \<and> arenas s p = Some ar \<and>
     kmem_ok s' \<and> used_pages False s' = used_pages False s - page_run p (arena_pages ar) \<and>
     descs_ok s' \<and> arenas s' = (arenas s)(p := None) \<and>
     (\<forall>e < 7. distinct (frees s' e) \<and>
        set (frees s' e) = set (frees s e) - (if owner ar = Some e then arena_blocks p e else {}))"

lemma removed_frees:
  assumes rem: "removed p ar s s'" and a: "arenas s a = Some ar'" "owner ar' = Some e" "a \<noteq> p"
  shows "arena_blocks a e \<inter> set (frees s' e) = arena_blocks a e \<inter> set (frees s e)"
proof -
  have wf: "heap_wf s" and p: "arenas s p = Some ar" using rem by (simp_all add: removed_def)
  have "arena_blocks a e \<inter> arena_blocks p e = {}" if "owner ar = Some e"
    by (rule arena_blocks_disjoint [OF wf a(1) p a(3,2) that])
  then show ?thesis using rem arena_owner(1) [OF wf a(1,2)] by (auto simp: removed_def)
qed

lemma removed_frees_ok:
  assumes rem: "removed p ar s s'"
  shows "frees_ok s'"
  unfolding frees_ok_def
proof (intro allI impI conjI ballI)
  have wf: "heap_wf s" and p: "arenas s p = Some ar" and arena: "arenas s' = (arenas s)(p := None)"
    using rem by (simp_all add: removed_def)
  fix e :: nat assume e: "e < 7"
  then show "distinct (frees s' e)" using rem by (simp add: removed_def)
  fix b assume "b \<in> set (frees s' e)"
  then have b: "b \<in> set (frees s e)" "owner ar = Some e \<Longrightarrow> b \<notin> arena_blocks p e"
    using rem e by (auto simp: removed_def split: if_splits)
  obtain a ar' where a: "arenas s a = Some ar'" "owner ar' = Some e" "b \<in> arena_blocks a e"
    by (rule free_block_arena [OF wf e b(1)])
  then have "a \<noteq> p" using b(2) p by auto
  with a show "\<exists>a ar. arenas s' a = Some ar \<and> owner ar = Some e \<and> b \<in> arena_blocks a e"
    by (intro exI [of _ a]) (simp add: arena)
qed

lemma removed_arenas_ok:
  assumes rem: "removed p ar s s'"
  shows "arenas_ok s'"
  unfolding arenas_ok_def
proof (intro conjI allI impI)
  have wf: "heap_wf s" and p: "arenas s p = Some ar" and arena: "arenas s' = (arenas s)(p := None)"
    and used: "used_pages False s' = used_pages False s - page_run p (arena_pages ar)"
    using rem by (simp_all add: removed_def)
  {
    fix x arx assume "arenas s' x = Some arx"
    then have x: "arenas s x = Some arx" "x \<noteq> p" by (auto simp: arena split: if_splits)
    show "magic arx = ARENA_MAGIC" "0 < arena_pages arx" by (rule arena_page [OF wf x(1)])+
    show "page_run x (arena_pages arx) \<subseteq> used_pages False s'"
      using arena_page(5) [OF wf x(1)] arena_runs_disjoint [OF wf x(1) p x(2)] by (auto simp: used)
    fix e assume o: "owner arx = Some e"
    show "e < 7" "free_cnt arx = card (arena_blocks x e \<inter> set (frees s' e))"
      using arena_owner [OF wf x(1) o] removed_frees [OF rem x(1) o x(2)] by simp_all
  next
    fix x arx y ary assume "arenas s' x = Some arx" "arenas s' y = Some ary" "x \<noteq> y"
    then show "page_run x (arena_pages arx) \<inter> page_run y (arena_pages ary) = {}"
      by (intro arena_runs_disjoint [OF wf]) (auto simp: arena split: if_splits)
  }
qed

lemma removed_heap:
  assumes rem: "removed p ar s s'"
  shows "heap_wf s'" "live s' = {b \<in> live s. pg_round_down b \<noteq> p}" "\<And>b. b \<in> live s' \<Longrightarrow> room b s' = room b s"
proof -
  have wf: "heap_wf s" and arena: "arenas s' = (arenas s)(p := None)" using rem by (simp_all add: removed_def)
  show wf': "heap_wf s'"
    using rem removed_frees_ok [OF rem] removed_arenas_ok [OF rem] by (simp add: heap_wf_def removed_def)
  have same: "live_in s' b a ar' \<longleftrightarrow> live_in s b a ar' \<and> pg_round_down b \<noteq> p" for b a ar'
  proof (cases "a = p")
    case True
    then show ?thesis using live_in_arena [OF wf, of b a ar'] by (auto simp: live_in_def arena)
  next
    case False
    then have "live_in s' b a ar' \<longleftrightarrow> live_in s b a ar'"
      using removed_frees [OF rem, of a ar'] by (auto simp: live_in_def arena split: option.splits)
    then show ?thesis using live_in_arena [OF wf, of b a ar'] False by blast
  qed
  then show "live s' = {b \<in> live s. pg_round_down b \<noteq> p}" by (auto simp: live_def)
  show "room b s' = room b s" if b: "b \<in> live s'" for b
  proof -
    from b obtain a ar' where "live_in s' b a ar'" by (auto simp: live_def)
    with same room_eq [OF wf wf', of b a ar' ar'] show ?thesis by simp
  qed
qed

lemma live_apart:
  assumes wf: "heap_wf s" and a: "arenas s a = Some ar" and b: "b \<in> live s" "pg_round_down b \<noteq> a"
  shows "span b s \<inter> extent a (arena_pages ar) = {}"
proof -
  obtain a' ar' where in_arena: "live_in s b a' ar'" using b(1) by (auto simp: live_def)
  with live_in_arena [OF wf] b(2) have "a' \<noteq> a" by blast
  moreover have "arenas s a' = Some ar'" using in_arena by (simp add: live_in_def)
  ultimately show ?thesis
    using arena_extent_disjoint [OF wf _ a, of a' ar'] live_span(5) [OF wf in_arena] by blast
qed

text \<open>Giving the pages of an arena back, the last block of which is being freed.\<close>

lemma free_arena_ok:
  assumes "kmem_ok s" and "0 < k" and "page_run a k \<subseteq> used_pages False s"
  shows "\<exists>s'. free_arena a k s = Some s' \<and> descs s' = descs s \<and> arenas s' = (arenas s)(a := None) \<and> kmem_ok s' \<and>
    used_pages False s' = used_pages False s - page_run a k \<and> (\<forall>x. x \<notin> extent a k \<longrightarrow> ram s' x = ram s x)"
  by (rule palloc_free_multiple_ok [OF assms]) (auto simp: free_arena_def)

lemma free_big:
  assumes ok: "heap_ok s" and p: "live_in s p a ar" "owner ar = None"
  shows "\<exists>s'. free p s = Some s' \<and> taken_back p s s'"
proof -
  have wf: "heap_wf s" and a: "arenas s a = Some ar" using ok p by (simp_all add: heap_ok_def live_in_def)
  note big = live_big [OF wf p]
  obtain s' where s': "free_arena a (arena_pages ar) s = Some s'" "descs s' = descs s" "arenas s' = (arenas s)(a := None)"
      "kmem_ok s'" "used_pages False s' = used_pages False s - page_run a (arena_pages ar)"
      "\<forall>x. x \<notin> extent a (arena_pages ar) \<longrightarrow> ram s' x = ram s x"
    using free_arena_ok [of s "arena_pages ar" a] arena_page [OF wf a] wf by (auto simp: heap_wf_def)
  have "free p s = Some s'"
    using big(1,2) s'(1) p(2) by (simp add: free_def arena_pages_def)
  moreover have rem: "removed a ar s s'"
    using wf a s' p(2) by (auto simp: removed_def heap_wf_def descs_ok_def frees_ok_def)
  have "pg_round_down b = a \<longleftrightarrow> b = p" if b: "b \<in> live s" for b
  proof -
    obtain a' ar' where in_arena: "live_in s b a' ar'" using b by (auto simp: live_def)
    from live_in_arena [OF wf this] live_in_arena [OF wf p(1)] this show ?thesis
      using a p(2) big(1) by (auto simp: live_in_def)
  qed
  then have "live s' = live s - {p}" using removed_heap(2) [OF rem] by auto
  moreover have "ram s' x = ram s x" if "b \<in> live s'" "x \<in> span b s" for b x
    using s'(6) live_apart [OF wf a, of b] removed_heap(2) [OF rem] that by auto
  ultimately show ?thesis
    using removed_heap [OF rem] ok s'(2) by (auto simp: taken_back_def heap_ok_def)
qed

lemma with_ram [simp]:
  "heap_wf (s\<lparr>ram := m\<rparr>) = heap_wf s" "live (s\<lparr>ram := m\<rparr>) = live s" "room b (s\<lparr>ram := m\<rparr>) = room b s"
  "heap_ok (s\<lparr>ram := m\<rparr>) = heap_ok s" "kmem_ok (s\<lparr>ram := m\<rparr>) = kmem_ok s"
  "used_pages u (s\<lparr>ram := m\<rparr>) = used_pages u s" "pool_pages u (s\<lparr>ram := m\<rparr>) = pool_pages u s"
  by (simp_all add: heap_wf_def heap_ok_def kmem_ok_def descs_ok_def arenas_ok_def frees_ok_def live_def live_in_def
    room_def block_size_of_def block_to_arena_def used_pages_def pool_pages_def cong: option.case_cong)

lemma remove1_filter: "distinct xs \<Longrightarrow> remove1 x (filter P xs) = filter (\<lambda>y. y \<noteq> x \<and> P y) xs"
  by (induction xs) (auto simp: filter_empty_conv intro: filter_cong)

text \<open>The loop of \<^verbatim>\<open>free\<close> that takes all blocks of an unused arena off the free list.\<close>

lemma remove_blocks:
  assumes d: "d < 7" and s: "descs_ok s" "distinct (frees s d)" "arena_blocks a d \<subseteq> set (frees s d)"
    and a: "arenas s a = Some ar" "magic ar = ARENA_MAGIC" "owner ar = Some d" "kernel_page a"
  shows "for_upto 0 (bcount d) (\<lambda>i s. do { b \<leftarrow> arena_to_block a i s; remove_block d b s }) s =
    Some (upd_desc d (\<lambda>e. e\<lparr>free_list := filter (\<lambda>b. b \<notin> arena_blocks a d) (free_list e)\<rparr>) s)"
proof -
  let ?t = "\<lambda>i. s\<lparr>descs := (descs s)[d := (descs s ! d)\<lparr>free_list :=
    filter (\<lambda>b. b \<notin> set (block_list a d i)) (frees s d)\<rparr>]\<rparr>"
  let ?body = "\<lambda>i s. do { b \<leftarrow> arena_to_block a i s; remove_block d b s }"
  have len: "d < length (descs s)" using s d by (simp add: descs_ok_def)
  have step: "?body i (?t i) = Some (?t (Suc i))" if i: "i < bcount d" for i
  proof -
    let ?b = "a + 12 + i * bsize d"
    have "descs_ok (?t i)" using s(1) len by (auto simp: descs_ok_def nth_list_update)
    from arena_to_block_eq [OF this _ a(2,3) d a(4) i] a(1)
    have "arena_to_block a i (?t i) = Some ?b" by simp
    moreover have "?b \<in> set (frees s d)" "?b \<notin> set (block_list a d i)"
      using s(3) i by (auto simp: arena_blocks_def block_list_def bsize_def)
    ultimately show ?thesis
      using len s(2) by (simp add: remove_block_def upd_desc_def block_list(3) remove1_filter)
  qed
  have "(descs s ! d)\<lparr>free_list := frees s d\<rparr> = descs s ! d" by (cases "descs s ! d") simp
  then have "?t 0 = s" by (simp add: block_list(4))
  with for_upto_states [of 0 "bcount d" ?body ?t] step show ?thesis by (simp add: upd_desc_def block_list(1))
qed

text \<open>The unlocked part of \<^verbatim>\<open>free\<close>: the arena has no block in use any more and is given back.\<close>

lemma release_arena:
  assumes wf: "heap_wf s" and lock: "locked_only d s" and a: "arenas s a = Some ar" "owner ar = Some d"
    and all: "arena_blocks a d \<subseteq> set (frees s d)"
  shows "\<exists>s'. do {
      s \<leftarrow> for_upto 0 (bcount d) (\<lambda>i s. do { b \<leftarrow> arena_to_block a i s; remove_block d b s }) s;
      free_arena a 1 s
    } = Some s' \<and> removed a ar s s' \<and> locked_only d s' \<and> (\<forall>x. x \<notin> extent a 1 \<longrightarrow> ram s' x = ram s x)"
proof -
  note ar = arena_page [OF wf a(1)] and d = arena_owner(1) [OF wf a]
  have pages: "arena_pages ar = 1" using a(2) by (simp add: arena_pages_def)
  have ok: "descs_ok s" "kmem_ok s" "distinct (frees s e)" if "e < 7" for e
    using wf that by (simp_all add: heap_wf_def frees_ok_def)
  have len: "length (descs s) = 7" by (rule heap_wf_length [OF wf])
  define t where "t = upd_desc d (\<lambda>e. e\<lparr>free_list := filter (\<lambda>b. b \<notin> arena_blocks a d) (free_list e)\<rparr>) s"
  have desc: "descs t ! e = (if e = d then (descs s ! d)\<lparr>free_list := filter (\<lambda>b. b \<notin> arena_blocks a d) (frees s d)\<rparr>
      else descs s ! e)" if "e < 7" for e
    using that len by (simp add: t_def upd_desc_def nth_list_update)
  have t: "kmem_ok t" "used_pages False t = used_pages False s" "ram t = ram s" "arenas t = arenas s" "length (descs t) = 7"
    using ok(2) [OF d] len by (simp_all add: t_def upd_desc_def)
  obtain s' where s': "free_arena a 1 t = Some s'" "descs s' = descs t" "arenas s' = (arenas t)(a := None)" "kmem_ok s'"
      "used_pages False s' = used_pages False t - page_run a 1" "\<forall>x. x \<notin> extent a 1 \<longrightarrow> ram s' x = ram t x"
    using free_arena_ok [of t 1 a] ar(5) pages t(1,2) by auto
  have "removed a ar s s'"
    using wf a s' t ok d by (auto simp: removed_def desc descs_ok_def pages)
  moreover have "locked_only d s'" using lock s'(2) by (auto simp: locked_only_def desc)
  ultimately show ?thesis
    using remove_blocks [OF d ok(1) ok(3) all a(1) ar(3) a(2) ar(1)] d s' t(3) by (simp add: t_def [symmetric])
qed

lemma release_arena_live:
  assumes wf: "heap_wf s" and lock: "locked_only d s" and a: "arenas s a = Some ar" "owner ar = Some d"
    and all: "free_cnt ar = bcount d"
  shows "\<exists>s'. do {
      s \<leftarrow> for_upto 0 (bcount d) (\<lambda>i s. do { b \<leftarrow> arena_to_block a i s; remove_block d b s }) s;
      free_arena a 1 s
    } = Some s' \<and> heap_wf s' \<and> locked_only d s' \<and> live s' = live s \<and>
    (\<forall>b \<in> live s. room b s' = room b s \<and> (\<forall>x \<in> span b s. ram s' x = ram s x))"
proof -
  have "arena_blocks a d \<inter> set (frees s d) = arena_blocks a d"
    using arena_owner(2) [OF wf a] all card_arena_blocks [of a d] by (intro card_subset_eq) auto
  then have sub: "arena_blocks a d \<subseteq> set (frees s d)" by blast
  obtain s' where s': "do {
      s \<leftarrow> for_upto 0 (bcount d) (\<lambda>i s. do { b \<leftarrow> arena_to_block a i s; remove_block d b s }) s;
      free_arena a 1 s
    } = Some s'" "removed a ar s s'" "locked_only d s'" "\<forall>x. x \<notin> extent a 1 \<longrightarrow> ram s' x = ram s x"
    using release_arena [OF wf lock a sub] by blast
  have apart: "pg_round_down b \<noteq> a" if b: "b \<in> live s" for b
  proof
    assume "pg_round_down b = a"
    moreover obtain a' ar' where in_arena: "live_in s b a' ar'" using b by (auto simp: live_def)
    ultimately have "live_in s b a ar" using live_in_arena [OF wf in_arena] a(1) by (auto simp: live_in_def)
    with a(2) sub show False by (auto simp: live_in_def)
  qed
  then have "live s' = live s" using removed_heap(2) [OF s'(2)] by auto
  moreover have "ram s' x = ram s x" if "b \<in> live s" "x \<in> span b s" for b x
    using s'(4) live_apart [OF wf a(1) that(1) apart [OF that(1)]] that(2) a(2) by (auto simp: arena_pages_def)
  ultimately show ?thesis using removed_heap [OF s'(2)] s' by auto
qed

text \<open>Putting the block back: the list and the header after \<^verbatim>\<open>list_push_front\<close> and \<^verbatim>\<open>++a->free_cnt\<close>.\<close>

lemma push_block:
  assumes wf: "heap_wf s" and p: "live_in s p a ar" "owner ar = Some d"
    and n: "n = (free_cnt ar + 1) mod 2 ^ 32"
  shows "heap_wf (relist d (p # frees s d) a n s)" "n = card (arena_blocks a d \<inter> set (p # frees s d))"
    "live (relist d (p # frees s d) a n s) = live s - {p}" "n \<le> bcount d"
    "\<And>b. b \<in> live s - {p} \<Longrightarrow> room b (relist d (p # frees s d) a n s) = room b s"
proof -
  have a: "arenas s a = Some ar" using p(1) by (simp add: live_in_def)
  note small = live_small [OF wf p]
  have "free_cnt ar = card (arena_blocks a d \<inter> set (frees s d))" by (rule arena_owner(2) [OF wf a p(2)])
  with card_free_le [OF small(1), of a "set (frees s d)"] small(2,3)
  show cnt: "n = card (arena_blocks a d \<inter> set (p # frees s d))" by (simp add: n)
  show "n \<le> bcount d" unfolding cnt card_arena_blocks [of a d, symmetric] by (intro card_mono) auto
  have list: "distinct (p # frees s d)"
      "set (p # frees s d) - arena_blocks a d = set (frees s d) - arena_blocks a d"
    using wf small(1-3) by (auto simp: heap_wf_def frees_ok_def)
  show wf': "heap_wf (relist d (p # frees s d) a n s)" by (rule heap_wf_relist [OF wf a p(2) list cnt])
  show live: "live (relist d (p # frees s d) a n s) = live s - {p}"
  proof (rule set_eqI)
    fix x show "x \<in> live (relist d (p # frees s d) a n s) \<longleftrightarrow> x \<in> live s - {p}"
      using live_relist [OF wf a p(2) list cnt, of x] live_iff [OF wf a p(2), of x] small(2)
      by (cases "x \<in> arena_blocks a d") auto
  qed
  show "room b (relist d (p # frees s d) a n s) = room b s" if "b \<in> live s - {p}" for b
    using room_relist [OF wf wf' a p(2), of b] that live by simp
qed

lemma free_block_eq:
  assumes ok: "heap_ok s" and p: "live_in s p a ar" "owner ar = Some d"
    and m: "m = memset_loop (bsize d) p 0xcc (ram s)" and t: "t = with_lock d True (s\<lparr>ram := m\<rparr>)"
    and n: "n = (free_cnt ar + 1) mod 2 ^ 32"
  shows "free p s = do {
    s \<leftarrow> (if n \<ge> bcount d then do {
          ASSERT (n = bcount d);
          s \<leftarrow> for_upto 0 (bcount d) (\<lambda>i s. do { b \<leftarrow> arena_to_block a i s; remove_block d b s })
            (relist d (p # frees s d) a n t);
          free_arena a 1 s
        }
        else Some (relist d (p # frees s d) a n t));
    desc_release d s
  }"
proof -
  have wf: "heap_wf s" and a: "arenas s a = Some ar" using ok p by (simp_all add: heap_ok_def live_in_def)
  note small = live_small [OF wf p]
  have len: "d < length (descs s)" using heap_wf_length [OF wf] small(1) by simp
  have "p \<noteq> 0" using live_span(2) [OF wf p(1)] by simp
  then have "free p s = free_block p d a ar s" using small(4) p(2) by (simp add: free_def)
  moreover have "memset p 0xcc (block_size (descs s ! d)) (ram s) = Some (p, m)"
    using wf small(1) \<open>p \<noteq> 0\<close> by (simp add: memset_def m heap_wf_def descs_ok_def)
  moreover have "desc_acquire d (s\<lparr>ram := m\<rparr>) = Some t"
    using desc_acquire_ok [of "s\<lparr>ram := m\<rparr>" d] ok small(1) by (simp add: t)
  moreover define u where "u = upd_desc d (\<lambda>e. e\<lparr>free_list := p # free_list e\<rparr>) t"
  moreover have "u\<lparr>arenas := (arenas u)(a \<mapsto> ar\<lparr>free_cnt := n\<rparr>)\<rparr> = relist d (p # frees s d) a n t"
    using len a by (simp add: u_def t relist_def upd_desc_def)
  moreover have "blocks_per_arena (descs u ! d) = bcount d"
    using wf small(1) len by (simp add: u_def t upd_desc_def heap_wf_def descs_ok_def)
  moreover have "blocks_per_arena (descs (relist d (p # frees s d) a n t) ! d) = bcount d"
    using wf small(1) len by (simp add: t relist_def upd_desc_def heap_wf_def descs_ok_def)
  ultimately show ?thesis by (simp add: free_block_def n [symmetric, simplified] Let_def)
qed

lemma free_small:
  assumes ok: "heap_ok s" and p: "live_in s p a ar" "owner ar = Some d"
  shows "\<exists>s'. free p s = Some s' \<and> taken_back p s s'"
proof -
  have wf: "heap_wf s" and a: "arenas s a = Some ar" using ok p by (simp_all add: heap_ok_def live_in_def)
  note small = live_small [OF wf p]
  have len: "d < length (descs s)" using heap_wf_length [OF wf] small(1) by simp
  define m where "m = memset_loop (bsize d) p 0xcc (ram s)"
  define t where "t = with_lock d True (s\<lparr>ram := m\<rparr>)"
  define n where "n = (free_cnt ar + 1) mod 2 ^ 32"
  define u where "u = relist d (p # frees s d) a n t"
  have t: "heap_wf t" "locked_only d t" "live t = live s" "\<And>b. room b t = room b s" "frees t d = frees s d" "ram t = m"
    "live_in t p a ar"
    using desc_acquire_ok [of "s\<lparr>ram := m\<rparr>" d] ok small(1) len p
    by (simp_all add: t_def live_in_def)
  note push = push_block [OF t(1,7) p(2) n_def, unfolded t(3,4,5), folded u_def]
  have "p \<in> live s" using p(1) by (auto simp: live_def)
  then have cells: "ram u x = ram s x" if "b \<in> live s - {p}" "x \<in> span b s" for b x
    using live_disjoint [OF wf, of b p] that small(5) t(6) by (auto simp: u_def m_def memset_loop_apply span_def)
  have lock: "locked_only d u" using relist_locked [OF t(1) small(1)] t(2) by (simp add: u_def)
  note eq = free_block_eq [OF ok p m_def t_def n_def, folded u_def]
  show ?thesis
  proof (cases "n \<ge> bcount d")
    case False
    then have "free p s = Some (with_lock d False u)" "heap_ok (with_lock d False u)"
      using eq desc_release_ok [OF push(1) lock small(1)] by simp_all
    then show ?thesis using push(3,5) cells heap_wf_length [OF push(1)] small(1) by (auto simp: taken_back_def)
  next
    case True
    with push(4) have full: "n = bcount d" by simp
    have "arenas u a = Some (ar\<lparr>free_cnt := n\<rparr>)" using a len by (simp add: u_def relist_arena t_def)
    from release_arena_live [OF push(1) lock this] p(2) full obtain s' where
      s': "do {
        s \<leftarrow> for_upto 0 (bcount d) (\<lambda>i s. do { b \<leftarrow> arena_to_block a i s; remove_block d b s }) u;
        free_arena a 1 s
      } = Some s'" "heap_wf s'" "locked_only d s'" "live s' = live u"
        "\<forall>b \<in> live u. room b s' = room b u \<and> (\<forall>x \<in> span b u. ram s' x = ram u x)" by auto
    have "free p s = Some (with_lock d False s')" "heap_ok (with_lock d False s')"
      using eq full s'(1) desc_release_ok [OF s'(2,3) small(1)] by (auto simp: bind_eq_Some_conv)
    then show ?thesis
      using push(3,5) s'(4,5) cells heap_wf_length [OF s'(2)] small(1) by (auto simp: taken_back_def span_def)
  qed
qed

lemma free_ok:
  assumes "heap_ok s" and "p \<in> live s"
  obtains s' where "free p s = Some s'" "taken_back p s s'"
proof -
  obtain a ar where "live_in s p a ar" using assms(2) by (auto simp: live_def)
  with free_small [OF assms(1) this] free_big [OF assms(1) this] show thesis
    using that by (cases "owner ar") auto
qed

section \<open>Initialization and resizing\<close>

lemma malloc_init_ok:
  assumes "kmem_ok s" and "descs s = []" and "arenas s = (\<lambda>_. None)"
  shows "\<exists>s'. malloc_init s = Some s' \<and> heap_ok s' \<and> live s' = {} \<and> ram s' = ram s"
proof -
  define ds where "ds = map (\<lambda>d. \<lparr>block_size = bsize d, blocks_per_arena = bcount d, free_list = [], desc_lock = False\<rparr>) [0..<7]"
  have "malloc_init s = Some (s\<lparr>descs := ds\<rparr>)"
    using assms(2) by (simp add: malloc_init_def init_descs.simps ds_def bsize_def bcount_def ARENA_SIZE_def upt_rec)
  moreover have "length ds = 7" "\<And>d. d < 7 \<Longrightarrow> ds ! d = \<lparr>block_size = bsize d, blocks_per_arena = bcount d, free_list = [], desc_lock = False\<rparr>"
    by (simp_all add: ds_def)
  ultimately show ?thesis
    using assms by (auto simp: heap_ok_def heap_wf_def descs_ok_def arenas_ok_def frees_ok_def live_def live_in_def)
qed

text \<open>
  The kernel pool cannot serve a request: it has no free page for a small block, or no run of free pages that holds
  a big block with its header.
\<close>

definition memory_short :: "nat \<Rightarrow> 'a heap_scheme \<Rightarrow> bool" where
  "memory_short n s \<longleftrightarrow> (if n \<le> 1024 then pool_pages False s \<subseteq> used_pages False s
     else \<not> (\<exists>p. page_run p (DIV_ROUND_UP (n + 12) 4096) \<subseteq> pool_pages False s - used_pages False s))"

text \<open>The outcome of \<^verbatim>\<open>malloc\<close> for every size that does not wrap around.\<close>

lemma malloc_cases:
  assumes ok: "heap_ok s" and n: "n + 12 + 4096 \<le> 2 ^ 32"
  obtains "malloc n s = Some (0, s)" "0 < n \<Longrightarrow> memory_short n s"
  | p s' where "malloc n s = Some (p, s')" "p \<noteq> 0" "handed_out p n s s'"
proof -
  consider "n = 0" | "0 < n" "n \<le> 1024" | "1024 < n" by linarith
  then show thesis
  proof cases
    case 1
    then show thesis by (intro that(1)) (simp_all add: malloc_def)
  next
    case 2
    then show thesis by (rule malloc_small [OF ok]) (use that 2 in \<open>auto simp: memory_short_def\<close>)
  next
    case 3
    show thesis
    proof (rule malloc_large [OF ok 3 n refl])
      assume "malloc n s = Some (0, s)" and "\<And>p. page_run p (DIV_ROUND_UP (n + 12) 4096) \<subseteq> pool_pages False s \<Longrightarrow>
        page_run p (DIV_ROUND_UP (n + 12) 4096) \<inter> used_pages False s \<noteq> {}"
      then show thesis using 3 by (intro that(1)) (auto simp: memory_short_def)
    qed (rule that(2))
  qed
qed

lemma realloc_ok:
  assumes ok: "heap_ok s" and old: "old \<in> live s" and n: "0 < n" "n + 12 + 4096 \<le> 2 ^ 32"
  obtains "realloc old n s = Some (0, s)"
  | p s' where "realloc old n s = Some (p, s')" "p \<noteq> 0" "heap_ok s'" "p \<notin> live s"
    "live s' = insert p (live s - {old})" "n \<le> room p s'"
    "\<And>i. i < n \<Longrightarrow> i < room old s \<Longrightarrow> ram s' (p + i) = ram s (old + i)"
    "\<And>b. b \<in> live s - {old} \<Longrightarrow> room b s' = room b s \<and> (\<forall>x \<in> span b s. ram s' x = ram s x)"
proof (rule malloc_cases [OF ok n(2)])
  assume "malloc n s = Some (0, s)"
  then show thesis using n(1) by (intro that(1)) (simp add: realloc_def)
next
  fix p t assume m: "malloc n s = Some (p, t)" "p \<noteq> 0" "handed_out p n s t"
  then have t: "heap_ok t" "p \<notin> live s" "live t = insert p (live s)" "n \<le> room p t" "ram t = ram s"
      "\<And>b. b \<in> live s \<Longrightarrow> room b t = room b s" by (simp_all add: handed_out_def)
  have wf: "heap_wf t" using t(1) by (simp add: heap_ok_def)
  have live: "old \<in> live t" "p \<in> live t" "p \<noteq> old" using old t(2,3) by auto
  obtain a ar where in_arena: "live_in t old a ar" using live(1) by (auto simp: live_def)
  have "old \<noteq> 0" using live_span(2) [OF wf in_arena] by simp
  define k where "k = (if n < room old s then n else room old s)"
  have size: "block_size_of old t = Some (room old s)"
    using live_span(1) [OF wf in_arena] t(6) [OF old] by (simp add: room_def block_size_of_def)
  define m' where "m' = copy_forward k p old (ram s)"
  have disj: "span p t \<inter> span old t = {}" by (rule live_disjoint [OF wf live(2,1,3)])
  then have "p \<le> old \<or> old + k \<le> p"
    using t(4,6) old n(1) by (auto simp: span_def k_def disjoint_iff split: if_splits)
  then have copied: "m' x = (if p \<le> x \<and> x < p + k then ram s (old + (x - p)) else ram s x)" for x
    unfolding m'_def by (rule copy_forward_apply)
  obtain s' where s': "free old (t\<lparr>ram := m'\<rparr>) = Some s'" "taken_back old (t\<lparr>ram := m'\<rparr>) s'"
    using free_ok [of "t\<lparr>ram := m'\<rparr>" old] t(1) live(1) by auto
  then have freed: "heap_ok s'" "live s' = insert p (live s - {old})"
      "\<And>b. b \<in> live s' \<Longrightarrow> room b s' = room b t \<and> (\<forall>x \<in> span b t. ram s' x = m' x)"
    using t(3) live(3) by (auto simp: taken_back_def span_def)
  have "realloc old n s = Some (p, s')"
    using m(1,2) n(1) \<open>old \<noteq> 0\<close> size s'(1) by (simp add: realloc_def memcpy_def k_def m'_def t(5))
  then show thesis
  proof (rule that(2) [OF _ m(2) freed(1) t(2) freed(2)])
    show "n \<le> room p s'" using freed(2,3) t(4) by simp
    show "ram s' (p + i) = ram s (old + i)" if "i < n" "i < room old s" for i
    proof -
      have "p + i \<in> span p t" using that t(4) by (simp add: span_def)
      with freed(2) freed(3) [of p] have "ram s' (p + i) = m' (p + i)" by simp
      with that show ?thesis by (simp add: copied k_def)
    qed
    show "room b s' = room b s \<and> (\<forall>x \<in> span b s. ram s' x = ram s x)" if b: "b \<in> live s - {old}" for b
    proof -
      have "span b t \<inter> span p t = {}" using live_disjoint [OF wf, of b p] b t(2,3) live(2) by auto
      then have "m' x = ram s x" if "x \<in> span b t" for x
        using that t(4) by (auto simp: copied k_def span_def split: if_splits)
      with freed(2) freed(3) [of b] b t(6) [of b] show ?thesis by (simp add: span_def)
    qed
  qed
qed

section \<open>Sizes that wrap around\<close>

text \<open>
  The overflow check of \<^verbatim>\<open>calloc\<close> compares the product with both factors only: for these factors the product wraps
  around and the block that is returned has 135156 bytes instead of more than four gigabytes.
\<close>

lemma calloc_overflow:
  assumes ok: "heap_ok s"
  obtains "calloc 65537 65537 s = Some (0, s)"
  | p s' where "calloc 65537 65537 s = Some (p, s')" "p \<noteq> 0" "room p s' = 135156"
proof -
  have calloc: "calloc 65537 65537 s = do {
      (p, s) \<leftarrow> malloc_big 131073 s;
      if p \<noteq> 0 then do {
        (_, m) \<leftarrow> memset p 0 131073 (ram s);
        Some (p, s\<lparr>ram := m\<rparr>)
      }
      else Some (p, s)
    }"
    using malloc_uses_big [of s 131073] ok by (simp add: calloc_def heap_ok_def)
  show thesis
  proof (rule malloc_big_cases [OF ok, of 33 131073])
    fix p s' assume "malloc_big 131073 s = Some (p, s')" "p \<noteq> 0" "room p s' = 4096 * 33 - 12"
    then show thesis using calloc
      by (intro that(2) [of p "s'\<lparr>ram := memset_loop 131073 p 0 (ram s')\<rparr>"]) (simp_all add: memset_def)
  qed (use calloc that(1) in \<open>simp_all add: DIV_ROUND_UP_def\<close>)
qed

section \<open>Properties\<close>

text \<open>The heap after initialization on a machine with three free kernel pages.\<close>

definition demo_heap :: heap where
  "demo_heap = \<lparr>ram = (\<lambda>_. 7),
     kernel_pool = \<lparr>pool_lock = False, used_map = \<lparr>bit_cnt = 3, bits = [0]\<rparr>, base = 0xc0101000\<rparr>,
     user_pool = \<lparr>pool_lock = False, used_map = \<lparr>bit_cnt = 2, bits = [0]\<rparr>, base = 0xc0105000\<rparr>, init_ram_pages = 1024,
     descs = map (\<lambda>d. \<lparr>block_size = bsize d, blocks_per_arena = bcount d, free_list = [], desc_lock = False\<rparr>) [0..<7],
     arenas = (\<lambda>_. None)\<rparr>"

lemma demo_heap_ok: "heap_ok demo_heap" "live demo_heap = {}"
proof -
  have "kmem_ok demo_heap"
    by (simp add: demo_heap_def kmem_ok_def pool_ok_def bitmap_ok_def elem_cnt_def ELEM_BITS_def DIV_ROUND_UP_def
      kernel_page_def PHYS_BASE_def)
  then show "heap_ok demo_heap" "live demo_heap = {}"
    by (auto simp: heap_ok_def heap_wf_def descs_ok_def arenas_ok_def frees_ok_def live_def live_in_def)
      (simp_all add: demo_heap_def)
qed

lemma demo_heap_free: "p \<in> pool_pages False demo_heap - used_pages False demo_heap" if "p = 0xc0101000"
proof -
  have "bitmap_used \<lparr>bit_cnt = 3, bits = [0]\<rparr> = {}" by (auto simp: bitmap_used_def bitmap_bits_def)
  then show ?thesis by (simp add: that demo_heap_def pool_pages_def used_pages_def the_pool_def page_set_def)
qed

text \<open>
  C5. \<^verbatim>\<open>malloc\<close> never fails an assertion.  It returns a block that has room for the requested number of
  bytes, overlaps no block that is in use, and leaves the contents of memory and all other blocks as they are; or it
  returns a null pointer and changes nothing, which for a request that is not empty happens only if the kernel pool
  has no free page (up to 1024 bytes) or no run of free pages of the size needed (above).  In the state that results,
  \<^verbatim>\<open>free\<close> of any block that is in use, the new one included, returns without failing an assertion: that block
  is no longer in use, and the size and the contents of all other blocks are kept.  The bound on the size excludes
  the requests whose sum with the header wraps around.
\<close>

theorem malloc_correct:
  assumes "heap_ok s" and "n + 12 + 4096 \<le> 2 ^ 32"
  shows "\<exists>p s'. malloc n s = Some (p, s') \<and> heap_ok s' \<and> ram s' = ram s \<and>
    (if p = 0 then s' = s \<and> (0 < n \<longrightarrow> memory_short n s)
     else p \<notin> live s \<and> live s' = insert p (live s) \<and> n \<le> room p s' \<and>
       (\<forall>b \<in> live s. room b s' = room b s \<and> span b s' \<inter> span p s' = {})) \<and>
    (\<forall>b \<in> live s'. \<exists>s''. free b s' = Some s'' \<and> heap_ok s'' \<and> live s'' = live s' - {b} \<and>
       (\<forall>c \<in> live s' - {b}. room c s'' = room c s' \<and> (\<forall>x \<in> span c s'. ram s'' x = ram s' x)))"
proof -
  have freed: "\<exists>s''. free b t = Some s'' \<and> heap_ok s'' \<and> live s'' = live t - {b} \<and>
      (\<forall>c \<in> live t - {b}. room c s'' = room c t \<and> (\<forall>x \<in> span c t. ram s'' x = ram t x))"
    if "heap_ok t" "b \<in> live t" for t b
    by (rule free_ok [OF that]) (auto simp: taken_back_def)
  show ?thesis
  proof (cases rule: malloc_cases [OF assms])
    case 1
    then show ?thesis using assms(1) freed by auto
  next
    case (2 p s')
    have s': "heap_ok s'" "p \<notin> live s" "live s' = insert p (live s)" "n \<le> room p s'" "ram s' = ram s"
        "\<forall>b \<in> live s. room b s' = room b s" using 2(3) by (simp_all add: handed_out_def)
    then have "span b s' \<inter> span p s' = {}" if "b \<in> live s" for b
      using that by (intro live_disjoint) (auto simp: heap_ok_def)
    with 2(1,2) s' freed [OF s'(1)] show ?thesis by simp
  qed
qed

theorem malloc_correct_witness:
  "\<exists>p s' s''. malloc 100 demo_heap = Some (p, s') \<and> p \<noteq> 0 \<and> live s' = {p} \<and> 100 \<le> room p s' \<and>
    free p s' = Some s'' \<and> heap_ok s'' \<and> live s'' = {}"
  using malloc_correct [OF demo_heap_ok(1), of 100] demo_heap_free [OF refl] demo_heap_ok(2)
  by (auto simp: memory_short_def split: if_splits)

text \<open>
  C22. \<^verbatim>\<open>realloc\<close> moves a block: the bytes that fit in both blocks are preserved, the old block is freed, and the
  size and contents of every other block are unchanged.  If there is no memory for the new block, the result is
  a null pointer and nothing changes.
\<close>

theorem realloc_correct:
  assumes "heap_ok s" and "old \<in> live s" and "0 < n" and "n + 12 + 4096 \<le> 2 ^ 32"
  shows "\<exists>p s'. realloc old n s = Some (p, s') \<and> heap_ok s' \<and>
    (if p = 0 then s' = s
     else p \<notin> live s \<and> live s' = insert p (live s - {old}) \<and> n \<le> room p s' \<and>
       (\<forall>i. i < n \<and> i < room old s \<longrightarrow> ram s' (p + i) = ram s (old + i)) \<and>
       (\<forall>b \<in> live s - {old}. room b s' = room b s \<and> (\<forall>x. b \<le> x \<and> x < b + room b s \<longrightarrow> ram s' x = ram s x)))"
  by (cases rule: realloc_ok [OF assms]) (use assms(1) in \<open>auto simp: span_def\<close>)

theorem realloc_correct_witness:
  "\<exists>old s. malloc 100 demo_heap = Some (old, s) \<and> old \<in> live s \<and>
    (\<exists>p s'. realloc old 300 s = Some (p, s') \<and> heap_ok s' \<and>
      (p = 0 \<or> (\<forall>i < 100. ram s' (p + i) = ram s (old + i))))"
proof (rule malloc_small [OF demo_heap_ok(1), of 100])
  fix old s assume m: "malloc 100 demo_heap = Some (old, s)" "handed_out old 100 demo_heap s"
  then have s: "heap_ok s" "old \<in> live s" "100 \<le> room old s" by (auto simp: handed_out_def)
  from realloc_correct [OF s(1,2), of 300] s(3) m(1) s(2) show ?thesis by (auto split: if_splits)
qed (use demo_heap_free [OF refl] in auto)

text \<open>
  C29. A request for more than \<open>2 ^ 32 - 12\<close> bytes is not refused: the sum of the size and the header wraps around,
  and \<^verbatim>\<open>malloc\<close> returns a block of a single page, with room for 4084 bytes.
\<close>

theorem malloc_size_wraps:
  assumes "heap_ok s" and "\<not> pool_pages False s \<subseteq> used_pages False s" and "2 ^ 32 - 12 < n" and "n < 2 ^ 32"
  shows "\<exists>p s'. malloc n s = Some (p, s') \<and> p \<noteq> 0 \<and> p \<in> live s' \<and> room p s' = 4084"
proof -
  have "(n + 12) mod 2 ^ 32 = n + 12 - 2 ^ 32" using assms(3,4) by (simp add: mod_if)
  moreover have "0 < n + 12 - 2 ^ 32" "n + 12 - 2 ^ 32 < 12" using assms(3,4) by auto
  ultimately have k: "1 = DIV_ROUND_UP ((n + 12) mod 2 ^ 32) 4096" by (simp add: DIV_ROUND_UP_def)
  have "malloc n s = malloc_big n s" using malloc_uses_big [of s n] assms by (simp add: heap_ok_def)
  with assms(2) show ?thesis
    by (cases rule: malloc_big_cases [OF assms(1) k]) (auto simp: handed_out_def)
qed

theorem malloc_size_wraps_witness:
  "\<exists>p s'. malloc 4294967290 demo_heap = Some (p, s') \<and> p \<noteq> 0 \<and> room p s' = 4084"
  using malloc_size_wraps [OF demo_heap_ok(1), of 4294967290] demo_heap_free [OF refl] by auto

end
