(* ===== verification/Pagedir.thy ===== *)
theory Pagedir
  imports Palloc
begin

text \<open>
  Page directories, \<^verbatim>\<open>userprog/pagedir.c\<close>.  The state \<open>vm\<close> extends the state of the page allocator with the address
  of the kernel's own page directory, the register \<^verbatim>\<open>CR3\<close> and the translation lookaside buffer (TLB) of the CPU,
  a partial function from page numbers to cached page table entries that loading \<^verbatim>\<open>CR3\<close> empties.  Directories and
  tables are pages of words in memory.

  The abstraction \<open>mapping\<close> is the partial function from user page numbers to frames that a page directory stands
  for.  The lemmas show that the operations implement the corresponding operations on partial functions, that
  an operation on one directory leaves the address space of every other one alone, that stale translations never
  stay in the TLB, and that destroying a directory gives back exactly the pages that belong to it.
\<close>

unbundle bit_operations_syntax

section \<open>State\<close>

record vm = kmem +
  init_page_dir :: nat
  cr3 :: u32
  tlb :: "nat \<Rightarrow> u32 option"

section \<open>The routines\<close>

definition pagedir_activate :: "nat \<Rightarrow> 'a vm_scheme \<Rightarrow> 'a vm_scheme option" where
  "pagedir_activate pd s = do {
     let pd = (if pd = 0 then init_page_dir s else pd);
     p \<leftarrow> vtop pd;
     Some (s\<lparr>cr3 := p, tlb := (\<lambda>_. None)\<rparr>)
   }"

definition active_pd :: "'a vm_scheme \<Rightarrow> nat option" where
  "active_pd s = ptov (cr3 s)"

definition invalidate_pagedir :: "nat \<Rightarrow> 'a vm_scheme \<Rightarrow> 'a vm_scheme option" where
  "invalidate_pagedir pd s = do {
     a \<leftarrow> active_pd s;
     if a = pd then pagedir_activate pd s else Some s
   }"

definition pagedir_create :: "'a vm_scheme \<Rightarrow> (nat \<times> 'a vm_scheme) option" where
  "pagedir_create s = do {
     (pd, s) \<leftarrow> palloc_get_page 0 s;
     if pd \<noteq> 0 then do {
       (_, m) \<leftarrow> memcpy pd (init_page_dir s) PGSIZE (ram s);
       Some (pd, s\<lparr>ram := m\<rparr>)
     }
     else Some (pd, s)
   }"

text \<open>The two nested loops of \<^verbatim>\<open>pagedir_destroy\<close>; the pointers \<^verbatim>\<open>pde\<close> and \<^verbatim>\<open>pte\<close> are given by their index.\<close>

definition free_frames :: "nat \<Rightarrow> 'a vm_scheme \<Rightarrow> 'a vm_scheme option" where
  "free_frames pt s = for_upto 0 (PGSIZE div 4)
     (\<lambda>j s. do {
        let pte = load32 (ram s) (pt + 4 * j);
        if pte AND PTE_P \<noteq> 0 then do {
          page \<leftarrow> pte_get_page pte;
          palloc_free_page page s
        }
        else Some s
      }) s"

definition pagedir_destroy :: "nat \<Rightarrow> 'a vm_scheme \<Rightarrow> 'a vm_scheme option" where
  "pagedir_destroy pd s =
     (if pd = 0 then Some s
      else do {
        ASSERT (pd \<noteq> init_page_dir s);
        s \<leftarrow> for_upto 0 (pd_no PHYS_BASE)
          (\<lambda>i s. do {
             let pde = load32 (ram s) (pd + 4 * i);
             if pde AND PTE_P \<noteq> 0 then do {
               pt \<leftarrow> pde_get_pt pde;
               s \<leftarrow> free_frames pt s;
               palloc_free_page pt s
             }
             else Some s
           }) s;
        palloc_free_page pd s
      })"

text \<open>The address of the entry; 0 is the null pointer.\<close>

definition lookup_page :: "nat \<Rightarrow> nat \<Rightarrow> bool \<Rightarrow> 'a vm_scheme \<Rightarrow> (nat \<times> 'a vm_scheme) option" where
  "lookup_page pd vaddr create s = do {
     ASSERT (pd \<noteq> 0);
     ASSERT (\<not> create \<or> is_user_vaddr vaddr);
     let pde = pd + 4 * pd_no vaddr;
     (found, s) \<leftarrow>
       (if load32 (ram s) pde = 0 then
          if create then do {
            (pt, s) \<leftarrow> palloc_get_page PAL_ZERO s;
            if pt = 0 then Some (False, s)
            else do {
              e \<leftarrow> pde_create pt;
              Some (True, s\<lparr>ram := store32 pde e (ram s)\<rparr>)
            }
          }
          else Some (False, s)
        else Some (True, s));
     if \<not> found then Some (0, s)
     else do {
       pt \<leftarrow> pde_get_pt (load32 (ram s) pde);
       Some (pt + 4 * pt_no vaddr, s)
     }
   }"

definition pagedir_set_page :: "nat \<Rightarrow> nat \<Rightarrow> nat \<Rightarrow> bool \<Rightarrow> 'a vm_scheme \<Rightarrow> (bool \<times> 'a vm_scheme) option" where
  "pagedir_set_page pd upage kpage writable s = do {
     ASSERT (pg_ofs upage = 0);
     ASSERT (pg_ofs kpage = 0);
     ASSERT (is_user_vaddr upage);
     p \<leftarrow> vtop kpage;
     ASSERT (unat (drop_bit PTSHIFT p) < init_ram_pages s);
     ASSERT (pd \<noteq> init_page_dir s);
     (pte, s) \<leftarrow> lookup_page pd upage True s;
     if pte \<noteq> 0 then do {
       ASSERT (load32 (ram s) pte AND PTE_P = 0);
       e \<leftarrow> pte_create_user kpage writable;
       Some (True, s\<lparr>ram := store32 pte e (ram s)\<rparr>)
     }
     else Some (False, s)
   }"

definition pagedir_get_page :: "nat \<Rightarrow> nat \<Rightarrow> 'a vm_scheme \<Rightarrow> nat option" where
  "pagedir_get_page pd uaddr s = do {
     ASSERT (is_user_vaddr uaddr);
     (pte, _) \<leftarrow> lookup_page pd uaddr False s;
     if pte \<noteq> 0 \<and> load32 (ram s) pte AND PTE_P \<noteq> 0 then do {
       page \<leftarrow> pte_get_page (load32 (ram s) pte);
       Some (page + pg_ofs uaddr)
     }
     else Some 0
   }"

definition pagedir_clear_page :: "nat \<Rightarrow> nat \<Rightarrow> 'a vm_scheme \<Rightarrow> 'a vm_scheme option" where
  "pagedir_clear_page pd upage s = do {
     ASSERT (pg_ofs upage = 0);
     ASSERT (is_user_vaddr upage);
     (pte, s) \<leftarrow> lookup_page pd upage False s;
     if pte \<noteq> 0 \<and> load32 (ram s) pte AND PTE_P \<noteq> 0 then
       invalidate_pagedir pd (s\<lparr>ram := store32 pte (load32 (ram s) pte AND NOT PTE_P) (ram s)\<rparr>)
     else Some s
   }"

definition pagedir_is_dirty :: "nat \<Rightarrow> nat \<Rightarrow> 'a vm_scheme \<Rightarrow> bool option" where
  "pagedir_is_dirty pd vpage s = do {
     (pte, _) \<leftarrow> lookup_page pd vpage False s;
     Some (pte \<noteq> 0 \<and> load32 (ram s) pte AND PTE_D \<noteq> 0)
   }"

definition pagedir_set_dirty :: "nat \<Rightarrow> nat \<Rightarrow> bool \<Rightarrow> 'a vm_scheme \<Rightarrow> 'a vm_scheme option" where
  "pagedir_set_dirty pd vpage dirty s = do {
     (pte, s) \<leftarrow> lookup_page pd vpage False s;
     if pte \<noteq> 0 then
       if dirty then Some (s\<lparr>ram := store32 pte (load32 (ram s) pte OR PTE_D) (ram s)\<rparr>)
       else invalidate_pagedir pd (s\<lparr>ram := store32 pte (load32 (ram s) pte AND NOT PTE_D) (ram s)\<rparr>)
     else Some s
   }"

definition pagedir_is_accessed :: "nat \<Rightarrow> nat \<Rightarrow> 'a vm_scheme \<Rightarrow> bool option" where
  "pagedir_is_accessed pd vpage s = do {
     (pte, _) \<leftarrow> lookup_page pd vpage False s;
     Some (pte \<noteq> 0 \<and> load32 (ram s) pte AND PTE_A \<noteq> 0)
   }"

definition pagedir_set_accessed :: "nat \<Rightarrow> nat \<Rightarrow> bool \<Rightarrow> 'a vm_scheme \<Rightarrow> 'a vm_scheme option" where
  "pagedir_set_accessed pd vpage accessed s = do {
     (pte, s) \<leftarrow> lookup_page pd vpage False s;
     if pte \<noteq> 0 then
       if accessed then Some (s\<lparr>ram := store32 pte (load32 (ram s) pte OR PTE_A) (ram s)\<rparr>)
       else invalidate_pagedir pd (s\<lparr>ram := store32 pte (load32 (ram s) pte AND NOT PTE_A) (ram s)\<rparr>)
     else Some s
   }"

section \<open>Tables of entries\<close>

text \<open>The \<open>i\<close>-th word of the page at \<open>p\<close>.\<close>

definition slot :: "mem \<Rightarrow> nat \<Rightarrow> nat \<Rightarrow> u32" where
  "slot m p i = load32 m (p + 4 * i)"

lemma slot_store:
  assumes "p mod 4096 = 0" and "q mod 4096 = 0" and "i < 1024" and "j < 1024"
  shows "slot (store32 (p + 4 * i) w m) q j = (if q = p \<and> j = i then w else slot m q j)"
proof (cases "q = p \<and> j = i")
  case False
  obtain k l where k: "p = 4096 * k" "q = 4096 * l" using assms(1,2) by (auto elim!: dvdE)
  have "q + 4 * j + 4 \<le> p + 4 * i \<or> p + 4 * i + 4 \<le> q + 4 * j"
    using False assms(3,4) k by (cases "k = l"; cases "k < l") auto
  then show ?thesis using False by (auto simp: slot_def load32_store32_other)
qed (simp add: slot_def)

lemma slot_cong:
  assumes "\<And>x. x \<in> extent p (Suc 0) \<Longrightarrow> m' x = m x" and "i < 1024"
  shows "slot m' p i = slot m p i"
  unfolding slot_def by (rule load32_cong) (use assms in \<open>auto simp: extent_def\<close>)

lemma slot_zero: "(\<And>x. x \<in> extent p (Suc 0) \<Longrightarrow> m x = 0) \<Longrightarrow> i < 1024 \<Longrightarrow> slot m p i = 0"
  by (simp add: slot_def load32_def extent_def of_le32_def)

section \<open>Address spaces\<close>

text \<open>The page table for index \<open>i\<close> of a directory, and the entry for a user page, given by its page number.\<close>

definition table :: "nat \<Rightarrow> nat \<Rightarrow> 'a kmem_scheme \<Rightarrow> nat option" where
  "table pd i s = (if slot (ram s) pd i = 0 then None else pde_get_pt (slot (ram s) pd i))"

definition pte_at :: "nat \<Rightarrow> nat \<Rightarrow> 'a kmem_scheme \<Rightarrow> u32 option" where
  "pte_at pd vp s = map_option (\<lambda>pt. slot (ram s) pt (vp mod 1024)) (table pd (vp div 1024) s)"

text \<open>The pages that hold the directory and its tables for user addresses.\<close>

definition footprint :: "nat \<Rightarrow> 'a kmem_scheme \<Rightarrow> nat set" where
  "footprint pd s = insert pd {pt. \<exists>i < 768. table pd i s = Some pt}"

definition pd_ok :: "nat \<Rightarrow> 'a vm_scheme \<Rightarrow> bool" where
  "pd_ok pd s \<longleftrightarrow> pd \<noteq> init_page_dir s \<and> footprint pd s \<subseteq> used_pages False s \<and>
     (\<forall>i < 768. slot (ram s) pd i = 0 \<or> bit (slot (ram s) pd i) 0 \<and> (\<exists>pt. table pd i s = Some pt \<and> pt \<noteq> pd)) \<and>
     (\<forall>i < 768. \<forall>j < 768. \<forall>pt. table pd i s = Some pt \<and> table pd j s = Some pt \<longrightarrow> i = j) \<and>
     (\<forall>vp < 768 * 1024. \<forall>e. pte_at pd vp s = Some e \<and> bit e 0 \<longrightarrow> pte_get_page e \<noteq> None)"

text \<open>
  The address space as a partial function from page numbers to a frame, given by its kernel virtual address, and the
  permission to write.
\<close>

definition mapping :: "nat \<Rightarrow> 'a kmem_scheme \<Rightarrow> nat \<Rightarrow> (nat \<times> bool) option" where
  "mapping pd s vp =
     (if vp < 768 * 1024 then
        do { e \<leftarrow> pte_at pd vp s; page \<leftarrow> (if bit e 0 then pte_get_page e else None); Some (page, bit e 1) }
      else None)"

definition agree :: "nat set \<Rightarrow> 'a kmem_scheme \<Rightarrow> 'b kmem_scheme \<Rightarrow> bool" where
  "agree P s s' \<longleftrightarrow> (\<forall>p \<in> P. \<forall>i < 1024. slot (ram s') p i = slot (ram s) p i)"

lemma table_agree: "agree (footprint pd s) s s' \<Longrightarrow> i < 768 \<Longrightarrow> table pd i s' = table pd i s"
  by (simp add: agree_def footprint_def table_def)

lemma pte_at_agree:
  assumes "agree (footprint pd s) s s'" and "vp < 768 * 1024"
  shows "pte_at pd vp s' = pte_at pd vp s"
proof -
  have i: "vp div 1024 < 768" "vp mod 1024 < 1024" using assms(2) by auto
  show ?thesis
    using assms(1) i table_agree [OF assms(1) i(1)]
    by (cases "table pd (vp div 1024) s") (auto simp: pte_at_def agree_def footprint_def)
qed

lemma footprint_agree: "agree (footprint pd s) s s' \<Longrightarrow> footprint pd s' = footprint pd s"
  using table_agree [of pd s s'] by (auto simp: footprint_def)

lemma mapping_agree: "agree (footprint pd s) s s' \<Longrightarrow> mapping pd s' = mapping pd s"
  by (rule ext) (simp add: mapping_def pte_at_agree)

lemma pd_ok_agree:
  assumes "agree (footprint pd s) s s'" and "pd_ok pd s" and "footprint pd s \<subseteq> used_pages False s'"
    and "init_page_dir s' = init_page_dir s"
  shows "pd_ok pd s'"
proof -
  have "slot (ram s') pd i = slot (ram s) pd i" if "i < 768" for i
    using assms(1) that by (simp add: agree_def footprint_def)
  then show ?thesis
    using assms(2-4) footprint_agree [OF assms(1)] table_agree [OF assms(1)] pte_at_agree [OF assms(1)]
    unfolding pd_ok_def by auto
qed

section \<open>Looking up entries\<close>

lemma vaddr_split:
  assumes "is_user_vaddr va" and "vp = va div 4096"
  shows "vp < 768 * 1024" "pd_no va = vp div 1024" "pt_no va = vp mod 1024" "va < 2 ^ 32"
proof -
  have va: "va < 0xc0000000" using assms(1) by (simp add: is_user_vaddr_def PHYS_BASE_def)
  then show "va < 2 ^ 32" "vp < 768 * 1024" using assms(2) by auto
  then show "pd_no va = vp div 1024" "pt_no va = vp mod 1024"
    using assms(2) by (simp_all add: pd_no_eq pt_no_eq div_mult2_eq [symmetric])
qed

lemma footprint_page:
  assumes "kmem_ok s" and "pd_ok pd s" and "p \<in> footprint pd s"
  shows "kernel_page p" "p \<in> used_pages False s" "p \<noteq> 0" "p mod 4096 = 0"
proof -
  show used: "p \<in> used_pages False s" using assms(2,3) by (auto simp: pd_ok_def)
  from used_page(1) [OF assms(1) this] show "kernel_page p" "p \<noteq> 0" "p mod 4096 = 0"
    by (auto simp: kernel_page_def PHYS_BASE_def)
qed

lemma table_entry:
  assumes "pd_ok pd s" and "i < 768"
  shows "slot (ram s) pd i = 0 \<longleftrightarrow> table pd i s = None" "table pd i s = Some pt \<Longrightarrow> pde_get_pt (slot (ram s) pd i) = Some pt"
  using assms by (auto simp: pd_ok_def table_def split: if_splits)

lemma lookup_page_found:
  assumes ok: "kmem_ok s" "pd_ok pd s" and va: "is_user_vaddr va" "vp = va div 4096"
    and pt: "table pd (vp div 1024) s = Some pt"
  shows "lookup_page pd va create s = Some (pt + 4 * (vp mod 1024), s)"
proof -
  note vp = vaddr_split [OF va]
  have i: "vp div 1024 < 768" using vp(1) by auto
  have "pd \<noteq> 0" using footprint_page(3) [OF ok, of pd] by (simp add: footprint_def)
  then show ?thesis
    using table_entry [OF ok(2) i] pt va(1) by (simp add: lookup_page_def vp(2,3) slot_def [symmetric])
qed

lemma lookup_page_absent:
  assumes ok: "kmem_ok s" "pd_ok pd s" and va: "is_user_vaddr va" "vp = va div 4096"
    and pt: "table pd (vp div 1024) s = None"
  shows "lookup_page pd va False s = Some (0, s)"
proof -
  note vp = vaddr_split [OF va]
  have i: "vp div 1024 < 768" using vp(1) by auto
  have "pd \<noteq> 0" using footprint_page(3) [OF ok, of pd] by (simp add: footprint_def)
  then show ?thesis
    using table_entry [OF ok(2) i] pt va(1) by (simp add: lookup_page_def vp(2,3) slot_def [symmetric])
qed

text \<open>Both cases of a search that creates no table.\<close>

lemma lookup_page_pte:
  assumes "kmem_ok s" and "pd_ok pd s" and "is_user_vaddr va" and "vp = va div 4096"
  obtains "lookup_page pd va False s = Some (0, s)" "pte_at pd vp s = None"
  | pt where "lookup_page pd va False s = Some (pt + 4 * (vp mod 1024), s)" "pt + 4 * (vp mod 1024) \<noteq> 0"
    "table pd (vp div 1024) s = Some pt" "pte_at pd vp s = Some (load32 (ram s) (pt + 4 * (vp mod 1024)))"
proof (cases "table pd (vp div 1024) s")
  case None
  then show thesis using lookup_page_absent [OF assms None] that(1) by (simp add: pte_at_def)
next
  case (Some pt)
  have "vp div 1024 < 768" using vaddr_split(1) [OF assms(3,4)] by auto
  with Some have "pt \<in> footprint pd s" by (auto simp: footprint_def)
  with footprint_page(3) [OF assms(1,2)] lookup_page_found [OF assms Some] Some show thesis
    by (intro that(2)) (simp_all add: pte_at_def slot_def)
qed

section \<open>Changing an entry\<close>

definition put :: "nat \<Rightarrow> nat \<Rightarrow> u32 \<Rightarrow> 'a kmem_scheme \<Rightarrow> 'a kmem_scheme" where
  "put p i e s = s\<lparr>ram := store32 (p + 4 * i) e (ram s)\<rparr>"

lemma put_simps [simp]:
  "kmem_ok (put p i e s) = kmem_ok s" "used_pages u (put p i e s) = used_pages u s"
  "pool_pages u (put p i e s) = pool_pages u s" "the_pool u (put p i e s) = the_pool u s"
  "init_ram_pages (put p i e s) = init_ram_pages s" "init_page_dir (put p i e v) = init_page_dir v" "cr3 (put p i e v) = cr3 v" "tlb (put p i e v) = tlb v"
  by (simp_all add: put_def kmem_ok_def used_pages_def pool_pages_def the_pool_def)

lemma slot_put:
  assumes "p mod 4096 = 0" and "q mod 4096 = 0" and "i < 1024" and "j < 1024"
  shows "slot (ram (put p i e s)) q j = (if q = p \<and> j = i then e else slot (ram s) q j)"
  using slot_store [OF assms] by (simp add: put_def)

lemma put_other:
  assumes "kmem_ok s" and "pd_ok pd s" and "p \<notin> footprint pd s" and "p mod 4096 = 0" and "i < 1024"
  shows "agree (footprint pd s) s (put p i e s)"
  unfolding agree_def
proof (intro ballI allI impI)
  fix q j assume q: "q \<in> footprint pd s" and j: "j < (1024 :: nat)"
  from slot_put [OF assms(4) footprint_page(4) [OF assms(1,2) q] assms(5) j, of e s] q assms(3)
  show "slot (ram (put p i e s)) q j = slot (ram s) q j" by auto
qed

text \<open>A write to a page table changes the entry of one page.\<close>

lemma put_pte:
  assumes ok: "kmem_ok s" "pd_ok pd s" and pt: "table pd i s = Some pt" "i < 768" "j < 1024"
    and e: "bit e 0 \<Longrightarrow> pte_get_page e \<noteq> None"
  shows "pd_ok pd (put pt j e s)" "footprint pd (put pt j e s) = footprint pd s"
    "\<And>vp. vp < 768 * 1024 \<Longrightarrow> pte_at pd vp (put pt j e s) = (if vp = 1024 * i + j then Some e else pte_at pd vp s)"
proof -
  have foot: "pt \<in> footprint pd s" "pd \<in> footprint pd s" using pt(1,2) by (auto simp: footprint_def)
  note pages = footprint_page(4) [OF ok]
  have "pt \<noteq> pd" using ok(2) pt(1,2) by (auto simp: pd_ok_def table_def split: if_splits)
  then have pde: "slot (ram (put pt j e s)) pd k = slot (ram s) pd k" if "k < 1024" for k
    using slot_put [OF pages [OF foot(1)] pages [OF foot(2)] pt(3) that, of e s] by simp
  then have tab: "table pd k (put pt j e s) = table pd k s" if "k < 768" for k using that by (simp add: table_def)
  then show fp: "footprint pd (put pt j e s) = footprint pd s" by (auto simp: footprint_def)
  show entry: "pte_at pd vp (put pt j e s) = (if vp = 1024 * i + j then Some e else pte_at pd vp s)"
    if vp: "vp < 768 * 1024" for vp
  proof (cases "table pd (vp div 1024) s")
    case None
    have "vp div 1024 < 768" using vp by auto
    with None pt(1,3) tab show ?thesis by (auto simp: pte_at_def)
  next
    case (Some q)
    have k: "vp div 1024 < 768" "vp mod 1024 < 1024" using vp by auto
    have q: "q mod 4096 = 0" using pages [of q] Some k(1) by (auto simp: footprint_def)
    have "q = pt \<longleftrightarrow> vp div 1024 = i" using Some pt(1,2) k(1) ok(2) by (auto simp: pd_ok_def)
    moreover have "vp = 1024 * i + j \<longleftrightarrow> vp div 1024 = i \<and> vp mod 1024 = j" using pt(3) by auto
    ultimately show ?thesis
      using slot_put [OF pages [OF foot(1)] q pt(3) k(2), of e s] Some tab [OF k(1)] by (auto simp: pte_at_def)
  qed
  show "pd_ok pd (put pt j e s)"
    unfolding pd_ok_def using ok(2) pde tab entry e fp by (auto simp: pd_ok_def)
qed

text \<open>
  What an operation on the directory \<open>pd\<close> keeps: pages stay allocated, the new pages are pages of the directory, and
  no page outside the directory and its tables is written.
\<close>

definition confined :: "nat \<Rightarrow> 'a vm_scheme \<Rightarrow> 'a vm_scheme \<Rightarrow> bool" where
  "confined pd s s' \<longleftrightarrow> used_pages False s \<subseteq> used_pages False s' \<and> used_pages True s' = used_pages True s \<and>
     init_page_dir s' = init_page_dir s \<and> init_ram_pages s' = init_ram_pages s \<and> (\<forall>u. pool_pages u s' = pool_pages u s) \<and>
     footprint pd s \<subseteq> footprint pd s' \<and> footprint pd s' \<subseteq> footprint pd s \<union> (used_pages False s' - used_pages False s) \<and>
     used_pages False s' - used_pages False s \<subseteq> footprint pd s' \<and>
     agree (used_pages False s \<union> used_pages True s - footprint pd s) s s'"

lemma confined_refl: "confined pd s s"
  by (simp add: confined_def agree_def)

lemma confined_put:
  assumes "kmem_ok s" and "pd_ok pd s" and "p \<in> footprint pd s" and "i < 1024"
    and "footprint pd (put p i e s) = footprint pd s"
  shows "confined pd s (put p i e s)"
proof -
  have "q mod 4096 = 0" if "q \<in> used_pages u s" for q u
    using used_page(1) [OF assms(1) that] by (simp add: kernel_page_def)
  then have "agree (used_pages False s \<union> used_pages True s - footprint pd s) s (put p i e s)"
    unfolding agree_def using slot_put [OF footprint_page(4) [OF assms(1-3)] _ assms(4), of _ _ e s] assms(3) by auto
  with assms(5) show ?thesis by (auto simp: confined_def)
qed

text \<open>The address space of another directory is not affected.\<close>

lemma confined_other:
  assumes "confined pd s s'" and "pd_ok pd' s" and "footprint pd' s \<inter> footprint pd s = {}"
  shows "pd_ok pd' s'" "mapping pd' s' = mapping pd' s" "footprint pd' s' \<inter> footprint pd s' = {}"
proof -
  have sub: "footprint pd' s \<subseteq> used_pages False s - footprint pd s" using assms(2,3) by (auto simp: pd_ok_def)
  then have ag: "agree (footprint pd' s) s s'" using assms(1) by (auto simp: confined_def agree_def)
  have "footprint pd' s \<subseteq> used_pages False s'" using sub assms(1) by (auto simp: confined_def)
  then show "pd_ok pd' s'" using pd_ok_agree [OF ag assms(2)] assms(1) by (simp add: confined_def)
  show "mapping pd' s' = mapping pd' s" by (rule mapping_agree [OF ag])
  show "footprint pd' s' \<inter> footprint pd s' = {}"
    using footprint_agree [OF ag] sub assms(1) by (auto simp: confined_def)
qed

text \<open>A new page table.\<close>

lemma fresh_page_slots:
  assumes "kmem_ok s" and "p mod 4096 = 0" and "\<And>x. m x = (if x \<in> extent p (Suc 0) then 0 else ram s x)"
    and "q \<in> used_pages u s" and "q \<noteq> p" and "k < 1024"
  shows "slot m q k = slot (ram s) q k"
proof (rule slot_cong)
  have "q mod 4096 = 0" using used_page(1) [OF assms(1,4)] by (simp add: kernel_page_def)
  then have "extent q (Suc 0) \<inter> extent p (Suc 0) = {}" using assms(2,5) by (intro extent_disjoint) auto
  then show "m x = ram s x" if "x \<in> extent q (Suc 0)" for x using that assms(3) by auto
qed fact

lemma new_table:
  assumes ok: "kmem_ok s" "pd_ok pd s" and i: "i < 768" "table pd i s = None"
    and p: "kernel_page p" "p \<notin> used_pages False s" "p \<notin> used_pages True s" "pde_create p = Some e"
    and s1: "used_pages False s1 = insert p (used_pages False s)" "used_pages True s1 = used_pages True s"
      "init_page_dir s1 = init_page_dir s" "init_ram_pages s1 = init_ram_pages s" "\<And>u. pool_pages u s1 = pool_pages u s"
    and m: "\<And>x. ram s1 x = (if x \<in> extent p (Suc 0) then 0 else ram s x)"
  defines "s2 \<equiv> put pd i e s1"
  shows "pd_ok pd s2" "table pd i s2 = Some p" "confined pd s s2"
    "\<And>vp. vp < 768 * 1024 \<Longrightarrow> pte_at pd vp s2 = (if vp div 1024 = i then Some 0 else pte_at pd vp s)"
proof -
  have aligned: "p mod 4096 = 0" using p(1) by (simp add: kernel_page_def)
  have pd: "pd \<in> footprint pd s" by (simp add: footprint_def)
  have al: "q mod 4096 = 0" "q \<noteq> p" if "q \<in> used_pages False s \<union> used_pages True s" for q
    using that used_page(1) [OF ok(1), of q] p(2,3) by (auto simp: kernel_page_def)
  have fp: "footprint pd s \<subseteq> used_pages False s" using ok(2) by (simp add: pd_ok_def)
  have slots: "slot (ram s2) q k = (if q = pd \<and> k = i then e else slot (ram s) q k)"
    if q: "q \<in> used_pages False s \<union> used_pages True s" and k: "k < 1024" for q k
    using slot_put [OF footprint_page(4) [OF ok pd] al(1) [OF q] _ k, of i e s1] i(1) q
      fresh_page_slots [OF ok(1) aligned m _ al(2) [OF q] k] by (auto simp: s2_def)
  have zero: "slot (ram s2) p k = 0" if "k < 1024" for k
    using slot_put [OF footprint_page(4) [OF ok pd] aligned _ that, of i e s1] i(1) pd fp p(2)
      slot_zero [of p "ram s1" k] m that by (auto simp: s2_def)
  obtain e' where e': "pde_create p = Some e'" "pde_get_pt e' = Some p" "e' \<noteq> 0" "bit e' 0"
    using pde_create_entry [OF p(1)] by blast
  have pde: "slot (ram s2) pd k = (if k = i then e else slot (ram s) pd k)" if "k < 1024" for k
    using slots [of pd k] pd fp that by auto
  then have tab: "table pd k s2 = (if k = i then Some p else table pd k s)" if "k < 768" for k
    using e' p(4) that by (simp add: table_def)
  then show "table pd i s2 = Some p" using i(1) by simp
  have foot: "footprint pd s2 = insert p (footprint pd s)"
  proof (rule set_eqI)
    fix x
    have "(\<exists>k < 768. table pd k s2 = Some x) \<longleftrightarrow> x = p \<or> (\<exists>k < 768. table pd k s = Some x)"
      using tab i by (metis option.distinct(1) option.inject)
    then show "x \<in> footprint pd s2 \<longleftrightarrow> x \<in> insert p (footprint pd s)" by (auto simp: footprint_def)
  qed
  show entry: "pte_at pd vp s2 = (if vp div 1024 = i then Some 0 else pte_at pd vp s)" if "vp < 768 * 1024" for vp
  proof -
    have k: "vp div 1024 < 768" "vp mod 1024 < 1024" using that by auto
    have "slot (ram s2) pt (vp mod 1024) = slot (ram s) pt (vp mod 1024)" if "table pd (vp div 1024) s = Some pt" for pt
    proof -
      have "pt \<in> footprint pd s" "pt \<noteq> pd" using that k(1) ok(2) by (auto simp: footprint_def pd_ok_def table_def split: if_splits)
      then show ?thesis using slots [of pt "vp mod 1024"] fp k(2) by auto
    qed
    then show ?thesis using tab [OF k(1)] zero [OF k(2)] by (cases "table pd (vp div 1024) s") (auto simp: pte_at_def)
  qed
  show "confined pd s s2"
    using slots foot s1 p(2) pd by (auto simp: confined_def s2_def agree_def)
  have "p \<noteq> pd" "table pd k s \<noteq> Some p" if "k < 768" for k using fp p(2) pd that by (auto simp: footprint_def)
  then show "pd_ok pd s2"
    unfolding pd_ok_def using ok(2) foot s1(1,3) pde tab entry i(1) e'(1,4) p(4)
    by (auto simp: pd_ok_def s2_def split: if_splits)
qed

lemma mapping_eq:
  assumes "\<And>vp. vp < 768 * 1024 \<Longrightarrow> pte_at pd vp s' = pte_at pd vp s \<or> pte_at pd vp s = None \<and> pte_at pd vp s' = Some 0"
  shows "mapping pd s' = mapping pd s"
proof (rule ext)
  fix vp show "mapping pd s' vp = mapping pd s vp"
    using assms [of vp] by (cases "vp < 768 * 1024") (auto simp: mapping_def)
qed

lemma repool_vm [simp]:
  "init_page_dir (repool u b m s) = init_page_dir s" "cr3 (repool u b m s) = cr3 s" "tlb (repool u b m s) = tlb s"
  by (simp_all add: repool_def set_pool_def)

text \<open>The entry of a page, with a new page table if there is none.\<close>

lemma lookup_page_create:
  assumes ok: "kmem_ok s" "pd_ok pd s" and va: "is_user_vaddr va" "vp = va div 4096"
  obtains "lookup_page pd va True s = Some (0, s)" "pool_pages False s \<subseteq> used_pages False s"
  | pt s' where "lookup_page pd va True s = Some (pt + 4 * (vp mod 1024), s')" "pt + 4 * (vp mod 1024) \<noteq> 0"
    "kmem_ok s'" "pd_ok pd s'" "table pd (vp div 1024) s' = Some pt" "mapping pd s' = mapping pd s" "confined pd s s'"
    "cr3 s' = cr3 s" "tlb s' = tlb s" "\<And>v e. v < 768 * 1024 \<Longrightarrow> pte_at pd v s = Some e \<Longrightarrow> pte_at pd v s' = Some e"
proof -
  note vp = vaddr_split [OF va]
  have i: "vp div 1024 < 768" using vp(1) by auto
  show thesis
  proof (cases "table pd (vp div 1024) s")
    case (Some pt)
    have "pt \<in> footprint pd s" using Some i by (auto simp: footprint_def)
    then show thesis
      using lookup_page_found [OF ok va Some] footprint_page(3) [OF ok, of pt] ok Some confined_refl
      by (intro that(2) [of pt s]) simp_all
  next
    case None
    have pd: "pd \<in> footprint pd s" by (simp add: footprint_def)
    have lookup: "lookup_page pd va True s = do {
        (pt, s) \<leftarrow> palloc_get_page PAL_ZERO s;
        if pt = 0 then Some (0, s)
        else do {
          e \<leftarrow> pde_create pt;
          let s = put pd (vp div 1024) e s;
          pt \<leftarrow> pde_get_pt (slot (ram s) pd (vp div 1024));
          Some (pt + 4 * (vp mod 1024), s)
        }
      }"
      using table_entry [OF ok(2) i] None va(1) footprint_page(3) [OF ok pd]
      by (auto simp: lookup_page_def vp(2,3) slot_def put_def Let_def bind_eq_None_conv split: prod.split if_splits intro!: arg_cong2 [of _ _ _ _ Option.bind] ext)
    show thesis
    proof (rule palloc_get_page_cases [OF ok(1), of False PAL_ZERO])
      assume "palloc_get_page PAL_ZERO s = (if PAL_ZERO AND PAL_ASSERT \<noteq> 0 then None else Some (0, s))"
        and "pool_pages False s \<subseteq> used_pages False s"
      then show thesis using lookup by (intro that(1)) (simp_all add: PAL_ZERO_def PAL_ASSERT_def)
    next
      fix p b m
      assume p: "palloc_get_page PAL_ZERO s = Some (p, repool False b m s)" "kmem_ok (repool False b m s)" "kernel_page p"
          "p \<in> pool_pages False s" "p \<notin> used_pages False s"
          "used_pages False (repool False b m s) = insert p (used_pages False s)"
          "\<And>v. pool_pages v (repool False b m s) = pool_pages v s"
        and m: "m = (\<lambda>x. if PAL_ZERO AND PAL_ZERO \<noteq> 0 \<and> x \<in> extent p (Suc 0) then 0 else ram s x)"
      let ?s1 = "repool False b m s"
      obtain e where e: "pde_create p = Some e" using pde_create_entry [OF p(3)] by blast
      have user: "used_pages True ?s1 = used_pages True s" by (simp add: repool_pages)
      then have "p \<notin> used_pages True s" using kmem_okD(2) [OF p(2)] p(6) by auto
      note new = new_table [OF ok i None p(3,5) this e p(6) user]
      have new: "pd_ok pd (put pd (vp div 1024) e ?s1)" "table pd (vp div 1024) (put pd (vp div 1024) e ?s1) = Some p"
          "confined pd s (put pd (vp div 1024) e ?s1)"
          "\<And>v. v < 768 * 1024 \<Longrightarrow> pte_at pd v (put pd (vp div 1024) e ?s1) = (if v div 1024 = vp div 1024 then Some 0 else pte_at pd v s)"
        by (rule new; (rule p(7) | simp add: m PAL_ZERO_def))+
      have none: "pte_at pd v s = None" if "v div 1024 = vp div 1024" for v using that None by (simp add: pte_at_def)
      have "lookup_page pd va True s = Some (p + 4 * (vp mod 1024), put pd (vp div 1024) e ?s1)"
        using lookup p(1,3) e new(2) by (auto simp: table_def kernel_page_def PHYS_BASE_def split: if_splits)
      then show thesis
      proof (rule that(2))
        show "mapping pd (put pd (vp div 1024) e ?s1) = mapping pd s" by (rule mapping_eq) (use new(4) none in auto)
        show "pte_at pd v (put pd (vp div 1024) e ?s1) = Some x" if "v < 768 * 1024" "pte_at pd v s = Some x" for v x
          using new(4) [OF that(1)] none [of v] that(2) by auto
      qed (use p(2,3) new(1-3) in \<open>simp_all add: kernel_page_def PHYS_BASE_def\<close>)
    qed (simp add: PAL_ZERO_def PAL_USER_def)
  qed
qed

section \<open>The operations on address spaces\<close>

lemma confined_trans_put:
  assumes con: "confined pd s s'" and ok: "kmem_ok s'" "pd_ok pd s'" and p: "p \<in> footprint pd s'" "i < 1024"
    and fp: "footprint pd (put p i e s') = footprint pd s'"
  shows "confined pd s (put p i e s')"
proof -
  have "slot (ram (put p i e s')) q j = slot (ram s) q j"
    if q: "q \<in> used_pages False s \<union> used_pages True s - footprint pd s" and j: "j < 1024" for q j
  proof -
    have "q \<in> used_pages False s' \<union> used_pages True s'" using q con by (auto simp: confined_def)
    then have "q mod 4096 = 0" using used_page(1) [OF ok(1), of q] by (auto simp: kernel_page_def)
    moreover have "q \<noteq> p"
      using q p(1) con kmem_okD(2) [OF ok(1)] footprint_page(2) [OF ok p(1)] by (auto simp: confined_def)
    ultimately have "slot (ram (put p i e s')) q j = slot (ram s') q j"
      using slot_put [OF footprint_page(4) [OF ok p(1)] _ p(2) j, of q e s'] by simp
    with con q j show ?thesis by (auto simp: confined_def agree_def)
  qed
  with con fp show ?thesis by (auto simp: confined_def agree_def)
qed

lemma mapping_put:
  assumes ok: "kmem_ok s" "pd_ok pd s" and pt: "table pd (vp div 1024) s = Some pt" "vp < 768 * 1024"
    and e: "bit e 0 \<Longrightarrow> pte_get_page e \<noteq> None"
  shows "mapping pd (put pt (vp mod 1024) e s) =
    (mapping pd s)(vp := do { page \<leftarrow> (if bit e 0 then pte_get_page e else None); Some (page, bit e 1) })"
proof (rule ext)
  have k: "vp div 1024 < 768" "vp mod 1024 < 1024" using pt(2) by auto
  note entry = put_pte(3) [OF ok pt(1) k e]
  fix v show "mapping pd (put pt (vp mod 1024) e s) v =
      ((mapping pd s)(vp := do { page \<leftarrow> (if bit e 0 then pte_get_page e else None); Some (page, bit e 1) })) v"
    using entry [of v] pt(2) by (auto simp: mapping_def)
qed

lemma unmapped_entry:
  assumes "pd_ok pd s" and "vp < 768 * 1024" and "pte_at pd vp s = Some e"
  shows "mapping pd s vp = None \<longleftrightarrow> \<not> bit e 0"
    "bit e 0 \<Longrightarrow> \<exists>page. pte_get_page e = Some page \<and> mapping pd s vp = Some (page, bit e 1)"
proof -
  have "bit e 0 \<Longrightarrow> pte_get_page e \<noteq> None" using assms unfolding pd_ok_def by blast
  then show "mapping pd s vp = None \<longleftrightarrow> \<not> bit e 0"
    "bit e 0 \<Longrightarrow> \<exists>page. pte_get_page e = Some page \<and> mapping pd s vp = Some (page, bit e 1)"
    using assms(2,3) by (auto simp: mapping_def)
qed

lemma pagedir_set_page_cases:
  assumes ok: "kmem_ok s" "pd_ok pd s" and u: "upage = 4096 * vp" "vp < 768 * 1024" and free: "mapping pd s vp = None"
    and k: "kernel_page kpage" "kpage < PHYS_BASE + 4096 * init_ram_pages s"
  obtains "pagedir_set_page pd upage kpage w s = Some (False, s)" "pool_pages False s \<subseteq> used_pages False s"
  | s' where "pagedir_set_page pd upage kpage w s = Some (True, s')" "kmem_ok s'" "pd_ok pd s'"
    "mapping pd s' = (mapping pd s)(vp \<mapsto> (kpage, w))" "confined pd s s'" "cr3 s' = cr3 s" "tlb s' = tlb s"
    "\<And>v e. v < 768 * 1024 \<Longrightarrow> v \<noteq> vp \<Longrightarrow> pte_at pd v s = Some e \<Longrightarrow> pte_at pd v s' = Some e"
proof -
  have user: "is_user_vaddr upage" "vp = upage div 4096" using u by (simp_all add: is_user_vaddr_def PHYS_BASE_def)
  have kp: "PHYS_BASE \<le> kpage" "kpage < 2 ^ 32" "kpage mod 4096 = 0" using k(1) by (auto simp: kernel_page_def)
  have "unat (phys kpage) = kpage - PHYS_BASE" unfolding phys_def using kp(2) by (intro unat_word) simp
  then have frame: "unat (drop_bit 12 (phys kpage)) < init_ram_pages s"
    using k(2) kp(1) by (simp add: unat_drop_bit div_less_iff_less_mult)
  have set_page: "pagedir_set_page pd upage kpage w s = do {
      (pte, s) \<leftarrow> lookup_page pd upage True s;
      if pte \<noteq> 0 then do {
        ASSERT (load32 (ram s) pte AND PTE_P = 0);
        e \<leftarrow> pte_create_user kpage w;
        Some (True, s\<lparr>ram := store32 pte e (ram s)\<rparr>)
      }
      else Some (False, s)
    }"
    using u user(1) kp frame ok(2)
    by (simp add: pagedir_set_page_def pg_ofs_eq vtop_eq PTSHIFT_def PGBITS_def pd_ok_def)
  show thesis
  proof (rule lookup_page_create [OF ok user])
    assume "lookup_page pd upage True s = Some (0, s)" "pool_pages False s \<subseteq> used_pages False s"
    then show thesis using set_page by (intro that(1)) simp_all
  next
    fix pt s1
    assume look: "lookup_page pd upage True s = Some (pt + 4 * (vp mod 1024), s1)" "pt + 4 * (vp mod 1024) \<noteq> 0"
      and s1: "kmem_ok s1" "pd_ok pd s1" "table pd (vp div 1024) s1 = Some pt" "mapping pd s1 = mapping pd s" "confined pd s s1"
        "cr3 s1 = cr3 s" "tlb s1 = tlb s"
      and old: "\<And>v e. v < 768 * 1024 \<Longrightarrow> pte_at pd v s = Some e \<Longrightarrow> pte_at pd v s1 = Some e"
    have vp: "vp div 1024 < 768" "vp mod 1024 < 1024" using u(2) by auto
    have at: "pte_at pd vp s1 = Some (load32 (ram s1) (pt + 4 * (vp mod 1024)))"
      using s1(3) by (simp add: pte_at_def slot_def)
    then have "load32 (ram s1) (pt + 4 * (vp mod 1024)) AND PTE_P = 0"
      using unmapped_entry(1) [OF s1(2) u(2) at] free s1(4) pte_flag_bits(1) by metis
    moreover obtain e where e: "pte_create_user kpage w = Some e" "pte_get_page e = Some kpage" "bit e 0" "bit e 1 = w"
      using pte_create_user_entry [OF k(1), of w] by blast
    ultimately have result: "pagedir_set_page pd upage kpage w s = Some (True, put pt (vp mod 1024) e s1)"
      using set_page look by (simp add: put_def)
    have fp: "pt \<in> footprint pd s1" using s1(3) vp(1) by (auto simp: footprint_def)
    have valid: "pte_get_page e \<noteq> None" using e(2) by simp
    note put = put_pte [OF s1(1,2,3) vp valid]
    show thesis
    proof (rule that(2) [OF result])
      show "mapping pd (put pt (vp mod 1024) e s1) = (mapping pd s)(vp \<mapsto> (kpage, w))"
        using mapping_put [OF s1(1-3) u(2) valid] s1(4) e by simp
      show "confined pd s (put pt (vp mod 1024) e s1)"
        by (rule confined_trans_put [OF s1(5,1,2) fp vp(2)]) (simp add: put(2))
      show "pte_at pd v (put pt (vp mod 1024) e s1) = Some x" if "v < 768 * 1024" "v \<noteq> vp" "pte_at pd v s = Some x" for v x
        using put(3) [OF that(1)] old [OF that(1,3)] that(2) by auto
    qed (use s1 put(1) in simp_all)
  qed
qed

lemma pagedir_get_page_eq:
  assumes ok: "kmem_ok s" "pd_ok pd s" and va: "is_user_vaddr va"
  shows "pagedir_get_page pd va s =
    Some (case mapping pd s (va div 4096) of None \<Rightarrow> 0 | Some (page, w) \<Rightarrow> page + va mod 4096)"
proof -
  note vp = vaddr_split [OF va refl]
  show ?thesis
  proof (rule lookup_page_pte [OF ok va refl])
    assume "lookup_page pd va False s = Some (0, s)" "pte_at pd (va div 4096) s = None"
    then show ?thesis using va by (simp add: pagedir_get_page_def mapping_def)
  next
    fix pt assume look: "lookup_page pd va False s = Some (pt + 4 * (va div 4096 mod 1024), s)"
        "pt + 4 * (va div 4096 mod 1024) \<noteq> 0"
      and at: "pte_at pd (va div 4096) s = Some (load32 (ram s) (pt + 4 * (va div 4096 mod 1024)))"
    note entry = unmapped_entry [OF ok(2) vp(1) at]
    show ?thesis
      using entry look va unfolding pagedir_get_page_def pte_flag_bits
      by (cases "bit (load32 (ram s) (pt + 4 * (va div 4096 mod 1024))) 0") (auto simp: pg_ofs_eq)
  qed
qed

text \<open>A change of the flags of an entry, with the TLB flushed if the directory is active.\<close>

lemma invalidate_pagedir_ok:
  assumes "kernel_page pd" and "active_pd s = Some a"
  shows "invalidate_pagedir pd s = Some (if a = pd then s\<lparr>cr3 := phys pd, tlb := (\<lambda>_. None)\<rparr> else s)"
  using assms by (auto simp: invalidate_pagedir_def pagedir_activate_def kernel_page_def vtop_eq PHYS_BASE_def)

definition flushed :: "nat \<Rightarrow> 'a vm_scheme \<Rightarrow> 'a vm_scheme" where
  "flushed pd s = (if active_pd s = Some pd then s\<lparr>cr3 := phys pd, tlb := (\<lambda>_. None)\<rparr> else s)"

lemma flushed_simps [simp]:
  "ram (flushed pd s) = ram s" "kmem_ok (flushed pd s) = kmem_ok s" "used_pages u (flushed pd s) = used_pages u s"
  "init_page_dir (flushed pd s) = init_page_dir s" "init_ram_pages (flushed pd s) = init_ram_pages s"
  "pte_at p vp (flushed pd s) = pte_at p vp s" "table p i (flushed pd s) = table p i s"
  "pool_pages u (flushed pd s) = pool_pages u s" "footprint p (flushed pd s) = footprint p s" "mapping p (flushed pd s) = mapping p s" "pd_ok p (flushed pd s) = pd_ok p s"
  "agree P t (flushed pd s) = agree P t s" "confined p t (flushed pd s) = confined p t s"
  by (simp_all add: flushed_def kmem_ok_def used_pages_def pool_pages_def the_pool_def pte_at_def table_def footprint_def mapping_def pd_ok_def
    agree_def confined_def fun_eq_iff)

lemma invalidate_flushed:
  assumes "kernel_page pd" and "active_pd s \<noteq> None"
  shows "invalidate_pagedir pd s = Some (flushed pd s)"
  using assms invalidate_pagedir_ok [OF assms(1), of s] by (auto simp: flushed_def)

lemma active_put [simp]: "active_pd (put p i e s) = active_pd s"
  by (simp add: active_pd_def)

lemma active_flushed: "kernel_page pd \<Longrightarrow> active_pd (flushed pd s) = active_pd s"
  by (simp add: flushed_def active_pd_def kernel_page_def ptov_word)

text \<open>
  The three operations that change flags of an existing entry: the new entry, and whether the TLB is flushed.
\<close>

definition flag_change :: "nat \<Rightarrow> nat \<Rightarrow> (u32 \<Rightarrow> u32) \<Rightarrow> bool \<Rightarrow> 'a vm_scheme \<Rightarrow> 'a vm_scheme" where
  "flag_change pd vp f flush s =
     (case table pd (vp div 1024) s of
        None \<Rightarrow> s
      | Some pt \<Rightarrow>
          let s' = put pt (vp mod 1024) (f (slot (ram s) pt (vp mod 1024))) s in if flush then flushed pd s' else s')"

lemma pd_kernel_page: "kmem_ok s \<Longrightarrow> pd_ok pd s \<Longrightarrow> kernel_page pd"
  using footprint_page(1) [of s pd pd] by (simp add: footprint_def)

lemma pagedir_set_dirty_eq:
  assumes ok: "kmem_ok s" "pd_ok pd s" "active_pd s \<noteq> None" and va: "is_user_vaddr va" "vp = va div 4096"
  shows "pagedir_set_dirty pd va d s =
    Some (flag_change pd vp (\<lambda>e. if d then e OR PTE_D else e AND NOT PTE_D) (\<not> d) s)"
  by (rule lookup_page_pte [OF ok(1,2) va])
    (use ok(3) pd_kernel_page [OF ok(1,2)] in \<open>auto simp: pagedir_set_dirty_def flag_change_def pte_at_def slot_def put_def
      active_pd_def invalidate_flushed Let_def\<close>)

lemma pagedir_set_accessed_eq:
  assumes ok: "kmem_ok s" "pd_ok pd s" "active_pd s \<noteq> None" and va: "is_user_vaddr va" "vp = va div 4096"
  shows "pagedir_set_accessed pd va d s =
    Some (flag_change pd vp (\<lambda>e. if d then e OR PTE_A else e AND NOT PTE_A) (\<not> d) s)"
  by (rule lookup_page_pte [OF ok(1,2) va])
    (use ok(3) pd_kernel_page [OF ok(1,2)] in \<open>auto simp: pagedir_set_accessed_def flag_change_def pte_at_def slot_def put_def
      active_pd_def invalidate_flushed Let_def\<close>)

lemma pagedir_clear_page_eq:
  assumes ok: "kmem_ok s" "pd_ok pd s" "active_pd s \<noteq> None" and u: "upage = 4096 * vp" "vp < 768 * 1024"
  shows "pagedir_clear_page pd upage s =
    Some (if mapping pd s vp = None then s else flag_change pd vp (\<lambda>e. e AND NOT PTE_P) True s)"
proof -
  have user: "is_user_vaddr upage" "vp = upage div 4096" "pg_ofs upage = 0"
    using u by (simp_all add: is_user_vaddr_def PHYS_BASE_def pg_ofs_eq)
  show ?thesis
  proof (rule lookup_page_pte [OF ok(1,2) user(1,2)])
    assume "lookup_page pd upage False s = Some (0, s)" "pte_at pd vp s = None"
    then show ?thesis using user by (simp add: pagedir_clear_page_def mapping_def)
  next
    fix pt assume look: "lookup_page pd upage False s = Some (pt + 4 * (vp mod 1024), s)" "pt + 4 * (vp mod 1024) \<noteq> 0"
      and pt: "table pd (vp div 1024) s = Some pt" "pte_at pd vp s = Some (load32 (ram s) (pt + 4 * (vp mod 1024)))"
    show ?thesis
      using unmapped_entry(1) [OF ok(2) u(2) pt(2)] look user ok(3) pd_kernel_page [OF ok(1,2)] pt(1)
      by (simp add: pagedir_clear_page_def pte_flag_bits flag_change_def slot_def put_def active_pd_def invalidate_flushed
        Let_def)
  qed
qed

text \<open>The functions that set or clear a flag keep the address in an entry and never make a page present.\<close>

definition only_flags :: "(u32 \<Rightarrow> u32) \<Rightarrow> bool" where
  "only_flags f \<longleftrightarrow> (\<forall>e. f e AND PTE_ADDR = e AND PTE_ADDR \<and> (bit (f e) 0 \<longrightarrow> bit e 0) \<and> bit (f e) 1 = bit e 1 \<and> bit (f e) 2 = bit e 2)"

lemma only_flags_ops:
  "only_flags (\<lambda>e. e OR PTE_D)" "only_flags (\<lambda>e. e AND NOT PTE_D)" "only_flags (\<lambda>e. e OR PTE_A)"
  "only_flags (\<lambda>e. e AND NOT PTE_A)" "only_flags (\<lambda>e. e AND NOT PTE_P)"
  by (simp_all add: only_flags_def or_flags_addr and_flags_addr bit_or_iff bit_and_iff bit_not_iff bit_flags)

lemma only_flags_page: "only_flags f \<Longrightarrow> pte_get_page (f e) = pte_get_page e"
  by (simp add: only_flags_def pte_get_page_def)

lemma flag_change_ok:
  assumes ok: "kmem_ok s" "pd_ok pd s" and vp: "vp < 768 * 1024" and f: "only_flags f"
  shows "kmem_ok (flag_change pd vp f fl s)" "pd_ok pd (flag_change pd vp f fl s)" "confined pd s (flag_change pd vp f fl s)"
    "\<And>v. v < 768 * 1024 \<Longrightarrow>
       pte_at pd v (flag_change pd vp f fl s) = (if v = vp then map_option f (pte_at pd v s) else pte_at pd v s)"
proof -
  have "kmem_ok (flag_change pd vp f fl s) \<and> pd_ok pd (flag_change pd vp f fl s) \<and> confined pd s (flag_change pd vp f fl s) \<and>
    (\<forall>v < 768 * 1024. pte_at pd v (flag_change pd vp f fl s) = (if v = vp then map_option f (pte_at pd v s) else pte_at pd v s))"
  proof (cases "table pd (vp div 1024) s")
    case None
    then show ?thesis using ok confined_refl by (simp add: flag_change_def pte_at_def)
  next
    case (Some pt)
    let ?e = "slot (ram s) pt (vp mod 1024)"
    have k: "vp div 1024 < 768" "vp mod 1024 < 1024" using vp by auto
    have at: "pte_at pd vp s = Some ?e" using Some by (simp add: pte_at_def)
    have valid: "bit (f ?e) 0 \<Longrightarrow> pte_get_page (f ?e) \<noteq> None"
      using f unmapped_entry(2) [OF ok(2) vp at] only_flags_page [OF f, of ?e] by (auto simp: only_flags_def)
    note put = put_pte [OF ok Some k valid]
    have "pt \<in> footprint pd s" using Some k(1) by (auto simp: footprint_def)
    from confined_put [OF ok this k(2)] put(2) have con: "confined pd s (put pt (vp mod 1024) (f ?e) s)" by simp
    show ?thesis
      using ok put(1) con put(3) at Some by (auto simp: flag_change_def Let_def)
  qed
  then show "kmem_ok (flag_change pd vp f fl s)" "pd_ok pd (flag_change pd vp f fl s)" "confined pd s (flag_change pd vp f fl s)"
    "\<And>v. v < 768 * 1024 \<Longrightarrow>
       pte_at pd v (flag_change pd vp f fl s) = (if v = vp then map_option f (pte_at pd v s) else pte_at pd v s)"
    by blast+
qed

section \<open>The translation lookaside buffer\<close>

text \<open>
  A cached entry is coherent with the entry in memory if the page is present there, at the same frame with the same
  permissions, and if what the CPU has noted in the cached copy (page accessed, page written) is noted in memory as well.
\<close>

definition coherent :: "u32 \<Rightarrow> u32 \<Rightarrow> bool" where
  "coherent c e \<longleftrightarrow> bit e 0 \<and> c AND PTE_ADDR = e AND PTE_ADDR \<and> bit c 1 = bit e 1 \<and> bit c 2 = bit e 2 \<and>
     (bit c 5 \<longrightarrow> bit e 5) \<and> (bit c 6 \<longrightarrow> bit e 6)"

definition tlb_ok :: "nat \<Rightarrow> 'a vm_scheme \<Rightarrow> bool" where
  "tlb_ok a s \<longleftrightarrow> (\<forall>vp < 768 * 1024. \<forall>c. tlb s vp = Some c \<longrightarrow> (\<exists>e. pte_at a vp s = Some e \<and> coherent c e))"

text \<open>What the CPU notes in an entry when it uses it.\<close>

definition noted :: "bool \<Rightarrow> u32 \<Rightarrow> u32" where
  "noted wr e = (if wr \<and> bit e 1 then e OR PTE_A OR PTE_D else e OR PTE_A)"

text \<open>
  The state with the page directories \<open>D\<close> in it.  The kernel calls the operations on any of them; the CPU translates
  an address in the active directory, caches the entry and notes the access in it.
\<close>

inductive vm_step :: "nat set \<times> vm \<Rightarrow> nat set \<times> vm \<Rightarrow> bool" where
  create: "pagedir_create s = Some (pd, s') \<Longrightarrow> vm_step (D, s) (if pd = 0 then D else insert pd D, s')"
| set_page: "pd \<in> D \<Longrightarrow> vp < 768 * 1024 \<Longrightarrow> mapping pd s vp = None \<Longrightarrow> kernel_page k \<Longrightarrow>
    k < PHYS_BASE + 4096 * init_ram_pages s \<Longrightarrow> pagedir_set_page pd (4096 * vp) k w s = Some (b, s') \<Longrightarrow>
    vm_step (D, s) (D, s')"
| clear_page: "pd \<in> D \<Longrightarrow> vp < 768 * 1024 \<Longrightarrow> pagedir_clear_page pd (4096 * vp) s = Some s' \<Longrightarrow> vm_step (D, s) (D, s')"
| set_dirty: "pd \<in> D \<Longrightarrow> is_user_vaddr va \<Longrightarrow> pagedir_set_dirty pd va b s = Some s' \<Longrightarrow> vm_step (D, s) (D, s')"
| set_accessed: "pd \<in> D \<Longrightarrow> is_user_vaddr va \<Longrightarrow> pagedir_set_accessed pd va b s = Some s' \<Longrightarrow> vm_step (D, s) (D, s')"
| activate: "pd = 0 \<or> pd \<in> D \<Longrightarrow> pagedir_activate pd s = Some s' \<Longrightarrow> vm_step (D, s) (D, s')"
| cpu_access: "active_pd s = Some a \<Longrightarrow> a \<in> D \<Longrightarrow> vp < 768 * 1024 \<Longrightarrow> table a (vp div 1024) s = Some pt \<Longrightarrow>
    e = slot (ram s) pt (vp mod 1024) \<Longrightarrow> bit e 0 \<Longrightarrow>
    vm_step (D, s) (D, (put pt (vp mod 1024) (noted wr e) s)\<lparr>tlb := (tlb s)(vp \<mapsto> noted wr e)\<rparr>)"

definition vm_inv :: "nat set \<Rightarrow> 'a vm_scheme \<Rightarrow> bool" where
  "vm_inv D s \<longleftrightarrow> kmem_ok s \<and> (\<forall>pd \<in> D. pd_ok pd s) \<and>
     (\<forall>pd \<in> D. \<forall>pd' \<in> D. pd \<noteq> pd' \<longrightarrow> footprint pd s \<inter> footprint pd' s = {}) \<and>
     init_page_dir s \<in> used_pages False s \<and> (\<forall>pd \<in> D. init_page_dir s \<notin> footprint pd s) \<and>
     (\<forall>i < 768. slot (ram s) (init_page_dir s) i = 0) \<and>
     (\<exists>a. active_pd s = Some a \<and> (a = init_page_dir s \<or> a \<in> D) \<and> tlb_ok a s)"

lemma init_footprint: "\<forall>i < 768. slot (ram s) p i = 0 \<Longrightarrow> footprint p s = {p}"
  by (auto simp: footprint_def table_def)

lemma vm_invD:
  assumes "vm_inv D s"
  shows "kmem_ok s" "p \<in> D \<Longrightarrow> pd_ok p s" "init_page_dir s \<in> used_pages False s" "p \<in> D \<Longrightarrow> init_page_dir s \<notin> footprint p s"
    "p \<in> D \<Longrightarrow> q \<in> D \<Longrightarrow> p \<noteq> q \<Longrightarrow> footprint p s \<inter> footprint q s = {}"
    "i < 768 \<Longrightarrow> slot (ram s) (init_page_dir s) i = 0" "\<exists>a. active_pd s = Some a"
  using assms by (auto simp: vm_inv_def)

lemma vm_inv_active:
  assumes "vm_inv D s" and "active_pd s = Some a"
  shows "footprint a s \<subseteq> used_pages False s" "tlb_ok a s" "a = init_page_dir s \<or> a \<in> D"
    "pd \<in> D \<Longrightarrow> pd \<noteq> a \<Longrightarrow> footprint a s \<inter> footprint pd s = {}"
proof -
  have fp: "footprint (init_page_dir s) s = {init_page_dir s}" using init_footprint assms(1) by (auto simp: vm_inv_def)
  show a: "a = init_page_dir s \<or> a \<in> D" and "tlb_ok a s" using assms by (auto simp: vm_inv_def)
  then show "footprint a s \<subseteq> used_pages False s" using assms(1) fp by (auto simp: vm_inv_def pd_ok_def)
  show "footprint a s \<inter> footprint pd s = {}" if "pd \<in> D" "pd \<noteq> a"
    using a fp that vm_invD(4,5) [OF assms(1)] by (cases "a \<in> D") auto
qed

text \<open>An operation on a directory that is not the active one leaves the cached entries coherent.\<close>

lemma tlb_ok_confined:
  assumes inv: "vm_inv D s" and pd: "pd \<in> D" and con: "confined pd s s'" and a: "active_pd s = Some a" "a \<noteq> pd"
    and same: "tlb s' = tlb s"
  shows "tlb_ok a s'"
proof -
  note act = vm_inv_active [OF inv a(1)]
  have "footprint a s \<subseteq> used_pages False s - footprint pd s" using act(1) act(4) [OF pd] a(2) by auto
  then have "agree (footprint a s) s s'" using con by (auto simp: confined_def agree_def)
  from pte_at_agree [OF this] act(2) same show ?thesis by (simp add: tlb_ok_def)
qed

lemma vm_inv_confined:
  assumes inv: "vm_inv D s" and pd: "pd \<in> D" and con: "confined pd s s'" and ok: "kmem_ok s'" "pd_ok pd s'"
    and a: "active_pd s' = active_pd s" and t: "\<And>a. active_pd s = Some a \<Longrightarrow> tlb_ok a s'"
  shows "vm_inv D s'"
proof -
  note old = vm_invD [OF inv]
  have init: "init_page_dir s' = init_page_dir s" using con by (simp add: confined_def)
  have kernel: "slot (ram s') (init_page_dir s) i = 0" if "i < 768" for i
    using con old(3,6) old(4) [OF pd] that by (auto simp: confined_def agree_def)
  have foot: "footprint p s' = footprint p s" if "p \<in> D" "p \<noteq> pd" for p
  proof (rule footprint_agree)
    have "footprint p s \<subseteq> used_pages False s - footprint pd s"
      using old(2) [OF that(1)] old(5) [OF that(1) pd that(2)] by (auto simp: pd_ok_def)
    then show "agree (footprint p s) s s'" using con by (auto simp: confined_def agree_def)
  qed
  have other: "pd_ok p s'" "footprint p s' \<inter> footprint pd s' = {}" if "p \<in> D" "p \<noteq> pd" for p
    using confined_other [OF con old(2) [OF that(1)] old(5) [OF that(1) pd that(2)]] by auto
  have "pd_ok p s'" if "p \<in> D" for p using other(1) [OF that] ok(2) by (cases "p = pd") auto
  moreover have "footprint p s' \<inter> footprint q s' = {}" if "p \<in> D" "q \<in> D" "p \<noteq> q" for p q
  proof (cases "p = pd \<or> q = pd")
    case True
    then show ?thesis using other(2) that by (auto simp: Int_commute)
  next
    case False
    then show ?thesis using foot that old(5) by auto
  qed
  moreover have "init_page_dir s \<in> used_pages False s'" using con old(3) by (auto simp: confined_def)
  moreover have "init_page_dir s \<notin> footprint p s'" if "p \<in> D" for p
    using foot [OF that] old(3) old(4) [OF that] con by (cases "p = pd") (auto simp: confined_def)
  moreover obtain b where "active_pd s = Some b" using old(7) by blast
  ultimately show ?thesis
    using ok(1) init kernel a t vm_inv_active(3) [OF inv] unfolding vm_inv_def by auto
qed

lemma flag_change_cpu:
  assumes "kernel_page pd"
  shows "active_pd (flag_change pd vp f fl s) = active_pd s"
    "active_pd s \<noteq> Some pd \<Longrightarrow> tlb (flag_change pd vp f fl s) = tlb s"
    "tlb (flag_change pd vp f fl s) = (\<lambda>_. None) \<or> tlb (flag_change pd vp f fl s) = tlb s \<and> (\<not> fl \<or> active_pd s \<noteq> Some pd \<or> flag_change pd vp f fl s = s)"
  by (cases "table pd (vp div 1024) s"; simp add: flag_change_def active_flushed [OF assms] Let_def; simp add: flushed_def)+

lemma flag_change_inv:
  assumes inv: "vm_inv D s" and pd: "pd \<in> D" and vp: "vp < 768 * 1024" and f: "only_flags f"
    and keep: "\<And>c e. \<not> fl \<Longrightarrow> coherent c e \<Longrightarrow> coherent c (f e)"
  shows "vm_inv D (flag_change pd vp f fl s)"
proof -
  let ?s = "flag_change pd vp f fl s"
  note ok = vm_invD(1) [OF inv] vm_invD(2) [OF inv pd]
  note fc = flag_change_ok [OF ok vp f, where fl = fl] and cpu = flag_change_cpu [OF pd_kernel_page [OF ok], where s = s and vp = vp and f = f and fl = fl]
  have "tlb_ok a ?s" if a: "active_pd s = Some a" for a
  proof (cases "a = pd")
    case True
    then consider "tlb ?s = (\<lambda>_. None)" | "tlb ?s = tlb s" "\<not> fl" | "?s = s" using cpu(3) a by metis
    then show ?thesis
    proof cases
      case 2
      have "\<exists>e. pte_at a v ?s = Some e \<and> coherent c e" if v: "v < 768 * 1024" "tlb s v = Some c" for v c
      proof -
        obtain e where "pte_at pd v s = Some e" "coherent c e"
          using vm_inv_active(2) [OF inv a] v True by (auto simp: tlb_ok_def)
        with fc(4) [OF v(1)] keep [OF 2(2)] True show ?thesis by auto
      qed
      with 2(1) show ?thesis by (simp add: tlb_ok_def)
    qed (use vm_inv_active(2) [OF inv a] in \<open>simp_all add: tlb_ok_def\<close>)
  next
    case False
    then show ?thesis using cpu(2) a by (intro tlb_ok_confined [OF inv pd fc(3) a]) simp_all
  qed
  then show ?thesis by (intro vm_inv_confined [OF inv pd fc(3,1,2) cpu(1)])
qed

lemma set_page_inv:
  assumes inv: "vm_inv D s" and pd: "pd \<in> D" and vp: "vp < 768 * 1024" "mapping pd s vp = None"
    and k: "kernel_page k" "k < PHYS_BASE + 4096 * init_ram_pages s" and r: "pagedir_set_page pd (4096 * vp) k w s = Some (b, s')"
  shows "vm_inv D s'"
proof -
  note ok = vm_invD(1) [OF inv] vm_invD(2) [OF inv pd]
  show ?thesis
  proof (rule pagedir_set_page_cases [OF ok refl vp k, of w])
    fix t assume t: "pagedir_set_page pd (4096 * vp) k w s = Some (True, t)" "kmem_ok t" "pd_ok pd t"
        "confined pd s t" "cr3 t = cr3 s" "tlb t = tlb s"
      and keep: "\<And>v e. v < 768 * 1024 \<Longrightarrow> v \<noteq> vp \<Longrightarrow> pte_at pd v s = Some e \<Longrightarrow> pte_at pd v t = Some e"
    have "tlb_ok a t" if a: "active_pd s = Some a" for a
    proof (cases "a = pd")
      case True
      have "\<exists>e. pte_at pd v t = Some e \<and> coherent c e" if v: "v < 768 * 1024" "tlb s v = Some c" for v c
      proof -
        obtain e where e: "pte_at pd v s = Some e" "coherent c e"
          using vm_inv_active(2) [OF inv a] v True by (auto simp: tlb_ok_def)
        then have "v \<noteq> vp" using unmapped_entry(1) [OF ok(2) v(1)] vp(2) by (auto simp: coherent_def)
        from keep [OF v(1) this e(1)] e(2) show ?thesis by blast
      qed
      then show ?thesis using t(6) True by (simp add: tlb_ok_def)
    qed (rule tlb_ok_confined [OF inv pd t(4) a _ t(6)])
    moreover have "active_pd t = active_pd s" using t(5) by (simp add: active_pd_def)
    ultimately have "vm_inv D t" by (intro vm_inv_confined [OF inv pd t(4,2,3)])
    then show ?thesis using r t(1) by simp
  qed (use inv r in simp)
qed

lemma cr3_simps [simp]:
  "kmem_ok (s\<lparr>cr3 := c\<rparr>) = kmem_ok s" "pd_ok p (s\<lparr>cr3 := c\<rparr>) = pd_ok p s" "footprint p (s\<lparr>cr3 := c\<rparr>) = footprint p s"
  "pte_at p v (s\<lparr>cr3 := c\<rparr>) = pte_at p v s" "used_pages u (s\<lparr>cr3 := c\<rparr>) = used_pages u s"
  by (simp_all add: kmem_ok_def used_pages_def the_pool_def pte_at_def table_def footprint_def pd_ok_def)

lemma tlb_simps [simp]:
  "kmem_ok (s\<lparr>tlb := t\<rparr>) = kmem_ok s" "pd_ok p (s\<lparr>tlb := t\<rparr>) = pd_ok p s" "footprint p (s\<lparr>tlb := t\<rparr>) = footprint p s"
  "pte_at p v (s\<lparr>tlb := t\<rparr>) = pte_at p v s" "used_pages u (s\<lparr>tlb := t\<rparr>) = used_pages u s"
  by (simp_all add: kmem_ok_def used_pages_def the_pool_def pte_at_def table_def footprint_def pd_ok_def)

lemma tlb_fill_inv:
  assumes inv: "vm_inv D s" and a: "active_pd s = Some a" and e: "pte_at a vp s = Some e" "coherent e e"
  shows "vm_inv D (s\<lparr>tlb := (tlb s)(vp \<mapsto> e)\<rparr>)"
  using inv a e by (auto simp: vm_inv_def active_pd_def tlb_ok_def)

lemma noted_flags: "only_flags (noted wr)" "coherent c e \<Longrightarrow> coherent c (noted wr e)"
  "bit e 0 \<Longrightarrow> coherent (noted wr e) (noted wr e)"
  by (simp_all add: only_flags_def noted_def coherent_def or_flags_addr bit_or_iff bit_flags)

lemma cpu_access_inv:
  assumes inv: "vm_inv D s" and a: "active_pd s = Some a" "a \<in> D" and vp: "vp < 768 * 1024"
    and pt: "table a (vp div 1024) s = Some pt" and e: "e = slot (ram s) pt (vp mod 1024)" "bit e 0"
  shows "vm_inv D ((put pt (vp mod 1024) (noted wr e) s)\<lparr>tlb := (tlb s)(vp \<mapsto> noted wr e)\<rparr>)"
proof -
  let ?s = "put pt (vp mod 1024) (noted wr e) s"
  have fc: "flag_change a vp (noted wr) False s = ?s" using pt e(1) by (simp add: flag_change_def)
  note ok = vm_invD(1) [OF inv] vm_invD(2) [OF inv a(2)]
  have "vm_inv D ?s" using flag_change_inv [OF inv a(2) vp noted_flags(1), of False wr] noted_flags(2) fc by simp
  moreover have "pte_at a vp ?s = Some (noted wr e)"
    using flag_change_ok(4) [OF ok vp noted_flags(1) vp, of wr False] pt e(1) fc by (simp add: pte_at_def)
  ultimately show ?thesis using tlb_fill_inv [of D ?s a vp] a(1) noted_flags(3) [OF e(2)] by simp
qed

lemma ram_update:
  "kmem_ok (s\<lparr>ram := m\<rparr>) = kmem_ok s" "used_pages u (s\<lparr>ram := m\<rparr>) = used_pages u s"
  "pool_pages u (s\<lparr>ram := m\<rparr>) = pool_pages u s"
  by (simp_all add: kmem_ok_def used_pages_def pool_pages_def the_pool_def)

text \<open>A new directory is a copy of the kernel's directory on a page that was free.\<close>

lemma pagedir_create_cases:
  assumes ok: "kmem_ok s" and init: "init_page_dir s \<in> used_pages False s"
  obtains "pagedir_create s = Some (0, s)" "pool_pages False s \<subseteq> used_pages False s"
  | pd s' where "pagedir_create s = Some (pd, s')" "pd \<noteq> 0" "kmem_ok s'" "pd \<notin> used_pages False s"
    "used_pages False s' = insert pd (used_pages False s)" "used_pages True s' = used_pages True s"
    "pool_pages False s' = pool_pages False s" "init_ram_pages s' = init_ram_pages s"
    "init_page_dir s' = init_page_dir s" "cr3 s' = cr3 s" "tlb s' = tlb s"
    "\<And>k. k < 1024 \<Longrightarrow> slot (ram s') pd k = slot (ram s) (init_page_dir s) k"
    "agree (used_pages False s \<union> used_pages True s) s s'"
proof (rule palloc_get_page_cases [OF ok, of False 0])
  assume "palloc_get_page 0 s = (if 0 AND PAL_ASSERT \<noteq> 0 then None else Some (0, s))" "pool_pages False s \<subseteq> used_pages False s"
  then show thesis by (intro that(1)) (simp_all add: pagedir_create_def)
next
  fix p b m assume p: "palloc_get_page 0 s = Some (p, repool False b m s)" "kmem_ok (repool False b m s)" "kernel_page p"
      "p \<notin> used_pages False s" "used_pages False (repool False b m s) = insert p (used_pages False s)"
      "\<And>v. pool_pages v (repool False b m s) = pool_pages v s"
    and m: "m = (\<lambda>x. if 0 AND PAL_ZERO \<noteq> 0 \<and> x \<in> extent p (Suc 0) then 0 else ram s x)"
  let ?i = "init_page_dir s" and ?m = "copy_forward 4096 p (init_page_dir s) (ram s)" and ?s = "repool False b m s"
  have al: "p mod 4096 = 0" "?i mod 4096 = 0" "p \<noteq> 0" "?i \<noteq> 0"
    using p(3) used_page(1) [OF ok init] by (auto simp: kernel_page_def PHYS_BASE_def)
  have "p \<le> ?i \<or> ?i + 4096 \<le> p"
    using al(1,2) by (auto elim!: dvdE simp: mod_eq_0_iff_dvd)
  then have copied: "?m x = (if p \<le> x \<and> x < p + 4096 then ram s (?i + (x - p)) else ram s x)" for x
    by (rule copy_forward_apply)
  have user: "used_pages True ?s = used_pages True s" by (simp add: repool_pages)
  have "agree (used_pages False s \<union> used_pages True s) s (?s\<lparr>ram := ?m\<rparr>)"
    unfolding agree_def
  proof (intro ballI allI impI)
    fix q k assume q: "q \<in> used_pages False s \<union> used_pages True s" and k: "k < (1024 :: nat)"
    have "q mod 4096 = 0" using q used_page(1) [OF ok, of q] by (auto simp: kernel_page_def)
    moreover have "q \<noteq> p" using q p(4,5) user kmem_okD(2) [OF p(2)] by auto
    ultimately have "extent q (Suc 0) \<inter> extent p (Suc 0) = {}" using al(1) by (intro extent_disjoint) auto
    then show "slot (ram (?s\<lparr>ram := ?m\<rparr>)) q k = slot (ram s) q k"
      by (simp, intro slot_cong [OF _ k]) (auto simp: copied extent_def)
  qed
  moreover have "slot ?m p k = slot (ram s) ?i k" if "k < 1024" for k
    using that by (simp add: slot_def load32_def copied add.assoc)
  ultimately show thesis
    using p(1,2,4-6) al(3,4) user
    by (intro that(2) [of p "?s\<lparr>ram := ?m\<rparr>"]) (simp_all add: pagedir_create_def memcpy_def PGSIZE_def m ram_update)
qed simp

lemma create_inv:
  assumes inv: "vm_inv D s" and r: "pagedir_create s = Some (pd, s')"
  shows "vm_inv (if pd = 0 then D else insert pd D) s'"
proof (rule pagedir_create_cases [OF vm_invD(1,3) [OF inv]])
  fix p t assume t: "pagedir_create s = Some (p, t)" "p \<noteq> 0" "kmem_ok t" "p \<notin> used_pages False s"
      "used_pages False t = insert p (used_pages False s)" "init_page_dir t = init_page_dir s" "cr3 t = cr3 s" "tlb t = tlb s"
    and copied: "\<And>k. k < 1024 \<Longrightarrow> slot (ram t) p k = slot (ram s) (init_page_dir s) k"
    and ag: "agree (used_pages False s \<union> used_pages True s) s t"
  note old = vm_invD [OF inv]
  have zero: "\<forall>k < 768. slot (ram t) p k = 0" using copied old(6) by simp
  have new: "pd_ok p t" "footprint p t = {p}"
    using t(4-6) old(3) zero init_footprint [OF zero] by (auto simp: pd_ok_def table_def pte_at_def)
  have keep: "agree P s t" if "P \<subseteq> used_pages False s" for P using ag that by (auto simp: agree_def)
  have foot: "footprint q s \<subseteq> used_pages False s" if "q \<in> D" for q using old(2) [OF that] by (simp add: pd_ok_def)
  have same: "pd_ok q t" "footprint q t = footprint q s" if "q \<in> D" for q
    using pd_ok_agree [OF keep [OF foot [OF that]] old(2) [OF that]] footprint_agree [OF keep [OF foot [OF that]]]
      foot [OF that] t(5,6) by auto
  obtain a where a: "active_pd s = Some a" using old(7) by blast
  note act = vm_inv_active [OF inv a]
  have "tlb_ok a t" using act(2) pte_at_agree [OF keep [OF act(1)]] t(8) by (simp add: tlb_ok_def)
  moreover have "slot (ram t) (init_page_dir s) i = 0" if "i < 768" for i
    using ag old(3) old(6) [OF that] that by (auto simp: agree_def)
  ultimately have "vm_inv (insert p D) t"
    unfolding vm_inv_def using t(3-7) new same foot old(3-5) a act(3) by (auto simp: active_pd_def; blast)
  then show ?thesis using r t(1,2) by simp
qed (use inv r in simp)

lemma activate_inv:
  assumes inv: "vm_inv D s" and pd: "pd = 0 \<or> pd \<in> D" and r: "pagedir_activate pd s = Some s'"
  shows "vm_inv D s'"
proof -
  define a where "a = (if pd = 0 then init_page_dir s else pd)"
  have a: "kernel_page a" "a = init_page_dir s \<or> a \<in> D"
    using pd vm_invD(1,3) [OF inv] pd_kernel_page [OF vm_invD(1,2) [OF inv]] used_page(1) by (auto simp: a_def)
  have "s' = s\<lparr>cr3 := phys a, tlb := \<lambda>_. None\<rparr>"
    using r a(1) by (simp add: pagedir_activate_def a_def [symmetric] vtop_eq kernel_page_def PHYS_BASE_def Let_def)
  moreover have "active_pd (s\<lparr>cr3 := phys a, tlb := \<lambda>_. None\<rparr>) = Some a"
    using a(1) by (simp add: active_pd_def kernel_page_def ptov_word)
  moreover have "tlb_ok a (s\<lparr>cr3 := phys a, tlb := \<lambda>_. None\<rparr>)" by (simp add: tlb_ok_def)
  ultimately show ?thesis
    using inv a(2) unfolding vm_inv_def by simp
qed

lemma clear_page_inv:
  assumes inv: "vm_inv D s" and pd: "pd \<in> D" "vp < 768 * 1024" and r: "pagedir_clear_page pd (4096 * vp) s = Some s'"
  shows "vm_inv D s'"
proof -
  have "active_pd s \<noteq> None" using vm_invD(7) [OF inv] by auto
  from pagedir_clear_page_eq [OF vm_invD(1) [OF inv] vm_invD(2) [OF inv pd(1)] this refl pd(2)] r
  have "s' = s \<or> s' = flag_change pd vp (\<lambda>e. e AND NOT PTE_P) True s" by (simp split: if_splits)
  moreover have "vm_inv D (flag_change pd vp (\<lambda>e. e AND NOT PTE_P) True s)"
    by (rule flag_change_inv [OF inv pd only_flags_ops(5)]) simp
  ultimately show ?thesis using inv by auto
qed

lemma coherent_or: "coherent c e \<Longrightarrow> coherent c (e OR PTE_D)" "coherent c e \<Longrightarrow> coherent c (e OR PTE_A)"
  by (auto simp: coherent_def or_flags_addr bit_or_iff bit_flags)

lemma set_flag_inv:
  assumes inv: "vm_inv D s" and pd: "pd \<in> D" and va: "is_user_vaddr va"
    and r: "pagedir_set_dirty pd va b s = Some s' \<or> pagedir_set_accessed pd va b s = Some s'"
  shows "vm_inv D s'"
proof -
  define vp where "vp = va div 4096"
  have a: "active_pd s \<noteq> None" using vm_invD(7) [OF inv] by auto
  note ok = vm_invD(1) [OF inv] vm_invD(2) [OF inv pd] a va vp_def
  note flag = flag_change_inv [OF inv pd vaddr_split(1) [OF va vp_def]]
  have "vm_inv D (flag_change pd vp (\<lambda>e. if b then e OR PTE_D else e AND NOT PTE_D) (\<not> b) s)"
    by (cases b) (auto intro!: flag only_flags_ops coherent_or)
  moreover have "vm_inv D (flag_change pd vp (\<lambda>e. if b then e OR PTE_A else e AND NOT PTE_A) (\<not> b) s)"
    by (cases b) (auto intro!: flag only_flags_ops coherent_or)
  ultimately show ?thesis using r pagedir_set_dirty_eq [OF ok, of b] pagedir_set_accessed_eq [OF ok, of b] by auto
qed

lemma vm_step_inv:
  assumes "vm_step x y" and "vm_inv (fst x) (snd x)"
  shows "vm_inv (fst y) (snd y)"
  using assms
proof cases
  case (create s pd s' D)
  then show ?thesis using create_inv [of D s pd s'] assms(2) by simp
next
  case (set_page pd D vp s k w b s')
  then show ?thesis using set_page_inv [of D s pd vp k w b s'] assms(2) by simp
next
  case (clear_page pd D vp s s')
  then show ?thesis using clear_page_inv [of D s pd vp s'] assms(2) by simp
next
  case (set_dirty pd D va b s s')
  then show ?thesis using set_flag_inv [of D s pd va b s'] assms(2) by simp
next
  case (set_accessed pd D va b s s')
  then show ?thesis using set_flag_inv [of D s pd va b s'] assms(2) by simp
next
  case (activate pd D s s')
  then show ?thesis using activate_inv [of D s pd s'] assms(2) by simp
next
  case (cpu_access s a D vp pt e wr)
  then show ?thesis using cpu_access_inv [of D s a vp pt e wr] assms(2) by simp
qed

lemma vm_steps_inv: "vm_step\<^sup>*\<^sup>* x y \<Longrightarrow> vm_inv (fst x) (snd x) \<Longrightarrow> vm_inv (fst y) (snd y)"
  by (induction rule: rtranclp_induct) (auto intro: vm_step_inv)

section \<open>Destroying a directory\<close>

text \<open>The pages \<open>F\<close> have been given back; the other pages in use have kept their contents.\<close>

definition freed :: "nat set \<Rightarrow> 'a vm_scheme \<Rightarrow> 'a vm_scheme \<Rightarrow> bool" where
  "freed F s s' \<longleftrightarrow> kmem_ok s' \<and> (\<forall>u. used_pages u s' = used_pages u s - F) \<and> init_page_dir s' = init_page_dir s \<and>
     cr3 s' = cr3 s \<and> tlb s' = tlb s \<and> agree (used_pages False s \<union> used_pages True s - F) s s'"

lemma freed_refl: "kmem_ok s \<Longrightarrow> freed {} s s"
  by (simp add: freed_def agree_def)

lemma freedD:
  assumes "freed F s s'"
  shows "kmem_ok s'" "p \<in> used_pages u s \<Longrightarrow> p \<notin> F \<Longrightarrow> p \<in> used_pages u s'"
    "p \<in> used_pages u s \<Longrightarrow> p \<notin> F \<Longrightarrow> i < 1024 \<Longrightarrow> slot (ram s') p i = slot (ram s) p i"
  using assms by (cases u; auto simp: freed_def agree_def)+

lemma freed_trans: "freed F s t \<Longrightarrow> freed G t u \<Longrightarrow> freed (F \<union> G) s u"
  by (auto simp: freed_def agree_def)

lemma free_page_freed:
  assumes "kmem_ok s" and "p \<in> used_pages u s"
  shows "\<exists>s'. palloc_free_page p s = Some s' \<and> freed {p} s s'"
proof (rule palloc_free_page_ok [OF assms])
  fix b m assume r: "palloc_free_page p s = Some (repool u b m s)" "kmem_ok (repool u b m s)"
      "used_pages u (repool u b m s) = used_pages u s - {p}"
    and m: "m = (\<lambda>x. if x \<in> extent p (Suc 0) then 0xcc else ram s x)"
  have p: "p mod 4096 = 0" using used_page(1) [OF assms] by (simp add: kernel_page_def)
  have "slot m q k = slot (ram s) q k" if q: "q \<in> used_pages v s" "q \<noteq> p" and k: "k < 1024" for q k v
  proof (rule slot_cong [OF _ k])
    have "q mod 4096 = 0" using used_page(1) [OF assms(1) q(1)] by (simp add: kernel_page_def)
    then have "extent q (Suc 0) \<inter> extent p (Suc 0) = {}" using p q(2) by (intro extent_disjoint) auto
    then show "m x = ram s x" if "x \<in> extent q (Suc 0)" for x using that m by auto
  qed
  moreover have "used_pages v (repool u b m s) = used_pages v s - {p}" for v
    using r(3) kmem_okD(2) [OF assms(1)] assms(2) repool_pages(3) [of v u b m s] by (cases "v = u"; cases u; cases v) auto
  ultimately show ?thesis using r(1,2) by (auto simp: freed_def agree_def)
qed

definition frame :: "u32 \<Rightarrow> nat option" where
  "frame e = (if bit e 0 then pte_get_page e else None)"

lemma free_frames_freed:
  assumes ok: "kmem_ok s" and pt: "pt \<in> used_pages False s"
    and present: "\<And>j. j < 1024 \<Longrightarrow> bit (slot (ram s) pt j) 0 \<Longrightarrow>
      \<exists>p \<in> used_pages True s. pte_get_page (slot (ram s) pt j) = Some p"
    and inj: "\<And>i j p. i < 1024 \<Longrightarrow> j < 1024 \<Longrightarrow> frame (slot (ram s) pt i) = Some p \<Longrightarrow> frame (slot (ram s) pt j) = Some p \<Longrightarrow> i = j"
  shows "\<exists>s'. free_frames pt s = Some s' \<and> freed {p. \<exists>j < 1024. frame (slot (ram s) pt j) = Some p} s s'"
proof -
  let ?F = "\<lambda>n. {p. \<exists>j < n. frame (slot (ram s) pt j) = Some p}"
  have size: "PGSIZE div 4 = 1024" by (simp add: PGSIZE_def)
  have user: "p \<in> used_pages True s" if "frame (slot (ram s) pt j) = Some p" "j < 1024" for j p
    using present [OF that(2)] that(1) by (cases "bit (slot (ram s) pt j) 0") (auto simp: frame_def)
  show ?thesis
    unfolding free_frames_def size
  proof (rule for_upto_rule [where I = "\<lambda>n. freed (?F n) s"])
    fix j t assume j: "j < (1024 :: nat)" and t: "freed (?F j) s t"
    have "pt \<notin> used_pages True s" using pt kmem_okD(2) [OF ok] by auto
    then have "pt \<notin> ?F j" using user [of _ pt] j less_trans by blast
    then have e: "slot (ram t) pt j = slot (ram s) pt j" using freedD(3) [OF t pt] j by blast
    show "\<exists>s'. (let pte = load32 (ram t) (pt + 4 * j) in if pte AND PTE_P \<noteq> 0 then do {
        page \<leftarrow> pte_get_page pte; palloc_free_page page t } else Some t) = Some s' \<and> freed (?F (Suc j)) s s'"
    proof (cases "bit (slot (ram s) pt j) 0")
      case True
      then obtain p where p: "p \<in> used_pages True s" "pte_get_page (slot (ram s) pt j) = Some p" using present [OF j] by blast
      have fr: "frame (slot (ram s) pt j) = Some p" using True p(2) by (simp add: frame_def)
      then have "p \<notin> ?F j" using inj [of _ j p] j less_trans by blast
      then have "p \<in> used_pages True t" using freedD(2) [OF t p(1)] by blast
      then obtain s' where s': "palloc_free_page p t = Some s'" "freed {p} t s'"
        using free_page_freed [OF freedD(1) [OF t]] by blast
      have "?F (Suc j) = ?F j \<union> {p}" using fr unfolding less_Suc_eq by auto
      with freed_trans [OF t s'(2)] s'(1) e True p(2) show ?thesis by (simp add: slot_def pte_flag_bits)
    next
      case False
      then have "frame (slot (ram s) pt j) = None" by (simp add: frame_def)
      then have "?F (Suc j) = ?F j" unfolding less_Suc_eq by auto
      with t False e show ?thesis by (simp add: slot_def pte_flag_bits)
    qed
  qed (simp_all add: freed_refl [OF ok])
qed

lemma pd_okD:
  assumes ok: "pd_ok pd s" and pt: "table pd i s = Some pt" "i < 768"
  shows "pt \<in> used_pages False s" "pt \<noteq> pd" "table pd j s = Some pt \<Longrightarrow> j < 768 \<Longrightarrow> i = j" "bit (slot (ram s) pd i) 0"
    "j < 1024 \<Longrightarrow> bit (slot (ram s) pt j) 0 \<Longrightarrow> \<exists>p. frame (slot (ram s) pt j) = Some p"
proof -
  have "pt \<in> footprint pd s" using pt by (auto simp: footprint_def)
  then show "pt \<in> used_pages False s" using ok by (auto simp: pd_ok_def)
  have "slot (ram s) pd i \<noteq> 0" using pt(1) by (auto simp: table_def)
  then have "bit (slot (ram s) pd i) 0 \<and> (\<exists>q. table pd i s = Some q \<and> q \<noteq> pd)"
    using ok pt(2) unfolding pd_ok_def by blast
  then show "bit (slot (ram s) pd i) 0" "pt \<noteq> pd" using pt(1) by auto
  show "i = j" if "table pd j s = Some pt" "j < 768" using ok pt that unfolding pd_ok_def by blast
  show "\<exists>p. frame (slot (ram s) pt j) = Some p" if j: "j < 1024" "bit (slot (ram s) pt j) 0"
  proof -
    have v: "(1024 * i + j) div 1024 = i" "(1024 * i + j) mod 1024 = j" "1024 * i + j < 768 * 1024" using pt(2) j(1) by auto
    have "pte_at pd (1024 * i + j) s = Some (slot (ram s) pt j)" using v(1,2) pt(1) by (simp add: pte_at_def)
    with unmapped_entry(2) [OF ok v(3)] j(2) show ?thesis by (auto simp: frame_def)
  qed
qed

text \<open>The pages that belong to the directory entry \<open>k\<close>: the page table and the frames that it maps.\<close>

definition table_frames :: "nat \<Rightarrow> 'a kmem_scheme \<Rightarrow> nat set" where
  "table_frames pt s = {p. \<exists>j < 1024. frame (slot (ram s) pt j) = Some p}"

definition entry_pages :: "nat \<Rightarrow> 'a kmem_scheme \<Rightarrow> nat \<Rightarrow> nat set" where
  "entry_pages pd s k = (case table pd k s of None \<Rightarrow> {} | Some pt \<Rightarrow> insert pt (table_frames pt s))"

definition frames :: "nat \<Rightarrow> 'a kmem_scheme \<Rightarrow> nat set" where
  "frames pd s = {p. \<exists>vp w. mapping pd s vp = Some (p, w)}"

definition private_frames :: "nat \<Rightarrow> 'a kmem_scheme \<Rightarrow> bool" where
  "private_frames pd s \<longleftrightarrow> frames pd s \<subseteq> used_pages True s \<and>
     (\<forall>v v' p w w'. mapping pd s v = Some (p, w) \<and> mapping pd s v' = Some (p, w') \<longrightarrow> v = v')"

lemma frame_mapping:
  assumes "table pd k s = Some pt" and "k < 768" and "j < 1024"
  shows "frame (slot (ram s) pt j) = Some p \<longleftrightarrow> (\<exists>w. mapping pd s (1024 * k + j) = Some (p, w))"
proof -
  have "(1024 * k + j) div 1024 = k" "(1024 * k + j) mod 1024 = j" "1024 * k + j < 768 * 1024" using assms(2,3) by auto
  then show ?thesis using assms(1) by (auto simp: mapping_def pte_at_def frame_def bind_eq_Some_conv)
qed

lemma entry_pages_facts:
  assumes ok: "kmem_ok s" "pd_ok pd s" "private_frames pd s" and k: "k < 768"
  shows "pd \<notin> entry_pages pd s k" "k' < 768 \<Longrightarrow> k' \<noteq> k \<Longrightarrow> entry_pages pd s k \<inter> entry_pages pd s k' = {}"
    "table pd k s = Some pt \<Longrightarrow> table_frames pt s \<subseteq> used_pages True s"
    "table pd k s = Some pt \<Longrightarrow> pt \<in> used_pages False s - table_frames pt s"
proof -
  have fr: "table_frames pt s \<subseteq> used_pages True s" if "table pd i s = Some pt" "i < 768" for pt i
  proof
    fix p assume "p \<in> table_frames pt s"
    then obtain j where "j < 1024" "frame (slot (ram s) pt j) = Some p" by (auto simp: table_frames_def)
    then have "\<exists>w. mapping pd s (1024 * i + j) = Some (p, w)" by (simp only: frame_mapping [OF that])
    then have "p \<in> frames pd s" by (auto simp: frames_def)
    then show "p \<in> used_pages True s" using ok(3) by (auto simp: private_frames_def)
  qed
  have tab: "pt \<in> used_pages False s" "pt \<noteq> pd" if "table pd i s = Some pt" "i < 768" for pt i
    using pd_okD [OF ok(2) that] by auto
  have disj: "used_pages False s \<inter> used_pages True s = {}" by (rule kmem_okD(2) [OF ok(1)])
  have pd: "pd \<in> used_pages False s" using ok(2) by (simp add: pd_ok_def footprint_def)
  show "pd \<notin> entry_pages pd s k"
  proof (cases "table pd k s")
    case (Some pt)
    have "pd \<notin> table_frames pt s" using fr [OF Some k] pd disj by blast
    then show ?thesis using tab(2) [OF Some k] Some by (simp add: entry_pages_def)
  qed (simp add: entry_pages_def)
  show "table pd k s = Some pt \<Longrightarrow> table_frames pt s \<subseteq> used_pages True s" by (rule fr [OF _ k])
  show "table pd k s = Some pt \<Longrightarrow> pt \<in> used_pages False s - table_frames pt s"
    using fr [OF _ k, of pt] tab(1) [OF _ k, of pt] disj by auto
  show "entry_pages pd s k \<inter> entry_pages pd s k' = {}" if k': "k' < 768" "k' \<noteq> k"
  proof (cases "table pd k s = None \<or> table pd k' s = None")
    case False
    then obtain pt pt' where pt: "table pd k s = Some pt" "table pd k' s = Some pt'" by auto
    have "pt \<noteq> pt'" using pd_okD(3) [OF ok(2) pt(1) k _ k'(1)] pt(2) k'(2) by auto
    moreover have "table_frames pt s \<inter> table_frames pt' s = {}"
    proof (rule Int_emptyI)
      fix p assume "p \<in> table_frames pt s" "p \<in> table_frames pt' s"
      then obtain i j where ij: "i < 1024" "frame (slot (ram s) pt i) = Some p" "j < 1024" "frame (slot (ram s) pt' j) = Some p"
        by (auto simp: table_frames_def)
      obtain w where "mapping pd s (1024 * k + i) = Some (p, w)" using frame_mapping [OF pt(1) k ij(1)] ij(2) by auto
      moreover obtain w' where "mapping pd s (1024 * k' + j) = Some (p, w')"
        using frame_mapping [OF pt(2) k'(1) ij(3)] ij(4) by auto
      ultimately have "1024 * k + i = 1024 * k' + j" using ok(3) unfolding private_frames_def by blast
      then have "(1024 * k + i) div 1024 = (1024 * k' + j) div 1024" by simp
      then show False using ij(1,3) k'(2) by simp
    qed
    moreover have "pt \<notin> table_frames pt' s" using fr [OF pt(2) k'(1)] tab(1) [OF pt(1) k] disj by blast
    moreover have "pt' \<notin> table_frames pt s" using fr [OF pt(1) k] tab(1) [OF pt(2) k'(1)] disj by blast
    ultimately show ?thesis using pt by (simp add: entry_pages_def)
  qed (auto simp: entry_pages_def)
qed

lemma slots_kept:
  assumes "freed F s t" and "pt \<in> used_pages u s" and "pt \<notin> F"
  shows "table_frames pt t = table_frames pt s"
  using freedD(3) [OF assms] by (auto simp: table_frames_def)

text \<open>One round of the outer loop gives back the pages of one entry of the directory.\<close>

lemma destroy_entry:
  assumes ok: "kmem_ok s" "pd_ok pd s" "private_frames pd s" and k: "k < 768"
    and t: "freed F s t" and F: "pd \<notin> F" "entry_pages pd s k \<inter> F = {}"
  shows "\<exists>s'. (let pde = load32 (ram t) (pd + 4 * k) in if pde AND PTE_P \<noteq> 0 then do {
      pt \<leftarrow> pde_get_pt pde; s \<leftarrow> free_frames pt t; palloc_free_page pt s } else Some t) = Some s' \<and>
    freed (F \<union> entry_pages pd s k) s s'"
proof -
  have pd: "pd \<in> used_pages False s" using ok(2) by (simp add: pd_ok_def footprint_def)
  have e: "load32 (ram t) (pd + 4 * k) = slot (ram s) pd k" using freedD(3) [OF t pd F(1)] k by (simp add: slot_def)
  show ?thesis
  proof (cases "table pd k s")
    case None
    then have "slot (ram s) pd k = 0" using table_entry(1) [OF ok(2) k] by simp
    then show ?thesis using t e None by (simp add: entry_pages_def)
  next
    case (Some pt)
    note facts = entry_pages_facts(3,4) [OF ok k Some]
    have out: "pt \<notin> F" "table_frames pt s \<inter> F = {}" using F(2) Some by (auto simp: entry_pages_def)
    have pt: "pt \<in> used_pages False s" using facts(2) by blast
    note same = freedD(3) [OF t pt out(1)]
    have free: "\<exists>s'. free_frames pt t = Some s' \<and> freed {p. \<exists>j < 1024. frame (slot (ram t) pt j) = Some p} t s'"
    proof (rule free_frames_freed [OF freedD(1) [OF t] freedD(2) [OF t pt out(1)]])
      fix j assume j: "j < 1024" and "bit (slot (ram t) pt j) 0"
      with same [OF j] obtain p where p: "frame (slot (ram s) pt j) = Some p" using pd_okD(5) [OF ok(2) Some k j] by auto
      then have "p \<in> table_frames pt s" using j by (auto simp: table_frames_def)
      then have "p \<in> used_pages True t" using facts(1) out(2) freedD(2) [OF t, of p True] by blast
      then show "\<exists>p \<in> used_pages True t. pte_get_page (slot (ram t) pt j) = Some p"
        using p same [OF j] by (auto simp: frame_def split: if_splits)
    next
      fix i j p assume ij: "i < 1024" "j < 1024" "frame (slot (ram t) pt i) = Some p" "frame (slot (ram t) pt j) = Some p"
      obtain w where "mapping pd s (1024 * k + i) = Some (p, w)"
        using frame_mapping [OF Some k ij(1)] ij(3) same [OF ij(1)] by auto
      moreover obtain w' where "mapping pd s (1024 * k + j) = Some (p, w')"
        using frame_mapping [OF Some k ij(2)] ij(4) same [OF ij(2)] by auto
      ultimately have "1024 * k + i = 1024 * k + j" using ok(3) unfolding private_frames_def by blast
      then show "i = j" by simp
    qed
    then obtain t1 where t1: "free_frames pt t = Some t1" "freed (table_frames pt t) t t1" by (auto simp: table_frames_def)
    note t1' = freed_trans [OF t t1(2)[unfolded slots_kept [OF t pt out(1)]]]
    have "pt \<in> used_pages False t1" by (rule freedD(2) [OF t1' pt]) (use out(1) facts(2) in blast)
    then obtain s' where s': "palloc_free_page pt t1 = Some s'" "freed {pt} t1 s'"
      using free_page_freed [OF freedD(1) [OF t1']] by blast
    have "F \<union> table_frames pt s \<union> {pt} = F \<union> entry_pages pd s k" using Some by (auto simp: entry_pages_def)
    with freed_trans [OF t1' s'(2)] s'(1) t1(1) e pd_okD(4) [OF ok(2) Some k] table_entry(2) [OF ok(2) k Some] show ?thesis
      by (simp add: pte_flag_bits)
  qed
qed

lemma pages_of_directory:
  assumes "pd_ok pd s"
  shows "insert pd (\<Union>k < 768. entry_pages pd s k) = footprint pd s \<union> frames pd s"
proof -
  have "p \<in> (\<Union>k < 768. entry_pages pd s k) \<longleftrightarrow> (\<exists>k < 768. table pd k s = Some p) \<or> p \<in> frames pd s" for p
  proof -
    have "(\<exists>k < 768. \<exists>pt. table pd k s = Some pt \<and> p \<in> table_frames pt s) \<longleftrightarrow> p \<in> frames pd s"
    proof
      assume "\<exists>k < 768. \<exists>pt. table pd k s = Some pt \<and> p \<in> table_frames pt s"
      then obtain k pt j where k: "k < 768" "table pd k s = Some pt" "j < 1024" "frame (slot (ram s) pt j) = Some p"
        by (auto simp: table_frames_def)
      then show "p \<in> frames pd s" using frame_mapping [OF k(2,1,3)] by (auto simp: frames_def)
    next
      assume "p \<in> frames pd s"
      then obtain vp w where m: "mapping pd s vp = Some (p, w)" by (auto simp: frames_def)
      then have vp: "vp div 1024 < 768" "vp mod 1024 < 1024" by (auto simp: mapping_def split: if_splits)
      from m obtain pt where pt: "table pd (vp div 1024) s = Some pt"
        by (auto simp: mapping_def pte_at_def bind_eq_Some_conv split: if_splits)
      have "frame (slot (ram s) pt (vp mod 1024)) = Some p" using frame_mapping [OF pt vp] m by simp
      then show "\<exists>k < 768. \<exists>pt. table pd k s = Some pt \<and> p \<in> table_frames pt s"
        using pt vp unfolding table_frames_def by blast
    qed
    then show ?thesis by (auto simp: entry_pages_def split: option.splits)
  qed
  then show ?thesis by (auto simp: footprint_def)
qed

lemma pagedir_destroy_freed:
  assumes ok: "kmem_ok s" "pd_ok pd s" "private_frames pd s"
  shows "\<exists>s'. pagedir_destroy pd s = Some s' \<and> freed (footprint pd s \<union> frames pd s) s s'"
proof -
  let ?F = "\<lambda>n. \<Union>k < n. entry_pages pd s k"
  have pd: "pd \<noteq> 0" "pd \<noteq> init_page_dir s" "pd \<in> used_pages False s"
    using footprint_page(2,3) [OF ok(1,2), of pd] ok(2) by (auto simp: footprint_def pd_ok_def)
  have out: "pd \<notin> ?F n" if "n \<le> 768" for n using entry_pages_facts(1) [OF ok] that by auto
  have no: "pd_no PHYS_BASE = 768" by (simp add: pd_no_eq PHYS_BASE_def)
  obtain t where t: "for_upto 0 768 (\<lambda>i s. let pde = load32 (ram s) (pd + 4 * i) in if pde AND PTE_P \<noteq> 0 then do {
      pt \<leftarrow> pde_get_pt pde; s \<leftarrow> free_frames pt s; palloc_free_page pt s } else Some s) s = Some t" "freed (?F 768) s t"
  proof (rule exE [OF for_upto_rule [where I = "\<lambda>n. freed (?F n) s" and i = 0 and n = 768]])
    fix k t assume k: "k < (768 :: nat)" and t: "freed (?F k) s t"
    have "entry_pages pd s k \<inter> entry_pages pd s i = {}" if "i < k" for i
      using entry_pages_facts(2) [OF ok k, of i] that k by simp
    then have "entry_pages pd s k \<inter> ?F k = {}" by blast
    from destroy_entry [OF ok k t out this] k
    show "\<exists>s'. (let pde = load32 (ram t) (pd + 4 * k) in if pde AND PTE_P \<noteq> 0 then do {
        pt \<leftarrow> pde_get_pt pde; s \<leftarrow> free_frames pt t; palloc_free_page pt s } else Some t) = Some s' \<and> freed (?F (Suc k)) s s'"
      by (simp add: lessThan_Suc Un_commute)
  qed (use freed_refl [OF ok(1)] that in auto)
  have "pd \<in> used_pages False t" by (rule freedD(2) [OF t(2) pd(3) out]) simp
  then obtain s' where s': "palloc_free_page pd t = Some s'" "freed {pd} t s'"
    using free_page_freed [OF freedD(1) [OF t(2)]] by blast
  have "?F 768 \<union> {pd} = footprint pd s \<union> frames pd s" using pages_of_directory [OF ok(2)] by simp
  with freed_trans [OF t(2) s'(2)] s'(1) t(1) pd(1,2) show ?thesis by (simp add: pagedir_destroy_def no)
qed

section \<open>The properties\<close>

text \<open>
  The state when the first process is started: the kernel's own directory is active, it maps no user address, and no
  translation is cached.
\<close>

definition vm_boot :: "'a vm_scheme \<Rightarrow> bool" where
  "vm_boot s \<longleftrightarrow> kmem_ok s \<and> init_page_dir s \<in> used_pages False s \<and> (\<forall>i < 768. slot (ram s) (init_page_dir s) i = 0) \<and>
     active_pd s = Some (init_page_dir s) \<and> tlb s = (\<lambda>_. None)"

lemma vm_boot_inv: "vm_boot s \<Longrightarrow> vm_inv {} s"
  by (simp add: vm_boot_def vm_inv_def tlb_ok_def)

lemma tlb_mapping:
  assumes inv: "vm_inv D s" and a: "active_pd s = Some a" and c: "vp < 768 * 1024" "tlb s vp = Some c"
  shows "\<exists>page. mapping a s vp = Some (page, bit c 1) \<and> pte_get_page c = Some page"
proof -
  obtain e where e: "pte_at a vp s = Some e" "coherent c e" using vm_inv_active(2) [OF inv a] c by (auto simp: tlb_ok_def)
  have "vp div 1024 < 768" using c(1) by auto
  then have "a \<in> D" using vm_inv_active(3) [OF inv a] vm_invD(6) [OF inv] e(1) by (auto simp: pte_at_def table_def)
  from unmapped_entry(2) [OF vm_invD(2) [OF inv this] c(1) e(1)] e(2) show ?thesis
    by (auto simp: coherent_def pte_get_page_def)
qed

text \<open>A machine with four pages in the kernel pool, the first of which is the kernel's directory, and one user frame in use.\<close>

definition demo_vm :: vm where
  "demo_vm = \<lparr>ram = (\<lambda>_. 0),
     kernel_pool = \<lparr>pool_lock = False, used_map = \<lparr>bit_cnt = 4, bits = [1]\<rparr>, base = 0xc0101000\<rparr>,
     user_pool = \<lparr>pool_lock = False, used_map = \<lparr>bit_cnt = 2, bits = [1]\<rparr>, base = 0xc0106000\<rparr>, init_ram_pages = 1024,
     init_page_dir = 0xc0101000, cr3 = 0x101000, tlb = (\<lambda>_. None)\<rparr>"

lemma demo_vm_pages: "used_pages False demo_vm = {0xc0101000}" "used_pages True demo_vm = {0xc0106000}"
  "pool_pages False demo_vm = {0xc0101000, 0xc0102000, 0xc0103000, 0xc0104000}"
proof -
  have "bitmap_used \<lparr>bit_cnt = 4, bits = [1]\<rparr> = {0}" "bitmap_used \<lparr>bit_cnt = 2, bits = [1]\<rparr> = {0}"
    by (auto simp: bitmap_used_def bitmap_bits_def bit_1_iff)
  then show "used_pages False demo_vm = {0xc0101000}" "used_pages True demo_vm = {0xc0106000}"
    by (simp_all add: demo_vm_def used_pages_def the_pool_def page_set_def)
  have "{..<4} = {0, 1, 2, 3 :: nat}" by auto
  then show "pool_pages False demo_vm = {0xc0101000, 0xc0102000, 0xc0103000, 0xc0104000}"
    by (simp add: demo_vm_def pool_pages_def the_pool_def page_run_def page_set_def)
qed

lemma demo_vm_boot: "vm_boot demo_vm"
proof -
  have "kmem_ok demo_vm"
    by (simp add: demo_vm_def kmem_ok_def pool_ok_def bitmap_ok_def elem_cnt_def ELEM_BITS_def DIV_ROUND_UP_def
      kernel_page_def PHYS_BASE_def)
  moreover have "slot (ram demo_vm) p i = 0" for p i by (simp add: demo_vm_def slot_def load32_def of_le32_def)
  moreover have "active_pd demo_vm = Some (init_page_dir demo_vm)"
    by (simp add: demo_vm_def active_pd_def ptov_def PHYS_BASE_def)
  ultimately show ?thesis using demo_vm_pages(1) by (simp add: vm_boot_def demo_vm_def)
qed

text \<open>A process with the frame at page 5 of its address space.\<close>

lemma demo_vm_created:
  obtains pd s where "vm_step\<^sup>*\<^sup>* ({}, demo_vm) ({pd}, s)" "mapping pd s = [5 \<mapsto> (0xc0106000, True)]"
    "used_pages True s = {0xc0106000}" "vm_inv {pd} s" "active_pd s = Some 0xc0101000"
proof -
  note inv = vm_boot_inv [OF demo_vm_boot]
  have free: "\<not> pool_pages False demo_vm \<subseteq> insert p (used_pages False demo_vm)" for p by (auto simp: demo_vm_pages)
  obtain pd s where s: "pagedir_create demo_vm = Some (pd, s)" "pd \<noteq> 0" "cr3 s = cr3 demo_vm"
      "used_pages False s = insert pd (used_pages False demo_vm)" "used_pages True s = used_pages True demo_vm"
      "pool_pages False s = pool_pages False demo_vm" "init_ram_pages s = init_ram_pages demo_vm"
      "\<And>k. k < 1024 \<Longrightarrow> slot (ram s) pd k = slot (ram demo_vm) (init_page_dir demo_vm) k"
    using pagedir_create_cases [OF vm_invD(1,3) [OF inv]] free by (metis subset_insertI2)
  then have step1: "vm_step ({}, demo_vm) ({pd}, s)" using vm_step.create [OF s(1), of "{}"] by simp
  have inv1: "vm_inv {pd} s" using create_inv [OF inv s(1)] s(2) by simp
  have "slot (ram s) pd k = 0" if "k < 768" for k using s(8) vm_invD(6) [OF inv that] that by simp
  then have empty: "mapping pd s = Map.empty" by (auto simp: mapping_def pte_at_def table_def div_less_iff_less_mult)
  have k: "kernel_page 0xc0106000" "0xc0106000 < PHYS_BASE + 4096 * init_ram_pages s"
    using s(7) by (simp_all add: kernel_page_def PHYS_BASE_def demo_vm_def)
  show thesis
  proof (rule pagedir_set_page_cases [OF vm_invD(1) [OF inv1] vm_invD(2) [OF inv1] refl _ _ k, of pd 5 True])
    fix t assume t: "pagedir_set_page pd (4096 * 5) 0xc0106000 True s = Some (True, t)"
      "mapping pd t = (mapping pd s)(5 \<mapsto> (0xc0106000, True))" "confined pd s t" "cr3 t = cr3 s"
    have step2: "vm_step ({pd}, s) ({pd}, t)" by (rule vm_step.set_page [OF _ _ _ k t(1)]) (simp_all add: empty)
    show thesis
    proof (rule that [of pd t])
      show "vm_step\<^sup>*\<^sup>* ({}, demo_vm) ({pd}, t)" using step1 step2 by simp
      show "vm_inv {pd} t" using vm_step_inv [OF step2] inv1 by simp
      show "active_pd t = Some 0xc0101000"
        using t(4) s(3) demo_vm_boot by (simp add: active_pd_def vm_boot_def) (simp add: demo_vm_def)
      show "used_pages True t = {0xc0106000}" using t(3) s(5) by (simp add: confined_def demo_vm_pages)
    qed (use t(2) empty in simp)
  qed (use s(4,6) free empty in \<open>simp_all\<close>)
qed



lemma pagedir_clear_page_cases:
  assumes inv: "vm_inv D s" and pd: "pd \<in> D" and vp: "vp < 768 * 1024"
  obtains s' where "pagedir_clear_page pd (4096 * vp) s = Some s'" "mapping pd s' = (mapping pd s)(vp := None)" "confined pd s s'"
proof -
  note ok = vm_invD(1) [OF inv] vm_invD(2) [OF inv pd]
  have a: "active_pd s \<noteq> None" using vm_invD(7) [OF inv] by auto
  note clear = pagedir_clear_page_eq [OF ok a refl vp(1)]
  show thesis
  proof (cases "mapping pd s vp")
    case None
    then show thesis using clear confined_refl by (intro that [of s]) auto
  next
    case (Some m)
    let ?s = "flag_change pd vp (\<lambda>e. e AND NOT PTE_P) True s"
    note fc = flag_change_ok [OF ok vp(1) only_flags_ops(5), where fl = True]
    have "mapping pd ?s v = ((mapping pd s)(vp := None)) v" for v
      using fc(4) [of v] by (cases "v < 768 * 1024"; cases "pte_at pd v s")
        (auto simp: mapping_def bit_and_iff bit_not_iff bit_flags)
    then show thesis using clear Some fc(3) by (intro that [of ?s]) auto
  qed
qed

text \<open>
  C4. \<^verbatim>\<open>pagedir_set_page\<close>, \<^verbatim>\<open>pagedir_clear_page\<close> and \<^verbatim>\<open>pagedir_get_page\<close> implement update, removal and application on
  the partial function that the page directory stands for, and leave the address space of every other page directory
  as it is.  Mapping a page fails only if the kernel has no free page for a page table, and then changes nothing.
\<close>

theorem pagedir_refines_map:
  assumes inv: "vm_inv D s" and pd: "pd \<in> D" and vp: "vp < 768 * 1024" "ofs < 4096"
  shows "pagedir_get_page pd (4096 * vp + ofs) s =
      Some (case mapping pd s vp of None \<Rightarrow> 0 | Some (page, w) \<Rightarrow> page + ofs) \<and>
    (\<exists>s'. pagedir_clear_page pd (4096 * vp) s = Some s' \<and> mapping pd s' = (mapping pd s)(vp := None) \<and>
      (\<forall>q \<in> D - {pd}. mapping q s' = mapping q s)) \<and>
    (mapping pd s vp = None \<and> kernel_page k \<and> k < PHYS_BASE + 4096 * init_ram_pages s \<longrightarrow>
      pagedir_set_page pd (4096 * vp) k w s = Some (False, s) \<and> pool_pages False s \<subseteq> used_pages False s \<or>
      (\<exists>s'. pagedir_set_page pd (4096 * vp) k w s = Some (True, s') \<and> mapping pd s' = (mapping pd s)(vp \<mapsto> (k, w)) \<and>
        (\<forall>q \<in> D - {pd}. mapping q s' = mapping q s)))" (is "?get \<and> ?clear \<and> (_ \<longrightarrow> ?set)")
proof (intro conjI impI)
  note ok = vm_invD(1) [OF inv] vm_invD(2) [OF inv pd]
  have other: "mapping q s' = mapping q s" if "confined pd s s'" "q \<in> D - {pd}" for q s'
    using confined_other(2) [OF that(1) vm_invD(2) [OF inv]] vm_invD(5) [OF inv _ pd] that(2) by auto
  have "is_user_vaddr (4096 * vp + ofs)" "(4096 * vp + ofs) mod 4096 = ofs"
    using vp by (simp_all add: is_user_vaddr_def PHYS_BASE_def)
  with pagedir_get_page_eq [OF ok this(1)] vp(2) show ?get by (auto split: option.split)
  show ?clear by (rule pagedir_clear_page_cases [OF inv pd vp(1)]) (use other in auto)
  show ?set if "mapping pd s vp = None \<and> kernel_page k \<and> k < PHYS_BASE + 4096 * init_ram_pages s"
    by (rule pagedir_set_page_cases [OF ok refl vp(1), of k w]) (use other that in auto)
qed

theorem pagedir_refines_map_witness:
  "\<exists>pd (s :: vm). pagedir_get_page pd (4096 * 5 + 7) s = Some (0xc0106000 + 7) \<and>
     (\<exists>s'. pagedir_clear_page pd (4096 * 5) s = Some s' \<and> mapping pd s' 5 = None)"
proof (rule demo_vm_created)
  fix pd and s :: vm
  assume s: "mapping pd s = [5 \<mapsto> (0xc0106000, True)]" "vm_inv {pd} s"
  show ?thesis
    by (rule exI [of _ pd], rule exI [of _ s]) (use pagedir_refines_map [OF s(2), of pd 5 7] s(1) in auto)
qed

text \<open>
  C14. \<^verbatim>\<open>pagedir_destroy\<close> returns, gives back exactly the page directory, its page tables and the frames it maps, and
  leaves every other page in use and its contents as they are, so the address spaces of the other processes are kept.
\<close>

theorem pagedir_destroy_correct:
  assumes inv: "vm_inv D s" and pd: "pd \<in> D" and fr: "private_frames pd s"
  shows "\<exists>s'. pagedir_destroy pd s = Some s' \<and>
    (\<forall>u. used_pages u s' = used_pages u s - (footprint pd s \<union> frames pd s)) \<and>
    (\<forall>q \<in> D - {pd}. pd_ok q s' \<and> mapping q s' = mapping q s)"
proof -
  note ok = vm_invD(1) [OF inv] vm_invD(2) [OF inv pd]
  obtain s' where s': "pagedir_destroy pd s = Some s'" "freed (footprint pd s \<union> frames pd s) s s'"
    using pagedir_destroy_freed [OF ok fr] by blast
  have "pd_ok q s' \<and> mapping q s' = mapping q s" if q: "q \<in> D - {pd}" for q
  proof -
    note qok = vm_invD(2) [OF inv, of q]
    have "footprint q s \<subseteq> used_pages False s - (footprint pd s \<union> frames pd s)"
      using q qok vm_invD(5) [OF inv _ pd, of q] fr kmem_okD(2) [OF ok(1)] unfolding pd_ok_def private_frames_def by blast
    then have ag: "agree (footprint q s) s s'" "footprint q s \<subseteq> used_pages False s'"
      using s'(2) by (auto simp: freed_def agree_def)
    show ?thesis using pd_ok_agree [OF ag(1) qok ag(2)] mapping_agree [OF ag(1)] q s'(2) by (simp add: freed_def)
  qed
  moreover have "\<forall>u. used_pages u s' = used_pages u s - (footprint pd s \<union> frames pd s)" using s'(2) by (simp add: freed_def)
  ultimately show ?thesis using s'(1) by blast
qed

theorem pagedir_destroy_correct_witness:
  "\<exists>pd (s :: vm) s'. used_pages True s = {0xc0106000} \<and> pagedir_destroy pd s = Some s' \<and> used_pages True s' = {}"
proof (rule demo_vm_created)
  fix pd and s :: vm
  assume s: "mapping pd s = [5 \<mapsto> (0xc0106000, True)]" "used_pages True s = {0xc0106000}" "vm_inv {pd} s"
  have fr: "frames pd s = {0xc0106000}" by (auto simp: frames_def s(1))
  then have "private_frames pd s" by (auto simp: private_frames_def s(1,2) split: if_splits)
  with pagedir_destroy_correct [OF s(3), of pd] obtain s' where s': "pagedir_destroy pd s = Some s'"
      "\<And>u. used_pages u s' = used_pages u s - (footprint pd s \<union> frames pd s)" by auto
  show ?thesis by (rule exI [of _ pd], rule exI [of _ s], rule exI [of _ s']) (simp add: s(2) s' fr)
qed

end
