(* ===== verification/Process.thy ===== *)
theory Process
  imports Pagedir Filesys Synch
begin

text \<open>
  User processes, \<^verbatim>\<open>userprog/process.c\<close>: starting a process, loading an ELF executable into a new address space, and
  tearing the address space down.

  The state \<open>proc\<close> puts the parts of the kernel together that the loader works with: memory, page allocator and page
  directories (theory \<open>Pagedir\<close>), the file system (\<open>Filesys\<close>) and the thread system with its semaphores (\<open>Synch\<close>).

  The main results are about the part of \<^verbatim>\<open>load\<close> that works on the open executable, \<open>load_file\<close>: it returns, keeps the
  address spaces of all other processes and the invariant of memory, whatever the contents of the executable are, so a
  malformed file can make it fail but not panic; when it succeeds the segments are in memory as the program headers say;
  and the exit of the process gives back all pages that loading took.
\<close>

unbundle bit_operations_syntax

section \<open>State\<close>

text \<open>\<open>temporary\<close> is the address of the static semaphore of that name.\<close>

record proc = vm +
  fsy :: fsys
  ks :: ksync
  temporary :: addr

text \<open>A call of the file system.\<close>

definition on_fs :: "(fsys \<Rightarrow> ('b \<times> fsys) option) \<Rightarrow> proc \<Rightarrow> ('b \<times> proc) option" where
  "on_fs op s = do { (x, t) \<leftarrow> op (fsy s); Some (x, s\<lparr>fsy := t\<rparr>) }"

text \<open>The page directory of the current thread.\<close>

definition cur_pagedir :: "proc \<Rightarrow> nat option" where
  "cur_pagedir s = do { t \<leftarrow> thread_current (ks s); Some (unat (pagedir (thr (ks s) t))) }"

definition set_pagedir :: "nat \<Rightarrow> proc \<Rightarrow> proc option" where
  "set_pagedir pd s = do {
     t \<leftarrow> thread_current (ks s);
     Some (s\<lparr>ks := upd_thread t (\<lambda>th. th\<lparr>pagedir := word pd\<rparr>) (ks s)\<rparr>)
   }"

definition store_bytes :: "nat \<Rightarrow> byte list \<Rightarrow> mem \<Rightarrow> mem" where
  "store_bytes a bs m = (\<lambda>x. if a \<le> x \<and> x < a + length bs then bs ! (x - a) else m x)"

section \<open>The format of executables\<close>

type_synonym Elf32_Half = "16 word"

definition elf_half :: "byte list \<Rightarrow> nat \<Rightarrow> Elf32_Half" where
  "elf_half bs ofs = ucast (bs ! ofs) OR push_bit 8 (ucast (bs ! (ofs + 1)))"

definition elf_word :: "byte list \<Rightarrow> nat \<Rightarrow> u32" where
  "elf_word bs ofs = of_le32 (take 4 (drop ofs bs))"

record Elf32_Ehdr =
  e_ident :: "byte list"
  e_type :: Elf32_Half
  e_machine :: Elf32_Half
  e_version :: u32
  e_entry :: u32
  e_phoff :: u32
  e_shoff :: u32
  e_flags :: u32
  e_ehsize :: Elf32_Half
  e_phentsize :: Elf32_Half
  e_phnum :: Elf32_Half
  e_shentsize :: Elf32_Half
  e_shnum :: Elf32_Half
  e_shstrndx :: Elf32_Half

record Elf32_Phdr =
  p_type :: u32
  p_offset :: u32
  p_vaddr :: u32
  p_paddr :: u32
  p_filesz :: u32
  p_memsz :: u32
  p_flags :: u32
  p_align :: u32

definition EHDR_SIZE :: nat where "EHDR_SIZE = 52"
definition PHDR_SIZE :: nat where "PHDR_SIZE = 32"

definition decode_ehdr :: "byte list \<Rightarrow> Elf32_Ehdr" where
  "decode_ehdr bs =
     \<lparr>e_ident = take 16 bs, e_type = elf_half bs 16, e_machine = elf_half bs 18, e_version = elf_word bs 20,
      e_entry = elf_word bs 24, e_phoff = elf_word bs 28, e_shoff = elf_word bs 32, e_flags = elf_word bs 36,
      e_ehsize = elf_half bs 40, e_phentsize = elf_half bs 42, e_phnum = elf_half bs 44, e_shentsize = elf_half bs 46,
      e_shnum = elf_half bs 48, e_shstrndx = elf_half bs 50\<rparr>"

definition decode_phdr :: "byte list \<Rightarrow> Elf32_Phdr" where
  "decode_phdr bs =
     \<lparr>p_type = elf_word bs 0, p_offset = elf_word bs 4, p_vaddr = elf_word bs 8, p_paddr = elf_word bs 12,
      p_filesz = elf_word bs 16, p_memsz = elf_word bs 20, p_flags = elf_word bs 24, p_align = elf_word bs 28\<rparr>"

definition PT_LOAD :: u32 where "PT_LOAD = 1"
definition PT_DYNAMIC :: u32 where "PT_DYNAMIC = 2"
definition PT_INTERP :: u32 where "PT_INTERP = 3"
definition PT_SHLIB :: u32 where "PT_SHLIB = 5"
definition PF_W :: u32 where "PF_W = 2"

section \<open>Loading\<close>

definition install_page :: "nat \<Rightarrow> nat \<Rightarrow> bool \<Rightarrow> proc \<Rightarrow> (bool \<times> proc) option" where
  "install_page upage kpage writable s = do {
     pd \<leftarrow> cur_pagedir s;
     a \<leftarrow> pagedir_get_page pd upage s;
     if a = 0 then pagedir_set_page pd upage kpage writable s else Some (False, s)
   }"

text \<open>The loop of \<^verbatim>\<open>load_segment\<close>.\<close>

partial_function (option) load_pages :: "addr \<Rightarrow> nat \<Rightarrow> nat \<Rightarrow> nat \<Rightarrow> bool \<Rightarrow> proc \<Rightarrow> (bool \<times> proc) option" where
  "load_pages f upage read_bytes zero_bytes writable s =
     (if read_bytes > 0 \<or> zero_bytes > 0 then do {
        let page_read_bytes = (if read_bytes < PGSIZE then read_bytes else PGSIZE);
        let page_zero_bytes = PGSIZE - page_read_bytes;
        (kpage, s) \<leftarrow> palloc_get_page PAL_USER s;
        if kpage = 0 then Some (False, s)
        else do {
          (bs, s) \<leftarrow> on_fs (file_read f (int page_read_bytes)) s;
          let s = s\<lparr>ram := store_bytes kpage bs (ram s)\<rparr>;
          if length bs \<noteq> page_read_bytes then do {
            s \<leftarrow> palloc_free_page kpage s;
            Some (False, s)
          }
          else do {
            (_, m) \<leftarrow> memset (kpage + page_read_bytes) 0 page_zero_bytes (ram s);
            (ok, s) \<leftarrow> install_page upage kpage writable (s\<lparr>ram := m\<rparr>);
            if \<not> ok then do {
              s \<leftarrow> palloc_free_page kpage s;
              Some (False, s)
            }
            else
              load_pages f ((upage + PGSIZE) mod 2 ^ 32) (read_bytes - page_read_bytes)
                ((zero_bytes + 2 ^ 32 - page_zero_bytes) mod 2 ^ 32) writable s
          }
        }
      }
      else Some (True, s))"

definition load_segment :: "addr \<Rightarrow> int \<Rightarrow> nat \<Rightarrow> nat \<Rightarrow> nat \<Rightarrow> bool \<Rightarrow> proc \<Rightarrow> (bool \<times> proc) option" where
  "load_segment f ofs upage read_bytes zero_bytes writable s = do {
     ASSERT ((read_bytes + zero_bytes) mod 2 ^ 32 mod PGSIZE = 0);
     ASSERT (pg_ofs upage = 0);
     ASSERT (c_mod ofs (int PGSIZE) = 0);
     t \<leftarrow> file_seek f ofs (fsy s);
     load_pages f upage read_bytes zero_bytes writable (s\<lparr>fsy := t\<rparr>)
   }"

text \<open>The result is the value stored in \<^verbatim>\<open>*esp\<close> on success.\<close>

definition setup_stack :: "proc \<Rightarrow> (nat option \<times> proc) option" where
  "setup_stack s = do {
     (kpage, s) \<leftarrow> palloc_get_page (PAL_USER OR PAL_ZERO) s;
     if kpage \<noteq> 0 then do {
       (success, s) \<leftarrow> install_page (PHYS_BASE - PGSIZE) kpage True s;
       if success then Some (Some PHYS_BASE, s)
       else do {
         s \<leftarrow> palloc_free_page kpage s;
         Some (None, s)
       }
     }
     else Some (None, s)
   }"

definition validate_segment :: "Elf32_Phdr \<Rightarrow> addr \<Rightarrow> proc \<Rightarrow> bool option" where
  "validate_segment phdr f s = do {
     len \<leftarrow> file_length f (fsy s);
     Some (if p_offset phdr AND PGMASK \<noteq> p_vaddr phdr AND PGMASK then False
       else if p_offset phdr > word_of_int len then False
       else if p_memsz phdr < p_filesz phdr then False
       else if p_memsz phdr = 0 then False
       else if \<not> is_user_vaddr (unat (p_vaddr phdr)) then False
       else if \<not> is_user_vaddr (unat (p_vaddr phdr + p_memsz phdr)) then False
       else if p_vaddr phdr + p_memsz phdr < p_vaddr phdr then False
       else if unat (p_vaddr phdr) < PGSIZE then False
       else True)
   }"

text \<open>The case \<^verbatim>\<open>PT_LOAD\<close> of the switch.  \<^verbatim>\<open>ROUND_UP\<close> and the subtraction are on unsigned integers.\<close>

definition load_one :: "Elf32_Phdr \<Rightarrow> addr \<Rightarrow> proc \<Rightarrow> (bool \<times> proc) option" where
  "load_one phdr f s = do {
     valid \<leftarrow> validate_segment phdr f s;
     if valid then do {
       let writable = (p_flags phdr AND PF_W \<noteq> 0);
       let file_page = p_offset phdr AND NOT PGMASK;
       let mem_page = p_vaddr phdr AND NOT PGMASK;
       let page_offset = p_vaddr phdr AND PGMASK;
       let rounded = ROUND_UP (unat (page_offset + p_memsz phdr)) PGSIZE;
       let (read_bytes, zero_bytes) =
         (if p_filesz phdr > 0 then
            (unat (page_offset + p_filesz phdr), (rounded + 2 ^ 32 - unat (page_offset + p_filesz phdr)) mod 2 ^ 32)
          else (0, rounded mod 2 ^ 32));
       load_segment f (sint file_page) (unat mem_page) read_bytes zero_bytes writable s
     }
     else Some (False, s)
   }"

text \<open>The loop over the program headers, \<open>n\<close> of which are left.\<close>

primrec load_phdrs :: "nat \<Rightarrow> int \<Rightarrow> addr \<Rightarrow> proc \<Rightarrow> (bool \<times> proc) option" where
  "load_phdrs 0 file_ofs f s = Some (True, s)"
| "load_phdrs (Suc n) file_ofs f s = do {
     len \<leftarrow> file_length f (fsy s);
     if file_ofs < 0 \<or> file_ofs > len then Some (False, s)
     else do {
       t \<leftarrow> file_seek f file_ofs (fsy s);
       (bs, s) \<leftarrow> on_fs (file_read f (int PHDR_SIZE)) (s\<lparr>fsy := t\<rparr>);
       if length bs \<noteq> PHDR_SIZE then Some (False, s)
       else do {
         let phdr = decode_phdr bs;
         (ok, s) \<leftarrow>
           (if p_type phdr = PT_DYNAMIC \<or> p_type phdr = PT_INTERP \<or> p_type phdr = PT_SHLIB then Some (False, s)
            else if p_type phdr = PT_LOAD then load_one phdr f s
            else Some (True, s));
         if ok then load_phdrs n (int32 (file_ofs + int PHDR_SIZE)) f s else Some (False, s)
       }
     }
   }"

definition ehdr_ok :: "byte list \<Rightarrow> bool" where
  "ehdr_ok bs \<longleftrightarrow> length bs = EHDR_SIZE \<and>
     (let e = decode_ehdr bs in
      take 7 (e_ident e) = [0x7f, 0x45, 0x4c, 0x46, 1, 1, 1] \<and> e_type e = 2 \<and> e_machine e = 3 \<and> e_version e = 1 \<and>
      e_phentsize e = of_nat PHDR_SIZE \<and> \<not> e_phnum e > 1024)"

text \<open>Everything between opening the file and the label \<^verbatim>\<open>done\<close>; the result is the entry point and the stack pointer.\<close>

definition load_file :: "addr \<Rightarrow> proc \<Rightarrow> ((u32 \<times> nat) option \<times> proc) option" where
  "load_file f s = do {
     (bs, s) \<leftarrow> on_fs (file_read f (int EHDR_SIZE)) s;
     if \<not> ehdr_ok bs then Some (None, s)
     else do {
       let ehdr = decode_ehdr bs;
       (ok, s) \<leftarrow> load_phdrs (unat (e_phnum ehdr)) (sint (e_phoff ehdr)) f s;
       if \<not> ok then Some (None, s)
       else do {
         (esp, s) \<leftarrow> setup_stack s;
         Some (case esp of None \<Rightarrow> (None, s) | Some sp \<Rightarrow> (Some (e_entry ehdr, sp), s))
       }
     }
   }"

text \<open>\<^verbatim>\<open>process_activate\<close>: the page tables, and, in the thread system, the kernel stack for interrupts.\<close>

definition activate_process :: "proc \<Rightarrow> proc option" where
  "activate_process s = do {
     pd \<leftarrow> cur_pagedir s;
     s \<leftarrow> pagedir_activate pd s;
     k \<leftarrow> process_activate (ks s);
     Some (s\<lparr>ks := k\<rparr>)
   }"

definition load :: "byte list \<Rightarrow> proc \<Rightarrow> ((u32 \<times> nat) option \<times> proc) option" where
  "load file_name s = do {
     (pd, s) \<leftarrow> pagedir_create s;
     s \<leftarrow> set_pagedir pd s;
     if pd = 0 then Some (None, s)
     else do {
       s \<leftarrow> activate_process s;
       (f, s) \<leftarrow> on_fs (filesys_open file_name) s;
       if f = NULL then Some (None, s)
       else do {
         (r, s) \<leftarrow> load_file f s;
         t \<leftarrow> file_close f (fsy s);
         Some (r, s\<lparr>fsy := t\<rparr>)
       }
     }
   }"

section \<open>Starting and ending a process\<close>

record intr_frame =
  edi :: u32
  esi :: u32
  ebp :: u32
  esp_dummy :: u32
  ebx :: u32
  edx :: u32
  ecx :: u32
  eax :: u32
  gs :: "16 word"
  fs_sel :: "16 word"
  es :: "16 word"
  ds :: "16 word"
  vec_no :: u32
  error_code :: u32
  frame_pointer :: u32
  eip :: u32
  cs :: "16 word"
  eflags :: u32
  esp :: u32
  ss :: "16 word"

definition SEL_UCSEG :: "16 word" where "SEL_UCSEG = 0x1B"
definition SEL_UDSEG :: "16 word" where "SEL_UDSEG = 0x23"
definition FLAG_MBS :: u32 where "FLAG_MBS = 0x2"
definition FLAG_IF :: u32 where "FLAG_IF = 0x200"

text \<open>The characters of the string at \<open>a\<close>.\<close>

definition string_at :: "nat \<Rightarrow> mem \<Rightarrow> byte list option" where
  "string_at a m = do { n \<leftarrow> strlen a m; Some (map m [a..<a + n]) }"

definition on_ks :: "(ksync \<Rightarrow> ksync option) \<Rightarrow> proc \<Rightarrow> proc option" where
  "on_ks op s = do { k \<leftarrow> op (ks s); Some (s\<lparr>ks := k\<rparr>) }"

text \<open>The part of \<^verbatim>\<open>process_exit\<close> that gives up the address space.\<close>

definition drop_pagedir :: "proc \<Rightarrow> proc option" where
  "drop_pagedir s = do {
     pd \<leftarrow> cur_pagedir s;
     if pd \<noteq> 0 then do {
       s \<leftarrow> set_pagedir 0 s;
       s \<leftarrow> pagedir_activate 0 s;
       pagedir_destroy pd s
     }
     else Some s
   }"

definition process_exit :: "proc \<Rightarrow> proc option" where
  "process_exit s = do {
     s \<leftarrow> drop_pagedir s;
     on_ks (sema_up (Sema (temporary s))) s
   }"

text \<open>\<^verbatim>\<open>process_wait\<close>, as the steps of a call in the transition system of theory \<open>Synch\<close> and the value that it returns.\<close>

definition process_wait :: "int \<Rightarrow> proc \<Rightarrow> action list \<times> int" where
  "process_wait child_tid s = ([Down (Sema (temporary s))], 0)"

text \<open>\<^verbatim>\<open>thread_exit\<close> with the call of \<^verbatim>\<open>process_exit\<close> in it.\<close>

definition exit_process :: "proc \<Rightarrow> proc option" where
  "exit_process s = do {
     ASSERT (\<not> intr_context (ks s));
     s \<leftarrow> process_exit s;
     on_ks (thread_exit Some) s
   }"

text \<open>
  The result is the interrupt frame that \<^verbatim>\<open>intr_exit\<close> returns to user mode with; without one the thread has ended.
\<close>

definition start_process :: "nat \<Rightarrow> proc \<Rightarrow> (intr_frame option \<times> proc) option" where
  "start_process file_name s = do {
     let if0 = \<lparr>edi = 0, esi = 0, ebp = 0, esp_dummy = 0, ebx = 0, edx = 0, ecx = 0, eax = 0,
       gs = SEL_UDSEG, fs_sel = SEL_UDSEG, es = SEL_UDSEG, ds = SEL_UDSEG, vec_no = 0, error_code = 0, frame_pointer = 0,
       eip = 0, cs = SEL_UCSEG, eflags = FLAG_IF OR FLAG_MBS, esp = 0, ss = SEL_UDSEG\<rparr>;
     name \<leftarrow> string_at file_name (ram s);
     (r, s) \<leftarrow> load name s;
     s \<leftarrow> palloc_free_page file_name s;
     case r of
       None \<Rightarrow> do { s \<leftarrow> exit_process s; Some (None, s) }
     | Some (entry, sp) \<Rightarrow> Some (Some (if0\<lparr>eip := entry, esp := word sp\<rparr>), s)
   }"

text \<open>
  \<open>start_addr\<close> is the address of \<^verbatim>\<open>start_process\<close>.  The call of \<^verbatim>\<open>palloc_get_page\<close> in \<^verbatim>\<open>thread_create\<close> is made before it.
\<close>

definition process_execute :: "nat \<Rightarrow> nat \<Rightarrow> proc \<Rightarrow> (int \<times> proc) option" where
  "process_execute start_addr file_name s = do {
     s \<leftarrow> on_ks (sema_init (Sema (temporary s)) 0) s;
     (fn_copy, s) \<leftarrow> palloc_get_page 0 s;
     if fn_copy = 0 then Some (TID_ERROR, s)
     else do {
       (_, m) \<leftarrow> strlcpy fn_copy file_name PGSIZE (ram s);
       let s = s\<lparr>ram := m\<rparr>;
       (page, s) \<leftarrow> palloc_get_page PAL_ZERO s;
       name \<leftarrow> string_at file_name (ram s);
       (tid, k) \<leftarrow> thread_create (word page) (map (\<lambda>c. char_of (unat c)) name) PRI_DEFAULT start_addr fn_copy (ks s);
       let s = s\<lparr>ks := k\<rparr>;
       if tid = TID_ERROR then do {
         s \<leftarrow> palloc_free_page fn_copy s;
         Some (tid, s)
       }
       else Some (tid, s)
     }
   }"

section \<open>What the allocators leave alone\<close>

lemma set_pool_more [simp]: "kmem.more (set_pool u p s) = kmem.more s"
  by (simp add: set_pool_def)

lemma palloc_get_page_more: "palloc_get_page flags s = Some (p, s') \<Longrightarrow> kmem.more s' = kmem.more s"
  by (auto simp: palloc_get_page_def palloc_get_multiple_def Let_def bind_eq_Some_conv split: if_splits prod.splits)

lemma palloc_free_page_more: "palloc_free_page p s = Some s' \<Longrightarrow> kmem.more s' = kmem.more s"
  by (auto simp: palloc_free_page_def palloc_free_multiple_def Let_def bind_eq_Some_conv split: if_splits prod.splits)

lemma lookup_page_more: "lookup_page pd va c s = Some (e, s') \<Longrightarrow> kmem.more s' = kmem.more s"
  by (auto simp: lookup_page_def Let_def bind_eq_Some_conv split: if_splits prod.splits dest!: palloc_get_page_more)

lemma pagedir_set_page_more: "pagedir_set_page pd u k w s = Some (b, s') \<Longrightarrow> kmem.more s' = kmem.more s"
  by (auto simp: pagedir_set_page_def Let_def bind_eq_Some_conv split: if_splits prod.splits dest!: lookup_page_more)

lemma pagedir_create_more: "pagedir_create s = Some (pd, s') \<Longrightarrow> kmem.more s' = kmem.more s"
  by (auto simp: pagedir_create_def Let_def bind_eq_Some_conv split: if_splits prod.splits dest!: palloc_get_page_more)

lemma proc_more:
  assumes "kmem.more s' = kmem.more (s :: proc)"
  shows "fsy s' = fsy s" "ks s' = ks s" "temporary s' = temporary s" "vm.cr3 s' = vm.cr3 s" "tlb s' = tlb s"
    "vm.init_page_dir s' = vm.init_page_dir s" "cur_pagedir s' = cur_pagedir s"
  using assms by (cases s; cases s'; simp add: cur_pagedir_def)+

lemma proc_upd [simp]:
  "kmem_ok (s\<lparr>fsy := t\<rparr>) = kmem_ok s" "used_pages u (s\<lparr>fsy := t\<rparr>) = used_pages u s" "pool_pages u (s\<lparr>fsy := t\<rparr>) = pool_pages u s"
  "kmem_ok (s\<lparr>ks := k\<rparr>) = kmem_ok s" "used_pages u (s\<lparr>ks := k\<rparr>) = used_pages u s" "pool_pages u (s\<lparr>ks := k\<rparr>) = pool_pages u s"
  "table p i (s\<lparr>fsy := t\<rparr>) = table p i s" "table p i (s\<lparr>ks := k\<rparr>) = table p i s"
  by (simp_all add: kmem_ok_def used_pages_def pool_pages_def the_pool_def table_def)

lemma proc_upd_space [simp]:
  "pte_at p i (s\<lparr>fsy := t\<rparr>) = pte_at p i s" "pte_at p i (s\<lparr>ks := k\<rparr>) = pte_at p i s"
  "footprint p (s\<lparr>fsy := t\<rparr>) = footprint p s" "footprint p (s\<lparr>ks := k\<rparr>) = footprint p s"
  by (simp_all add: pte_at_def footprint_def)

lemma proc_upd_ok [simp]:
  "mapping p (s\<lparr>fsy := t\<rparr>) = mapping p s" "mapping p (s\<lparr>ks := k\<rparr>) = mapping p s"
  "pd_ok p (s\<lparr>fsy := t\<rparr>) = pd_ok p s" "pd_ok p (s\<lparr>ks := k\<rparr>) = pd_ok p s"
  "tlb_ok p (s\<lparr>fsy := t\<rparr>) = tlb_ok p s" "tlb_ok p (s\<lparr>ks := k\<rparr>) = tlb_ok p s"
  "active_pd (s\<lparr>fsy := t\<rparr>) = active_pd s" "active_pd (s\<lparr>ks := k\<rparr>) = active_pd s"
  by (simp_all add: mapping_def pd_ok_def tlb_ok_def active_pd_def fun_eq_iff)

lemma proc_upd_inv [simp]:
  "vm_inv D (s\<lparr>fsy := t\<rparr>) = vm_inv D s" "vm_inv D (s\<lparr>ks := k\<rparr>) = vm_inv D s"
  "Pagedir.frames p (s\<lparr>fsy := t\<rparr>) = Pagedir.frames p s" "Pagedir.frames p (s\<lparr>ks := k\<rparr>) = Pagedir.frames p s"
  "private_frames p (s\<lparr>fsy := t\<rparr>) = private_frames p s" "private_frames p (s\<lparr>ks := k\<rparr>) = private_frames p s"
  "cur_pagedir (s\<lparr>fsy := t\<rparr>) = cur_pagedir s" "cur_pagedir (s\<lparr>ram := m\<rparr>) = cur_pagedir s"
  by (simp_all add: vm_inv_def private_frames_def Pagedir.frames_def cur_pagedir_def)

lemma cpu_upd [simp]:
  "mapping p (s\<lparr>vm.cr3 := c\<rparr>) = mapping p s" "mapping p (s\<lparr>tlb := t\<rparr>) = mapping p s"
  "Pagedir.frames p (s\<lparr>vm.cr3 := c\<rparr>) = Pagedir.frames p s" "Pagedir.frames p (s\<lparr>tlb := t\<rparr>) = Pagedir.frames p s"
  by (simp_all add: mapping_def Pagedir.frames_def fun_eq_iff)

section \<open>Changes on the user side\<close>

text \<open>A change that leaves the pages of the kernel alone keeps all address spaces.\<close>

definition user_change :: "'a vm_scheme \<Rightarrow> 'a vm_scheme \<Rightarrow> bool" where
  "user_change s s' \<longleftrightarrow> kmem_ok s' \<and> used_pages False s' = used_pages False s \<and> agree (used_pages False s) s s' \<and>
     vm.init_page_dir s' = vm.init_page_dir s \<and> vm.cr3 s' = vm.cr3 s \<and> tlb s' = tlb s"

lemma user_change_space:
  assumes ch: "user_change s s'" and pd: "pd_ok pd s"
  shows "pd_ok pd s'" "mapping pd s' = mapping pd s" "footprint pd s' = footprint pd s"
proof -
  have fp: "footprint pd s \<subseteq> used_pages False s" using pd by (simp add: pd_ok_def)
  have same: "used_pages False s' = used_pages False s" "vm.init_page_dir s' = vm.init_page_dir s"
      "agree (used_pages False s) s s'" using ch by (simp_all add: user_change_def)
  have ag: "agree (footprint pd s) s s'" using same(3) fp by (auto simp: agree_def)
  show "pd_ok pd s'" by (rule pd_ok_agree [OF ag pd]) (use fp same in simp_all)
  show "mapping pd s' = mapping pd s" "footprint pd s' = footprint pd s" using mapping_agree [OF ag] footprint_agree [OF ag] by auto
qed

lemma user_change_inv:
  assumes ch: "user_change s s'" and inv: "vm_inv D s"
  shows "vm_inv D s'"
proof -
  note old = vm_invD [OF inv]
  note space = user_change_space [OF ch old(2)]
  obtain a where a: "active_pd s = Some a" using old(7) by blast
  note act = vm_inv_active [OF inv a]
  have "agree (used_pages False s) s s'" using ch by (simp add: user_change_def)
  then have "agree (footprint a s) s s'" using act(1) by (auto simp: agree_def)
  then have "tlb_ok a s'" using act(2) pte_at_agree [of a s s'] ch by (simp add: tlb_ok_def user_change_def)
  moreover have "active_pd s' = Some a" using ch a by (simp add: user_change_def active_pd_def)
  moreover have "Pagedir.slot (ram s') (vm.init_page_dir s) i = 0" if "i < 768" for i
    using ch old(3) old(6) [OF that] that by (auto simp: user_change_def agree_def)
  moreover have "kmem_ok s'" "used_pages False s' = used_pages False s" "vm.init_page_dir s' = vm.init_page_dir s"
    using ch by (simp_all add: user_change_def)
  ultimately show ?thesis
    using space old(3-5) act(3) unfolding vm_inv_def by simp
qed

lemma user_change_refl: "kmem_ok s \<Longrightarrow> user_change s s"
  by (simp add: user_change_def agree_def)

lemma user_change_trans: "user_change s s' \<Longrightarrow> user_change s' s'' \<Longrightarrow> user_change s s''"
  by (simp add: user_change_def agree_def)

text \<open>The bytes of a page, and the words that \<open>agree\<close> compares.\<close>

lemma agree_bytes:
  assumes "agree P s s'" and "p \<in> P" and "x \<in> extent p (Suc 0)"
  shows "ram s' x = ram s x"
proof -
  define i j where "i = (x - p) div 4" and "j = (x - p) mod 4"
  have x: "p \<le> x" "x - p < 4096" using assms(3) by (auto simp: extent_def)
  have i: "i < 1024" "x = p + 4 * i + j" "j < 4" using x by (simp_all add: i_def j_def div_less_iff_less_mult)
  have eq: "load32 (ram s') (p + 4 * i) = load32 (ram s) (p + 4 * i)"
    using assms(1,2) i(1) by (auto simp: agree_def Pagedir.slot_def)
  have bytes: "[m a, m (a + 1), m (a + 2), m (a + 3)] = le32 (load32 m a)" for m a
    by (simp add: load32_def le32_of_le32)
  have "[ram s' (p + 4 * i), ram s' (p + 4 * i + 1), ram s' (p + 4 * i + 2), ram s' (p + 4 * i + 3)] =
      [ram s (p + 4 * i), ram s (p + 4 * i + 1), ram s (p + 4 * i + 2), ram s (p + 4 * i + 3)]" by (simp only: bytes eq)
  moreover have "j = 0 \<or> j = 1 \<or> j = 2 \<or> j = 3" using i(3) by linarith
  ultimately show ?thesis using i(2) by auto
qed

lemma write_user_page:
  assumes ok: "kmem_ok s" and p: "p \<in> used_pages True s" and m: "\<And>x. x \<notin> extent p (Suc 0) \<Longrightarrow> m x = ram s x"
  shows "user_change s (s\<lparr>ram := m\<rparr>)" "q \<in> used_pages u s \<Longrightarrow> q \<noteq> p \<Longrightarrow> x \<in> extent q (Suc 0) \<Longrightarrow> m x = ram s x"
proof -
  have al: "p mod 4096 = 0" using used_page(1) [OF ok p] by (simp add: kernel_page_def)
  have other: "m x = ram s x" if q: "q \<in> used_pages v s" "q \<noteq> p" and x: "x \<in> extent q (Suc 0)" for q v x
  proof -
    have "q mod 4096 = 0" using used_page(1) [OF ok q(1)] by (simp add: kernel_page_def)
    then have "extent q (Suc 0) \<inter> extent p (Suc 0) = {}" using al q(2) by (intro extent_disjoint) auto
    then show ?thesis using x m by blast
  qed
  then show "q \<in> used_pages u s \<Longrightarrow> q \<noteq> p \<Longrightarrow> x \<in> extent q (Suc 0) \<Longrightarrow> m x = ram s x" by blast
  have "Pagedir.slot m q i = Pagedir.slot (ram s) q i" if "q \<in> used_pages False s" "i < 1024" for q i
    by (rule slot_cong [OF other [OF that(1)] that(2)]) (use that(1) p kmem_okD(2) [OF ok] in auto)
  then show "user_change s (s\<lparr>ram := m\<rparr>)" using ok by (simp add: user_change_def agree_def ram_update)
qed

section \<open>Reading the executable\<close>

definition file_ok :: "addr \<Rightarrow> fsys \<Rightarrow> bool" where
  "file_ok f t \<longleftrightarrow> f \<noteq> NULL \<and> f \<in> set (in_use t) \<and> Fs_Inode.live (file_inode (files t f)) t \<and>
     0 \<le> file_pos (files t f) \<and> file_pos (files t f) < 2 ^ 31"

definition file_bytes :: "addr \<Rightarrow> fsys \<Rightarrow> byte list" where
  "file_bytes f t = content (inodes t (file_inode (files t f))) t"

text \<open>Reading and seeking change the position of the file and take answers of the allocator.\<close>

definition reads :: "addr \<Rightarrow> fsys \<Rightarrow> fsys \<Rightarrow> bool" where
  "reads f t t' \<longleftrightarrow> (\<exists>k ofs. t' = t\<lparr>answers := drop k (answers t), files := (files t)(f := (files t f)\<lparr>file_pos := ofs\<rparr>)\<rparr> \<and>
     0 \<le> ofs \<and> ofs < 2 ^ 31)"

text \<open>Of the answers of the heap, those up to one that refuses memory have been taken between \<open>t\<close> and \<open>t'\<close>.\<close>

definition refused :: "fsys \<Rightarrow> fsys \<Rightarrow> bool" where
  "refused t t' \<longleftrightarrow> (\<exists>n. \<not> memory (t\<lparr>answers := drop n (answers t)\<rparr>) \<and> (answers t' = drop n (answers t) \<or> answers t' = tl (drop n (answers t))))"

lemma reads_refl: "file_ok f t \<Longrightarrow> reads f t t"
  unfolding reads_def file_ok_def by (intro exI [of _ 0] exI [of _ "file_pos (files t f)"]) simp

lemma reads_trans:
  assumes "reads f t t'" and "reads f t' t''"
  shows "reads f t t''"
proof -
  obtain k ofs where a: "t' = t\<lparr>answers := drop k (answers t), files := (files t)(f := (files t f)\<lparr>file_pos := ofs\<rparr>)\<rparr>"
    using assms(1) by (auto simp: reads_def)
  obtain k' ofs' where b: "t'' = t'\<lparr>answers := drop k' (answers t'), files := (files t')(f := (files t' f)\<lparr>file_pos := ofs'\<rparr>)\<rparr>"
      "0 \<le> ofs'" "ofs' < 2 ^ 31"
    using assms(2) by (auto simp: reads_def)
  show ?thesis unfolding reads_def by (intro exI [of _ "k' + k"] exI [of _ ofs']) (use b in \<open>simp add: a\<close>)
qed

lemma reads_same:
  assumes "reads f t t'"
  shows "file_bytes f t' = file_bytes f t" "file_ok f t \<Longrightarrow> file_ok f t'" "in_use t' = in_use t"
    "file_length f t' = file_length f t" "disk t' = disk t" "inodes t' = inodes t"
  using assms by (auto simp: reads_def file_bytes_def file_ok_def live_def file_length_def deref_def)

lemma file_ok_length:
  assumes "file_ok f t"
  shows "file_length f t = Some (int (length (file_bytes f t)))" "int (length (file_bytes f t)) + 512 \<le> 2 ^ 31"
proof -
  let ?i = "inodes t (file_inode (files t f))"
  have ok: "disk_ok t" "inode_ok ?i t" "0 \<le> inode_length ?i" "inode_length ?i + 512 \<le> 2 ^ 31"
    using assms by (simp_all add: file_ok_def live_def inode_ok_def)
  have len: "int (length (file_bytes f t)) = inode_length ?i" using length_content [OF ok(1,2)] ok(3) by (simp add: file_bytes_def)
  then show "int (length (file_bytes f t)) + 512 \<le> 2 ^ 31" using ok(4) by simp
  show "file_length f t = Some (int (length (file_bytes f t)))"
    using assms by (simp add: file_length_def deref_def file_ok_def live_def len ASSERT_def)
qed

lemma file_read_ok:
  assumes ok: "file_ok f t" and ofs: "file_pos (files t f) = int ofs"
  obtains bs t' k where "file_read f sz t = Some (bs, t')" "bs = take k (drop ofs (file_bytes f t))" "k \<le> nat sz" "reads f t t'"
    "file_pos (files t' f) = int (ofs + length bs)" "k = nat sz \<or> refused t t'"
proof -
  let ?p = "file_inode (files t f)"
  have lv: "disk_ok t" "inode_ok (inodes t ?p) t" "?p \<noteq> NULL" "?p \<in> set (in_use t)" "int ofs < 2 ^ 31"
    using ok ofs by (auto simp: file_ok_def live_def)
  obtain k as where k: "inode_read_at ?p sz (int ofs) t = Some (take k (drop ofs (file_bytes f t)), t\<lparr>answers := as\<rparr>)" "k \<le> nat sz"
    and as: "memory t \<longrightarrow> k = nat sz" "spent (answers t) as"
    using inode_read_at_ok [OF lv(1-5), of sz] by (auto simp: file_bytes_def)
  define bs where "bs = take k (drop ofs (file_bytes f t))"
  have "int (ofs + length bs) < 2 ^ 31"
    using file_ok_length(2) [OF ok] lv(5) by (cases "ofs \<le> length (file_bytes f t)") (auto simp: bs_def)
  then have wrap: "int32 (int ofs + int (length bs)) = int (ofs + length bs)" by (subst int32_small) simp_all
  let ?t = "t\<lparr>answers := as, files := (files t)(f := (files t f)\<lparr>file_pos := int (ofs + length bs)\<rparr>)\<rparr>"
  obtain n where n: "as = drop n (answers t)" using as(2) by (auto simp: spent_def drop_Suc intro: that [of 0] that [of 1])
  show thesis
  proof (rule that [of bs ?t k])
    show "k = nat sz \<or> refused t ?t" using as by (cases "memory t") (auto simp: refused_def spent_def intro!: exI [of _ 0])
    show "file_read f sz t = Some (bs, ?t)"
      using k(1) ok wrap ofs by (simp add: file_read_def upd_file_def deref_def file_ok_def bs_def ASSERT_def)
    show "reads f t ?t" unfolding reads_def n
      by (intro exI [of _ n] exI [of _ "int (ofs + length bs)"]) (use \<open>int (ofs + length bs) < 2 ^ 31\<close> in simp)
  qed (use k(2) in \<open>simp_all add: bs_def\<close>)
qed

lemma file_seek_ok:
  assumes "file_ok f t" and "0 \<le> n" "n < 2 ^ 31"
  obtains t' where "file_seek f n t = Some t'" "reads f t t'" "file_pos (files t' f) = n"
proof
  let ?t = "t\<lparr>files := (files t)(f := (files t f)\<lparr>file_pos := n\<rparr>)\<rparr>"
  show "file_seek f n t = Some ?t" using assms by (simp add: file_seek_def upd_file_def deref_def file_ok_def ASSERT_def)
  show "reads f t ?t" unfolding reads_def by (intro exI [of _ 0] exI [of _ n]) (use assms in simp)
qed simp

section \<open>The growth of an address space\<close>

text \<open>
  The state in which the process with directory \<open>pd\<close> runs: the memory invariant with the directories \<open>D\<close>, frames that
  belong to this process alone, and user pages that lie in physical memory.
\<close>

definition space_ok :: "nat set \<Rightarrow> nat \<Rightarrow> proc \<Rightarrow> bool" where
  "space_ok D pd s \<longleftrightarrow> vm_inv D s \<and> pd \<in> D \<and> cur_pagedir s = Some pd \<and> private_frames pd s \<and>
     (\<forall>p \<in> pool_pages True s. p < PHYS_BASE + 4096 * init_ram_pages s)"

text \<open>What loading does: it adds frames and page tables to one address space, and nothing else.\<close>

definition grown :: "nat set \<Rightarrow> nat \<Rightarrow> proc \<Rightarrow> proc \<Rightarrow> bool" where
  "grown D pd s s' \<longleftrightarrow> space_ok D pd s' \<and> (\<forall>q \<in> D - {pd}. mapping q s' = mapping q s) \<and> mapping pd s \<subseteq>\<^sub>m mapping pd s' \<and>
     footprint pd s \<subseteq> footprint pd s' \<and> used_pages False s' = used_pages False s \<union> footprint pd s' \<and>
     used_pages True s' = used_pages True s \<union> Pagedir.frames pd s' \<and>
     footprint pd s' \<inter> used_pages False s \<subseteq> footprint pd s \<and> Pagedir.frames pd s' \<inter> used_pages True s \<subseteq> Pagedir.frames pd s \<and>
     (\<forall>p \<in> used_pages True s. \<forall>x \<in> extent p (Suc 0). ram s' x = ram s x) \<and>
     (\<forall>u. pool_pages u s' = pool_pages u s) \<and> init_ram_pages s' = init_ram_pages s \<and> ks s' = ks s \<and>
     temporary s' = temporary s \<and> vm.init_page_dir s' = vm.init_page_dir s \<and> vm.cr3 s' = vm.cr3 s"

lemma space_okD:
  assumes "space_ok D pd s"
  shows "vm_inv D s" "pd \<in> D" "cur_pagedir s = Some pd" "private_frames pd s" "kmem_ok s" "pd_ok pd s"
    "p \<in> pool_pages True s \<Longrightarrow> p < PHYS_BASE + 4096 * init_ram_pages s" "footprint pd s \<subseteq> used_pages False s"
    "Pagedir.frames pd s \<subseteq> used_pages True s"
  using assms vm_invD(1,2) [of D s] by (auto simp: space_ok_def pd_ok_def private_frames_def)

lemma grown_refl: "space_ok D pd s \<Longrightarrow> grown D pd s s"
  using space_okD(8,9) [of D pd s] by (auto simp: grown_def)

lemma frames_mono: "mapping pd s \<subseteq>\<^sub>m mapping pd s' \<Longrightarrow> Pagedir.frames pd s \<subseteq> Pagedir.frames pd s'"
  by (force simp: Pagedir.frames_def map_le_def dom_def)

lemma grownD:
  assumes "grown D pd s s'"
  shows "space_ok D pd s'" "q \<in> D - {pd} \<Longrightarrow> mapping q s' = mapping q s" "mapping pd s \<subseteq>\<^sub>m mapping pd s'" "footprint pd s \<subseteq> footprint pd s'"
    "used_pages False s' = used_pages False s \<union> footprint pd s'" "used_pages True s' = used_pages True s \<union> Pagedir.frames pd s'"
    "footprint pd s' \<inter> used_pages False s \<subseteq> footprint pd s" "Pagedir.frames pd s' \<inter> used_pages True s \<subseteq> Pagedir.frames pd s"
    "p \<in> used_pages True s \<Longrightarrow> x \<in> extent p (Suc 0) \<Longrightarrow> ram s' x = ram s x"
  using assms by (simp_all add: grown_def)

lemma grown_trans:
  assumes "grown D pd s s'" and "grown D pd s' s''"
  shows "grown D pd s s''"
proof -
  note a = grownD [OF assms(1)] and b = grownD [OF assms(2)]
  note fr = frames_mono [OF a(3)] frames_mono [OF b(3)]
  have "used_pages False s'' = used_pages False s \<union> footprint pd s''" using a(5) b(4,5) by blast
  moreover have "used_pages True s'' = used_pages True s \<union> Pagedir.frames pd s''" using a(6) b(6) fr(2) by blast
  moreover have "footprint pd s'' \<inter> used_pages False s \<subseteq> footprint pd s" using a(5,7) b(7) by blast
  moreover have "Pagedir.frames pd s'' \<inter> used_pages True s \<subseteq> Pagedir.frames pd s" using a(6,8) b(8) by blast
  moreover have "ram s'' x = ram s x" if "p \<in> used_pages True s" "x \<in> extent p (Suc 0)" for p x
    using a(9) [OF that] b(9) [of p x] a(6) that by simp
  moreover have "mapping pd s \<subseteq>\<^sub>m mapping pd s''" by (rule map_le_trans [OF a(3) b(3)])
  moreover have "footprint pd s \<subseteq> footprint pd s''" using a(4) b(4) by blast
  moreover have "mapping q s'' = mapping q s" if "q \<in> D - {pd}" for q using a(2) b(2) that by simp
  ultimately show ?thesis using assms b(1) by (simp add: grown_def)
qed

text \<open>Memory has run out: a pool of pages is empty, or the heap has refused memory.\<close>

definition out_of_memory :: "fsys \<Rightarrow> proc \<Rightarrow> bool" where
  "out_of_memory t s' \<longleftrightarrow> (\<exists>u. pool_pages u s' \<subseteq> used_pages u s') \<or> refused t (fsy s')"

lemma out_of_memory_later:
  assumes "reads f t t'" and "out_of_memory t' s"
  shows "out_of_memory t s"
proof -
  obtain k where k: "answers t' = drop k (answers t)" "in_use t' = in_use t" using assms(1) by (auto simp: reads_def)
  have m: "memory (t'\<lparr>answers := as\<rparr>) = memory (t\<lparr>answers := as\<rparr>)" for as
    by (auto simp: memory_iff k(2) split: list.split)
  have "refused t x" if r: "refused t' x" for x
  proof -
    obtain n where "\<not> memory (t'\<lparr>answers := drop n (answers t')\<rparr>)" "answers x = drop n (answers t') \<or> answers x = tl (drop n (answers t'))"
      using r by (auto simp: refused_def)
    then show ?thesis unfolding refused_def by (intro exI [of _ "n + k"]) (simp add: k(1) m)
  qed
  then show ?thesis using assms(2) by (auto simp: out_of_memory_def)
qed

lemma pool_full_later: "pool_pages u s \<subseteq> used_pages u s \<Longrightarrow> grown D pd s s' \<Longrightarrow> out_of_memory t s'"
  unfolding out_of_memory_def grown_def by (intro disjI1 exI [of _ u]) (cases u; auto)

text \<open>A frame that is filled and then given up again leaves everything as it was.\<close>

lemma grown_user_change:
  assumes ok: "space_ok D pd s" and ch: "user_change s s'" and used: "used_pages True s' = used_pages True s"
    and bytes: "\<And>p x. p \<in> used_pages True s \<Longrightarrow> x \<in> extent p (Suc 0) \<Longrightarrow> ram s' x = ram s x"
    and rest: "\<And>u. pool_pages u s' = pool_pages u s" "init_ram_pages s' = init_ram_pages s" "ks s' = ks s" "temporary s' = temporary s"
  shows "grown D pd s s'"
proof -
  note o = space_okD [OF ok]
  note space = user_change_space [OF ch vm_invD(2) [OF o(1)]]
  have pd: "mapping pd s' = mapping pd s" "footprint pd s' = footprint pd s" using space [OF o(2)] by auto
  have fr: "Pagedir.frames pd s' = Pagedir.frames pd s" by (simp add: Pagedir.frames_def pd(1))
  have "cur_pagedir s' = cur_pagedir s" using rest(3) by (simp add: cur_pagedir_def)
  then have "space_ok D pd s'"
    using ok user_change_inv [OF ch o(1)] used rest(1,2) by (simp add: space_ok_def private_frames_def fr pd(1))
  then show ?thesis
    using space pd fr o(8,9) used bytes rest ch by (auto simp: grown_def user_change_def)
qed

text \<open>A fresh frame: allocated for the user, and not mapped yet.\<close>

definition fresh_frame :: "nat set \<Rightarrow> nat \<Rightarrow> nat \<Rightarrow> proc \<Rightarrow> proc \<Rightarrow> bool" where
  "fresh_frame D pd p s s' \<longleftrightarrow> user_change s s' \<and> p \<in> pool_pages True s \<and> p \<notin> used_pages True s \<and>
     used_pages True s' = insert p (used_pages True s) \<and>
     (\<forall>q \<in> used_pages True s. \<forall>x \<in> extent q (Suc 0). ram s' x = ram s x) \<and>
     (\<forall>u. pool_pages u s' = pool_pages u s) \<and> init_ram_pages s' = init_ram_pages s \<and> ks s' = ks s \<and> temporary s' = temporary s"

lemma fresh_frame_alloc:
  assumes ok: "space_ok D pd s" and u: "flags AND PAL_USER \<noteq> 0" "flags AND PAL_ASSERT = 0"
  obtains "palloc_get_page flags s = Some (0, s)" "pool_pages True s \<subseteq> used_pages True s"
  | p s' where "palloc_get_page flags s = Some (p, s')" "p \<noteq> 0" "fresh_frame D pd p s s'" "fsy s' = fsy s"
    "flags AND PAL_ZERO \<noteq> 0 \<Longrightarrow> (\<forall>x \<in> extent p (Suc 0). ram s' x = 0)"
proof (rule palloc_get_page_cases [OF space_okD(5) [OF ok], of True flags])
  assume "palloc_get_page flags s = (if flags AND PAL_ASSERT \<noteq> 0 then None else Some (0, s))"
    and full: "pool_pages True s \<subseteq> used_pages True s"
  then show thesis using u(2) by (intro that(1)) simp_all
next
  fix p b m
  assume p: "palloc_get_page flags s = Some (p, repool True b m s)" "kmem_ok (repool True b m s)" "kernel_page p"
      "p \<in> pool_pages True s" "p \<notin> used_pages True s" "used_pages True (repool True b m s) = insert p (used_pages True s)"
      "\<And>v. pool_pages v (repool True b m s) = pool_pages v s"
    and m: "m = (\<lambda>x. if flags AND PAL_ZERO \<noteq> 0 \<and> x \<in> extent p (Suc 0) then 0 else ram s x)"
  note more = palloc_get_page_more [OF p(1)]
  have kern: "used_pages False (repool True b m s) = used_pages False s" by (simp add: repool_pages)
  have al: "p mod 4096 = 0" using p(3) by (simp add: kernel_page_def)
  have other: "m x = ram s x" if "q \<in> used_pages v s" "q \<noteq> p" "x \<in> extent q (Suc 0)" for q v x
  proof -
    have "q mod 4096 = 0" using used_page(1) [OF space_okD(5) [OF ok] that(1)] by (simp add: kernel_page_def)
    then have "extent q (Suc 0) \<inter> extent p (Suc 0) = {}" using al that(2) by (intro extent_disjoint) auto
    then show ?thesis using that(3) m by auto
  qed
  have "p \<notin> used_pages False s" using kmem_okD(2) [OF p(2)] p(6) kern by auto
  then have "Pagedir.slot m q i = Pagedir.slot (ram s) q i" if "q \<in> used_pages False s" "i < 1024" for q i
    by (intro slot_cong [OF other [OF that(1)] that(2)]) (use that(1) in auto)
  then have "user_change s (repool True b m s)"
    using p(2) kern by (simp add: user_change_def agree_def)
  then have fr: "fresh_frame D pd p s (repool True b m s)"
    using p(4-7) other [of _ True] proc_more(2,3) [OF more]
    by (auto simp: fresh_frame_def) (metis (no_types))
  show thesis
    by (rule that(2) [OF p(1) _ fr proc_more(1) [OF more]]) (use p(3) m in \<open>auto simp: kernel_page_def PHYS_BASE_def\<close>)
qed (use u in simp)

lemma fresh_frame_write:
  assumes fr: "fresh_frame D pd p s s1" and m: "\<And>x. x \<notin> extent p (Suc 0) \<Longrightarrow> m x = ram s1 x"
  shows "fresh_frame D pd p s (s1\<lparr>fsy := t, ram := m\<rparr>)"
proof -
  note f = fr [unfolded fresh_frame_def user_change_def]
  have ok: "kmem_ok s1" and p: "p \<in> used_pages True s1" using f by auto
  note w = write_user_page [OF ok p m]
  have "m x = ram s x" if "q \<in> used_pages True s" "x \<in> extent q (Suc 0)" for q x
    using w(2) [of q True x] f that by (metis insert_iff)
  moreover have "user_change s s1" using fr by (simp add: fresh_frame_def)
  from user_change_trans [OF this w(1)] have "user_change s (s1\<lparr>fsy := t, ram := m\<rparr>)"
    by (simp add: user_change_def agree_def ram_update)
  ultimately show ?thesis using f by (simp add: fresh_frame_def ram_update)
qed

lemma fresh_frame_free:
  assumes ok: "space_ok D pd s" and fr: "fresh_frame D pd p s s1"
  obtains s' where "palloc_free_page p s1 = Some s'" "grown D pd s s'" "fsy s' = fsy s1"
proof -
  note f = fr [unfolded fresh_frame_def user_change_def]
  have k: "kmem_ok s1" "p \<in> used_pages True s1" using f by auto
  obtain s' where s': "palloc_free_page p s1 = Some s'" "freed {p} s1 s'" using free_page_freed [OF k] by blast
  note fd = s'(2) [unfolded freed_def]
  note more = proc_more [OF palloc_free_page_more [OF s'(1)]]
  have "p \<notin> used_pages False s" using kmem_okD(2) [OF k(1)] k(2) f by auto
  then have "user_change s s'" using f fd by (auto simp: user_change_def agree_def)
  moreover have "used_pages True s' = used_pages True s" using f fd by auto
  moreover have "ram s' x = ram s x" if "q \<in> used_pages True s" "x \<in> extent q (Suc 0)" for q x
  proof -
    have "q \<in> used_pages False s1 \<union> used_pages True s1 - {p}" using that(1) f by auto
    then have "ram s' x = ram s1 x" using agree_bytes [of _ s1 s' q x] fd that(2) by blast
    then show ?thesis using f that by auto
  qed
  moreover have "pool_pages u s' = pool_pages u s1 \<and> init_ram_pages s' = init_ram_pages s1" for u
    by (rule palloc_free_page_ok [OF k]) (use s'(1) in auto)
  ultimately have "grown D pd s s'" using f more(2,3) by (intro grown_user_change [OF ok]) auto
  then show thesis using s'(1) more(1) by (intro that)
qed

lemma mapped_grown:
  assumes ok: "space_ok D pd s" and fr: "fresh_frame D pd p s s1"
    and inv: "vm_inv D s'" and con: "confined pd s1 s'" and free: "mapping pd s vp = None"
    and new: "mapping pd s' = (mapping pd s)(vp \<mapsto> (p, w))" and more: "kmem.more s' = kmem.more s1"
  shows "grown D pd s s'"
proof -
  note o = space_okD [OF ok] and c = con [unfolded confined_def] and f = fr [unfolded fresh_frame_def user_change_def]
  have ch: "user_change s s1" using fr by (simp add: fresh_frame_def)
  note space = user_change_space [OF ch vm_invD(2) [OF o(1)]] and inv1 = user_change_inv [OF ch o(1)]
  note k = vm_invD(1) [OF inv1]
  have others: "mapping q s' = mapping q s" if "q \<in> D - {pd}" for q
    using confined_other(2) [OF con vm_invD(2,5) [OF inv1]] that o(2) space(2) by auto
  have frs: "Pagedir.frames pd s' = insert p (Pagedir.frames pd s)"
    using free by (auto simp: Pagedir.frames_def new split: if_splits) (metis option.distinct(1))
  have p: "p \<notin> Pagedir.frames pd s" using o(9) f by blast
  have "mapping pd s v \<noteq> Some (p, w')" for v w' using p by (auto simp: Pagedir.frames_def)
  then have priv: "private_frames pd s'"
    using o(4) f c p unfolding private_frames_def frs by (auto simp: new split: if_splits)
  have "ram s' x = ram s x" if q: "q \<in> used_pages True s" and x: "x \<in> extent q (Suc 0)" for q x
  proof -
    have "q \<notin> footprint pd s1" using footprint_page(2) [OF k vm_invD(2) [OF inv1 o(2)]] q f kmem_okD(2) [OF k] by blast
    then have "ram s' x = ram s1 x" using agree_bytes [of _ s1 s' q x] q x c f by blast
    then show ?thesis using f q x by auto
  qed
  moreover have "cur_pagedir s' = Some pd" using proc_more(7) [OF more] o(3) f by (simp add: cur_pagedir_def)
  moreover have kern: "used_pages False s1 = used_pages False s" "footprint pd s1 = footprint pd s"
    using f space(3) [OF o(2)] by simp_all
  have "used_pages False s' = used_pages False s \<union> footprint pd s'" "footprint pd s \<subseteq> footprint pd s'"
      "footprint pd s' \<inter> used_pages False s \<subseteq> footprint pd s"
    using c kern o(8) by blast+
  moreover have "used_pages True s' = used_pages True s \<union> Pagedir.frames pd s'" "Pagedir.frames pd s' \<inter> used_pages True s \<subseteq> Pagedir.frames pd s"
    using c f o(9) by (auto simp: frs)
  moreover have "mapping pd s \<subseteq>\<^sub>m mapping pd s'" using free by (auto simp: new map_le_def)
  moreover have "pool_pages u s' = pool_pages u s" "init_ram_pages s' = init_ram_pages s" for u using c f by simp_all
  ultimately show ?thesis
    using o(2,7) inv others priv f proc_more [OF more] by (simp add: grown_def space_ok_def)
qed

lemma install_page_cases:
  assumes ok: "space_ok D pd s" and fr: "fresh_frame D pd p s s1" and vp: "vp < 768 * 1024"
  obtains "install_page (4096 * vp) p w s1 = Some (False, s1)" "mapping pd s vp \<noteq> None \<or> pool_pages False s \<subseteq> used_pages False s"
  | s' where "install_page (4096 * vp) p w s1 = Some (True, s')" "grown D pd s s'" "mapping pd s vp = None"
    "mapping pd s' = (mapping pd s)(vp \<mapsto> (p, w))" "fsy s' = fsy s1" "\<And>x. x \<in> extent p (Suc 0) \<Longrightarrow> ram s' x = ram s1 x"
proof -
  note o = space_okD [OF ok] and f = fr [unfolded fresh_frame_def user_change_def]
  have ch: "user_change s s1" using fr by (simp add: fresh_frame_def)
  note space = user_change_space [OF ch o(6)] and inv1 = user_change_inv [OF ch o(1)]
  note k = vm_invD(1) [OF inv1] vm_invD(2) [OF inv1 o(2)]
  have cur: "cur_pagedir s1 = Some pd" using o(3) f by (simp add: cur_pagedir_def)
  have user: "is_user_vaddr (4096 * vp)" using vp by (simp add: is_user_vaddr_def PHYS_BASE_def)
  have p: "p \<in> used_pages True s1" "kernel_page p" "p < PHYS_BASE + 4096 * init_ram_pages s1"
    using f used_page(1) [OF k(1), of p True] o(7) by auto
  have p0: "p \<notin> footprint pd s1" using footprint_page(2) [OF k] p(1) kmem_okD(2) [OF k(1)] by blast
  show thesis
  proof (cases "mapping pd s vp")
    case (Some e)
    then obtain q w' where e: "mapping pd s1 vp = Some (q, w')" using space(2) by (cases e) auto
    then have "q \<in> Pagedir.frames pd s" using space(2) by (auto simp: Pagedir.frames_def)
    then have "q \<noteq> 0" using o(9) used_page(1) [OF o(5), of q True] by (auto simp: kernel_page_def PHYS_BASE_def)
    then show thesis using pagedir_get_page_eq [OF k user] e cur Some by (intro that(1)) (simp_all add: install_page_def)
  next
    case None
    then have free: "mapping pd s1 vp = None" using space(2) by simp
    have call: "install_page (4096 * vp) p w s1 = pagedir_set_page pd (4096 * vp) p w s1"
      using pagedir_get_page_eq [OF k user] free cur by (simp add: install_page_def)
    show thesis
    proof (rule pagedir_set_page_cases [OF k refl vp free p(2,3), of w])
      assume "pagedir_set_page pd (4096 * vp) p w s1 = Some (False, s1)" "pool_pages False s1 \<subseteq> used_pages False s1"
      then show thesis using call f by (intro that(1)) simp_all
    next
      fix s' assume s': "pagedir_set_page pd (4096 * vp) p w s1 = Some (True, s')"
        "mapping pd s' = (mapping pd s1)(vp \<mapsto> (p, w))" "confined pd s1 s'"
      note more = pagedir_set_page_more [OF s'(1)]
      have "ram s' x = ram s1 x" if "x \<in> extent p (Suc 0)" for x
        using agree_bytes [of _ s1 s' p x] s'(3) p(1) p0 that by (auto simp: confined_def)
      moreover have new: "mapping pd s' = (mapping pd s)(vp \<mapsto> (p, w))" using s'(2) space(2) by simp
      moreover have "grown D pd s s'"
        by (rule mapped_grown [OF ok fr set_page_inv [OF inv1 o(2) vp free p(2,3) s'(1)] s'(3) None new more])
      moreover have "install_page (4096 * vp) p w s1 = Some (True, s')" using call s'(1) by (rule trans)
      ultimately show thesis using None proc_more(1) [OF more] by (intro that(2))
    qed
  qed
qed

section \<open>Loading a segment\<close>

lemma filled_page:
  assumes "length bs + z = 4096"
  shows "block (memset_loop z (p + length bs) 0 (store_bytes p bs m)) p 4096 = bs @ replicate z 0"
    "x \<notin> extent p (Suc 0) \<Longrightarrow> memset_loop z (p + length bs) 0 (store_bytes p bs m) x = m x"
  using assms by (auto intro!: nth_equalityI simp: block_def memset_loop_apply store_bytes_def extent_def nth_append)

lemma load_pages_sizes:
  assumes n: "rd + zr = 4096 * Suc n" "vp + Suc n \<le> 768 * 1024"
    and pr: "pr = min rd 4096"
  shows "zr < 2 ^ 32" "4096 - pr \<le> zr" "vp < 768 * 1024" "4096 * vp + 4096 < 2 ^ 32"
    "(zr + 2 ^ 32 - (4096 - pr)) mod 2 ^ 32 = zr - (4096 - pr)"
proof -
  have top: "4096 * vp + 4096 * Suc n \<le> 3221225472" using mult_le_mono2 [OF n(2), of 4096] by simp
  have two: "(2::nat) ^ 32 = 4294967296" by simp
  show z: "zr < 2 ^ 32" unfolding two using top n(1) by linarith
  show p: "4096 - pr \<le> zr" using n(1) unfolding pr by (cases "rd < 4096") simp_all
  show "vp < 768 * 1024" "4096 * vp + 4096 < 2 ^ 32" unfolding two using n(2) top by linarith+
  have "zr + 2 ^ 32 - (4096 - pr) = zr - (4096 - pr) + 2 ^ 32" using p by linarith
  moreover have "zr - (4096 - pr) < 2 ^ 32" using z by linarith
  ultimately show "(zr + 2 ^ 32 - (4096 - pr)) mod 2 ^ 32 = zr - (4096 - pr)" by (simp only: mod_add_self2 mod_less)
qed
text \<open>One turn of the loop.\<close>

lemma load_pages_turn:
  assumes ok: "space_ok D pd s" and f: "file_ok f (fsy s)" "file_pos (files (fsy s) f) = int ofs"
    and n: "rd + zr = 4096 * Suc n" "vp + Suc n \<le> 768 * 1024"
    and pr: "pr = min rd 4096"
  obtains s' where "load_pages f (4096 * vp) rd zr w s = Some (False, s')" "grown D pd s s'" "reads f (fsy s) (fsy s')"
    "mapping pd s vp \<noteq> None \<or> pr \<noteq> 0 \<and> length (file_bytes f (fsy s)) < ofs + pr \<or> out_of_memory (fsy s) s'"
  | p s' where "load_pages f (4096 * vp) rd zr w s = load_pages f (4096 * Suc vp) (rd - pr) (zr - (4096 - pr)) w s'"
    "grown D pd s s'" "reads f (fsy s) (fsy s')" "file_pos (files (fsy s') f) = int (ofs + pr)" "p \<notin> used_pages True s"
    "mapping pd s' = (mapping pd s)(vp \<mapsto> (p, w))" "ofs + pr \<le> length (file_bytes f (fsy s)) \<or> pr = 0"
    "block (ram s') p 4096 = take pr (drop ofs (file_bytes f (fsy s))) @ replicate (4096 - pr) 0"
proof -
  note pages = load_pages_sizes(1-4) [OF n pr] and wrap = load_pages_sizes(5) [OF n pr]
  have turn: "load_pages f (4096 * vp) rd zr w s = do {
      (kpage, s) \<leftarrow> palloc_get_page PAL_USER s;
      if kpage = 0 then Some (False, s)
      else do {
        (bs, s) \<leftarrow> on_fs (file_read f (int pr)) s;
        let s = s\<lparr>ram := store_bytes kpage bs (ram s)\<rparr>;
        if length bs \<noteq> pr then do { s \<leftarrow> palloc_free_page kpage s; Some (False, s) }
        else do {
          (_, m) \<leftarrow> memset (kpage + pr) 0 (4096 - pr) (ram s);
          (ok, s) \<leftarrow> install_page (4096 * vp) kpage w (s\<lparr>ram := m\<rparr>);
          if \<not> ok then do { s \<leftarrow> palloc_free_page kpage s; Some (False, s) }
          else load_pages f (4096 * Suc vp) (rd - pr) (zr - (4096 - pr)) w s
        }
      }
    }"
  proof -
    have "(rd > 0 \<or> zr > 0) = True" "(if rd < PGSIZE then rd else PGSIZE) = pr" "(4096 * vp + PGSIZE) mod 2 ^ 32 = 4096 * Suc vp"
      using n(1) pages(4) by (auto simp: pr)
    then show ?thesis by (subst load_pages.simps) (simp only: Let_def PGSIZE_eq wrap if_True)
  qed
  show thesis
  proof (rule fresh_frame_alloc [OF ok, of PAL_USER])
    assume no: "palloc_get_page PAL_USER s = Some (0, s)" "pool_pages True s \<subseteq> used_pages True s"
    show thesis
      by (rule that(1) [OF _ grown_refl [OF ok] reads_refl [OF f(1)]]) (use turn no in \<open>auto simp: out_of_memory_def\<close>)
  next
    fix p s1 assume p: "palloc_get_page PAL_USER s = Some (p, s1)" "p \<noteq> 0" "fresh_frame D pd p s s1" "fsy s1 = fsy s"
    obtain bs t k where r: "file_read f (int pr) (fsy s) = Some (bs, t)" "bs = take k (drop ofs (file_bytes f (fsy s)))"
        "k \<le> pr" "reads f (fsy s) t" "file_pos (files t f) = int (ofs + length bs)" "k = pr \<or> refused (fsy s) t"
      using file_read_ok [OF f, of "int pr"] by (metis nat_int)
    have lbs: "length bs \<le> pr" "pr \<le> 4096" using r(2,3) pr by auto
    let ?s = "s1\<lparr>fsy := t, ram := store_bytes p bs (ram s1)\<rparr>"
    have fr: "fresh_frame D pd p s ?s"
      using lbs by (intro fresh_frame_write [OF p(3)]) (auto simp: store_bytes_def extent_def)
    show thesis
    proof (cases "length bs = pr")
      case False
      obtain s' where s': "palloc_free_page p ?s = Some s'" "grown D pd s s'" "fsy s' = fsy ?s"
        using fresh_frame_free [OF ok fr] .
      have "pr \<noteq> 0 \<and> length (file_bytes f (fsy s)) < ofs + pr \<or> out_of_memory (fsy s) s'"
        using False r(2,6) s'(3) by (auto simp: out_of_memory_def)
      then show thesis using turn p r(1,4) False s' by (intro that(1) [of s']) (simp_all add: on_fs_def)
    next
      case True
      define m where "m = memset_loop (4096 - pr) (p + length bs) 0 (store_bytes p bs (ram s1))"
      let ?t = "s1\<lparr>fsy := t, ram := m\<rparr>"
      have "length bs + (4096 - pr) = 4096" using True lbs by simp
      note m = filled_page [OF this, where p = p and m = "ram s1", folded m_def]
      have frt: "fresh_frame D pd p s ?t" by (rule fresh_frame_write [OF p(3) m(2)])
      have bs: "bs = take pr (drop ofs (file_bytes f (fsy s)))" "ofs + pr \<le> length (file_bytes f (fsy s)) \<or> pr = 0"
        using True r(2,3) by auto
      have rest: "load_pages f (4096 * vp) rd zr w s = do {
          (ok, s) \<leftarrow> install_page (4096 * vp) p w ?t;
          if \<not> ok then do { s \<leftarrow> palloc_free_page p s; Some (False, s) }
          else load_pages f (4096 * Suc vp) (rd - pr) (zr - (4096 - pr)) w s }"
        using turn p r(1) True by (simp add: on_fs_def memset_def m_def)
      show thesis
      proof (rule install_page_cases [OF ok frt pages(3), of w])
        assume no: "install_page (4096 * vp) p w ?t = Some (False, ?t)" "mapping pd s vp \<noteq> None \<or> pool_pages False s \<subseteq> used_pages False s"
        obtain s' where s': "palloc_free_page p ?t = Some s'" "grown D pd s s'" "fsy s' = fsy ?t"
          using fresh_frame_free [OF ok frt] .
        have "mapping pd s vp \<noteq> None \<or> out_of_memory (fsy s) s'" using no(2) pool_full_later [OF _ s'(2)] by blast
        then show thesis using rest no(1) r(4) s' by (intro that(1) [of s']) auto
      next
        fix s' assume s': "install_page (4096 * vp) p w ?t = Some (True, s')" "grown D pd s s'"
          "mapping pd s' = (mapping pd s)(vp \<mapsto> (p, w))" "fsy s' = fsy ?t" "\<And>x. x \<in> extent p (Suc 0) \<Longrightarrow> ram s' x = ram ?t x"
        have "block (ram s') p 4096 = block m p 4096" using s'(5) by (simp add: block_def extent_def)
        then show thesis
          using rest s' m(1) r(4,5) True bs p(3) by (intro that(2) [of s' p]) (simp_all add: fresh_frame_def)
      qed
    qed
  qed (simp_all add: PAL_USER_def PAL_ASSERT_def)
qed

text \<open>The contents of a segment in memory, and that an address space has them from page \<open>vp\<close> on, in frames of its own.\<close>

definition segment_image :: "nat \<Rightarrow> nat \<Rightarrow> byte list \<Rightarrow> byte list" where
  "segment_image rd zr bs = take rd bs @ replicate zr 0"

definition maps_image :: "nat \<Rightarrow> nat \<Rightarrow> nat \<Rightarrow> byte list \<Rightarrow> bool \<Rightarrow> proc \<Rightarrow> proc \<Rightarrow> bool" where
  "maps_image pd vp n bs w s s' \<longleftrightarrow> (\<forall>i < n. \<exists>p. mapping pd s' (vp + i) = Some (p, w) \<and> p \<notin> used_pages True s \<and>
     block (ram s') p 4096 = take 4096 (drop (4096 * i) bs))"

lemma segment_image_page:
  assumes "rd + zr = 4096 * Suc n" and "rd \<le> length bs" and "pr = min rd 4096"
  shows "take 4096 (segment_image rd zr bs) = take pr bs @ replicate (4096 - pr) 0"
    "drop 4096 (segment_image rd zr bs) = segment_image (rd - pr) (zr - (4096 - pr)) (drop pr bs)"
proof -
  have z: "4096 \<le> rd + zr" using assms(1) by simp
  show "take 4096 (segment_image rd zr bs) = take pr bs @ replicate (4096 - pr) 0"
    using z assms(2,3) by (cases "rd < 4096") (auto simp: segment_image_def min_def)
  show "drop 4096 (segment_image rd zr bs) = segment_image (rd - pr) (zr - (4096 - pr)) (drop pr bs)"
    using z assms(2,3) by (cases "rd < 4096") (auto simp: segment_image_def min_def drop_take)
qed

lemma maps_image_Suc:
  assumes page: "mapping pd s1 vp = Some (p, w)" "p \<notin> used_pages True s" "block (ram s1) p 4096 = take 4096 bs"
    and g: "grown D pd s s1" "grown D pd s1 s'" and rest: "maps_image pd (Suc vp) n (drop 4096 bs) w s1 s'"
  shows "maps_image pd vp (Suc n) bs w s s'"
  unfolding maps_image_def
proof (intro allI impI)
  fix i assume i: "i < Suc n"
  have p: "p \<in> used_pages True s1" using page(1) space_okD(9) [of D pd s1] g(1) by (auto simp: grown_def Pagedir.frames_def)
  have "mapping pd s' vp = Some (p, w)" using page(1) g(2) by (auto simp: grown_def map_le_def dom_def)
  moreover have "block (ram s') p 4096 = block (ram s1) p 4096" using g(2) p by (auto simp: grown_def block_def extent_def)
  ultimately have first: "\<exists>p. mapping pd s' vp = Some (p, w) \<and> p \<notin> used_pages True s \<and> block (ram s') p 4096 = take 4096 bs"
    using page by auto
  have sub: "used_pages True s \<subseteq> used_pages True s1" using g(1) by (auto simp: grown_def)
  show "\<exists>p. mapping pd s' (vp + i) = Some (p, w) \<and> p \<notin> used_pages True s \<and> block (ram s') p 4096 = take 4096 (drop (4096 * i) bs)"
  proof (cases i)
    case 0
    then show ?thesis using first by simp
  next
    case (Suc j)
    then obtain q where "mapping pd s' (Suc vp + j) = Some (q, w)" "q \<notin> used_pages True s1"
        "block (ram s') q 4096 = take 4096 (drop (4096 * j) (drop 4096 bs))"
      using rest i by (auto simp: maps_image_def)
    then show ?thesis using sub Suc by (intro exI [of _ q]) (auto simp: add.commute)
  qed
qed

lemma load_pages_ok:
  assumes "space_ok D pd s" and "file_ok f (fsy s)" "file_pos (files (fsy s) f) = int ofs"
    and "rd + zr = 4096 * n" "vp + n \<le> 768 * 1024"
  shows "\<exists>ok s'. load_pages f (4096 * vp) rd zr w s = Some (ok, s') \<and> grown D pd s s' \<and> reads f (fsy s) (fsy s') \<and>
    (ok \<longrightarrow> (ofs + rd \<le> length (file_bytes f (fsy s)) \<or> rd = 0) \<and> dom (mapping pd s') = dom (mapping pd s) \<union> {vp..<vp + n} \<and>
       maps_image pd vp n (segment_image rd zr (drop ofs (file_bytes f (fsy s)))) w s s') \<and>
    (\<not> ok \<longrightarrow> dom (mapping pd s) \<inter> {vp..<vp + n} \<noteq> {} \<or> rd \<noteq> 0 \<and> length (file_bytes f (fsy s)) < ofs + rd \<or> out_of_memory (fsy s) s')"
  using assms
proof (induction n arbitrary: s ofs rd zr vp)
  case 0
  then show ?case
    using grown_refl [OF "0.prems"(1)] reads_refl [OF "0.prems"(2)] by (subst load_pages.simps) (auto simp: maps_image_def)
next
  case (Suc n)
  define pr where "pr = min rd 4096"
  have pr: "pr \<le> rd" "pr = 0 \<longleftrightarrow> rd = 0" by (auto simp: pr_def)
  let ?B = "drop ofs (file_bytes f (fsy s))"
  show ?case
  proof (rule load_pages_turn [OF Suc.prems pr_def, of w])
    fix s' assume s': "load_pages f (4096 * vp) rd zr w s = Some (False, s')" "grown D pd s s'" "reads f (fsy s) (fsy s')"
      "mapping pd s vp \<noteq> None \<or> pr \<noteq> 0 \<and> length (file_bytes f (fsy s)) < ofs + pr \<or> out_of_memory (fsy s) s'"
    then have "dom (mapping pd s) \<inter> {vp..<vp + Suc n} \<noteq> {} \<or> rd \<noteq> 0 \<and> length (file_bytes f (fsy s)) < ofs + rd \<or> out_of_memory (fsy s) s'"
      using pr by fastforce
    with s' show ?case by (intro exI [of _ False] exI [of _ s']) simp
  next
    fix p s1 assume s1: "load_pages f (4096 * vp) rd zr w s = load_pages f (4096 * Suc vp) (rd - pr) (zr - (4096 - pr)) w s1"
      "grown D pd s s1" "reads f (fsy s) (fsy s1)" "file_pos (files (fsy s1) f) = int (ofs + pr)" "p \<notin> used_pages True s"
      "mapping pd s1 = (mapping pd s)(vp \<mapsto> (p, w))" "ofs + pr \<le> length (file_bytes f (fsy s)) \<or> pr = 0"
      "block (ram s1) p 4096 = take pr ?B @ replicate (4096 - pr) 0"
    note same = reads_same [OF s1(3)]
    have size: "rd - pr + (zr - (4096 - pr)) = 4096 * n" "Suc vp + n \<le> 768 * 1024"
      using Suc.prems(4,5) load_pages_sizes(2) [OF Suc.prems(4,5) pr_def] by (simp_all add: pr_def min_def split: if_splits)
    have "space_ok D pd s1" using s1(2) by (simp add: grown_def)
    from Suc.IH [OF this same(2) [OF Suc.prems(2)] s1(4) size] obtain ok s'
      where r: "load_pages f (4096 * Suc vp) (rd - pr) (zr - (4096 - pr)) w s1 = Some (ok, s')" "grown D pd s1 s'"
        "reads f (fsy s1) (fsy s')"
        "ok \<Longrightarrow> ofs + pr + (rd - pr) \<le> length (file_bytes f (fsy s)) \<or> rd - pr = 0"
        "ok \<Longrightarrow> maps_image pd (Suc vp) n (segment_image (rd - pr) (zr - (4096 - pr)) (drop pr ?B)) w s1 s'"
        "ok \<Longrightarrow> dom (mapping pd s') = dom (mapping pd s1) \<union> {Suc vp..<Suc vp + n}"
        "\<not> ok \<Longrightarrow> dom (mapping pd s1) \<inter> {Suc vp..<Suc vp + n} \<noteq> {} \<or> rd - pr \<noteq> 0 \<and> length (file_bytes f (fsy s)) < ofs + pr + (rd - pr) \<or>
           out_of_memory (fsy s1) s'"
      by (auto simp: same(1) add.commute)
    have dom: "dom (mapping pd s1) = insert vp (dom (mapping pd s))" by (simp add: s1(6))
    have "(ofs + rd \<le> length (file_bytes f (fsy s)) \<or> rd = 0) \<and> dom (mapping pd s') = dom (mapping pd s) \<union> {vp..<vp + Suc n} \<and>
        maps_image pd vp (Suc n) (segment_image rd zr ?B) w s s'" if ok
    proof (intro conjI)
      show len: "ofs + rd \<le> length (file_bytes f (fsy s)) \<or> rd = 0" using r(4) [OF that] s1(7) by (auto simp: pr_def min_def split: if_splits)
      show "dom (mapping pd s') = dom (mapping pd s) \<union> {vp..<vp + Suc n}" unfolding r(6) [OF that] dom by auto
      have "rd \<le> length ?B" using len by auto
      note img = segment_image_page [OF Suc.prems(4) this pr_def]
      show "maps_image pd vp (Suc n) (segment_image rd zr ?B) w s s'"
        by (rule maps_image_Suc [OF _ s1(5) _ s1(2) r(2)]) (use s1(6,8) img r(5) [OF that] in simp_all)
    qed
    moreover have "dom (mapping pd s) \<inter> {vp..<vp + Suc n} \<noteq> {} \<or> rd \<noteq> 0 \<and> length (file_bytes f (fsy s)) < ofs + rd \<or> out_of_memory (fsy s) s'"
      if "\<not> ok"
      using r(7) [OF that] out_of_memory_later [OF s1(3)] pr unfolding dom by fastforce
    ultimately show ?case
      by (intro exI [of _ ok] exI [of _ s']) (use s1(1) r(1) grown_trans [OF s1(2) r(2)] reads_trans [OF s1(3) r(3)] in simp)
  qed
qed

lemma load_segment_ok:
  assumes ok: "space_ok D pd s" and f: "file_ok f (fsy s)" and ofs: "ofs mod 4096 = 0" "int ofs < 2 ^ 31"
    and n: "rd + zr = 4096 * n" "vp + n \<le> 768 * 1024"
  shows "\<exists>ok s'. load_segment f (int ofs) (4096 * vp) rd zr w s = Some (ok, s') \<and> grown D pd s s' \<and> reads f (fsy s) (fsy s') \<and>
    (ok \<longrightarrow> (ofs + rd \<le> length (file_bytes f (fsy s)) \<or> rd = 0) \<and> dom (mapping pd s') = dom (mapping pd s) \<union> {vp..<vp + n} \<and>
       maps_image pd vp n (segment_image rd zr (drop ofs (file_bytes f (fsy s)))) w s s') \<and>
    (\<not> ok \<longrightarrow> dom (mapping pd s) \<inter> {vp..<vp + n} \<noteq> {} \<or> rd \<noteq> 0 \<and> length (file_bytes f (fsy s)) < ofs + rd \<or> out_of_memory (fsy s) s')"
proof -
  have "4096 * n \<le> 3221225472" using mult_le_mono2 [OF n(2), of 4096] by simp
  then have asserts: "(rd + zr) mod 2 ^ 32 mod PGSIZE = 0" "pg_ofs (4096 * vp) = 0" "c_mod (int ofs) (int PGSIZE) = 0"
    using n(1) ofs(1) by (simp_all add: pg_ofs_eq c_mod_nonneg) presburger
  obtain t where t: "file_seek f (int ofs) (fsy s) = Some t" "reads f (fsy s) t" "file_pos (files t f) = int ofs"
    using file_seek_ok [OF f _ ofs(2)] by auto
  note same = reads_same [OF t(2)]
  let ?s = "s\<lparr>fsy := t\<rparr>"
  have run: "load_segment f (int ofs) (4096 * vp) rd zr w s = load_pages f (4096 * vp) rd zr w ?s"
    using asserts t(1) by (simp add: load_segment_def)
  have o: "space_ok D pd ?s" using ok by (simp add: space_ok_def)
  have orig: "grown D pd ?s s' \<longleftrightarrow> grown D pd s s'" "maps_image pd vp n b w ?s s' \<longleftrightarrow> maps_image pd vp n b w s s'" for b s'
    by (simp_all add: grown_def maps_image_def)
  show ?thesis
    using load_pages_ok [OF o, of f ofs rd zr n vp w] same(1) same(2) [OF f] t(3) n reads_trans [OF t(2)] out_of_memory_later [OF t(2)]
    unfolding run orig by fastforce
qed

section \<open>Program headers\<close>

lemma no_wrap_add:
  fixes a b :: u32
  assumes "\<not> a + b < a"
  shows "unat (a + b) = unat a + unat b"
proof -
  have b: "unat a < 2 ^ 32" "unat b < 2 ^ 32" "(2::nat) ^ 32 = 4294967296" using unsigned_less [of a] unsigned_less [of b] by simp_all
  have "\<not> unat (a + b) < unat a" using assms by (simp add: word_less_nat_alt)
  moreover have "unat (a + b) = (if unat a + unat b < 2 ^ 32 then unat a + unat b else unat a + unat b - 2 ^ 32)"
    using b by (simp add: unat_word_ariths mod_if)
  ultimately show ?thesis using b by (simp split: if_splits)
qed

lemma sint_small: "unat x < 2 ^ 31 \<Longrightarrow> sint (x :: u32) = int (unat x)"
  unfolding sint_uint using of_nat_less_iff [of "unat x" 2147483648, where 'a = int]
  by (subst signed_take_bit_int_eq_self) (auto intro: order_trans [of _ 0])

definition segment_ok :: "Elf32_Phdr \<Rightarrow> nat \<Rightarrow> bool" where
  "segment_ok phdr len \<longleftrightarrow> unat (p_offset phdr) mod 4096 = unat (p_vaddr phdr) mod 4096 \<and> unat (p_offset phdr) \<le> len \<and>
     unat (p_filesz phdr) \<le> unat (p_memsz phdr) \<and> 0 < unat (p_memsz phdr) \<and> 4096 \<le> unat (p_vaddr phdr) \<and>
     unat (p_vaddr phdr) + unat (p_memsz phdr) < PHYS_BASE"

lemma unat_and_PGMASK: "unat (x AND PGMASK) = unat x mod 4096"
  unfolding PGMASK_eq take_bit_eq_mask [symmetric] unsigned_take_bit_eq by (simp add: take_bit_eq_mod)

lemma unat_and_not_PGMASK: "unat (x AND NOT PGMASK) = unat x div 4096 * 4096"
  using pg_round_down_eq [of "unat x"] unsigned_less [of x] by (simp add: pg_round_down_def)

lemma validate_segment_eq:
  assumes "file_ok f (fsy s)"
  shows "validate_segment phdr f s = Some (segment_ok phdr (length (file_bytes f (fsy s))))"
proof -
  let ?n = "length (file_bytes f (fsy s))" and ?v = "p_vaddr phdr" and ?m = "p_memsz phdr"
  note len = file_ok_length [OF assms]
  have "unat (word ?n) = ?n" using len(2) by (intro unat_word) simp
  then have 1: "p_offset phdr > word_of_int (int ?n) \<longleftrightarrow> \<not> unat (p_offset phdr) \<le> ?n" by (simp add: word_less_nat_alt not_le)
  have 2: "p_offset phdr AND PGMASK \<noteq> ?v AND PGMASK \<longleftrightarrow> unat (p_offset phdr) mod 4096 \<noteq> unat ?v mod 4096"
    by (metis unat_and_PGMASK word_unat_eq_iff)
  have 3: "is_user_vaddr (unat (?v + ?m)) \<and> \<not> ?v + ?m < ?v \<longleftrightarrow> unat ?v + unat ?m < PHYS_BASE"
  proof
    assume "is_user_vaddr (unat (?v + ?m)) \<and> \<not> ?v + ?m < ?v"
    then show "unat ?v + unat ?m < PHYS_BASE" using no_wrap_add [of ?v ?m] by (simp add: is_user_vaddr_def)
  next
    assume a: "unat ?v + unat ?m < PHYS_BASE"
    then have "unat (?v + ?m) = unat ?v + unat ?m" by (intro unat_add_no_wrap) (simp add: PHYS_BASE_def)
    then show "is_user_vaddr (unat (?v + ?m)) \<and> \<not> ?v + ?m < ?v" using a by (simp add: is_user_vaddr_def word_less_nat_alt)
  qed
  have 4: "?m < p_filesz phdr \<longleftrightarrow> \<not> unat (p_filesz phdr) \<le> unat ?m" "?m = 0 \<longleftrightarrow> \<not> 0 < unat ?m"
    by (simp_all add: word_less_nat_alt not_le unat_eq_0)
  show ?thesis
    unfolding validate_segment_def len(1) segment_ok_def using 1 2 3 4 by (auto simp: is_user_vaddr_def)
qed

text \<open>The byte that a process finds at a virtual address, and whether it may write there.\<close>

definition user_byte :: "nat \<Rightarrow> proc \<Rightarrow> nat \<Rightarrow> (byte \<times> bool) option" where
  "user_byte pd s va = map_option (\<lambda>(p, w). (ram s (p + va mod 4096), w)) (mapping pd s (va div 4096))"

text \<open>A segment of the executable with the contents \<open>B\<close> is in memory.\<close>

definition in_memory :: "nat \<Rightarrow> proc \<Rightarrow> byte list \<Rightarrow> Elf32_Phdr \<Rightarrow> bool" where
  "in_memory pd s B phdr \<longleftrightarrow> (\<forall>j < unat (p_memsz phdr). user_byte pd s (unat (p_vaddr phdr) + j) =
     Some (if j < unat (p_filesz phdr) then B ! (unat (p_offset phdr) + j) else 0, p_flags phdr AND PF_W \<noteq> 0))"

lemma maps_image_byte:
  assumes "maps_image pd vp n bs w s s'" and "j < 4096 * n" and "length bs = 4096 * n"
  shows "user_byte pd s' (4096 * vp + j) = Some (bs ! j, w)"
proof -
  have i: "j div 4096 < n" "(4096 * vp + j) div 4096 = vp + j div 4096" "(4096 * vp + j) mod 4096 = j mod 4096"
    "j mod 4096 < 4096" "4096 * (j div 4096) + j mod 4096 = j" using assms(2) by (simp_all add: div_less_iff_less_mult mult.commute)
  obtain p where p: "mapping pd s' (vp + j div 4096) = Some (p, w)" "block (ram s') p 4096 = take 4096 (drop (4096 * (j div 4096)) bs)"
    using assms(1) i(1) by (auto simp: maps_image_def)
  have "ram s' (p + j mod 4096) = block (ram s') p 4096 ! (j mod 4096)" using i(4) by (simp add: block_def)
  also have "\<dots> = bs ! j" unfolding p(2) using i(4,5) assms(2,3) by (simp add: nth_take)
  finally show ?thesis using p(1) i(2,3) by (simp add: user_byte_def)
qed

lemma grown_user_byte:
  assumes "grown D pd s s'" and "space_ok D pd s" and "user_byte pd s va = Some b"
  shows "user_byte pd s' va = Some b"
proof -
  obtain p w where p: "mapping pd s (va div 4096) = Some (p, w)" "b = (ram s (p + va mod 4096), w)"
    using assms(3) by (auto simp: user_byte_def)
  have "p \<in> used_pages True s" using p(1) space_okD(9) [OF assms(2)] by (auto simp: Pagedir.frames_def)
  moreover have "p + va mod 4096 \<in> extent p (Suc 0)" by (simp add: extent_def)
  ultimately have "ram s' (p + va mod 4096) = ram s (p + va mod 4096)" using assms(1) unfolding grown_def by blast
  moreover have "mapping pd s' (va div 4096) = Some (p, w)" using p(1) assms(1) by (auto simp: grown_def map_le_def dom_def)
  ultimately show ?thesis using p(2) by (simp add: user_byte_def)
qed

lemma grown_in_memory: "grown D pd s s' \<Longrightarrow> space_ok D pd s \<Longrightarrow> in_memory pd s B phdr \<Longrightarrow> in_memory pd s' B phdr"
  using grown_user_byte [of D pd s s'] by (simp add: in_memory_def)

lemma round_up_page:
  assumes "x < 3221225472"
  shows "ROUND_UP x 4096 = 4096 * ((x + 4095) div 4096)" "x \<le> 4096 * ((x + 4095) div 4096)"
proof -
  have "x + 4096 - 1 = x + 4095" "(x + 4095) mod 2 ^ 32 = x + 4095" using assms by simp_all
  then show "ROUND_UP x 4096 = 4096 * ((x + 4095) div 4096)" by (simp add: ROUND_UP_def)
  show "x \<le> 4096 * ((x + 4095) div 4096)" by simp
qed

lemma segment_pages:
  assumes ok: "segment_ok phdr len" and len: "int len < 2 ^ 31"
    and po: "po = unat (p_vaddr phdr) mod 4096" and n: "n = (po + unat (p_memsz phdr) + 4095) div 4096"
    and vp: "vp = unat (p_vaddr phdr) div 4096"
  shows "unat ((p_vaddr phdr AND PGMASK) + p_memsz phdr) = po + unat (p_memsz phdr)"
    "unat ((p_vaddr phdr AND PGMASK) + p_filesz phdr) = po + unat (p_filesz phdr)"
    "ROUND_UP (po + unat (p_memsz phdr)) 4096 = 4096 * n" "po + unat (p_memsz phdr) \<le> 4096 * n" "vp + n \<le> 768 * 1024"
    "sint (p_offset phdr AND NOT PGMASK) = int (unat (p_offset phdr) - po)" "(unat (p_offset phdr) - po) mod 4096 = 0"
    "po \<le> unat (p_offset phdr)"
proof -
  note s = ok [unfolded segment_ok_def PHYS_BASE_def]
  have v: "unat (p_vaddr phdr) = 4096 * vp + po" "po < 4096" by (simp_all add: vp po)
  have sum: "4096 * vp + po + unat (p_memsz phdr) < 3221225472" using s v(1) by simp
  have small: "po + unat (p_memsz phdr) < 3221225472" "po + unat (p_filesz phdr) < 3221225472" using sum s by linarith+
  show "unat ((p_vaddr phdr AND PGMASK) + p_memsz phdr) = po + unat (p_memsz phdr)"
    "unat ((p_vaddr phdr AND PGMASK) + p_filesz phdr) = po + unat (p_filesz phdr)"
    using small by (subst unat_add_no_wrap; simp add: unat_and_PGMASK po)+
  show "ROUND_UP (po + unat (p_memsz phdr)) 4096 = 4096 * n" "po + unat (p_memsz phdr) \<le> 4096 * n"
    unfolding n by (rule round_up_page [OF small(1)])+
  have "4096 * n \<le> po + unat (p_memsz phdr) + 4095" by (simp add: n)
  then have "4096 * (vp + n) < 4096 * (768 * 1024 + 1)" using sum by simp
  then show "vp + n \<le> 768 * 1024" by simp
  have o: "unat (p_offset phdr) mod 4096 = po" using s po by simp
  then show "po \<le> unat (p_offset phdr)" by (metis mod_less_eq_dividend)
  have d: "unat (p_offset phdr) - po = unat (p_offset phdr) div 4096 * 4096" using o minus_mod_eq_div_mult by metis
  then show "(unat (p_offset phdr) - po) mod 4096 = 0" by simp
  have "unat (p_offset phdr AND NOT PGMASK) < 2 ^ 31" unfolding unat_and_not_PGMASK d [symmetric] using s len by auto
  then have "sint (p_offset phdr AND NOT PGMASK) = int (unat (p_offset phdr AND NOT PGMASK))" by (rule sint_small)
  then show "sint (p_offset phdr AND NOT PGMASK) = int (unat (p_offset phdr) - po)" unfolding unat_and_not_PGMASK d .
qed

text \<open>The pages of a segment, and that the file has its bytes.\<close>

definition segment_pages_of :: "Elf32_Phdr \<Rightarrow> nat set" where
  "segment_pages_of phdr = (let vp = unat (p_vaddr phdr) div 4096 in
     {vp..<vp + (unat (p_vaddr phdr) mod 4096 + unat (p_memsz phdr) + 4095) div 4096})"

definition segment_fits :: "Elf32_Phdr \<Rightarrow> byte list \<Rightarrow> bool" where
  "segment_fits phdr B \<longleftrightarrow> segment_ok phdr (length B) \<and> (p_filesz phdr = 0 \<or> unat (p_offset phdr) + unat (p_filesz phdr) \<le> length B)"

lemma image_bytes:
  fixes fsz :: u32
  assumes "po \<le> off" and "ofs + rd \<le> length B \<or> rd = 0" and "j < memsz" and "po + memsz \<le> 4096 * n" and "unat fsz \<le> memsz"
    and rd: "rd = (if fsz > 0 then po + unat fsz else 0)" and ofs: "ofs = off - po"
  shows "segment_image rd (4096 * n - rd) (drop ofs B) ! (po + j) = (if j < unat fsz then B ! (off + j) else 0)"
    "length (segment_image rd (4096 * n - rd) (drop ofs B)) = 4096 * n"
proof -
  consider "fsz = 0" "rd = 0" "unat fsz = 0" | "0 < unat fsz" "rd = po + unat fsz"
    by (cases "unat fsz = 0") (auto simp: rd word_less_nat_alt unat_eq_0)
  then show "segment_image rd (4096 * n - rd) (drop ofs B) ! (po + j) = (if j < unat fsz then B ! (off + j) else 0)"
  proof cases
    case 1
    then show ?thesis using assms(3,4) by (simp add: segment_image_def)
  next
    case 2
    then have "length (take rd (drop ofs B)) = po + unat fsz" using assms(2) by auto
    moreover have "off = ofs + po" using assms(1) ofs by simp
    ultimately show ?thesis using assms(2-4) 2 by (simp add: segment_image_def nth_append add.assoc)
  qed
  show "length (segment_image rd (4096 * n - rd) (drop ofs B)) = 4096 * n"
    using assms(2,4,5) rd by (auto simp: segment_image_def)
qed

lemma load_one_ok:
  assumes ok: "space_ok D pd s" and f: "file_ok f (fsy s)"
  shows "\<exists>ok s'. load_one phdr f s = Some (ok, s') \<and> grown D pd s s' \<and> reads f (fsy s) (fsy s') \<and>
    (ok \<longrightarrow> segment_ok phdr (length (file_bytes f (fsy s))) \<and> in_memory pd s' (file_bytes f (fsy s)) phdr \<and>
       dom (mapping pd s') = dom (mapping pd s) \<union> segment_pages_of phdr) \<and>
    (\<not> ok \<longrightarrow> \<not> segment_fits phdr (file_bytes f (fsy s)) \<or> dom (mapping pd s) \<inter> segment_pages_of phdr \<noteq> {} \<or> out_of_memory (fsy s) s')"
proof (cases "segment_ok phdr (length (file_bytes f (fsy s)))")
  case False
  then show ?thesis
    using validate_segment_eq [OF f] grown_refl [OF ok] reads_refl [OF f] by (intro exI [of _ False] exI [of _ s]) (simp add: load_one_def segment_fits_def)
next
  case True
  let ?B = "file_bytes f (fsy s)" and ?w = "p_flags phdr AND PF_W \<noteq> 0"
  define po n vp where "po = unat (p_vaddr phdr) mod 4096" and "n = (po + unat (p_memsz phdr) + 4095) div 4096"
    and "vp = unat (p_vaddr phdr) div 4096"
  define rd where "rd = (if p_filesz phdr > 0 then po + unat (p_filesz phdr) else 0)"
  define ofs where "ofs = unat (p_offset phdr) - po"
  have len: "int (length ?B) < 2 ^ 31" using file_ok_length(2) [OF f] by simp
  note sz = segment_pages [OF True len po_def n_def vp_def]
  have fs: "unat (p_filesz phdr) \<le> unat (p_memsz phdr)" "unat (p_offset phdr) \<le> length ?B" using True by (simp_all add: segment_ok_def)
  have n32: "4096 * n < 2 ^ 32" using mult_le_mono2 [OF sz(5), of 4096] by simp
  have rd: "rd + (4096 * n - rd) = 4096 * n" using sz(4) fs by (simp add: rd_def)
  have ofs32: "int ofs < 2 ^ 31" using len fs by (simp add: ofs_def)
  have wrap: "(4096 * n + 2 ^ 32 - rd) mod 2 ^ 32 = 4096 * n - rd"
  proof -
    have "4096 * n + 2 ^ 32 - rd = 4096 * n - rd + 2 ^ 32" using rd by linarith
    then show ?thesis using n32 by (simp only: mod_add_self2) (simp only: mod_less less_imp_diff_less)
  qed
  have call: "load_one phdr f s = load_segment f (int ofs) (4096 * vp) rd (4096 * n - rd) ?w s"
  proof (cases "p_filesz phdr > 0")
    case pos: True
    then show ?thesis
      using wrap True unfolding load_one_def validate_segment_eq [OF f] Let_def PGSIZE_eq sz(1,2,3,6) unat_and_not_PGMASK
      by (simp add: rd_def ofs_def vp_def mult.commute)
  next
    case False
    then show ?thesis
      using n32 True unfolding load_one_def validate_segment_eq [OF f] Let_def PGSIZE_eq sz(1,2,3,6) unat_and_not_PGMASK
      by (simp add: rd_def ofs_def vp_def mult.commute)
  qed
  obtain ok' s' where r: "load_segment f (int ofs) (4096 * vp) rd (4096 * n - rd) ?w s = Some (ok', s')" "grown D pd s s'"
      "reads f (fsy s) (fsy s')" "ok' \<Longrightarrow> ofs + rd \<le> length ?B \<or> rd = 0"
      "ok' \<Longrightarrow> maps_image pd vp n (segment_image rd (4096 * n - rd) (drop ofs ?B)) ?w s s'"
      "ok' \<Longrightarrow> dom (mapping pd s') = dom (mapping pd s) \<union> {vp..<vp + n}"
      "\<not> ok' \<Longrightarrow> dom (mapping pd s) \<inter> {vp..<vp + n} \<noteq> {} \<or> rd \<noteq> 0 \<and> length ?B < ofs + rd \<or> out_of_memory (fsy s) s'"
    using load_segment_ok [OF ok f sz(7) [folded ofs_def] ofs32 rd sz(5), of ?w] by auto
  have "in_memory pd s' ?B phdr" if ok'
    unfolding in_memory_def
  proof (intro allI impI)
    fix j assume j: "j < unat (p_memsz phdr)"
    have v: "unat (p_vaddr phdr) + j = 4096 * vp + (po + j)" by (simp add: vp_def po_def)
    note img = image_bytes [OF sz(8) r(4) [OF that] j sz(4) fs(1) rd_def ofs_def]
    show "user_byte pd s' (unat (p_vaddr phdr) + j) = Some (if j < unat (p_filesz phdr) then ?B ! (unat (p_offset phdr) + j) else 0, ?w)"
      unfolding v using maps_image_byte [OF r(5) [OF that] _ img(2), of "po + j"] img(1) j sz(4) by simp
  qed
  moreover have pages: "segment_pages_of phdr = {vp..<vp + n}" by (simp add: segment_pages_of_def vp_def n_def po_def Let_def)
  moreover have "\<not> segment_fits phdr ?B" if "rd \<noteq> 0" "length ?B < ofs + rd"
    using that sz(8) by (auto simp: segment_fits_def rd_def ofs_def split: if_splits)
  ultimately show ?thesis
    by (intro exI [of _ ok'] exI [of _ s']) (use call r(1-3,6,7) True in auto)
qed

text \<open>The program header \<open>i\<close> of the table at \<open>ofs\<close> in the file, and what loading makes of the first \<open>n\<close> of them.\<close>

definition phdr_at :: "byte list \<Rightarrow> nat \<Rightarrow> nat \<Rightarrow> Elf32_Phdr" where
  "phdr_at B ofs i = decode_phdr (take 32 (drop (ofs + 32 * i) B))"

definition header_done :: "nat \<Rightarrow> proc \<Rightarrow> byte list \<Rightarrow> Elf32_Phdr \<Rightarrow> bool" where
  "header_done pd s B h \<longleftrightarrow> p_type h \<notin> {PT_DYNAMIC, PT_INTERP, PT_SHLIB} \<and>
     (p_type h = PT_LOAD \<longrightarrow> segment_ok h (length B) \<and> in_memory pd s B h)"

text \<open>
  Headers that can be loaded one after the other into an address space in which the pages \<open>M\<close> are taken already.
\<close>

definition header_good :: "byte list \<Rightarrow> Elf32_Phdr \<Rightarrow> bool" where
  "header_good B h \<longleftrightarrow> p_type h \<notin> {PT_DYNAMIC, PT_INTERP, PT_SHLIB} \<and> (p_type h = PT_LOAD \<longrightarrow> segment_fits h B)"

definition header_pages :: "Elf32_Phdr \<Rightarrow> nat set" where
  "header_pages h = (if p_type h = PT_LOAD then segment_pages_of h else {})"

primrec headers_good :: "byte list \<Rightarrow> nat \<Rightarrow> nat \<Rightarrow> nat set \<Rightarrow> bool" where
  "headers_good B ofs 0 M = True"
| "headers_good B ofs (Suc n) M = (let h = phdr_at B ofs 0 in
     ofs + 32 \<le> length B \<and> header_good B h \<and> header_pages h \<inter> M = {} \<and> headers_good B (ofs + 32) n (M \<union> header_pages h))"

lemma headers_good_mono: "headers_good B ofs n M \<Longrightarrow> M' \<subseteq> M \<Longrightarrow> headers_good B ofs n M'"
proof (induction n arbitrary: ofs M M')
  case (Suc n)
  then show ?case using Suc.IH [of "ofs + 32" "M \<union> header_pages (phdr_at B ofs 0)" "M' \<union> header_pages (phdr_at B ofs 0)"]
    by (auto simp: Let_def)
qed simp

lemma phdr_at_Suc: "phdr_at B (ofs + 32) i = phdr_at B ofs (Suc i)"
  by (simp add: phdr_at_def add.assoc)

lemma headers_good_free: "headers_good B ofs n M \<Longrightarrow> i < n \<Longrightarrow> header_pages (phdr_at B ofs i) \<inter> M = {}"
proof (induction n arbitrary: ofs M i)
  case (Suc n)
  then show ?case by (cases i) (auto simp: Let_def phdr_at_Suc [symmetric])
qed simp

lemma grown_header_done: "grown D pd s s' \<Longrightarrow> space_ok D pd s \<Longrightarrow> header_done pd s B h \<Longrightarrow> header_done pd s' B h"
  using grown_in_memory [of D pd s s'] by (simp add: header_done_def)

lemma load_header_ok:
  assumes "space_ok D pd s" and "file_ok f (fsy s)"
  shows "\<exists>ok s'. (if p_type h = PT_DYNAMIC \<or> p_type h = PT_INTERP \<or> p_type h = PT_SHLIB then Some (False, s)
      else if p_type h = PT_LOAD then load_one h f s else Some (True, s)) = Some (ok, s') \<and>
    grown D pd s s' \<and> reads f (fsy s) (fsy s') \<and>
    (ok \<longrightarrow> header_done pd s' (file_bytes f (fsy s)) h \<and> dom (mapping pd s') = dom (mapping pd s) \<union> header_pages h) \<and>
    (\<not> ok \<longrightarrow> \<not> header_good (file_bytes f (fsy s)) h \<or> header_pages h \<inter> dom (mapping pd s) \<noteq> {} \<or> out_of_memory (fsy s) s')"
  using load_one_ok [OF assms, of h] grown_refl [OF assms(1)] reads_refl [OF assms(2)]
  by (cases "p_type h = PT_DYNAMIC \<or> p_type h = PT_INTERP \<or> p_type h = PT_SHLIB"; cases "p_type h = PT_LOAD")
    (auto simp: header_done_def header_good_def header_pages_def Int_commute)

lemma load_phdrs_ok:
  assumes "space_ok D pd s" and "file_ok f (fsy s)"
  shows "\<exists>ok s'. load_phdrs n ofs f s = Some (ok, s') \<and> grown D pd s s' \<and> reads f (fsy s) (fsy s') \<and>
    (ok \<longrightarrow> (\<forall>i < n. header_done pd s' (file_bytes f (fsy s)) (phdr_at (file_bytes f (fsy s)) (nat ofs) i)) \<and>
       dom (mapping pd s') = dom (mapping pd s) \<union> (\<Union>i < n. header_pages (phdr_at (file_bytes f (fsy s)) (nat ofs) i))) \<and>
    (\<not> ok \<and> 0 \<le> ofs \<and> headers_good (file_bytes f (fsy s)) (nat ofs) n (dom (mapping pd s)) \<longrightarrow> out_of_memory (fsy s) s')"
  using assms
proof (induction n arbitrary: ofs s)
  case 0
  then show ?case using grown_refl [OF "0.prems"(1)] reads_refl [OF "0.prems"(2)] by auto
next
  case (Suc n)
  let ?B = "file_bytes f (fsy s)"
  note len = file_ok_length [OF Suc.prems(2)]
  show ?case
  proof (cases "ofs < 0 \<or> ofs > int (length ?B)")
    case True
    then have "\<not> (0 \<le> ofs \<and> nat ofs + 32 \<le> length ?B)" by auto
    then show ?thesis
      by (intro exI [of _ False] exI [of _ s]) (use True len(1) grown_refl [OF Suc.prems(1)] reads_refl [OF Suc.prems(2)] in \<open>auto simp: Let_def\<close>)
  next
    case False
    then have ofs: "0 \<le> ofs" "ofs < 2 ^ 31" "int32 (ofs + 32) = ofs + 32" "nat (ofs + 32) = nat ofs + 32"
      using len(2) by (auto simp: int32_small nat_add_distrib)
    obtain t where t: "file_seek f ofs (fsy s) = Some t" "reads f (fsy s) t" "file_pos (files t f) = int (nat ofs)"
      using file_seek_ok [OF Suc.prems(2) ofs(1,2)] ofs(1) by auto
    obtain bs t' k where r: "file_read f 32 t = Some (bs, t')" "bs = take k (drop (nat ofs) (file_bytes f t))" "k \<le> nat 32" "reads f t t'"
        "k = nat 32 \<or> refused t t'"
      using file_read_ok [OF reads_same(2) [OF t(2) Suc.prems(2)] t(3), of 32] by metis
    have rd: "reads f (fsy s) t'" using reads_trans [OF t(2) r(4)] .
    let ?s = "s\<lparr>fsy := t'\<rparr>"
    have ok: "space_ok D pd ?s" "file_ok f (fsy ?s)" using Suc.prems(1) reads_same(2) [OF rd Suc.prems(2)] by (simp_all add: space_ok_def)
    have g: "grown D pd s ?s" using grown_refl [OF Suc.prems(1)] Suc.prems(1) by (simp add: grown_def space_ok_def)
    show ?thesis
    proof (cases "length bs = 32")
      case short: False
      have "out_of_memory (fsy s) ?s" if "nat ofs + 32 \<le> length ?B"
        using short r(2,5) that reads_same(1) [OF t(2)] by (intro out_of_memory_later [OF t(2)]) (auto simp: out_of_memory_def)
      then show ?thesis
        by (intro exI [of _ False] exI [of _ ?s]) (use short False len(1) t(1) r(1) g rd in \<open>auto simp: on_fs_def PHDR_SIZE_def Let_def\<close>)
    next
      case True
      then have bs: "decode_phdr bs = phdr_at ?B (nat ofs) 0" using r(2,3) reads_same(1) [OF t(2)] by (auto simp: phdr_at_def min_def split: if_splits)
      obtain ok1 s1 where h: "(if p_type (decode_phdr bs) = PT_DYNAMIC \<or> p_type (decode_phdr bs) = PT_INTERP \<or> p_type (decode_phdr bs) = PT_SHLIB
            then Some (False, ?s) else if p_type (decode_phdr bs) = PT_LOAD then load_one (decode_phdr bs) f ?s else Some (True, ?s)) = Some (ok1, s1)"
          "grown D pd ?s s1" "reads f t' (fsy s1)" "ok1 \<Longrightarrow> header_done pd s1 ?B (phdr_at ?B (nat ofs) 0)"
          "ok1 \<Longrightarrow> dom (mapping pd s1) = dom (mapping pd s) \<union> header_pages (phdr_at ?B (nat ofs) 0)"
          "\<not> ok1 \<Longrightarrow> \<not> header_good ?B (phdr_at ?B (nat ofs) 0) \<or> header_pages (phdr_at ?B (nat ofs) 0) \<inter> dom (mapping pd s) \<noteq> {} \<or>
             out_of_memory t' s1"
        using load_header_ok [OF ok, of "decode_phdr bs"] bs reads_same(1) [OF rd] by auto
      note g1 = grown_trans [OF g h(2)] and rd1 = reads_trans [OF rd h(3)]
      have step: "load_phdrs (Suc n) ofs f s = (if ok1 then load_phdrs n (ofs + 32) f s1 else Some (False, s1))"
        using False len(1) t(1) r(1) True h(1) ofs(3) by (simp add: on_fs_def PHDR_SIZE_def Let_def)
      have ok2: "space_ok D pd s1" "file_ok f (fsy s1)" using g1 reads_same(2) [OF rd1 Suc.prems(2)] by (simp_all add: grown_def)
      show ?thesis
      proof (cases ok1)
        case True
        from Suc.IH [OF ok2, of "ofs + 32"] obtain ok' s' where r: "load_phdrs n (ofs + 32) f s1 = Some (ok', s')" "grown D pd s1 s'"
            "reads f (fsy s1) (fsy s')" "ok' \<Longrightarrow> (\<forall>i < n. header_done pd s' ?B (phdr_at ?B (nat ofs) (Suc i)))"
            "ok' \<Longrightarrow> dom (mapping pd s') = dom (mapping pd s1) \<union> (\<Union>i < n. header_pages (phdr_at ?B (nat ofs) (Suc i)))"
            "\<not> ok' \<Longrightarrow> headers_good ?B (nat ofs + 32) n (dom (mapping pd s1)) \<Longrightarrow> out_of_memory (fsy s1) s'"
          using reads_same(1) [OF rd1] ofs(1,4) by (auto simp: phdr_at_Suc)
        have "header_done pd s' ?B (phdr_at ?B (nat ofs) i)" if "ok'" "i < Suc n" for i
          using that r(4) grown_header_done [OF r(2) ok2(1) h(4) [OF True]] by (cases i) auto
        moreover have "dom (mapping pd s') = dom (mapping pd s) \<union> (\<Union>i < Suc n. header_pages (phdr_at ?B (nat ofs) i))" if "ok'"
          unfolding r(5) [OF that] h(5) [OF True] lessThan_Suc_eq_insert_0 by auto
        moreover have "out_of_memory (fsy s) s'" if "\<not> ok'" "headers_good ?B (nat ofs) (Suc n) (dom (mapping pd s))"
          by (rule out_of_memory_later [OF rd1 r(6)]) (use that h(5) [OF True] in \<open>simp_all add: Let_def\<close>)
        ultimately show ?thesis
          by (intro exI [of _ ok'] exI [of _ s']) (use step True r(1) grown_trans [OF g1 r(2)] reads_trans [OF rd1 r(3)] in simp)
      next
        case no: False
        have "out_of_memory (fsy s) s1" if "headers_good ?B (nat ofs) (Suc n) (dom (mapping pd s))"
          by (rule out_of_memory_later [OF rd]) (use that h(6) [OF no] in \<open>simp add: Let_def\<close>)
        then show ?thesis by (intro exI [of _ False] exI [of _ s1]) (use step no g1 rd1 in simp)
      qed
    qed
  qed
qed

section \<open>The whole executable\<close>

lemma setup_stack_ok:
  assumes ok: "space_ok D pd s"
  shows "\<exists>r s'. setup_stack s = Some (r, s') \<and> grown D pd s s' \<and> fsy s' = fsy s \<and>
    (r \<noteq> None \<longrightarrow> r = Some PHYS_BASE \<and> (\<forall>j < 4096. user_byte pd s' (PHYS_BASE - 4096 + j) = Some (0, True))) \<and>
    (r = None \<longrightarrow> mapping pd s 786431 \<noteq> None \<or> out_of_memory t s')"
proof (rule fresh_frame_alloc [OF ok, of "PAL_USER OR PAL_ZERO"])
  assume "palloc_get_page (PAL_USER OR PAL_ZERO) s = Some (0, s)" "pool_pages True s \<subseteq> used_pages True s"
  then show ?thesis using grown_refl [OF ok] by (auto simp: setup_stack_def out_of_memory_def)
next
  fix p s1 assume p: "palloc_get_page (PAL_USER OR PAL_ZERO) s = Some (p, s1)" "p \<noteq> 0" "fresh_frame D pd p s s1" "fsy s1 = fsy s"
    and z: "(PAL_USER OR PAL_ZERO) AND PAL_ZERO \<noteq> 0 \<Longrightarrow> \<forall>x \<in> extent p (Suc 0). ram s1 x = 0"
  have top: "4096 * 786431 = PHYS_BASE - PGSIZE" by (simp add: PHYS_BASE_def)
  show ?thesis
  proof (rule install_page_cases [OF ok p(3), of 786431 True])
    assume no: "install_page (4096 * 786431) p True s1 = Some (False, s1)" "mapping pd s 786431 \<noteq> None \<or> pool_pages False s \<subseteq> used_pages False s"
    obtain s' where s': "palloc_free_page p s1 = Some s'" "grown D pd s s'" "fsy s' = fsy s1" using fresh_frame_free [OF ok p(3)] .
    have "mapping pd s 786431 \<noteq> None \<or> out_of_memory t s'" using no(2) pool_full_later [OF _ s'(2)] by blast
    then show ?thesis using no(1) p(1,2,4) s' unfolding top by (simp add: setup_stack_def)
  next
    fix s' assume s': "install_page (4096 * 786431) p True s1 = Some (True, s')" "grown D pd s s'" "fsy s' = fsy s1"
      "mapping pd s' = (mapping pd s)(786431 \<mapsto> (p, True))" "\<And>x. x \<in> extent p (Suc 0) \<Longrightarrow> ram s' x = ram s1 x"
    have "user_byte pd s' (PHYS_BASE - 4096 + j) = Some (0, True)" if "j < 4096" for j
    proof -
      have base: "PHYS_BASE - 4096 + j = j + 786431 * 4096" by (simp add: PHYS_BASE_def)
      have "(j + 786431 * 4096) div 4096 = 786431" "(j + 786431 * 4096) mod 4096 = j"
        using that div_mult_self1 [of 4096 j 786431] mod_mult_self1 [of j 786431 4096] by simp_all
      moreover have "p + j \<in> extent p (Suc 0)" using that by (simp add: extent_def)
      moreover have "(PAL_USER OR PAL_ZERO) AND PAL_ZERO \<noteq> 0" by (simp add: PAL_USER_def PAL_ZERO_def)
      ultimately show ?thesis unfolding base user_byte_def using s'(4,5) z by simp
    qed
    then show ?thesis using s'(1,2,3) p(1,2,4) unfolding top by (simp add: setup_stack_def)
  qed simp
qed (simp_all add: PAL_USER_def PAL_ZERO_def PAL_ASSERT_def)

text \<open>What a loaded process finds: the segments of its executable and a stack page of zeros.\<close>

definition program_loaded :: "nat \<Rightarrow> proc \<Rightarrow> byte list \<Rightarrow> bool" where
  "program_loaded pd s B \<longleftrightarrow> (let e = decode_ehdr (take EHDR_SIZE B) in
     ehdr_ok (take EHDR_SIZE B) \<and>
     (\<forall>i < unat (e_phnum e). header_done pd s B (phdr_at B (nat (sint (e_phoff e))) i)) \<and>
     (\<forall>j < 4096. user_byte pd s (PHYS_BASE - 4096 + j) = Some (0, True)))"

text \<open>An executable that can be loaded: the segments lie in the file and do not share pages with each other or the stack.\<close>

definition well_formed :: "byte list \<Rightarrow> bool" where
  "well_formed B \<longleftrightarrow> (let e = decode_ehdr (take EHDR_SIZE B) in
     ehdr_ok (take EHDR_SIZE B) \<and> 0 \<le> sint (e_phoff e) \<and> headers_good B (nat (sint (e_phoff e))) (unat (e_phnum e)) {786431})"

lemma load_file_ok:
  assumes ok: "space_ok D pd s" and f: "file_ok f (fsy s)" "file_pos (files (fsy s) f) = 0"
  shows "\<exists>r s'. load_file f s = Some (r, s') \<and> grown D pd s s' \<and> reads f (fsy s) (fsy s') \<and>
    (\<forall>entry sp. r = Some (entry, sp) \<longrightarrow> entry = e_entry (decode_ehdr (take EHDR_SIZE (file_bytes f (fsy s)))) \<and> sp = PHYS_BASE \<and>
       program_loaded pd s' (file_bytes f (fsy s))) \<and>
    (r = None \<and> mapping pd s = Map.empty \<and> well_formed (file_bytes f (fsy s)) \<longrightarrow> out_of_memory (fsy s) s')"
proof -
  let ?B = "file_bytes f (fsy s)"
  have pos: "file_pos (files (fsy s) f) = int 0" using f(2) by simp
  obtain bs t k where r: "file_read f (int EHDR_SIZE) (fsy s) = Some (bs, t)" "bs = take k (drop 0 ?B)" "k \<le> nat (int EHDR_SIZE)" "reads f (fsy s) t"
      "k = nat (int EHDR_SIZE) \<or> refused (fsy s) t"
    using file_read_ok [OF f(1) pos, of "int EHDR_SIZE"] by blast
  let ?s = "s\<lparr>fsy := t\<rparr>"
  have ok1: "space_ok D pd ?s" "file_ok f (fsy ?s)" using ok reads_same(2) [OF r(4) f(1)] by (simp_all add: space_ok_def)
  have g: "grown D pd s ?s" using grown_refl [OF ok] ok by (simp add: grown_def space_ok_def)
  show ?thesis
  proof (cases "ehdr_ok bs")
    case False
    then have "out_of_memory (fsy s) ?s" if "well_formed ?B"
      using r(2,5) that by (auto simp: well_formed_def out_of_memory_def Let_def)
    then show ?thesis using False r(1,4) g by (simp add: load_file_def on_fs_def)
  next
    case True
    then have bs: "bs = take EHDR_SIZE ?B" using r(2,3) by (auto simp: ehdr_ok_def min_def split: if_splits)
    let ?e = "decode_ehdr bs"
    obtain ok2 s2 where h: "load_phdrs (unat (e_phnum ?e)) (sint (e_phoff ?e)) f ?s = Some (ok2, s2)" "grown D pd ?s s2" "reads f t (fsy s2)"
        "ok2 \<Longrightarrow> (\<forall>i < unat (e_phnum ?e). header_done pd s2 ?B (phdr_at ?B (nat (sint (e_phoff ?e))) i))"
        "ok2 \<Longrightarrow> dom (mapping pd s2) = dom (mapping pd s) \<union> (\<Union>i < unat (e_phnum ?e). header_pages (phdr_at ?B (nat (sint (e_phoff ?e))) i))"
        "\<not> ok2 \<Longrightarrow> 0 \<le> sint (e_phoff ?e) \<Longrightarrow> headers_good ?B (nat (sint (e_phoff ?e))) (unat (e_phnum ?e)) (dom (mapping pd s)) \<Longrightarrow>
           out_of_memory t s2"
      using load_phdrs_ok [OF ok1, of "unat (e_phnum ?e)" "sint (e_phoff ?e)"] reads_same(1) [OF r(4)] by auto
    note g2 = grown_trans [OF g h(2)] and rd2 = reads_trans [OF r(4) h(3)]
    have ok3: "space_ok D pd s2" using g2 by (simp add: grown_def)
    obtain sp s' where st: "setup_stack s2 = Some (sp, s')" "grown D pd s2 s'" "fsy s' = fsy s2" "sp \<noteq> None \<Longrightarrow> sp = Some PHYS_BASE"
        "sp \<noteq> None \<Longrightarrow> (\<forall>j < 4096. user_byte pd s' (PHYS_BASE - 4096 + j) = Some (0, True))"
        "sp = None \<Longrightarrow> mapping pd s2 786431 \<noteq> None \<or> out_of_memory (fsy s) s'"
      using setup_stack_ok [OF ok3, of "fsy s"] by auto
    have "program_loaded pd s' ?B" if "ok2" "sp \<noteq> None"
      using True h(4) [OF that(1)] st(5) [OF that(2)] grown_header_done [OF st(2) ok3] unfolding program_loaded_def bs by (simp add: Let_def)
    moreover have "out_of_memory (fsy s) s2" if "\<not> ok2" "mapping pd s = Map.empty" "well_formed ?B"
      using that(3) h(6) [OF that(1)] headers_good_mono [of ?B _ _ "{786431}" "{}"] that(2)
      by (intro out_of_memory_later [OF r(4)]) (simp add: well_formed_def bs [symmetric] Let_def)
    moreover have "out_of_memory (fsy s) s'" if "ok2" "sp = None" "mapping pd s = Map.empty" "well_formed ?B"
    proof -
      have "headers_good ?B (nat (sint (e_phoff ?e))) (unat (e_phnum ?e)) {786431}" using that(4) by (simp add: well_formed_def bs [symmetric] Let_def)
      from headers_good_free [OF this] have "786431 \<notin> dom (mapping pd s2)" unfolding h(5) [OF that(1)] that(3) by auto
      then show ?thesis using st(6) [OF that(2)] by auto
    qed
    ultimately show ?thesis
      using r(1) True h(1) st(1,3,4) g2 rd2 grown_trans [OF g2 st(2)] bs by (cases ok2; cases sp) (auto simp: load_file_def on_fs_def)
  qed
qed

section \<open>The end of an address space\<close>

lemma freed_inv:
  assumes inv: "vm_inv D s" and pd: "pd \<in> D" and pr: "private_frames pd s" and fr: "freed (footprint pd s \<union> Pagedir.frames pd s) s s'"
    and act: "active_pd s = Some (vm.init_page_dir s)" "tlb s = (\<lambda>_. None)"
  shows "vm_inv (D - {pd}) s'" "q \<in> D - {pd} \<Longrightarrow> mapping q s' = mapping q s"
proof -
  let ?F = "footprint pd s \<union> Pagedir.frames pd s"
  note old = vm_invD [OF inv] and f = fr [unfolded freed_def]
  have dis: "used_pages False s \<inter> Pagedir.frames pd s = {}" using pr kmem_okD(2) [OF old(1)] by (auto simp: private_frames_def)
  have kept: "footprint q s \<subseteq> used_pages False s'" "agree (footprint q s) s s'" if "q \<in> D - {pd}" for q
  proof -
    have "footprint q s \<subseteq> used_pages False s - ?F"
      using that old(2) [of q] old(5) [OF _ pd, of q] dis unfolding pd_ok_def by blast
    then show "footprint q s \<subseteq> used_pages False s'" "agree (footprint q s) s s'" using f by (auto simp: agree_def)
  qed
  have ini: "vm.init_page_dir s \<notin> ?F" using old(3) old(4) [OF pd] dis by auto
  then have "Pagedir.slot (ram s') (vm.init_page_dir s) i = 0" if "i < 768" for i
    using freedD(3) [OF fr old(3)] old(6) [OF that] that by simp
  moreover have "pd_ok q s'" if "q \<in> D - {pd}" for q using pd_ok_agree [OF kept(2) old(2) kept(1)] that f by auto
  moreover have "footprint q s' = footprint q s" if "q \<in> D - {pd}" for q using footprint_agree [OF kept(2)] that by auto
  moreover have "active_pd s' = Some (vm.init_page_dir s)" "tlb_ok (vm.init_page_dir s) s'" using act f by (simp_all add: active_pd_def tlb_ok_def)
  ultimately show "vm_inv (D - {pd}) s'"
    using f old(3-5) ini by (auto simp: vm_inv_def)
  show "mapping q s' = mapping q s" if "q \<in> D - {pd}" by (rule mapping_agree [OF kept(2) [OF that]])
qed

lemma drop_pagedir_ok:
  assumes ok: "space_ok D pd s"
  obtains s' where "drop_pagedir s = Some s'" "vm_inv (D - {pd}) s'" "active_pd s' = Some (vm.init_page_dir s)"
    "\<And>q. q \<in> D - {pd} \<Longrightarrow> mapping q s' = mapping q s"
    "\<And>u. used_pages u s' = used_pages u s - (footprint pd s \<union> Pagedir.frames pd s)"
proof -
  note o = space_okD [OF ok]
  obtain t where t: "thread_current (ks s) = Some t" using o(3) by (auto simp: cur_pagedir_def bind_eq_Some_conv)
  let ?k = "upd_thread t (\<lambda>th. th\<lparr>pagedir := word 0\<rparr>) (ks s)" and ?i = "vm.init_page_dir s"
  let ?s = "s\<lparr>ks := ?k\<rparr>"
  have ini: "kernel_page ?i" using used_page(1) [OF o(5)] vm_invD(3) [OF o(1)] by blast
  let ?u = "?s\<lparr>vm.cr3 := phys ?i, tlb := (\<lambda>_. None)\<rparr>"
  have act: "pagedir_activate 0 ?s = Some ?u"
    using ini by (simp add: pagedir_activate_def vtop_eq kernel_page_def)
  have inv: "vm_inv D ?u" by (rule activate_inv [OF _ _ act]) (use o(1) in simp_all)
  have priv: "private_frames pd ?u" using o(4) by (simp add: private_frames_def)
  obtain s' where s': "pagedir_destroy pd ?u = Some s'" "freed (footprint pd ?u \<union> Pagedir.frames pd ?u) ?u s'"
    using pagedir_destroy_freed [OF vm_invD(1) [OF inv] vm_invD(2) [OF inv o(2)] priv] by blast
  have a: "active_pd ?u = Some (vm.init_page_dir ?u)" using ini by (simp add: active_pd_def kernel_page_def ptov_word)
  note fi = freed_inv [OF inv o(2) priv s'(2) a]
  have "pd \<noteq> 0" using footprint_page(3) [OF o(5,6), of pd] by (auto simp: footprint_def)
  then have "drop_pagedir s = Some s'" using o(3) t act s'(1) by (simp add: drop_pagedir_def set_pagedir_def)
  moreover have "active_pd s' = Some ?i" using a s'(2) by (simp add: freed_def active_pd_def)
  ultimately show thesis
    using fi s'(2) by (intro that [of s']) (simp_all add: freed_def)
qed

section \<open>The properties\<close>

text \<open>
  An executable with one writable segment: four bytes from the file, mapped at \<^verbatim>\<open>0x8048054\<close>, and four zeros.  It is open at
  \<^verbatim>\<open>0x2000\<close>, and the running process has an empty address space.
\<close>

definition demo_elf :: "byte list" where
  "demo_elf = [0x7f, 0x45, 0x4c, 0x46, 1, 1, 1] @ replicate 9 0 @ [2, 0, 3, 0] @ le32 1 @ le32 0x8048054 @ le32 52 @ le32 0 @ le32 0 @
     [52, 0, 32, 0, 1, 0, 0, 0, 0, 0, 0, 0] @
     le32 1 @ le32 84 @ le32 0x8048054 @ le32 0 @ le32 4 @ le32 8 @ le32 6 @ le32 4096 @ [1, 2, 3, 4]"

definition demo_exec :: fsys where
  "demo_exec = demo_dir\<lparr>disk := (\<lambda>n. if n = 3 then demo_elf @ replicate 424 0 else replicate 512 0),
     inodes := (\<lambda>_. \<lparr>sector = 1, open_cnt = 1, removed = False, deny_write_cnt = 0,
       data = \<lparr>start = 3, length_of = 88, magic = INODE_MAGIC, unused = replicate 500 0\<rparr>\<rparr>),
     files := (\<lambda>_. \<lparr>file_inode = 0x1000, file_pos = 0, file_denied = False\<rparr>)\<rparr>"

definition demo_proc :: proc where
  "demo_proc = vm.extend (demo_vm\<lparr>kernel_pool := (kernel_pool demo_vm)\<lparr>used_map := \<lparr>bit_cnt = 4, bits = [3]\<rparr>\<rparr>,
       vm.cr3 := 0x102000\<rparr>)
     (proc.fields demo_exec (upd_thread 0x1000 (\<lambda>th. th\<lparr>pagedir := 0xc0102000\<rparr>) demo_sync) 0x9000)"

lemma demo_exec_ok: "file_ok 0x2000 demo_exec" "file_bytes 0x2000 demo_exec = demo_elf" "file_pos (files demo_exec 0x2000) = 0"
proof -
  have sec: "bytes_to_sectors 88 = 1" using sectors_of_nat [of 88] by simp
  have len: "length demo_elf = 88" by (simp add: demo_elf_def le32_def)
  show "file_ok 0x2000 demo_exec"
    by (simp add: file_ok_def live_def demo_exec_def demo_dir_def disk_ok_def inode_ok_def inode_length_def sec len BLOCK_SECTOR_SIZE_def)
  show "file_bytes 0x2000 demo_exec = demo_elf"
    by (simp add: file_bytes_def demo_exec_def demo_dir_def content_def sector_bytes_def inode_length_def sec data_sector_def len)
qed (simp add: demo_exec_def)

lemma demo_proc_sels:
  "ram demo_proc = (\<lambda>_. 0)" "fsy demo_proc = demo_exec" "vm.init_page_dir demo_proc = 0xc0101000" "vm.cr3 demo_proc = 0x102000"
  "tlb demo_proc = (\<lambda>_. None)" "init_ram_pages demo_proc = 1024" "user_pool demo_proc = user_pool demo_vm"
  "used_map (kernel_pool demo_proc) = \<lparr>bit_cnt = 4, bits = [3]\<rparr>" "base (kernel_pool demo_proc) = 0xc0101000"
  "ks demo_proc = upd_thread 0x1000 (\<lambda>th. th\<lparr>pagedir := 0xc0102000\<rparr>) demo_sync"
  by (simp_all add: demo_proc_def demo_vm_def vm.defs proc.defs)

lemma demo_used_map: "bitmap_used \<lparr>bit_cnt = 4, bits = [3]\<rparr> = {0, 1}"
proof -
  have "bit (mask 2 :: int) i \<longleftrightarrow> i < 2" for i by (simp only: bit_mask_iff) simp
  moreover have "(mask 2 :: int) = 3" by (simp add: mask_eq_exp_minus_1)
  ultimately have three: "bit (3 :: int) i \<longleftrightarrow> i < 2" for i by (simp only:)
  have "i \<in> bitmap_used \<lparr>bit_cnt = 4, bits = [3]\<rparr> \<longleftrightarrow> i < 2" for i
    by (auto simp: bitmap_used_def bitmap_bits_def three)
  moreover have "{..<2} = {0, 1 :: nat}" by auto
  ultimately show ?thesis by blast
qed

lemma demo_proc_pages: "used_pages False demo_proc = {0xc0101000, 0xc0102000}" "used_pages True demo_proc = {0xc0106000}"
  "pool_pages True demo_proc = {0xc0106000, 0xc0107000}"
proof -
  show "used_pages False demo_proc = {0xc0101000, 0xc0102000}"
    by (simp add: demo_proc_sels used_pages_def the_pool_def page_set_def demo_used_map)
  have "used_pages True demo_proc = used_pages True demo_vm" by (simp add: used_pages_def the_pool_def demo_proc_sels)
  then show "used_pages True demo_proc = {0xc0106000}" by (simp add: demo_vm_pages)
  have "{..<2} = {0, 1 :: nat}" by auto
  then show "pool_pages True demo_proc = {0xc0106000, 0xc0107000}"
    by (simp add: demo_proc_sels demo_vm_def pool_pages_def the_pool_def page_run_def page_set_def)
qed

lemma demo_proc_ok: "space_ok {0xc0102000} 0xc0102000 demo_proc" "mapping 0xc0102000 demo_proc = Map.empty" "footprint 0xc0102000 demo_proc = {0xc0102000}"
proof -
  have z: "Pagedir.slot (ram demo_proc) p i = 0" for p i by (simp add: demo_proc_sels Pagedir.slot_def load32_def of_le32_def)
  have t: "table p i demo_proc = None" for p i by (simp add: table_def z)
  show fp: "footprint 0xc0102000 demo_proc = {0xc0102000}" by (simp add: footprint_def t)
  show m: "mapping 0xc0102000 demo_proc = Map.empty" by (auto simp: mapping_def pte_at_def t)
  have "kmem_ok demo_proc"
    using demo_vm_boot by (simp add: vm_boot_def kmem_ok_def demo_proc_def vm.defs proc.defs)
      (simp add: demo_vm_def pool_ok_def bitmap_ok_def elem_cnt_def ELEM_BITS_def DIV_ROUND_UP_def kernel_page_def PHYS_BASE_def)
  moreover have "active_pd demo_proc = Some 0xc0102000" by (simp add: demo_proc_sels active_pd_def ptov_def PHYS_BASE_def)
  moreover have "pd_ok 0xc0102000 demo_proc" by (simp add: pd_ok_def demo_proc_sels(3) fp demo_proc_pages z t pte_at_def)
  ultimately have "vm_inv {0xc0102000} demo_proc" by (simp add: vm_inv_def fp demo_proc_sels(3,5) demo_proc_pages z tlb_ok_def)
  moreover have "cur_pagedir demo_proc = Some 0xc0102000"
    by (simp add: cur_pagedir_def demo_proc_sels thread_current_def running_thread_def is_thread_def upd_thread_def demo_sync_def
      demo_sched_def demo_thread_def sched.defs ksync.defs)
  ultimately show "space_ok {0xc0102000} 0xc0102000 demo_proc"
    by (simp add: space_ok_def private_frames_def Pagedir.frames_def m demo_proc_pages demo_proc_sels PHYS_BASE_def)
qed


lemma demo_elf_good: "well_formed demo_elf"
proof -
  have e: "decode_ehdr (take EHDR_SIZE demo_elf) =
      \<lparr>e_ident = [0x7f, 0x45, 0x4c, 0x46, 1, 1, 1] @ replicate 9 0, e_type = 2, e_machine = 3, e_version = 1, e_entry = 0x8048054, e_phoff = 52,
       e_shoff = 0, e_flags = 0, e_ehsize = 52, e_phentsize = 32, e_phnum = 1, e_shentsize = 0, e_shnum = 0, e_shstrndx = 0\<rparr>"
    by code_simp
  have h: "phdr_at demo_elf 52 0 = \<lparr>p_type = 1, p_offset = 84, p_vaddr = 0x8048054, p_paddr = 0, p_filesz = 4, p_memsz = 8, p_flags = 6, p_align = 4096\<rparr>"
    by code_simp
  have len: "length demo_elf = 88" by (simp add: demo_elf_def le32_def)
  have "ehdr_ok (take EHDR_SIZE demo_elf)" unfolding ehdr_ok_def e by (simp add: EHDR_SIZE_def PHDR_SIZE_def len)
  moreover have "header_good demo_elf (phdr_at demo_elf 52 0)"
    by (simp add: h header_good_def segment_fits_def segment_ok_def PT_LOAD_def PT_DYNAMIC_def PT_INTERP_def PT_SHLIB_def PHYS_BASE_def len)
  moreover have "header_pages (phdr_at demo_elf 52 0) \<inter> {786431} = {}" by (simp add: h header_pages_def segment_pages_of_def Let_def)
  ultimately show ?thesis unfolding well_formed_def e Let_def by (simp add: len Let_def)
qed


text \<open>
  C6. A process that is loaded, successfully or not, and then exits gives back every page it has taken: when
  \<^verbatim>\<open>process_exit\<close> has dropped the address space the pages in use are those from before loading, without the page
  directory, the CPU uses the kernel's own directory, and the memory invariant holds for the remaining processes.
\<close>

theorem load_exit_no_leak:
  assumes ok: "space_ok D pd s" and empty: "mapping pd s = Map.empty" "footprint pd s = {pd}"
    and f: "file_ok f (fsy s)" "file_pos (files (fsy s) f) = 0"
  shows "\<exists>r s' s''. load_file f s = Some (r, s') \<and> drop_pagedir s' = Some s'' \<and> used_pages False s'' = used_pages False s - {pd} \<and>
    used_pages True s'' = used_pages True s \<and> active_pd s'' = Some (vm.init_page_dir s) \<and> vm_inv (D - {pd}) s'' \<and>
    (\<forall>q \<in> D - {pd}. mapping q s'' = mapping q s)"
proof -
  obtain r s' where r: "load_file f s = Some (r, s')" "grown D pd s s'" using load_file_ok [OF ok f] by blast
  note g = grownD [OF r(2)]
  obtain s'' where s'': "drop_pagedir s' = Some s''" "vm_inv (D - {pd}) s''" "active_pd s'' = Some (vm.init_page_dir s')"
      "\<And>q. q \<in> D - {pd} \<Longrightarrow> mapping q s'' = mapping q s'"
      "\<And>u. used_pages u s'' = used_pages u s' - (footprint pd s' \<union> Pagedir.frames pd s')"
    by (rule drop_pagedir_ok [OF g(1)]) (rule that)
  note sub = space_okD(8,9) [OF g(1)] and k = kmem_okD(2) [OF space_okD(5) [OF g(1)]]
  have "Pagedir.frames pd s = {}" by (simp add: Pagedir.frames_def empty)
  then have new: "Pagedir.frames pd s' \<inter> used_pages True s = {}" "footprint pd s' \<inter> used_pages False s = {pd}"
    using g(4,7,8) empty(2) space_okD(8) [OF ok] by auto
  have "used_pages True s'' = used_pages True s" using s''(5) [of True] g(6) new(1) sub(1) k by blast
  moreover have "used_pages False s'' = used_pages False s - {pd}" using s''(5) [of False] g(5) new(2) sub(2) k by blast
  moreover have "vm.init_page_dir s' = vm.init_page_dir s" using r(2) by (simp add: grown_def)
  ultimately show ?thesis
    by (intro exI [of _ r] exI [of _ s'] exI [of _ s'']) (use r(1) s''(1-4) g(2) in simp)
qed

theorem load_exit_no_leak_witness:
  "\<exists>r s' s''. load_file 0x2000 demo_proc = Some (r, s') \<and> drop_pagedir s' = Some s'' \<and>
     used_pages False s'' = {0xc0101000} \<and> used_pages True s'' = {0xc0106000} \<and> active_pd s'' = Some 0xc0101000"
proof -
  have f: "file_ok 0x2000 (fsy demo_proc)" "file_pos (files (fsy demo_proc) 0x2000) = 0"
    using demo_exec_ok by (simp_all add: demo_proc_sels)
  have pages: "used_pages False demo_proc - {0xc0102000} = {0xc0101000}" by (auto simp: demo_proc_pages)
  from load_exit_no_leak [OF demo_proc_ok f] show ?thesis unfolding pages demo_proc_pages(2) demo_proc_sels(3) by blast
qed

end
