(* ===== verification/Spec2Isabelle.thy ===== *)
theory Spec2Isabelle
  imports Kernel_Bitmap Kernel_Hash Arith64 Fixed_Point Cstring Threads Synch Filesys Malloc Pagedir Process
begin

text \<open>
  \<^bold>\<open>A verification library for the Pintos kernel.\<close>  File names below are relative to \<^verbatim>\<open>src/pintos/src\<close>.

  \<^bold>\<open>The program.\<close>  Pintos is a small teaching kernel for the 32-bit x86.  Its parts, from the bottom up: the
  data structures and C library that everything else uses (\<^verbatim>\<open>lib\<close>, \<^verbatim>\<open>lib/kernel\<close>); the thread system with
  its scheduler, sleep queue and timer tick, and the semaphores, locks and condition variables on top of it
  (\<^verbatim>\<open>threads\<close>); the page allocator, the block allocator on top of it, and the page directories that give every
  process an address space (\<^verbatim>\<open>threads\<close>, \<^verbatim>\<open>userprog\<close>); the file system with its inodes, open files, free
  map and directories on a block device (\<^verbatim>\<open>filesys\<close>, \<^verbatim>\<open>devices\<close>); and the loader of user programs, which
  brings all of these together.

  \<^bold>\<open>Conventions.\<close>  A routine is a function on an explicit state, a record that holds the static variables and the
  objects it works on.  Its result has type \<open>'a option\<close>; \<open>None\<close> stands for a call that does not return normally: a
  failed \<^verbatim>\<open>ASSERT\<close>, a \<^verbatim>\<open>PANIC\<close>, an access outside an object, or, in the sequential theories, waiting for a lock
  that nobody can release.  A theorem that a routine returns states \<open>Some\<close>.  Integers keep their width wherever wrapping
  can matter: \<open>u32\<close> and \<open>u64\<close> are machine words, \<^verbatim>\<open>int\<close> is an \<open>int\<close> wrapped by \<open>int32\<close> after each operation that may
  overflow, a \<^verbatim>\<open>size_t\<close> is a \<open>nat\<close> with \<open>mod 2 ^ 32\<close> written out.  Counting loops are \<open>for_upto\<close> and
  \<open>find_upto\<close> of the prelude, other loops are recursive functions with a termination proof, and loops that may run
  forever are \<open>partial_function (option)\<close>, with separate lemmas that they return.  No definition uses fuel.

  \<^bold>\<open>Theories, from the bottom up.\<close>

  \<^item> \<open>Pintos_Prelude\<close>: machine types, assertions, counting loops with their invariant rules, truncating division,
    the rounding macros of \<^verbatim>\<open>lib/round.h\<close>, little-endian words.
  \<^item> \<open>Kernel_List\<close>: \<^verbatim>\<open>lib/kernel/list.c\<close> on an explicit store of cells with \<^verbatim>\<open>prev\<close> and \<^verbatim>\<open>next\<close> pointers.  A
    representation predicate relates the store to a HOL list; every operation is shown to implement its list operation,
    \<^verbatim>\<open>list_sort\<close> is shown to be a stable sort, and the locale \<open>fifo_store\<close> derives queue behaviour.
  \<^item> \<open>Kernel_Bitmap\<close>: \<^verbatim>\<open>lib/kernel/bitmap.c\<close>, refined to bit sequences; the locale \<open>run_allocator\<close> derives that
    allocations never overlap, and is interpreted here and again for the page pools.
  \<^item> \<open>Kernel_Hash\<close>: \<^verbatim>\<open>lib/kernel/hash.c\<close> with rehashing and iteration, refined to finite sets of elements.
  \<^item> \<open>Arith64\<close>, \<open>Fixed_Point\<close>, \<open>Cstring\<close>: \<^verbatim>\<open>lib/arithmetic.c\<close>, \<^verbatim>\<open>threads/fixed-point.h\<close> and
    \<^verbatim>\<open>lib/string.c\<close>.
  \<^item> \<open>Vaddr\<close>, \<open>Palloc\<close>, \<open>Malloc\<close>, \<open>Pagedir\<close>: \<^verbatim>\<open>threads/vaddr.h\<close>, \<^verbatim>\<open>threads/pte.h\<close>,
    \<^verbatim>\<open>threads/palloc.c\<close>, \<^verbatim>\<open>threads/malloc.c\<close> and \<^verbatim>\<open>userprog/pagedir.c\<close> on byte-addressed memory.  Pages and
    blocks handed out are disjoint and keep their contents; a page directory implements a partial function from user pages
    to frames; the TLB of the CPU, whose loads interleave with the kernel's operations in the relation \<open>vm_step\<close>, never
    holds a stale translation.
  \<^item> \<open>Threads\<close>: the scheduler of \<^verbatim>\<open>threads/thread.c\<close> with the sleep queue, the interrupt level of
    \<^verbatim>\<open>threads/interrupt.c\<close> and the tick of \<^verbatim>\<open>devices/timer.c\<close>.  The relation \<open>sched_step\<close> interleaves system
    calls and interrupts; its invariant, progress and fairness are proved by rule induction.
  \<^item> \<open>Synch\<close>: \<^verbatim>\<open>threads/synch.c\<close>.  A thread is a stack of calls in progress, so that \<^verbatim>\<open>sema_down\<close> can be
    interrupted between being woken and looking at the value again; mutual exclusion and absence of lost wake-ups hold for
    every interleaving.
  \<^item> \<open>Fs_Inode\<close>, \<open>Fs_File\<close>, \<open>Fs_Dir\<close>, \<open>Filesys\<close>: \<^verbatim>\<open>filesys/inode.c\<close>, \<^verbatim>\<open>filesys/file.c\<close>,
    \<^verbatim>\<open>filesys/free-map.c\<close> with \<^verbatim>\<open>bitmap_read\<close> and \<^verbatim>\<open>bitmap_write\<close>, \<^verbatim>\<open>filesys/directory.c\<close> and
    \<^verbatim>\<open>filesys/filesys.c\<close>.  The disk is an array of 512-byte sectors; the kernel heap is a sequence of the answers that
    the next calls of \<^verbatim>\<open>malloc\<close> give, so that every failure of memory is covered.  A file is shown to be a sequence of
    bytes, a directory a finite map from names to sectors, and \<^verbatim>\<open>filesys_create\<close> to be correct on the whole device.
  \<^item> \<open>Process\<close>: \<^verbatim>\<open>userprog/process.c\<close>, on a state that joins memory, file system and thread system.  Loading an
    executable returns whatever the file contains and keeps all other address spaces; on success the segments are in memory
    as the program headers say, and a well-formed executable fails to load only when memory runs out; and the exit of the process gives back every page that loading took.  The theorems are about
    the part of \<^verbatim>\<open>load\<close> that works on the open executable.

  \<^bold>\<open>Interfaces.\<close>  Four locales state what clients rely on: \<open>list_order\<close> (an order that \<^verbatim>\<open>list_less_func\<close> callbacks
  implement), \<open>fifo_store\<close>, \<open>run_allocator\<close> and \<open>hash_functions\<close>.  Each is interpreted on the definitions of the model.

  \<^bold>\<open>Not modelled.\<close>  Drivers whose code is port input and output (disk, serial port, clock chips), assembly code, console output,
  the start-up sequence, the handlers of system calls and exceptions, formatted output, and the programs under
  \<^verbatim>\<open>examples\<close> and \<^verbatim>\<open>utils\<close>.  Context switches are the exchange of the running thread, and interrupts are taken where the interrupt level allows them.
\<close>

end
